(* ===== verification/KVS_Prelude.thy ===== *)
theory KVS_Prelude
  imports Main "HOL-Library.Word" "HOL-Library.Monad_Syntax" "HOL-Library.Char_ord"
    "HOL-Library.List_Lexorder" "HOL-Library.Code_Target_Nat"
begin

text \<open>
  Prelude of the development.  It fixes how the C++ of the key-value store is read in HOL:
  \<^item> an operation that may run into undefined behaviour (a null or dangling pointer, a
    vector access out of range) or into \<^verbatim>\<open>LOG(FATAL)\<close> returns an option: \<open>None\<close> is that
    failure, \<open>Some\<close> the regular result.  The \<open>do\<close> notation of the option monad chains
    statements;
  \<^item> \<^verbatim>\<open>std::vector\<close> is a list, with accesses that check their index;
  \<^item> \<^verbatim>\<open>std::string\<close> is \<open>string\<close>, a list of bytes, ordered lexicographically by byte
    value as \<^verbatim>\<open>std::string::compare\<close> orders it;
  \<^item> \<^verbatim>\<open>size_t\<close> index arithmetic is on \<open>nat\<close> with the wrap-around of a subtraction
    written out (\<open>size_sub\<close>); offsets that are stored are words of their width.
\<close>

section \<open>Collections of facts\<close>

named_theorems exec_simps \<open>one step of symbolic execution of the option monad\<close>
named_theorems frame_simps \<open>what a heap update leaves alone\<close>

section \<open>Checked vectors\<close>

definition at :: "'a list \<Rightarrow> nat \<Rightarrow> 'a option" where
  "at xs i = (if i < length xs then Some (xs ! i) else None)"

definition set_at :: "'a list \<Rightarrow> nat \<Rightarrow> 'a \<Rightarrow> 'a list option" where
  "set_at xs i x = (if i < length xs then Some (xs[i := x]) else None)"

definition vfront :: "'a list \<Rightarrow> 'a option" where
  "vfront xs = (case xs of [] \<Rightarrow> None | x # _ \<Rightarrow> Some x)"

definition vback :: "'a list \<Rightarrow> 'a option" where
  "vback xs = (if xs = [] then None else Some (last xs))"

definition pop_back :: "'a list \<Rightarrow> 'a list option" where
  "pop_back xs = (if xs = [] then None else Some (butlast xs))"

definition emplace_at :: "'a list \<Rightarrow> nat \<Rightarrow> 'a \<Rightarrow> 'a list option" where
  "emplace_at xs i x = (if i \<le> length xs then Some (take i xs @ x # drop i xs) else None)"

definition erase_at :: "'a list \<Rightarrow> nat \<Rightarrow> 'a list option" where
  "erase_at xs i = (if i < length xs then Some (take i xs @ drop (Suc i) xs) else None)"

definition resize :: "'a list \<Rightarrow> nat \<Rightarrow> 'a \<Rightarrow> 'a list" where
  "resize xs n x = take n xs @ replicate (n - length xs) x"

lemma at_Some [exec_simps]: "i < length xs \<Longrightarrow> at xs i = Some (xs ! i)"
  by (simp add: at_def)

lemma set_at_Some [exec_simps]: "i < length xs \<Longrightarrow> set_at xs i x = Some (xs[i := x])"
  by (simp add: set_at_def)

lemma vfront_Cons [simp]: "vfront (x # xs) = Some x"
  by (simp add: vfront_def)

lemma vfront_Some [exec_simps]: "xs \<noteq> [] \<Longrightarrow> vfront xs = Some (hd xs)"
  by (cases xs) simp_all

lemma vfront_Nil [simp]: "vfront [] = None"
  by (simp add: vfront_def)

lemma vback_snoc [simp]: "vback (xs @ [x]) = Some x"
  by (simp add: vback_def)

lemma vback_single [simp]: "vback [x] = Some x"
  by (simp add: vback_def)

lemma vback_snoc2 [simp]: "vback (xs @ [y, x]) = Some x"
  by (simp add: vback_def)

lemma vback_Some [exec_simps]: "xs \<noteq> [] \<Longrightarrow> vback xs = Some (last xs)"
  by (simp add: vback_def)

lemma pop_back_snoc [simp]: "pop_back (xs @ [x]) = Some xs"
  by (simp add: pop_back_def)

lemma pop_back_snoc2 [simp]: "pop_back (xs @ [y, x]) = Some (xs @ [y])"
  by (simp add: pop_back_def butlast_append)

lemma pop_back_Some [exec_simps]: "xs \<noteq> [] \<Longrightarrow> pop_back xs = Some (butlast xs)"
  by (simp add: pop_back_def)

lemma pop_back_length: "pop_back xs = Some ys \<Longrightarrow> length ys < length xs"
  by (auto simp: pop_back_def split: if_splits)

lemma set_at_length: "set_at xs i x = Some ys \<Longrightarrow> length ys = length xs"
  by (auto simp: set_at_def split: if_splits)

lemma emplace_at_Some [exec_simps]:
  "i \<le> length xs \<Longrightarrow> emplace_at xs i x = Some (take i xs @ x # drop i xs)"
  by (simp add: emplace_at_def)

lemma erase_at_Some [exec_simps]:
  "i < length xs \<Longrightarrow> erase_at xs i = Some (take i xs @ drop (Suc i) xs)"
  by (simp add: erase_at_def)

lemma set_at_snoc [simp]: "set_at (xs @ [y]) (length xs) x = Some (xs @ [x])"
  by (simp add: set_at_def)

lemma at_snoc_back2 [simp]: "at (xs @ [y, x]) (length xs) = Some y"
  by (simp add: at_def nth_append)

lemma erase_at_0: "xs \<noteq> [] \<Longrightarrow> erase_at xs 0 = Some (tl xs)"
  by (cases xs) (simp_all add: erase_at_def)

section \<open>Machine integers and strings\<close>

text \<open>The largest \<^verbatim>\<open>size_t\<close>, written \<^verbatim>\<open>(size_t)-1\<close> in the source, as an index.\<close>

definition npos :: nat where
  "npos = 18446744073709551615"

text \<open>\<^verbatim>\<open>a - b\<close> on \<^verbatim>\<open>size_t\<close>: it wraps around when \<open>b\<close> is larger.\<close>

definition size_sub :: "nat \<Rightarrow> nat \<Rightarrow> nat" where
  "size_sub a b = (if b \<le> a then a - b else a + 18446744073709551616 - b)"

lemma size_sub_le [simp]: "b \<le> a \<Longrightarrow> size_sub a b = a - b"
  by (simp add: size_sub_def)

lemma npos_neq_small [simp]: "i < npos \<Longrightarrow> i \<noteq> npos"
  by simp

text \<open>
  \<^verbatim>\<open>std::string(s.c_str())\<close>: the copy made from the C string stops at the first NUL byte.
\<close>

definition c_str :: "string \<Rightarrow> string" where
  "c_str s = takeWhile (\<lambda>c. c \<noteq> CHR 0x00) s"

definition nul_free :: "string \<Rightarrow> bool" where
  "nul_free s = (CHR 0x00 \<notin> set s)"

lemma c_str_nul_free [simp]: "nul_free s \<Longrightarrow> c_str s = s"
  by (auto simp: c_str_def nul_free_def takeWhile_eq_all_conv)

lemma c_str_is_nul_free: "nul_free (c_str s)"
  by (auto simp: c_str_def nul_free_def dest: set_takeWhileD)

text \<open>\<^verbatim>\<open>std::upper_bound\<close> on a sorted vector: the index of the first element above \<open>k\<close>.\<close>

definition upper_bound :: "'a::linorder list \<Rightarrow> 'a \<Rightarrow> nat" where
  "upper_bound xs k = length (takeWhile (\<lambda>x. \<not> k < x) xs)"

lemma upper_bound_le [simp]: "upper_bound xs k \<le> length xs"
  by (simp add: upper_bound_def length_takeWhile_le)

lemma upper_bound_below: "i < upper_bound xs k \<Longrightarrow> xs ! i \<le> k"
  by (metis upper_bound_def nth_mem set_takeWhileD takeWhile_nth not_less)

lemma upper_bound_above: "upper_bound xs k < length xs \<Longrightarrow> k < xs ! upper_bound xs k"
  by (metis upper_bound_def nth_length_takeWhile)

text \<open>Storing a \<^verbatim>\<open>size_t\<close> in an \<^verbatim>\<open>int\<close> and reading it back.\<close>

lemma scast_ucast_small:
  fixes d :: "64 word"
  assumes "d < 2 ^ 31"
  shows "scast (ucast d :: 32 word) = d"
proof -
  have u: "uint d < 2 ^ 31" using assms by (simp add: word_less_def)
  have "sint (ucast d :: 32 word) = signed_take_bit 31 (uint (ucast d :: 32 word))"
    by (simp add: sint_uint)
  also have "\<dots> = signed_take_bit 31 (take_bit 32 (uint d))"
    by (simp add: unsigned_ucast_eq)
  also have "\<dots> = signed_take_bit 31 (uint d)" by (simp add: signed_take_bit_take_bit)
  also have "\<dots> = uint d" using u by (intro signed_take_bit_int_eq_self) (auto intro: order_trans [of _ 0])
  finally have "scast (ucast d :: 32 word) = (word_of_int (uint d) :: 64 word)"
    by (simp add: scast_eq)
  then show ?thesis by simp
qed
lemma small_not_minus1: "d < 2 ^ 31 \<Longrightarrow> ucast (d :: 64 word) \<noteq> (-1 :: 32 word)"
  using scast_ucast_small [of d] by auto

section \<open>Loops\<close>

text \<open>
  \<^verbatim>\<open>for (i = lo; i < hi; i++)\<close>, \<^verbatim>\<open>for (i = n; i >= 1; i--)\<close> and the downward loop
  \<^verbatim>\<open>for (i = n - 1; i != (size_t)-1; i--)\<close> with a \<^verbatim>\<open>break\<close>, over a body that may fail.
\<close>

function for_up :: "nat \<Rightarrow> nat \<Rightarrow> (nat \<Rightarrow> 's \<Rightarrow> 's option) \<Rightarrow> 's \<Rightarrow> 's option" where
  "for_up i n f s = (if i < n then do { s' \<leftarrow> f i s; for_up (Suc i) n f s' } else Some s)"
  by pat_completeness auto
termination
  by (relation "measure (\<lambda>(i, n, f, s). n - i)") auto

declare for_up.simps [simp del]

lemma for_up_done [simp, exec_simps]: "n \<le> i \<Longrightarrow> for_up i n f s = Some s"
  by (simp add: for_up.simps)

lemma for_up_step [exec_simps]:
  "i < n \<Longrightarrow> for_up i n f s = do { s' \<leftarrow> f i s; for_up (Suc i) n f s' }"
  by (simp add: for_up.simps [of i])

text \<open>A loop whose body returns and keeps an invariant returns with it.\<close>

lemma for_up_inv:
  assumes "\<And>i s. lo \<le> i \<Longrightarrow> i < hi \<Longrightarrow> P i s \<Longrightarrow> \<exists>s'. f i s = Some s' \<and> P (Suc i) s'" "P lo s" "lo \<le> hi"
  shows "\<exists>s'. for_up lo hi f s = Some s' \<and> P hi s'"
  using assms
proof (induction "hi - lo" arbitrary: lo s)
  case (Suc d)
  then have l: "lo < hi" by simp
  with Suc.prems obtain s1 where s1: "f lo s = Some s1" "P (Suc lo) s1" by blast
  have "d = hi - Suc lo" using Suc.hyps(2) by simp
  from Suc.hyps(1) [OF this _ s1(2)] Suc.prems(1) l s1(1) show ?case by (auto simp: for_up_step)
qed simp

text \<open>An invariant of a loop that returned.\<close>

lemma for_up_returned:
  assumes "for_up lo hi f s = Some s'" "P lo s" "lo \<le> hi"
    and "\<And>i s s'. lo \<le> i \<Longrightarrow> i < hi \<Longrightarrow> P i s \<Longrightarrow> f i s = Some s' \<Longrightarrow> P (Suc i) s'"
  shows "P hi s'"
  using assms
proof (induction "hi - lo" arbitrary: lo s)
  case (Suc d)
  then have l: "lo < hi" by simp
  with Suc.prems(1) obtain s1 where s1: "f lo s = Some s1" "for_up (Suc lo) hi f s1 = Some s'"
    by (auto simp: for_up_step bind_eq_Some_conv)
  have "d = hi - Suc lo" using Suc.hyps(2) by simp
  from Suc.hyps(1) [OF this s1(2)] Suc.prems(2,4) l s1(1) show ?case by fastforce
qed simp

primrec for_down :: "nat \<Rightarrow> (nat \<Rightarrow> 's \<Rightarrow> 's option) \<Rightarrow> 's \<Rightarrow> 's option" where
  "for_down 0 f s = Some s"
| "for_down (Suc i) f s = do { s' \<leftarrow> f (Suc i) s; for_down i f s' }"

primrec for_down_break :: "nat \<Rightarrow> (nat \<Rightarrow> 's \<Rightarrow> ('s \<times> bool) option) \<Rightarrow> 's \<Rightarrow> 's option" where
  "for_down_break 0 f s = Some s"
| "for_down_break (Suc i) f s =
     do { (s', stop) \<leftarrow> f i s; if stop then Some s' else for_down_break i f s' }"

lemma for_down_numeral [simp]:
  "for_down (numeral k) f s = do { s' \<leftarrow> f (numeral k) s; for_down (pred_numeral k) f s' }"
  by (simp add: numeral_eq_Suc)

lemma for_down_break_numeral [simp]:
  "for_down_break (numeral k) f s =
     do { (s', stop) \<leftarrow> f (pred_numeral k) s;
          if stop then Some s' else for_down_break (pred_numeral k) f s' }"
  by (simp add: numeral_eq_Suc)

end
