(* ===== verification/BTree_Code.thy ===== *)
theory BTree_Code
  imports KVS_Prelude
begin

text \<open>
  The B+ tree index of \<^verbatim>\<open>include/btree.h\<close> and \<^verbatim>\<open>src/btree.cpp\<close>, statement by statement,
  over an explicit heap: nodes are addressed by pointers, carry their \<^verbatim>\<open>parent\<close>,
  \<^verbatim>\<open>child\<close>, \<^verbatim>\<open>prev\<close> and \<^verbatim>\<open>next\<close> pointers, and are allocated and freed by the code.
  A read through a null or freed pointer, a vector access out of range and
  \<^verbatim>\<open>LOG(FATAL)\<close> are \<open>None\<close>.
\<close>

section \<open>Nodes, heap and tree state\<close>

type_synonym ptr = nat

abbreviation (input) nullptr :: ptr where
  "nullptr \<equiv> 0"

text \<open>\<^verbatim>\<open>#define M 5\<close>: a node has at most \<open>M - 1\<close> keys.\<close>

abbreviation (input) btree_M :: nat where
  "btree_M \<equiv> 5"

record bnode =
  parent :: ptr
  is_leaf :: bool
  key :: "string list"
  child :: "ptr list"
  data :: "32 word list"
  prev :: ptr
  nxt :: ptr

definition is_full :: "bnode \<Rightarrow> bool" where
  "is_full n = (length (key n) = btree_M - 1)"

text \<open>The constructor \<^verbatim>\<open>BNode(parent, is_leaf)\<close>.\<close>

definition mk_bnode :: "ptr \<Rightarrow> bool \<Rightarrow> bnode" where
  "mk_bnode par leaf =
     \<lparr>parent = par, is_leaf = leaf, key = [], child = [], data = [], prev = nullptr, nxt = nullptr\<rparr>"

text \<open>
  The members of class \<^verbatim>\<open>BTree\<close> (\<^verbatim>\<open>_size\<close>, \<^verbatim>\<open>_root\<close>, \<^verbatim>\<open>_tmp_idx\<close>) with the heap its nodes
  live in and the next address \<^verbatim>\<open>new\<close> hands out.
\<close>

record btree =
  bt_size :: "64 word"
  bt_root :: ptr
  bt_tmp_idx :: "nat list"
  bt_heap :: "ptr \<rightharpoonup> bnode"
  bt_brk :: ptr

definition node_at :: "btree \<Rightarrow> ptr \<Rightarrow> bnode option" where
  "node_at t p = bt_heap t p"

definition put_node :: "btree \<Rightarrow> ptr \<Rightarrow> bnode \<Rightarrow> btree" where
  "put_node t p n = t\<lparr>bt_heap := (bt_heap t)(p \<mapsto> n)\<rparr>"

definition modify_node :: "btree \<Rightarrow> ptr \<Rightarrow> (bnode \<Rightarrow> bnode option) \<Rightarrow> btree option" where
  "modify_node t p f = do { n \<leftarrow> node_at t p; n' \<leftarrow> f n; Some (put_node t p n') }"

definition new_node :: "btree \<Rightarrow> ptr \<Rightarrow> bool \<Rightarrow> ptr \<times> btree" where
  "new_node t par leaf =
     (bt_brk t, t\<lparr>bt_heap := (bt_heap t)(bt_brk t \<mapsto> mk_bnode par leaf), bt_brk := Suc (bt_brk t)\<rparr>)"

definition delete_node :: "btree \<Rightarrow> ptr \<Rightarrow> btree option" where
  "delete_node t p = do { n \<leftarrow> node_at t p; Some (t\<lparr>bt_heap := (bt_heap t)(p := None)\<rparr>) }"

definition set_parent :: "btree \<Rightarrow> ptr \<Rightarrow> ptr \<Rightarrow> btree option" where
  "set_parent t c p = modify_node t c (\<lambda>n. Some (n\<lparr>parent := p\<rparr>))"

text \<open>\<^verbatim>\<open>BTree::BTree()\<close>: one empty leaf as root, with a null child.\<close>

definition BTree_ctor :: btree where
  "BTree_ctor =
     \<lparr>bt_size = 0, bt_root = 1, bt_tmp_idx = replicate btree_M 0,
      bt_heap = [1 \<mapsto> (mk_bnode nullptr True)\<lparr>child := [nullptr]\<rparr>], bt_brk = 2\<rparr>"

text \<open>
  \<^verbatim>\<open>BNode::delete_child\<close> on the children from some index on, then \<^verbatim>\<open>delete\<close> of each.
\<close>

partial_function (option) delete_children :: "ptr list \<Rightarrow> btree \<Rightarrow> btree option" where
  "delete_children cs t = (case cs of [] \<Rightarrow> Some t
     | c # cs' \<Rightarrow> do {
         n \<leftarrow> node_at t c;
         t1 \<leftarrow> (if is_leaf n then Some t else delete_children (child n) t);
         t2 \<leftarrow> delete_node t1 c;
         delete_children cs' t2 })"

declare delete_children.simps [code]

definition BTree_dtor :: "btree \<Rightarrow> btree option" where
  "BTree_dtor t = do {
     n \<leftarrow> node_at t (bt_root t);
     t1 \<leftarrow> (if is_leaf n then Some t else delete_children (child n) t);
     delete_node t1 (bt_root t) }"

section \<open>Search\<close>

text \<open>
  The descent \<^verbatim>\<open>while (v)\<close>: it records the node \<^verbatim>\<open>_hot\<close> and the index \<^verbatim>\<open>tmp_idx\<close> taken on
  each level.  A cyclic heap would never leave the loop: \<open>None\<close>.
\<close>

partial_function (option) search_loop ::
    "btree \<Rightarrow> string \<Rightarrow> ptr \<Rightarrow> ptr \<Rightarrow> nat list \<Rightarrow> (ptr \<times> nat list) option" where
  "search_loop t k v hot hot_idx =
     (if v = nullptr then Some (hot, hot_idx)
      else do {
        n \<leftarrow> node_at t v;
        c \<leftarrow> at (child n) (upper_bound (key n) k);
        search_loop t k c v (hot_idx @ [upper_bound (key n) k]) })"

declare search_loop.simps [code]

text \<open>
  \<^verbatim>\<open>search(key, _hot, _hot_idx)\<close>: the data found, sign-extended to \<^verbatim>\<open>size_t\<close>, or
  \<^verbatim>\<open>(size_t)-1\<close>, with \<^verbatim>\<open>_hot\<close> and \<^verbatim>\<open>_hot_idx\<close>.
\<close>

definition search_hot :: "btree \<Rightarrow> string \<Rightarrow> (64 word \<times> ptr \<times> nat list) option" where
  "search_hot t k = do {
     (hot, hot_idx) \<leftarrow> search_loop t k (bt_root t) nullptr [];
     i \<leftarrow> vback hot_idx;
     hn \<leftarrow> node_at t hot;
     found \<leftarrow> (if i > 0 then do { k' \<leftarrow> at (key hn) (i - 1); Some (k' = k) } else Some False);
     if found then do {
       rest \<leftarrow> pop_back hot_idx;
       d \<leftarrow> at (data hn) (i - 1);
       Some (scast d, hot, rest @ [i - 1]) }
     else Some (-1, hot, hot_idx) }"

definition BTree_search :: "btree \<Rightarrow> string \<Rightarrow> 64 word option" where
  "BTree_search t k = do { (r, hot, hot_idx) \<leftarrow> search_hot t k; Some r }"

section \<open>Insertion\<close>

text \<open>
  The loops that fill \<^verbatim>\<open>_tmp_idx\<close>: position \<open>i\<close> of the vector with the new element says
  where it comes from, \<open>npos\<close> for the new element itself.
\<close>

definition prepare_tmp_idx :: "nat \<Rightarrow> btree \<Rightarrow> btree option" where
  "prepare_tmp_idx lf_idx t = do {
     tmp1 \<leftarrow> for_up 0 lf_idx (\<lambda>i xs. set_at xs i i) (bt_tmp_idx t);
     tmp2 \<leftarrow> set_at tmp1 lf_idx npos;
     tmp3 \<leftarrow> for_up (Suc lf_idx) btree_M (\<lambda>i xs. set_at xs i (i - 1)) tmp2;
     Some (t\<lparr>bt_tmp_idx := tmp3\<rparr>) }"

text \<open>A new root above the two halves of a split root.\<close>

definition grow_root :: "string \<Rightarrow> ptr \<Rightarrow> ptr \<Rightarrow> btree \<Rightarrow> btree option" where
  "grow_root k hot u t = do {
     let (p, t1) = new_node t nullptr False;
     t2 \<leftarrow> modify_node t1 p (\<lambda>n. Some (n\<lparr>key := key n @ [c_str k], child := child n @ [hot, u]\<rparr>));
     t3 \<leftarrow> set_parent t2 hot p;
     t4 \<leftarrow> set_parent t3 u p;
     Some (t4\<lparr>bt_root := p\<rparr>) }"

text \<open>The new separator \<open>k\<close> and right half \<open>u\<close> go into the parent \<open>p\<close>, which has room.\<close>

definition add_to_parent :: "ptr \<Rightarrow> nat \<Rightarrow> string \<Rightarrow> ptr \<Rightarrow> btree \<Rightarrow> btree option" where
  "add_to_parent p pa_idx k u t = modify_node t p (\<lambda>n. do {
     ks \<leftarrow> emplace_at (key n) pa_idx (c_str k);
     cs \<leftarrow> emplace_at (child n) (pa_idx + 1) u;
     Some (n\<lparr>key := ks, child := cs\<rparr>) })"

text \<open>
  The pieces of \<^verbatim>\<open>BTree::solve_overflow_innode\<close>: a child of the right half \<open>u\<close> of a split
  inner node (\<^verbatim>\<open>btree.cpp\<close> 293-300), the loop body that picks it, and the loop that keeps
  the left half (\<^verbatim>\<open>btree.cpp\<close> 305-319).
\<close>

definition move_child_to_right :: "string \<Rightarrow> ptr \<Rightarrow> ptr \<Rightarrow> btree \<Rightarrow> btree option" where
  "move_child_to_right k c u t = do {
     t \<leftarrow> modify_node t u (\<lambda>n. Some (n\<lparr>key := key n @ [c_str k], child := child n @ [c]\<rparr>));
     set_parent t c u }"

definition move_to_right_innode ::
    "string \<Rightarrow> ptr \<Rightarrow> ptr \<Rightarrow> ptr \<Rightarrow> nat \<Rightarrow> btree \<Rightarrow> btree option" where
  "move_to_right_innode k c hot u i t = do {
     ki \<leftarrow> at (bt_tmp_idx t) i;
     if ki = npos then move_child_to_right k c u t
     else do {
       hn \<leftarrow> node_at t hot;
       k' \<leftarrow> at (key hn) ki;
       ch \<leftarrow> at (child hn) (ki + 1);
       move_child_to_right k' ch u t } }"

definition keep_left_innode :: "nat list \<Rightarrow> string \<Rightarrow> ptr \<Rightarrow> bnode \<Rightarrow> bnode option" where
  "keep_left_innode tmp k c n = do {
     (ks, cs) \<leftarrow> for_down_break (btree_M div 2) (\<lambda>i (ks, cs). do {
       ti \<leftarrow> at tmp i;
       if ti = i then Some ((ks, cs), True)
       else if ti = npos then do {
         ks \<leftarrow> set_at ks i k;
         cs \<leftarrow> set_at cs (i + 1) c;
         Some ((ks, cs), True) }
       else do {
         k' \<leftarrow> at ks ti;
         ks \<leftarrow> set_at ks i k';
         ch \<leftarrow> at cs (ti + 1);
         cs \<leftarrow> set_at cs (i + 1) ch;
         Some ((ks, cs), False) } }) (key n, child n);
     Some (n\<lparr>key := resize ks (btree_M div 2) [], child := resize cs (btree_M div 2 + 1) nullptr\<rparr>) }"

text \<open>
  The first child of the right half \<open>u\<close> and the middle key, which moves up
  (\<^verbatim>\<open>btree.cpp\<close> 278-289).
\<close>

definition take_middle ::
    "string \<Rightarrow> ptr \<Rightarrow> ptr \<Rightarrow> ptr \<Rightarrow> btree \<Rightarrow> (string \<times> btree) option" where
  "take_middle k c hot u t = do {
     mi \<leftarrow> at (bt_tmp_idx t) (btree_M div 2);
     if mi = npos then do {
       t \<leftarrow> modify_node t u (\<lambda>n. Some (n\<lparr>child := child n @ [c]\<rparr>));
       t \<leftarrow> set_parent t c u;
       Some (k, t) }
     else do {
       hn \<leftarrow> node_at t hot;
       ch \<leftarrow> at (child hn) (mi + 1);
       t \<leftarrow> modify_node t u (\<lambda>n. Some (n\<lparr>child := child n @ [ch]\<rparr>));
       t \<leftarrow> set_parent t ch u;
       hn \<leftarrow> node_at t hot;
       k' \<leftarrow> at (key hn) mi;
       Some (k', t) } }"

text \<open>The split itself (\<^verbatim>\<open>btree.cpp\<close> 270-319): the middle key, the right half and the new state.\<close>

definition split_innode ::
    "string \<Rightarrow> ptr \<Rightarrow> ptr \<Rightarrow> nat \<Rightarrow> btree \<Rightarrow> (string \<times> ptr \<times> btree) option" where
  "split_innode k c hot lf_idx t = do {
     t \<leftarrow> prepare_tmp_idx lf_idx t;
     hn \<leftarrow> node_at t hot;
     let (u, t) = new_node t (parent hn) False;
     (mi_key, t) \<leftarrow> take_middle k c hot u t;
     t \<leftarrow> for_up (btree_M div 2 + 1) btree_M (move_to_right_innode k c hot u) t;
     t \<leftarrow> modify_node t hot (keep_left_innode (bt_tmp_idx t) k c);
     Some (mi_key, u, t) }"

text \<open>
  \<^verbatim>\<open>BTree::solve_overflow_innode\<close> (\<^verbatim>\<open>btree.cpp\<close> 267-343): the full inner node \<open>hot\<close> gets
  the key \<open>k\<close> and the child \<open>c\<close> behind it; it is split, and the middle key goes up.
\<close>

function solve_overflow_innode ::
    "string \<Rightarrow> ptr \<Rightarrow> ptr \<Rightarrow> nat list \<Rightarrow> btree \<Rightarrow> btree option" where
  "solve_overflow_innode k c hot hot_idx t = do {
     lf_idx \<leftarrow> vback hot_idx;
     (mi_key, u, t) \<leftarrow> split_innode k c hot lf_idx t;
     hn \<leftarrow> node_at t hot;
     if parent hn = nullptr then grow_root mi_key hot u t
     else do {
       pa_idx \<leftarrow> at hot_idx (size_sub (length hot_idx) 2);
       pn \<leftarrow> node_at t (parent hn);
       if \<not> is_full pn then add_to_parent (parent hn) pa_idx mi_key u t
       else do {
         hot_idx' \<leftarrow> pop_back hot_idx;
         solve_overflow_innode mi_key u (parent hn) hot_idx' t } } }"
  by pat_completeness auto
termination
  by (relation "measure (\<lambda>(k, c, hot, hot_idx, t). length hot_idx)") (auto dest: pop_back_length)

declare solve_overflow_innode.simps [simp del]

text \<open>
  \<^verbatim>\<open>BTree::solve_overflow_leaf\<close> (\<^verbatim>\<open>btree.cpp\<close> 140-264), its three branches: give the first
  element to the left sibling, give one to the right sibling, or split.
\<close>

definition shift_left_insert :: "nat \<Rightarrow> string \<Rightarrow> 64 word \<Rightarrow> bnode \<Rightarrow> bnode option" where
  "shift_left_insert lf_idx k d n = do {
     (ks, ds) \<leftarrow> for_up 0 (size_sub lf_idx 1) (\<lambda>i (ks, ds). do {
       k' \<leftarrow> at ks (i + 1);
       ks \<leftarrow> set_at ks i k';
       d' \<leftarrow> at ds (i + 1);
       ds \<leftarrow> set_at ds i d';
       Some (ks, ds) }) (key n, data n);
     ks \<leftarrow> set_at ks (size_sub lf_idx 1) k;
     ds \<leftarrow> set_at ds (size_sub lf_idx 1) (ucast d);
     Some (n\<lparr>key := ks, data := ds\<rparr>) }"

definition shift_right_insert :: "nat \<Rightarrow> string \<Rightarrow> 64 word \<Rightarrow> bnode \<Rightarrow> bnode option" where
  "shift_right_insert lf_idx k d n = do {
     (ks, ds) \<leftarrow> for_down (size_sub (length (key n)) 1 - lf_idx) (\<lambda>j (ks, ds). do {
       k' \<leftarrow> at ks (lf_idx + j - 1);
       ks \<leftarrow> set_at ks (lf_idx + j) k';
       d' \<leftarrow> at ds (lf_idx + j - 1);
       ds \<leftarrow> set_at ds (lf_idx + j) d';
       Some (ks, ds) }) (key n, data n);
     ks \<leftarrow> set_at ks lf_idx k;
     ds \<leftarrow> set_at ds lf_idx (ucast d);
     Some (n\<lparr>key := ks, data := ds\<rparr>) }"

text \<open>The two halves of a split leaf: \<open>hn\<close> is the full leaf, \<open>tmp\<close> the \<^verbatim>\<open>_tmp_idx\<close> vector.\<close>

definition fill_right_leaf ::
    "nat list \<Rightarrow> string \<Rightarrow> 64 word \<Rightarrow> bnode \<Rightarrow> bnode \<Rightarrow> bnode option" where
  "fill_right_leaf tmp k d hn n = for_up (btree_M div 2) btree_M (\<lambda>i n. do {
     ti \<leftarrow> at tmp i;
     if ti = npos then Some (n\<lparr>key := key n @ [c_str k], data := data n @ [ucast d]\<rparr>)
     else do {
       k' \<leftarrow> at (key hn) ti;
       d' \<leftarrow> at (data hn) ti;
       Some (n\<lparr>key := key n @ [c_str k'], data := data n @ [d']\<rparr>) } })
     (n\<lparr>child := resize (child n) (btree_M - btree_M div 2 + 1) nullptr\<rparr>)"

definition keep_left_leaf :: "nat list \<Rightarrow> string \<Rightarrow> 64 word \<Rightarrow> bnode \<Rightarrow> bnode option" where
  "keep_left_leaf tmp k d n = do {
     (ks, ds) \<leftarrow> for_down_break (btree_M div 2) (\<lambda>i (ks, ds). do {
       ti \<leftarrow> at tmp i;
       if ti = i then Some ((ks, ds), True)
       else if ti = npos then do {
         ks \<leftarrow> set_at ks i k;
         ds \<leftarrow> set_at ds i (ucast d);
         Some ((ks, ds), True) }
       else do {
         k' \<leftarrow> at ks ti;
         ks \<leftarrow> set_at ks i k';
         d' \<leftarrow> at ds ti;
         ds \<leftarrow> set_at ds i d';
         Some ((ks, ds), False) } }) (key n, data n);
     Some (n\<lparr>key := resize ks (btree_M div 2) [], data := resize ds (btree_M div 2) 0,
             child := resize (child n) (btree_M div 2 + 1) nullptr\<rparr>) }"

definition overflow_leaf_rotate_prev ::
    "string \<Rightarrow> 64 word \<Rightarrow> ptr \<Rightarrow> nat list \<Rightarrow> btree \<Rightarrow> btree option" where
  "overflow_leaf_rotate_prev k d hot hot_idx t = do {
     lf_idx \<leftarrow> vback hot_idx;
     hn \<leftarrow> node_at t hot;
     k0 \<leftarrow> vfront (key hn);
     d0 \<leftarrow> vfront (data hn);
     t \<leftarrow> modify_node t (prev hn) (\<lambda>n. Some (n\<lparr>key := key n @ [c_str k0],
            data := data n @ [d0], child := child n @ [nullptr]\<rparr>));
     t \<leftarrow> modify_node t hot (shift_left_insert lf_idx k d);
     pa_idx \<leftarrow> at hot_idx (size_sub (length hot_idx) 2);
     hn \<leftarrow> node_at t hot;
     k1 \<leftarrow> vfront (key hn);
     modify_node t (parent hn) (\<lambda>n. do {
       ks \<leftarrow> set_at (key n) (size_sub pa_idx 1) k1; Some (n\<lparr>key := ks\<rparr>) }) }"

definition overflow_leaf_rotate_next ::
    "string \<Rightarrow> 64 word \<Rightarrow> ptr \<Rightarrow> nat list \<Rightarrow> btree \<Rightarrow> btree option" where
  "overflow_leaf_rotate_next k d hot hot_idx t = do {
     lf_idx \<leftarrow> vback hot_idx;
     pa_idx \<leftarrow> at hot_idx (size_sub (length hot_idx) 2);
     hn \<leftarrow> node_at t hot;
     if lf_idx = length (key hn) then do {
       t \<leftarrow> modify_node t (nxt hn) (\<lambda>n. Some (n\<lparr>key := c_str k # key n,
              data := ucast d # data n, child := child n @ [nullptr]\<rparr>));
       hn \<leftarrow> node_at t hot;
       modify_node t (parent hn) (\<lambda>n. do {
         ks \<leftarrow> set_at (key n) pa_idx k; Some (n\<lparr>key := ks\<rparr>) }) }
     else do {
       k1 \<leftarrow> vback (key hn);
       d1 \<leftarrow> vback (data hn);
       t \<leftarrow> modify_node t (nxt hn) (\<lambda>n. Some (n\<lparr>key := c_str k1 # key n,
              data := d1 # data n, child := child n @ [nullptr]\<rparr>));
       hn \<leftarrow> node_at t hot;
       k2 \<leftarrow> vback (key hn);
       t \<leftarrow> modify_node t (parent hn) (\<lambda>n. do {
              ks \<leftarrow> set_at (key n) pa_idx k2; Some (n\<lparr>key := ks\<rparr>) });
       modify_node t hot (shift_right_insert lf_idx k d) } }"

definition split_leaf ::
    "string \<Rightarrow> 64 word \<Rightarrow> ptr \<Rightarrow> nat \<Rightarrow> btree \<Rightarrow> (ptr \<times> btree) option" where
  "split_leaf k d hot lf_idx t = do {
     t \<leftarrow> prepare_tmp_idx lf_idx t;
     hn \<leftarrow> node_at t hot;
     let (u, t) = new_node t (parent hn) True;
     t \<leftarrow> modify_node t u (\<lambda>n. Some (n\<lparr>prev := hot, nxt := nxt hn\<rparr>));
     t \<leftarrow> (if nxt hn \<noteq> nullptr then modify_node t (nxt hn) (\<lambda>n. Some (n\<lparr>prev := u\<rparr>)) else Some t);
     t \<leftarrow> modify_node t hot (\<lambda>n. Some (n\<lparr>nxt := u\<rparr>));
     hn \<leftarrow> node_at t hot;
     t \<leftarrow> modify_node t u (fill_right_leaf (bt_tmp_idx t) k d hn);
     t \<leftarrow> modify_node t hot (keep_left_leaf (bt_tmp_idx t) k d);
     Some (u, t) }"

definition overflow_leaf_split ::
    "string \<Rightarrow> 64 word \<Rightarrow> ptr \<Rightarrow> nat list \<Rightarrow> btree \<Rightarrow> btree option" where
  "overflow_leaf_split k d hot hot_idx t = do {
     lf_idx \<leftarrow> vback hot_idx;
     (u, t) \<leftarrow> split_leaf k d hot lf_idx t;
     hn \<leftarrow> node_at t hot;
     un \<leftarrow> node_at t u;
     k0 \<leftarrow> vfront (key un);
     if parent hn = nullptr then grow_root k0 hot u t
     else do {
       pn \<leftarrow> node_at t (parent hn);
       if \<not> is_full pn then do {
         pa_idx \<leftarrow> at hot_idx (size_sub (length hot_idx) 2);
         add_to_parent (parent hn) pa_idx k0 u t }
       else do {
         hot_idx' \<leftarrow> pop_back hot_idx;
         solve_overflow_innode k0 u (parent hn) hot_idx' t } } }"

text \<open>The guards: a sibling under the same parent that is not full.\<close>

definition sibling_has_room :: "ptr \<Rightarrow> bnode \<Rightarrow> btree \<Rightarrow> bool option" where
  "sibling_has_room s hn t =
     (if s = nullptr then Some False
      else do { sn \<leftarrow> node_at t s; Some (parent hn = parent sn \<and> \<not> is_full sn) })"

definition solve_overflow_leaf ::
    "string \<Rightarrow> 64 word \<Rightarrow> ptr \<Rightarrow> nat list \<Rightarrow> btree \<Rightarrow> btree option" where
  "solve_overflow_leaf k d hot hot_idx t = do {
     hn \<leftarrow> node_at t hot;
     left \<leftarrow> sibling_has_room (prev hn) hn t;
     if left then overflow_leaf_rotate_prev k d hot hot_idx t
     else do {
       right \<leftarrow> sibling_has_room (nxt hn) hn t;
       if right then overflow_leaf_rotate_next k d hot hot_idx t
       else overflow_leaf_split k d hot hot_idx t } }"

text \<open>
  \<^verbatim>\<open>BTree::insert\<close> (\<^verbatim>\<open>btree.cpp\<close> 58-94): 1 for a new key, 0 for a key whose data is changed.
\<close>

definition insert_leaf_entry :: "nat \<Rightarrow> string \<Rightarrow> 64 word \<Rightarrow> bnode \<Rightarrow> bnode option" where
  "insert_leaf_entry lf_idx k d n = do {
     ks \<leftarrow> emplace_at (key n) lf_idx k;
     ds \<leftarrow> emplace_at (data n) lf_idx (ucast d);
     Some (n\<lparr>key := ks, data := ds, child := child n @ [nullptr]\<rparr>) }"

definition BTree_insert :: "string \<Rightarrow> 64 word \<Rightarrow> btree \<Rightarrow> (int \<times> btree) option" where
  "BTree_insert k d t = do {
     (r, hot, hot_idx) \<leftarrow> search_hot t k;
     if r = -1 then do {
       hn \<leftarrow> node_at t hot;
       lf_idx \<leftarrow> vback hot_idx;
       t \<leftarrow> (if \<not> is_full hn then modify_node t hot (insert_leaf_entry lf_idx k d)
             else solve_overflow_leaf k d hot hot_idx t);
       Some (1, t\<lparr>bt_size := bt_size t + 1\<rparr>) }
     else do {
       i \<leftarrow> vback hot_idx;
       t \<leftarrow> modify_node t hot (\<lambda>n. do {
              ds \<leftarrow> set_at (data n) i (ucast d); Some (n\<lparr>data := ds\<rparr>) });
       Some (0, t) } }"

section \<open>Removal\<close>

text \<open>
  What every merge does to the parent \<open>p\<close> when \<open>p\<close> itself does not underflow: a root
  left with one child is freed and that child, \<open>kept\<close>, becomes the root; otherwise the
  separator \<open>ki\<close> and the child behind it are erased.
\<close>

definition drop_from_parent :: "ptr \<Rightarrow> ptr \<Rightarrow> nat \<Rightarrow> btree \<Rightarrow> btree option" where
  "drop_from_parent p kept ki t = do {
     pn \<leftarrow> node_at t p;
     if p = bt_root t \<and> length (key pn) \<le> 1 then do {
       t \<leftarrow> set_parent t kept nullptr;
       delete_node (t\<lparr>bt_root := kept\<rparr>) p }
     else modify_node t p (\<lambda>n. do {
       ks \<leftarrow> erase_at (key n) ki;
       cs \<leftarrow> erase_at (child n) (ki + 1);
       Some (n\<lparr>key := ks, child := cs\<rparr>) }) }"

definition innode_underflows :: "ptr \<Rightarrow> btree \<Rightarrow> bool option" where
  "innode_underflows p t = do {
     pn \<leftarrow> node_at t p;
     Some (p \<noteq> bt_root t \<and> length (key pn) \<le> (btree_M + 1) div 2 - 1) }"

text \<open>\<^verbatim>\<open>_hot->child.back()->is_leaf\<close> decides where the separator of a moved child comes from.\<close>

definition moved_separator :: "ptr \<Rightarrow> ptr \<Rightarrow> ptr \<Rightarrow> nat \<Rightarrow> btree \<Rightarrow> string option" where
  "moved_separator moved right p ki t = do {
     mn \<leftarrow> node_at t moved;
     if is_leaf mn then do { rn \<leftarrow> node_at t right; vfront (key rn) }
     else do { pn \<leftarrow> node_at t p; at (key pn) ki } }"

text \<open>The branches of \<^verbatim>\<open>BTree::solve_underflow_innode\<close> (\<^verbatim>\<open>btree.cpp\<close> 468-608).\<close>

definition shift_right_innode :: "nat \<Rightarrow> bnode \<Rightarrow> bnode option" where
  "shift_right_innode rm_idx n = do {
     (ks, cs) \<leftarrow> for_down rm_idx (\<lambda>i (ks, cs). do {
       k' \<leftarrow> at ks (i - 1);
       ks \<leftarrow> set_at ks i k';
       c' \<leftarrow> at cs i;
       cs \<leftarrow> set_at cs (i + 1) c';
       Some (ks, cs) }) (key n, child n);
     c0 \<leftarrow> at cs 0;
     cs \<leftarrow> set_at cs 1 c0;
     Some (n\<lparr>key := ks, child := cs\<rparr>) }"

definition shift_left_innode :: "nat \<Rightarrow> bnode \<Rightarrow> bnode option" where
  "shift_left_innode rm_idx n = do {
     (ks, cs) \<leftarrow> for_up rm_idx (size_sub (length (key n)) 1) (\<lambda>i (ks, cs). do {
       k' \<leftarrow> at ks (i + 1);
       ks \<leftarrow> set_at ks i k';
       c' \<leftarrow> at cs (i + 2);
       cs \<leftarrow> set_at cs (i + 1) c';
       Some (ks, cs) }) (key n, child n);
     Some (n\<lparr>key := ks, child := cs\<rparr>) }"

definition underflow_innode_rotate_prev ::
    "ptr \<Rightarrow> nat \<Rightarrow> nat \<Rightarrow> ptr \<Rightarrow> btree \<Rightarrow> btree option" where
  "underflow_innode_rotate_prev hot rm_idx pa_idx p t = do {
     pn \<leftarrow> node_at t p;
     prv \<leftarrow> at (child pn) (size_sub pa_idx 1);
     t \<leftarrow> modify_node t hot (shift_right_innode rm_idx);
     prn \<leftarrow> node_at t prv;
     moved \<leftarrow> vback (child prn);
     t \<leftarrow> modify_node t hot (\<lambda>n. do {
            cs \<leftarrow> set_at (child n) 0 moved; Some (n\<lparr>child := cs\<rparr>) });
     t \<leftarrow> set_parent t moved hot;
     hn \<leftarrow> node_at t hot;
     c1 \<leftarrow> at (child hn) 1;
     sep \<leftarrow> moved_separator moved c1 p (size_sub pa_idx 1) t;
     t \<leftarrow> modify_node t hot (\<lambda>n. do {
            ks \<leftarrow> set_at (key n) 0 sep; Some (n\<lparr>key := ks\<rparr>) });
     prn \<leftarrow> node_at t prv;
     k1 \<leftarrow> vback (key prn);
     t \<leftarrow> modify_node t p (\<lambda>n. do {
            ks \<leftarrow> set_at (key n) (size_sub pa_idx 1) k1; Some (n\<lparr>key := ks\<rparr>) });
     modify_node t prv (\<lambda>n. do {
       ks \<leftarrow> pop_back (key n);
       cs \<leftarrow> pop_back (child n);
       Some (n\<lparr>key := ks, child := cs\<rparr>) }) }"

text \<open>
  The loop that closes the gap left by the removed key and child, and the child taken
  over from the right sibling: the first half of both branches that use it.
\<close>

definition take_first_of_next ::
    "ptr \<Rightarrow> nat \<Rightarrow> nat \<Rightarrow> ptr \<Rightarrow> ptr \<Rightarrow> btree \<Rightarrow> btree option" where
  "take_first_of_next hot rm_idx pa_idx p nx t = do {
     t \<leftarrow> modify_node t hot (shift_left_innode rm_idx);
     nn \<leftarrow> node_at t nx;
     moved \<leftarrow> vfront (child nn);
     t \<leftarrow> modify_node t hot (\<lambda>n. do {
            cs \<leftarrow> set_at (child n) (size_sub (length (child n)) 1) moved;
            Some (n\<lparr>child := cs\<rparr>) });
     t \<leftarrow> set_parent t moved hot;
     sep \<leftarrow> moved_separator moved moved p pa_idx t;
     modify_node t hot (\<lambda>n. do {
       ks \<leftarrow> set_at (key n) (size_sub (length (key n)) 1) sep; Some (n\<lparr>key := ks\<rparr>) }) }"

definition underflow_innode_rotate_next ::
    "ptr \<Rightarrow> nat \<Rightarrow> nat \<Rightarrow> ptr \<Rightarrow> btree \<Rightarrow> btree option" where
  "underflow_innode_rotate_next hot rm_idx pa_idx p t = do {
     pn \<leftarrow> node_at t p;
     nx \<leftarrow> at (child pn) (pa_idx + 1);
     t \<leftarrow> take_first_of_next hot rm_idx pa_idx p nx t;
     nn \<leftarrow> node_at t nx;
     k1 \<leftarrow> vfront (key nn);
     t \<leftarrow> modify_node t p (\<lambda>n. do {
            ks \<leftarrow> set_at (key n) pa_idx k1; Some (n\<lparr>key := ks\<rparr>) });
     modify_node t nx (\<lambda>n. do {
       ks \<leftarrow> erase_at (key n) 0;
       cs \<leftarrow> erase_at (child n) 0;
       Some (n\<lparr>key := ks, child := cs\<rparr>) }) }"

text \<open>The body of both merge loops: key \<open>i\<close> and the child behind it move to another node.\<close>

definition move_entry_innode :: "ptr \<Rightarrow> ptr \<Rightarrow> nat \<Rightarrow> btree \<Rightarrow> btree option" where
  "move_entry_innode from_p to_p i t = do {
     fn \<leftarrow> node_at t from_p;
     k' \<leftarrow> at (key fn) i;
     c' \<leftarrow> at (child fn) (i + 1);
     move_child_to_right k' c' to_p t }"

definition underflow_innode_merge_prev ::
    "ptr \<Rightarrow> nat \<Rightarrow> nat \<Rightarrow> ptr \<Rightarrow> btree \<Rightarrow> (ptr \<times> btree) option" where
  "underflow_innode_merge_prev hot rm_idx pa_idx p t = do {
     pn \<leftarrow> node_at t p;
     prv \<leftarrow> at (child pn) (size_sub pa_idx 1);
     hn \<leftarrow> node_at t hot;
     moved \<leftarrow> vfront (child hn);
     t \<leftarrow> modify_node t prv (\<lambda>n. Some (n\<lparr>child := child n @ [moved]\<rparr>));
     t \<leftarrow> set_parent t moved prv;
     mn \<leftarrow> node_at t moved;
     sep \<leftarrow> moved_separator moved moved p (size_sub pa_idx 1) t;
     t \<leftarrow> modify_node t prv (\<lambda>n. Some (n\<lparr>key := key n @ [if is_leaf mn then c_str sep else sep]\<rparr>));
     t \<leftarrow> for_up 0 (length (key hn)) (\<lambda>i t.
            if i = rm_idx then Some t else move_entry_innode hot prv i t) t;
     t \<leftarrow> delete_node t hot;
     Some (prv, t) }"

definition underflow_innode_merge_next ::
    "ptr \<Rightarrow> nat \<Rightarrow> nat \<Rightarrow> ptr \<Rightarrow> btree \<Rightarrow> btree option" where
  "underflow_innode_merge_next hot rm_idx pa_idx p t = do {
     pn \<leftarrow> node_at t p;
     nx \<leftarrow> at (child pn) (pa_idx + 1);
     t \<leftarrow> take_first_of_next hot rm_idx pa_idx p nx t;
     nn \<leftarrow> node_at t nx;
     t \<leftarrow> for_up 0 (length (key nn)) (move_entry_innode nx hot) t;
     delete_node t nx }"

text \<open>The guard of the two rotations: the sibling at some index of the parent has keys to spare.\<close>

definition child_can_give :: "ptr \<Rightarrow> nat \<Rightarrow> btree \<Rightarrow> bool option" where
  "child_can_give p i t = do {
     pn \<leftarrow> node_at t p;
     s \<leftarrow> at (child pn) i;
     sn \<leftarrow> node_at t s;
     Some (length (key sn) \<ge> (btree_M + 1) div 2) }"

function solve_underflow_innode :: "ptr \<Rightarrow> nat list \<Rightarrow> btree \<Rightarrow> btree option" where
  "solve_underflow_innode hot hot_idx t = do {
     rm_idx \<leftarrow> vback hot_idx;
     pa_idx \<leftarrow> at hot_idx (size_sub (length hot_idx) 2);
     hn \<leftarrow> node_at t hot;
     let p = parent hn;
     pn \<leftarrow> node_at t p;
     left \<leftarrow> (if pa_idx > 0 then child_can_give p (pa_idx - 1) t else Some False);
     if left then underflow_innode_rotate_prev hot rm_idx pa_idx p t
     else do {
       right \<leftarrow> (if pa_idx < size_sub (length (child pn)) 1
                 then child_can_give p (pa_idx + 1) t else Some False);
       if right then underflow_innode_rotate_next hot rm_idx pa_idx p t
       else if pa_idx > 0 then do {
         (kept, t) \<leftarrow> underflow_innode_merge_prev hot rm_idx pa_idx p t;
         again \<leftarrow> innode_underflows p t;
         if again then do {
           up \<leftarrow> pop_back hot_idx;
           b \<leftarrow> vback up;
           up' \<leftarrow> set_at up (length up - 1) (size_sub b 1);
           solve_underflow_innode p up' t }
         else drop_from_parent p kept (size_sub pa_idx 1) t }
       else if pa_idx < size_sub (length (child pn)) 1 then do {
         t \<leftarrow> underflow_innode_merge_next hot rm_idx pa_idx p t;
         again \<leftarrow> innode_underflows p t;
         if again then do {
           up \<leftarrow> pop_back hot_idx;
           solve_underflow_innode p up t }
         else drop_from_parent p hot pa_idx t }
       else None } }"
  by pat_completeness auto
termination
  by (relation "measure (\<lambda>(hot, hot_idx, t). length hot_idx)")
    (auto dest!: pop_back_length set_at_length)

declare solve_underflow_innode.simps [simp del]

text \<open>The branches of \<^verbatim>\<open>BTree::solve_underflow_leaf\<close> (\<^verbatim>\<open>btree.cpp\<close> 346-465).\<close>

definition shift_right_leaf :: "nat \<Rightarrow> bnode \<Rightarrow> bnode option" where
  "shift_right_leaf rm_idx n = do {
     (ks, ds) \<leftarrow> for_down rm_idx (\<lambda>i (ks, ds). do {
       k' \<leftarrow> at ks (i - 1);
       ks \<leftarrow> set_at ks i k';
       d' \<leftarrow> at ds (i - 1);
       ds \<leftarrow> set_at ds i d';
       Some (ks, ds) }) (key n, data n);
     Some (n\<lparr>key := ks, data := ds\<rparr>) }"

text \<open>Closing the gap and putting an entry into the last place.\<close>

definition shift_left_append :: "nat \<Rightarrow> string \<Rightarrow> 32 word \<Rightarrow> bnode \<Rightarrow> bnode option" where
  "shift_left_append rm_idx k0 d0 n = do {
     (ks, ds) \<leftarrow> for_up rm_idx (size_sub (length (key n)) 1) (\<lambda>i (ks, ds). do {
       k' \<leftarrow> at ks (i + 1);
       ks \<leftarrow> set_at ks i k';
       d' \<leftarrow> at ds (i + 1);
       ds \<leftarrow> set_at ds i d';
       Some (ks, ds) }) (key n, data n);
     ks \<leftarrow> set_at ks (size_sub (length ks) 1) k0;
     ds \<leftarrow> set_at ds (size_sub (length ds) 1) d0;
     Some (n\<lparr>key := ks, data := ds\<rparr>) }"

text \<open>The body of both merge loops: entry \<open>i\<close> of a leaf is appended to another leaf.\<close>

definition copy_entry_leaf :: "ptr \<Rightarrow> ptr \<Rightarrow> nat \<Rightarrow> btree \<Rightarrow> btree option" where
  "copy_entry_leaf from_p to_p i t = do {
     fn \<leftarrow> node_at t from_p;
     k' \<leftarrow> at (key fn) i;
     d' \<leftarrow> at (data fn) i;
     modify_node t to_p (\<lambda>n. Some (n\<lparr>key := key n @ [c_str k'], data := data n @ [d'],
       child := child n @ [nullptr]\<rparr>)) }"

definition underflow_leaf_rotate_prev ::
    "ptr \<Rightarrow> nat \<Rightarrow> nat \<Rightarrow> ptr \<Rightarrow> btree \<Rightarrow> btree option" where
  "underflow_leaf_rotate_prev hot rm_idx pa_idx p t = do {
     hn \<leftarrow> node_at t hot;
     let prv = prev hn;
     t \<leftarrow> modify_node t hot (shift_right_leaf rm_idx);
     prn \<leftarrow> node_at t prv;
     k0 \<leftarrow> vback (key prn);
     d0 \<leftarrow> vback (data prn);
     t \<leftarrow> modify_node t hot (\<lambda>n. do {
            ks \<leftarrow> set_at (key n) 0 k0;
            ds \<leftarrow> set_at (data n) 0 d0;
            Some (n\<lparr>key := ks, data := ds\<rparr>) });
     t \<leftarrow> modify_node t prv (\<lambda>n. do {
            ks \<leftarrow> pop_back (key n);
            ds \<leftarrow> pop_back (data n);
            cs \<leftarrow> pop_back (child n);
            Some (n\<lparr>key := ks, data := ds, child := cs\<rparr>) });
     hn \<leftarrow> node_at t hot;
     k1 \<leftarrow> vfront (key hn);
     modify_node t p (\<lambda>n. do {
       ks \<leftarrow> set_at (key n) (size_sub pa_idx 1) k1; Some (n\<lparr>key := ks\<rparr>) }) }"

text \<open>Closing the gap in a leaf and appending the first entry of the right sibling.\<close>

definition take_first_entry_of_next :: "ptr \<Rightarrow> nat \<Rightarrow> ptr \<Rightarrow> btree \<Rightarrow> btree option" where
  "take_first_entry_of_next hot rm_idx nx t = do {
     nn \<leftarrow> node_at t nx;
     k0 \<leftarrow> vfront (key nn);
     d0 \<leftarrow> vfront (data nn);
     modify_node t hot (shift_left_append rm_idx k0 d0) }"

definition underflow_leaf_rotate_next ::
    "ptr \<Rightarrow> nat \<Rightarrow> nat \<Rightarrow> ptr \<Rightarrow> btree \<Rightarrow> btree option" where
  "underflow_leaf_rotate_next hot rm_idx pa_idx p t = do {
     hn \<leftarrow> node_at t hot;
     let nx = nxt hn;
     t \<leftarrow> take_first_entry_of_next hot rm_idx nx t;
     t \<leftarrow> modify_node t nx (\<lambda>n. do {
            ks \<leftarrow> erase_at (key n) 0;
            ds \<leftarrow> erase_at (data n) 0;
            cs \<leftarrow> pop_back (child n);
            Some (n\<lparr>key := ks, data := ds, child := cs\<rparr>) });
     nn \<leftarrow> node_at t nx;
     k1 \<leftarrow> vfront (key nn);
     t \<leftarrow> modify_node t p (\<lambda>n. do {
            ks \<leftarrow> set_at (key n) pa_idx k1; Some (n\<lparr>key := ks\<rparr>) });
     if pa_idx > 0 \<and> rm_idx = 0 then do {
       hn \<leftarrow> node_at t hot;
       k2 \<leftarrow> vfront (key hn);
       modify_node t p (\<lambda>n. do {
         ks \<leftarrow> set_at (key n) (pa_idx - 1) k2; Some (n\<lparr>key := ks\<rparr>) }) }
     else Some t }"

definition underflow_leaf_merge_prev ::
    "ptr \<Rightarrow> nat \<Rightarrow> btree \<Rightarrow> (ptr \<times> btree) option" where
  "underflow_leaf_merge_prev hot rm_idx t = do {
     hn \<leftarrow> node_at t hot;
     let prv = prev hn;
     t \<leftarrow> for_up 0 (length (key hn)) (\<lambda>i t.
            if i = rm_idx then Some t else copy_entry_leaf hot prv i t) t;
     t \<leftarrow> modify_node t prv (\<lambda>n. Some (n\<lparr>nxt := nxt hn\<rparr>));
     t \<leftarrow> (if nxt hn \<noteq> nullptr then modify_node t (nxt hn) (\<lambda>n. Some (n\<lparr>prev := prv\<rparr>)) else Some t);
     t \<leftarrow> delete_node t hot;
     Some (prv, t) }"

definition underflow_leaf_merge_next :: "ptr \<Rightarrow> nat \<Rightarrow> btree \<Rightarrow> btree option" where
  "underflow_leaf_merge_next hot rm_idx t = do {
     hn \<leftarrow> node_at t hot;
     let nx = nxt hn;
     t \<leftarrow> take_first_entry_of_next hot rm_idx nx t;
     nn \<leftarrow> node_at t nx;
     t \<leftarrow> for_up 1 (length (key nn)) (copy_entry_leaf nx hot) t;
     nn \<leftarrow> node_at t nx;
     t \<leftarrow> modify_node t hot (\<lambda>n. Some (n\<lparr>nxt := nxt nn\<rparr>));
     t \<leftarrow> (if nxt nn \<noteq> nullptr then modify_node t (nxt nn) (\<lambda>n. Some (n\<lparr>prev := hot\<rparr>)) else Some t);
     delete_node t nx }"

text \<open>\<^verbatim>\<open>prev->key.size() >= (M + 1) / 2\<close>, read through the leaf link.\<close>

definition leaf_can_give :: "ptr \<Rightarrow> btree \<Rightarrow> bool option" where
  "leaf_can_give s t = do { sn \<leftarrow> node_at t s; Some (length (key sn) \<ge> (btree_M + 1) div 2) }"

definition solve_underflow_leaf :: "ptr \<Rightarrow> nat list \<Rightarrow> btree \<Rightarrow> btree option" where
  "solve_underflow_leaf hot hot_idx t = do {
     rm_idx \<leftarrow> vback hot_idx;
     pa_idx \<leftarrow> at hot_idx (size_sub (length hot_idx) 2);
     hn \<leftarrow> node_at t hot;
     let p = parent hn;
     left \<leftarrow> (if pa_idx > 0 then leaf_can_give (prev hn) t else Some False);
     if left then underflow_leaf_rotate_prev hot rm_idx pa_idx p t
     else do {
       pn \<leftarrow> node_at t p;
       right \<leftarrow> (if pa_idx < size_sub (length (child pn)) 1
                 then leaf_can_give (nxt hn) t else Some False);
       if right then underflow_leaf_rotate_next hot rm_idx pa_idx p t
       else if pa_idx > 0 then do {
         (kept, t) \<leftarrow> underflow_leaf_merge_prev hot rm_idx t;
         again \<leftarrow> innode_underflows p t;
         if again then do {
           up \<leftarrow> pop_back hot_idx;
           b \<leftarrow> vback up;
           up' \<leftarrow> set_at up (length up - 1) (size_sub b 1);
           solve_underflow_innode p up' t }
         else drop_from_parent p kept (size_sub pa_idx 1) t }
       else if pa_idx < size_sub (length (child pn)) 1 then do {
         t \<leftarrow> underflow_leaf_merge_next hot rm_idx t;
         again \<leftarrow> innode_underflows p t;
         if again then do {
           up \<leftarrow> pop_back hot_idx;
           solve_underflow_innode p up t }
         else drop_from_parent p hot pa_idx t }
       else None } }"

text \<open>
  \<^verbatim>\<open>BTree::remove\<close> (\<^verbatim>\<open>btree.cpp\<close> 101-137): 1 for a key removed, 0 for a key not found.
\<close>

definition erase_leaf_entry :: "nat \<Rightarrow> bnode \<Rightarrow> bnode option" where
  "erase_leaf_entry lf_idx n = do {
     ks \<leftarrow> erase_at (key n) lf_idx;
     ds \<leftarrow> erase_at (data n) lf_idx;
     cs \<leftarrow> pop_back (child n);
     Some (n\<lparr>key := ks, data := ds, child := cs\<rparr>) }"

definition remove_in_leaf :: "ptr \<Rightarrow> nat list \<Rightarrow> btree \<Rightarrow> btree option" where
  "remove_in_leaf hot hot_idx t = do {
     lf_idx \<leftarrow> vback hot_idx;
     t \<leftarrow> modify_node t hot (erase_leaf_entry lf_idx);
     if hot \<noteq> bt_root t \<and> lf_idx = 0 then do {
       pa_idx \<leftarrow> at hot_idx (size_sub (length hot_idx) 2);
       if pa_idx > 0 then do {
         hn \<leftarrow> node_at t hot;
         k0 \<leftarrow> vfront (key hn);
         modify_node t (parent hn) (\<lambda>n. do {
           ks \<leftarrow> set_at (key n) (pa_idx - 1) k0; Some (n\<lparr>key := ks\<rparr>) }) }
       else Some t }
     else Some t }"

definition BTree_remove :: "string \<Rightarrow> btree \<Rightarrow> (int \<times> btree) option" where
  "BTree_remove k t = do {
     (r, hot, hot_idx) \<leftarrow> search_hot t k;
     if r = -1 then Some (0, t)
     else do {
       hn \<leftarrow> node_at t hot;
       t \<leftarrow> (if hot \<noteq> bt_root t \<and> length (key hn) \<le> (btree_M + 1) div 2 - 1
             then solve_underflow_leaf hot hot_idx t
             else remove_in_leaf hot hot_idx t);
       Some (1, t\<lparr>bt_size := bt_size t - 1\<rparr>) } }"

end
