(* ===== verification/BPlus_Tree.thy ===== *)
theory BPlus_Tree
  imports KVS_Prelude
begin

text \<open>
  The abstract view of the index: a B+ tree as a datatype whose nodes carry the address
  they have in the heap, paths from the root to a focus (zippers), and the invariant a
  tree of order 5 satisfies.  Nothing here mentions the heap.
\<close>

section \<open>Trees and paths\<close>

datatype tree = Lf nat "string list" "32 word list" | Nd nat "string list" "tree list"

primrec addr :: "tree \<Rightarrow> nat" where
  "addr (Lf p ks ds) = p"
| "addr (Nd p ks ts) = p"

primrec is_lf :: "tree \<Rightarrow> bool" where
  "is_lf (Lf p ks ds) = True"
| "is_lf (Nd p ks ts) = False"

text \<open>
  A frame is an inner node with a hole between its left and right children: each left
  child comes with the separator behind it, each right child with the one before it.
  A path lists frames from the focus up to the root.
\<close>

type_synonym lefts = "(tree \<times> string) list"
type_synonym rights = "(string \<times> tree) list"
type_synonym frame = "nat \<times> lefts \<times> rights"

definition fkeys :: "lefts \<Rightarrow> rights \<Rightarrow> string list" where
  "fkeys L R = map snd L @ map fst R"

definition ftrees :: "lefts \<Rightarrow> tree list \<Rightarrow> rights \<Rightarrow> tree list" where
  "ftrees L ts R = map fst L @ ts @ map snd R"

fun plug :: "frame list \<Rightarrow> tree \<Rightarrow> tree" where
  "plug [] t = t"
| "plug ((p, L, R) # fs) t = plug fs (Nd p (fkeys L R) (ftrees L [t] R))"

text \<open>The entries of a tree in key order, its leaves from left to right, all addresses.\<close>

primrec entries :: "tree \<Rightarrow> (string \<times> 32 word) list" where
  "entries (Lf p ks ds) = zip ks ds"
| "entries (Nd p ks ts) = concat (map entries ts)"

primrec leaves :: "tree \<Rightarrow> nat list" where
  "leaves (Lf p ks ds) = [p]"
| "leaves (Nd p ks ts) = concat (map leaves ts)"

fun path_entries_left :: "frame list \<Rightarrow> (string \<times> 32 word) list" where
  "path_entries_left [] = []"
| "path_entries_left ((p, L, R) # fs) = path_entries_left fs @ concat (map (entries \<circ> fst) L)"

fun path_entries_right :: "frame list \<Rightarrow> (string \<times> 32 word) list" where
  "path_entries_right [] = []"
| "path_entries_right ((p, L, R) # fs) = concat (map (entries \<circ> snd) R) @ path_entries_right fs"

fun path_leaves_left :: "frame list \<Rightarrow> nat list" where
  "path_leaves_left [] = []"
| "path_leaves_left ((p, L, R) # fs) = path_leaves_left fs @ concat (map (leaves \<circ> fst) L)"

fun path_leaves_right :: "frame list \<Rightarrow> nat list" where
  "path_leaves_right [] = []"
| "path_leaves_right ((p, L, R) # fs) = concat (map (leaves \<circ> snd) R) @ path_leaves_right fs"

lemma entries_plug:
  "entries (plug fs t) = path_entries_left fs @ entries t @ path_entries_right fs"
  by (induction fs t rule: plug.induct) (simp_all add: ftrees_def)

lemma leaves_plug:
  "leaves (plug fs t) = path_leaves_left fs @ leaves t @ path_leaves_right fs"
  by (induction fs t rule: plug.induct) (simp_all add: ftrees_def)

lemma addr_plug: "addr (plug fs t) = (if fs = [] then addr t else fst (last fs))"
  by (induction fs t rule: plug.induct) auto

section \<open>The invariant\<close>

text \<open>Bounds: keys are at least \<open>lo\<close> and below \<open>hi\<close>; \<open>None\<close> is no bound.\<close>

definition lbound :: "string option \<Rightarrow> string \<Rightarrow> bool" where
  "lbound lo k = (case lo of None \<Rightarrow> True | Some l \<Rightarrow> l \<le> k)"

definition ubound :: "string option \<Rightarrow> string \<Rightarrow> bool" where
  "ubound hi k = (case hi of None \<Rightarrow> True | Some h \<Rightarrow> k < h)"

lemma bound_simps [simp]:
  "lbound None k" "ubound None k" "lbound (Some l) k = (l \<le> k)" "ubound (Some h) k = (k < h)"
  by (simp_all add: lbound_def ubound_def)

lemma lbound_mono: "lbound lo k \<Longrightarrow> k \<le> k' \<Longrightarrow> lbound lo k'"
  by (auto simp: lbound_def split: option.splits)

lemma ubound_mono: "ubound hi k \<Longrightarrow> k' \<le> k \<Longrightarrow> ubound hi k'"
  by (auto simp: ubound_def split: option.splits)

text \<open>
  A leaf: at most four strictly sorted, NUL-free keys within the bounds, one data word
  for each, none of them the \<open>-1\<close> that means "not found".
\<close>

definition leaf_ok :: "string option \<Rightarrow> string option \<Rightarrow> string list \<Rightarrow> 32 word list \<Rightarrow> bool" where
  "leaf_ok lo hi ks ds \<longleftrightarrow> length ks \<le> 4 \<and> length ds = length ks \<and> sorted_wrt (<) ks \<and>
     (\<forall>k\<in>set ks. nul_free k \<and> lbound lo k \<and> ubound hi k) \<and> -1 \<notin> set ds"

text \<open>
  The separator in front of a leaf, under the same parent, is the first key of the leaf.
\<close>

definition sep_of :: "string \<Rightarrow> tree \<Rightarrow> bool" where
  "sep_of k t = (case t of Lf p ks ds \<Rightarrow> ks \<noteq> [] \<and> hd ks = k | Nd p ks ts \<Rightarrow> True)"

lemma sep_of_simps [simp]:
  "sep_of k (Lf p ks ds) = (ks \<noteq> [] \<and> hd ks = k)" "sep_of k (Nd p ks' ts)"
  by (simp_all add: sep_of_def)

text \<open>
  \<open>tinv m lo hi n t\<close>: \<open>t\<close> is a B+ tree of height \<open>n\<close> with keys in the bounds; its root node
  has at least \<open>m\<close> keys (an inner node at least one), every other node two to four.
\<close>

fun tinv :: "nat \<Rightarrow> string option \<Rightarrow> string option \<Rightarrow> nat \<Rightarrow> tree \<Rightarrow> bool"
  and tinvs :: "string option \<Rightarrow> string option \<Rightarrow> nat \<Rightarrow> string list \<Rightarrow> tree list \<Rightarrow> bool" where
  "tinv m lo hi n (Lf p ks ds) = (n = 0 \<and> m \<le> length ks \<and> leaf_ok lo hi ks ds)"
| "tinv m lo hi n (Nd p ks ts) = (0 < n \<and> max 1 m \<le> length ks \<and> length ks \<le> 4 \<and>
     (\<forall>k\<in>set ks. nul_free k) \<and> tinvs lo hi (n - 1) ks ts)"
| "tinvs lo hi n [] [] = False"
| "tinvs lo hi n [] (t # ts) = (ts = [] \<and> tinv 2 lo hi n t)"
| "tinvs lo hi n (k # ks) [] = False"
| "tinvs lo hi n (k # ks) (t # ts) = (tinv 2 lo (Some k) n t \<and>
     (case ts of [] \<Rightarrow> False | t' # _ \<Rightarrow> sep_of k t') \<and> tinvs (Some k) hi n ks ts)"

definition root_inv :: "tree \<Rightarrow> bool" where
  "root_inv t \<longleftrightarrow> (\<exists>n. tinv 0 None None n t)"

text \<open>The same conditions on the left and right part of a frame.\<close>

definition lo_of :: "string option \<Rightarrow> lefts \<Rightarrow> string option" where
  "lo_of lo L = (if L = [] then lo else Some (snd (last L)))"

definition hi_of :: "string option \<Rightarrow> rights \<Rightarrow> string option" where
  "hi_of hi R = (if R = [] then hi else Some (fst (hd R)))"

definition sep_left :: "lefts \<Rightarrow> tree \<Rightarrow> bool" where
  "sep_left L t \<longleftrightarrow> (L = [] \<or> sep_of (snd (last L)) t)"

fun inv_left :: "string option \<Rightarrow> nat \<Rightarrow> lefts \<Rightarrow> bool" where
  "inv_left lo n [] = True"
| "inv_left lo n ((t, k) # L) = (tinv 2 lo (Some k) n t \<and> nul_free k \<and>
     (case L of [] \<Rightarrow> True | (t', k') # _ \<Rightarrow> sep_of k t') \<and> inv_left (Some k) n L)"

fun inv_right :: "string option \<Rightarrow> nat \<Rightarrow> rights \<Rightarrow> bool" where
  "inv_right hi n [] = True"
| "inv_right hi n ((k, t) # R) =
     (sep_of k t \<and> nul_free k \<and> tinv 2 (Some k) (hi_of hi R) n t \<and> inv_right hi n R)"

definition min_keys :: "frame list \<Rightarrow> nat" where
  "min_keys fs = (if fs = [] then 0 else 2)"

fun path_inv :: "string option \<Rightarrow> string option \<Rightarrow> nat \<Rightarrow> frame list \<Rightarrow> bool" where
  "path_inv lo hi n [] = (lo = None \<and> hi = None)"
| "path_inv lo hi n ((p, L, R) # fs) = (\<exists>lo' hi'. lo = lo_of lo' L \<and> hi = hi_of hi' R \<and>
     max 1 (min_keys fs) \<le> length L + length R \<and> length L + length R \<le> 4 \<and>
     inv_left lo' n L \<and> inv_right hi' n R \<and> path_inv lo' hi' (Suc n) fs)"

definition path_sep :: "frame list \<Rightarrow> tree \<Rightarrow> bool" where
  "path_sep fs t = (case fs of [] \<Rightarrow> True | (p, L, R) # _ \<Rightarrow> sep_left L t)"

lemma of_simps [simp]:
  "lo_of lo [] = lo" "lo_of lo (L @ [(t, k)]) = Some k"
  "hi_of hi [] = hi" "hi_of hi ((k, t) # R) = Some k"
  "sep_left [] t" "sep_left (L @ [(t', k)]) t = sep_of k t"
  by (simp_all add: lo_of_def hi_of_def sep_left_def)

lemma lo_of_Cons [simp]: "lo_of lo ((t, k) # L) = lo_of (Some k) L"
  by (simp add: lo_of_def)

lemma sep_left_Nd [simp]: "sep_left L (Nd p ks ts)"
  by (simp add: sep_left_def)

lemma path_sep_simps [simp]:
  "path_sep [] t" "path_sep ((p, L, R) # fs) t = sep_left L t" "path_sep fs (Nd p ks ts)"
  by (simp_all add: path_sep_def split: list.splits)

lemma min_keys_simps [simp]: "min_keys [] = 0" "min_keys (f # fs) = 2"
  by (simp_all add: min_keys_def)

lemma inv_left_snoc [simp]:
  "inv_left lo n (L @ [(t, k)]) \<longleftrightarrow>
     inv_left lo n L \<and> sep_left L t \<and> tinv 2 (lo_of lo L) (Some k) n t \<and> nul_free k"
proof (induction lo n L rule: inv_left.induct)
  case (2 lo n t' k' L)
  then show ?case by (cases L) (auto simp: sep_left_def lo_of_def)
qed simp

lemma invs_right:
  "tinvs lo hi n (map fst R) (t # map snd R) \<longleftrightarrow>
     tinv 2 lo (hi_of hi R) n t \<and> inv_right hi n R \<and> True"
  if "\<forall>k\<in>set (map fst R). nul_free k"
  using that
proof (induction R arbitrary: lo t)
  case (Cons kt R)
  obtain k t' where "kt = (k, t')" by force
  with Cons show ?case by auto
qed simp

lemma invs_frame:
  "(\<forall>k\<in>set (fkeys L R). nul_free k) \<Longrightarrow>
   tinvs lo hi n (fkeys L R) (ftrees L [t] R) \<longleftrightarrow>
     inv_left lo n L \<and> sep_left L t \<and> tinv 2 (lo_of lo L) (hi_of hi R) n t \<and> inv_right hi n R"
proof (induction L arbitrary: lo)
  case Nil
  then show ?case by (simp add: fkeys_def ftrees_def invs_right)
next
  case (Cons tk L)
  obtain t' k where "tk = (t', k)" by force
  with Cons show ?case
    by (cases L) (auto simp: fkeys_def ftrees_def sep_left_def)
qed

lemma nul_free_frame:
  assumes "inv_left lo n L" "inv_right hi n R"
  shows "\<forall>k\<in>set (fkeys L R). nul_free k"
proof -
  have "\<forall>k\<in>set (map snd L). nul_free k"
    using assms(1) by (induction lo n L rule: inv_left.induct) auto
  moreover have "\<forall>k\<in>set (map fst R). nul_free k"
    using assms(2) by (induction hi n R rule: inv_right.induct) auto
  ultimately show ?thesis by (auto simp: fkeys_def)
qed

text \<open>An inner node satisfies the invariant exactly if its frame around any child does.\<close>

lemma inv_Nd_frame:
  "tinv m lo hi (Suc n) (Nd p (fkeys L R) (ftrees L [t] R)) \<longleftrightarrow>
     max 1 m \<le> length L + length R \<and> length L + length R \<le> 4 \<and>
     inv_left lo n L \<and> sep_left L t \<and> tinv 2 (lo_of lo L) (hi_of hi R) n t \<and> inv_right hi n R"
  (is "?lhs \<longleftrightarrow> ?rhs")
proof
  assume l: ?lhs
  then have nf: "\<forall>k\<in>set (fkeys L R). nul_free k" by simp
  from l show ?rhs by (auto simp: invs_frame [OF nf]) (auto simp: fkeys_def)
next
  assume r: ?rhs
  then have nf: "\<forall>k\<in>set (fkeys L R). nul_free k"
    using nul_free_frame [of lo n L hi R] by simp
  from r nf show ?lhs by (simp add: invs_frame [OF nf]) (simp add: fkeys_def)
qed

lemma inv_plug:
  "path_inv lo hi n fs \<Longrightarrow> tinv (min_keys fs) lo hi n t \<Longrightarrow> path_sep fs t \<Longrightarrow> root_inv (plug fs t)"
proof (induction fs t arbitrary: lo hi n rule: plug.induct)
  case (1 t)
  then show ?case by (auto simp: root_inv_def)
next
  case (2 p L R fs t)
  from "2.prems" obtain lo' hi' where f: "lo = lo_of lo' L" "hi = hi_of hi' R"
    "max 1 (min_keys fs) \<le> length L + length R" "length L + length R \<le> 4"
    "inv_left lo' n L" "inv_right hi' n R" "path_inv lo' hi' (Suc n) fs"
    "sep_left L t" "tinv 2 lo hi n t" by auto
  then have "tinv (min_keys fs) lo' hi' (Suc n) (Nd p (fkeys L R) (ftrees L [t] R))"
    by (simp only: inv_Nd_frame)
  with f "2.IH" [of lo' hi' "Suc n"] show ?case by simp
qed

text \<open>Opening an inner node at a child index.\<close>

definition lefts_at :: "nat \<Rightarrow> string list \<Rightarrow> tree list \<Rightarrow> lefts" where
  "lefts_at i ks ts = zip (take i ts) (take i ks)"

definition rights_at :: "nat \<Rightarrow> string list \<Rightarrow> tree list \<Rightarrow> rights" where
  "rights_at i ks ts = zip (drop i ks) (drop (Suc i) ts)"

lemma invs_length: "tinvs lo hi n ks ts \<Longrightarrow> length ts = Suc (length ks)"
  by (induction lo hi n ks ts rule: tinv_tinvs.induct(2) [where ?P = "\<lambda>_ _ _ _ _. True"]) auto

lemma open_frame:
  assumes "length ts = Suc (length ks)" "i \<le> length ks"
  shows "fkeys (lefts_at i ks ts) (rights_at i ks ts) = ks"
    and "ftrees (lefts_at i ks ts) [ts ! i] (rights_at i ks ts) = ts"
    and "length (lefts_at i ks ts) = i"
    and "length (rights_at i ks ts) = length ks - i"
proof -
  have *: "map snd (lefts_at i ks ts) = take i ks" "map fst (lefts_at i ks ts) = take i ts"
    "map fst (rights_at i ks ts) = drop i ks" "map snd (rights_at i ks ts) = drop (Suc i) ts"
    using assms by (simp_all add: lefts_at_def rights_at_def map_snd_zip_take map_fst_zip_take min_def)
  show "fkeys (lefts_at i ks ts) (rights_at i ks ts) = ks"
    using * by (simp add: fkeys_def)
  show "ftrees (lefts_at i ks ts) [ts ! i] (rights_at i ks ts) = ts"
    using * assms by (simp add: ftrees_def id_take_nth_drop [symmetric])
  show "length (lefts_at i ks ts) = i" "length (rights_at i ks ts) = length ks - i"
    using assms by (simp_all add: lefts_at_def rights_at_def)
qed

text \<open>Cutting an inner node at one of its separators.\<close>

lemma invs_split:
  "tinvs lo hi n ks ts \<Longrightarrow> i < length ks \<Longrightarrow>
   tinvs lo (Some (ks ! i)) n (take i ks) (take (Suc i) ts) \<and>
   tinvs (Some (ks ! i)) hi n (drop (Suc i) ks) (drop (Suc i) ts)"
proof (induction ks arbitrary: lo ts i)
  case (Cons k ks)
  then obtain t ts' where ts: "ts = t # ts'" by (cases ts) auto
  with Cons.prems have t: "tinv 2 lo (Some k) n t" "tinvs (Some k) hi n ks ts'"
    "case ts' of [] \<Rightarrow> False | t' # _ \<Rightarrow> sep_of k t'" by simp_all
  show ?case
  proof (cases i)
    case (Suc j)
    then have "tinvs (Some k) (Some (ks ! j)) n (take j ks) (take (Suc j) ts') \<and>
      tinvs (Some (ks ! j)) hi n (drop (Suc j) ks) (drop (Suc j) ts')"
      using Cons.prems Cons.IH [OF t(2)] by simp
    with t ts Suc show ?thesis by (cases ts') simp_all
  qed (use t ts in simp)
qed simp

end
