(* ===== verification/BTree_Rep.thy ===== *)
theory BTree_Rep
  imports BTree_Code BPlus_Tree "HOL-Library.Multiset"
begin

text \<open>
  The representation relation between the pointer heap of the code and the abstract trees:
  which nodes the heap holds, with which parent, child and key vectors, and the doubly
  linked chain of the leaves; and the rules that say what a heap update keeps of it.
\<close>

section \<open>Nodes of the heap\<close>

definition leaf_node :: "ptr \<Rightarrow> string list \<Rightarrow> 32 word list \<Rightarrow> ptr \<Rightarrow> ptr \<Rightarrow> bnode" where
  "leaf_node par ks ds a b = \<lparr>parent = par, is_leaf = True, key = ks,
     child = replicate (Suc (length ks)) nullptr, data = ds, prev = a, nxt = b\<rparr>"

definition inner_node :: "ptr \<Rightarrow> string list \<Rightarrow> ptr list \<Rightarrow> bnode" where
  "inner_node par ks cs = \<lparr>parent = par, is_leaf = False, key = ks, child = cs, data = [],
     prev = nullptr, nxt = nullptr\<rparr>"

lemma node_sels [simp]:
  "parent (leaf_node par ks ds a b) = par" "is_leaf (leaf_node par ks ds a b)"
  "key (leaf_node par ks ds a b) = ks" "data (leaf_node par ks ds a b) = ds"
  "child (leaf_node par ks ds a b) = replicate (Suc (length ks)) nullptr"
  "prev (leaf_node par ks ds a b) = a" "nxt (leaf_node par ks ds a b) = b"
  "parent (inner_node par ks cs) = par" "\<not> is_leaf (inner_node par ks cs)"
  "key (inner_node par ks cs) = ks" "child (inner_node par ks cs) = cs"
  "data (inner_node par ks cs) = []"
  "prev (inner_node par ks cs) = nullptr" "nxt (inner_node par ks cs) = nullptr"
  by (simp_all add: leaf_node_def inner_node_def)

lemma at_null_children [simp]: "i \<le> n \<Longrightarrow> at (replicate (Suc n) nullptr) i = Some nullptr"
  by (simp add: at_def del: replicate_Suc)

text \<open>A node without the links of the leaf chain.\<close>

definition core :: "bnode \<Rightarrow> bnode" where
  "core n = (if is_leaf n then n\<lparr>prev := nullptr, nxt := nullptr\<rparr> else n)"

lemma core_simps [simp]:
  "core (leaf_node par ks ds a b) = leaf_node par ks ds 0 0"
  "core (inner_node par ks cs) = inner_node par ks cs"
  by (simp_all add: core_def leaf_node_def inner_node_def)

lemma core_eq_inner: "core n = inner_node par ks cs \<longleftrightarrow> n = inner_node par ks cs"
  by (cases n) (auto simp: core_def inner_node_def)

lemma core_eq_leaf: "core n = leaf_node par ks ds 0 0 \<longleftrightarrow> n = leaf_node par ks ds (prev n) (nxt n)"
  by (cases n) (auto simp: core_def leaf_node_def)

text \<open>\<open>has h p c\<close>: the heap holds at \<open>p\<close> a node with core \<open>c\<close>.\<close>

definition has :: "(ptr \<rightharpoonup> bnode) \<Rightarrow> ptr \<Rightarrow> bnode \<Rightarrow> bool" where
  "has h p c \<longleftrightarrow> (\<exists>n. h p = Some n \<and> core n = c)"

lemma has_inner: "has h p (inner_node par ks cs) \<longleftrightarrow> h p = Some (inner_node par ks cs)"
  by (auto simp: has_def core_eq_inner)

lemma has_leaf: "has h p (leaf_node par ks ds 0 0) \<longleftrightarrow> (\<exists>a b. h p = Some (leaf_node par ks ds a b))"
  unfolding has_def core_eq_leaf by (metis (no_types) core_eq_leaf core_simps(1))

definition holds :: "(ptr \<rightharpoonup> bnode) \<Rightarrow> (ptr \<times> bnode) list \<Rightarrow> bool" where
  "holds h N \<longleftrightarrow> (\<forall>(p, c)\<in>set N. has h p c)"

lemma holds_simps [simp]:
  "holds h []" "holds h ((p, c) # N) \<longleftrightarrow> has h p c \<and> holds h N"
  "holds h (N @ N') \<longleftrightarrow> holds h N \<and> holds h N'"
  by (auto simp: holds_def)

lemma has_upd [frame_simps]: "has (h(p \<mapsto> n)) q c \<longleftrightarrow> (if q = p then core n = c else has h q c)"
  by (simp add: has_def)

lemma has_del [frame_simps]: "q \<noteq> p \<Longrightarrow> has (h(p := None)) q c \<longleftrightarrow> has h q c"
  by (simp add: has_def)

lemma holds_upd [frame_simps]: "p \<notin> fst ` set N \<Longrightarrow> holds (h(p \<mapsto> n)) N \<longleftrightarrow> holds h N"
  unfolding holds_def has_def by (rule ball_cong) force+

lemma holds_del [frame_simps]: "p \<notin> fst ` set N \<Longrightarrow> holds (h(p := None)) N \<longleftrightarrow> holds h N"
  unfolding holds_def has_def by (rule ball_cong) force+

lemma holds_upd_core: "h p = Some m \<Longrightarrow> core n = core m \<Longrightarrow> holds (h(p \<mapsto> n)) N \<longleftrightarrow> holds h N"
  unfolding holds_def has_def by (rule ball_cong) (auto split: if_splits)

section \<open>The chain of leaves\<close>

definition link :: "(ptr \<rightharpoonup> bnode) \<Rightarrow> ptr \<Rightarrow> ptr \<Rightarrow> ptr \<Rightarrow> bool" where
  "link h p a b \<longleftrightarrow> (\<exists>n. h p = Some n \<and> prev n = a \<and> nxt n = b)"

lemma link_upd [frame_simps]:
  "link (h(p \<mapsto> n)) q a b \<longleftrightarrow> (if q = p then prev n = a \<and> nxt n = b else link h q a b)"
  by (simp add: link_def)

lemma link_del [frame_simps]: "q \<noteq> p \<Longrightarrow> link (h(p := None)) q a b \<longleftrightarrow> link h q a b"
  by (simp add: link_def)

lemma link_leaf: "h p = Some (leaf_node par ks ds a b) \<Longrightarrow> link h p a' b' \<longleftrightarrow> a' = a \<and> b' = b"
  by (auto simp: link_def leaf_node_def)

definition first_of :: "ptr list \<Rightarrow> ptr \<Rightarrow> ptr" where
  "first_of ps b = (case ps of [] \<Rightarrow> b | p # _ \<Rightarrow> p)"

definition last_of :: "ptr \<Rightarrow> ptr list \<Rightarrow> ptr" where
  "last_of a ps = (if ps = [] then a else last ps)"

lemma first_last_simps [simp]:
  "first_of [] b = b" "first_of (p # ps) b = p"
  "last_of a [] = a" "last_of a (ps @ [p]) = p"
  by (simp_all add: first_of_def last_of_def)

lemma first_of_append [simp]: "first_of (ps @ qs) b = first_of ps (first_of qs b)"
  by (simp add: first_of_def split: list.splits)

lemma last_of_append [simp]: "last_of a (ps @ qs) = last_of (last_of a ps) qs"
  by (simp add: last_of_def)

lemma last_of_Cons [simp]: "last_of a (p # ps) = last_of p ps"
  by (simp add: last_of_def)

fun linked :: "(ptr \<rightharpoonup> bnode) \<Rightarrow> ptr \<Rightarrow> ptr list \<Rightarrow> ptr \<Rightarrow> bool" where
  "linked h a [] b = True"
| "linked h a (p # ps) b = (link h p a (first_of ps b) \<and> linked h p ps b)"

lemma linked_append [simp]:
  "linked h a (ps @ qs) b \<longleftrightarrow> linked h a ps (first_of qs b) \<and> linked h (last_of a ps) qs b"
  by (induction ps arbitrary: a) auto

lemma linked_upd [frame_simps]: "p \<notin> set ps \<Longrightarrow> linked (h(p \<mapsto> n)) a ps b \<longleftrightarrow> linked h a ps b"
  by (induction ps arbitrary: a) (auto simp: link_upd)

lemma linked_del [frame_simps]: "p \<notin> set ps \<Longrightarrow> linked (h(p := None)) a ps b \<longleftrightarrow> linked h a ps b"
  by (induction ps arbitrary: a) (auto simp: link_del)

lemma linked_upd_same: "link h p (prev n) (nxt n) \<Longrightarrow> linked (h(p \<mapsto> n)) a ps b \<longleftrightarrow> linked h a ps b"
  by (induction ps arbitrary: a) (auto simp: link_upd link_def)

section \<open>What a tree occupies\<close>

fun nodes_of :: "ptr \<Rightarrow> tree \<Rightarrow> (ptr \<times> bnode) list" where
  "nodes_of par (Lf p ks ds) = [(p, leaf_node par ks ds 0 0)]"
| "nodes_of par (Nd p ks ts) =
     (p, inner_node par ks (map addr ts)) # concat (map (nodes_of p) ts)"

primrec addrs :: "tree \<Rightarrow> ptr list" where
  "addrs (Lf p ks ds) = [p]"
| "addrs (Nd p ks ts) = p # concat (map addrs ts)"

lemma fst_nodes_of [simp]: "map fst (nodes_of par t) = addrs t"
  by (induction par t rule: nodes_of.induct) (simp_all add: map_concat comp_def cong: map_cong)

lemma fst_set_nodes_of [simp]: "fst ` set (nodes_of par t) = set (addrs t)"
  by (metis fst_nodes_of set_map)

lemma fst_concat_nodes [simp]:
  "map fst (concat (map (nodes_of p \<circ> f) ts)) = concat (map (addrs \<circ> f) ts)"
  by (simp add: map_concat comp_def)

definition ptop :: "frame list \<Rightarrow> ptr" where
  "ptop fs = (case fs of [] \<Rightarrow> nullptr | (p, L, R) # _ \<Rightarrow> p)"

lemma ptop_simps [simp]: "ptop [] = 0" "ptop ((p, L, R) # fs) = p"
  by (simp_all add: ptop_def)

definition lefts_nodes :: "ptr \<Rightarrow> lefts \<Rightarrow> (ptr \<times> bnode) list" where
  "lefts_nodes p L = concat (map (nodes_of p \<circ> fst) L)"

definition rights_nodes :: "ptr \<Rightarrow> rights \<Rightarrow> (ptr \<times> bnode) list" where
  "rights_nodes p R = concat (map (nodes_of p \<circ> snd) R)"

lemma part_nodes_simps [simp]:
  "lefts_nodes p [] = []" "lefts_nodes p (L @ L') = lefts_nodes p L @ lefts_nodes p L'"
  "lefts_nodes p ((t, k) # L) = nodes_of p t @ lefts_nodes p L"
  "rights_nodes p [] = []" "rights_nodes p (R @ R') = rights_nodes p R @ rights_nodes p R'"
  "rights_nodes p ((k, t) # R) = nodes_of p t @ rights_nodes p R"
  by (simp_all add: lefts_nodes_def rights_nodes_def)

text \<open>The nodes on a path and beside it; \<open>c\<close> is the address of the child in the hole.\<close>

fun path_nodes :: "ptr \<Rightarrow> frame list \<Rightarrow> (ptr \<times> bnode) list" where
  "path_nodes c [] = []"
| "path_nodes c ((p, L, R) # fs) =
     (p, inner_node (ptop fs) (fkeys L R) (map (addr \<circ> fst) L @ c # map (addr \<circ> snd) R)) #
     lefts_nodes p L @ rights_nodes p R @ path_nodes p fs"

text \<open>The heap holds exactly these nodes, its leaves are chained in this order.\<close>

definition heap_is :: "(ptr \<rightharpoonup> bnode) \<Rightarrow> (ptr \<times> bnode) list \<Rightarrow> ptr list \<Rightarrow> bool" where
  "heap_is h N ls \<longleftrightarrow> distinct (map fst N) \<and> dom h = fst ` set N \<and> 0 \<notin> fst ` set N \<and>
     holds h N \<and> linked h nullptr ls nullptr"

lemma heap_is_perm: "mset N = mset N' \<Longrightarrow> heap_is h N ls \<longleftrightarrow> heap_is h N' ls"
proof -
  assume m: "mset N = mset N'"
  then have "mset (map fst N) = mset (map fst N')" by simp
  then have "distinct (map fst N) = distinct (map fst N')" by (rule mset_eq_imp_distinct_iff)
  moreover have "set N = set N'" using m by (rule mset_eq_setD)
  ultimately show ?thesis by (simp add: heap_is_def holds_def)
qed

definition root_addr :: "frame list \<Rightarrow> ptr \<Rightarrow> ptr" where
  "root_addr fs p = (if fs = [] then p else fst (last fs))"

lemma root_addr_simps [simp]: "root_addr [] p = p" "root_addr ((q, L, R) # fs) p = root_addr fs q"
  by (simp_all add: root_addr_def)

text \<open>
  \<open>repF t fs ts\<close>: the tree state \<open>t\<close> holds the path \<open>fs\<close> and, below its hole, the trees
  \<open>ts\<close>.  The hole's child pointer is the first of them; a second one is a freshly split
  sibling whose parent does not know it yet.
\<close>

definition frame_nodes :: "frame list \<Rightarrow> tree list \<Rightarrow> (ptr \<times> bnode) list" where
  "frame_nodes fs ts = path_nodes (addr (hd ts)) fs @ concat (map (nodes_of (ptop fs)) ts)"

definition frame_leaves :: "frame list \<Rightarrow> tree list \<Rightarrow> ptr list" where
  "frame_leaves fs ts = path_leaves_left fs @ concat (map leaves ts) @ path_leaves_right fs"

definition state_ok :: "btree \<Rightarrow> bool" where
  "state_ok t \<longleftrightarrow> length (bt_tmp_idx t) = 5 \<and> 0 < bt_brk t \<and> (\<forall>p\<in>dom (bt_heap t). p < bt_brk t)"

definition repF :: "btree \<Rightarrow> frame list \<Rightarrow> tree list \<Rightarrow> bool" where
  "repF t fs ts \<longleftrightarrow> heap_is (bt_heap t) (frame_nodes fs ts) (frame_leaves fs ts) \<and>
     state_ok t \<and> bt_root t = root_addr fs (addr (hd ts))"

lemma map_addr_ftrees:
  "map addr (ftrees L ts R) = map (addr \<circ> fst) L @ map addr ts @ map (addr \<circ> snd) R"
  by (simp add: ftrees_def)

lemma nodes_of_frame:
  "mset (nodes_of q (Nd p (fkeys L R) (ftrees L [t] R))) =
     mset ((p, inner_node q (fkeys L R) (map (addr \<circ> fst) L @ addr t # map (addr \<circ> snd) R)) #
       lefts_nodes p L @ nodes_of p t @ rights_nodes p R)"
  by (simp add: map_addr_ftrees) (simp add: ftrees_def lefts_nodes_def rights_nodes_def comp_def)

lemma repF_frame:
  "repF t ((p, L, R) # fs) [T] \<longleftrightarrow> repF t fs [Nd p (fkeys L R) (ftrees L [T] R)]"
proof -
  have n: "mset (frame_nodes ((p, L, R) # fs) [T]) =
      mset (frame_nodes fs [Nd p (fkeys L R) (ftrees L [T] R)])"
    using nodes_of_frame [of "ptop fs" p L R T] by (simp add: frame_nodes_def ac_simps)
  have l: "frame_leaves ((p, L, R) # fs) [T] = frame_leaves fs [Nd p (fkeys L R) (ftrees L [T] R)]"
    by (simp add: frame_leaves_def ftrees_def comp_def)
  show ?thesis
    by (simp add: repF_def heap_is_perm [OF n] l)
qed

lemma repF_plug: "repF t fs [T] \<longleftrightarrow> repF t [] [plug fs T]"
proof (induction fs T rule: plug.induct)
  case (2 p L R fs T)
  then show ?case by (simp add: repF_frame)
qed simp

end
