(* ===== verification/BTree_Nodes.thy ===== *)
theory BTree_Nodes
  imports BTree_Rep
begin

text \<open>
  What the loops of \<^verbatim>\<open>btree.cpp\<close> compute, node by node: each shifting or splitting loop over
  the key, data and child vectors equals one list expression.  The order is 5, so a full
  node has four keys and a minimal one two, and the loops are run symbolically.
\<close>

definition ins_at :: "nat \<Rightarrow> 'a \<Rightarrow> 'a list \<Rightarrow> 'a list" where
  "ins_at i x xs = take i xs @ x # drop i xs"

definition del_at :: "nat \<Rightarrow> 'a list \<Rightarrow> 'a list" where
  "del_at i xs = take i xs @ drop (Suc i) xs"

lemma length_ins_at [simp]: "length (ins_at i x xs) = Suc (length xs)"
  by (simp add: ins_at_def)

lemma ins_at_not_Nil [simp]: "ins_at i x xs \<noteq> []"
  by (simp add: ins_at_def)

lemma length_del_at [simp]: "i < length xs \<Longrightarrow> length (del_at i xs) = length xs - 1"
  by (simp add: del_at_def)

lemma length4: "length xs = 4 \<longleftrightarrow> (\<exists>a b c d. xs = [a, b, c, d])"
  by (auto simp: numeral_eq_Suc length_Suc_conv)

lemma length5: "length xs = 5 \<longleftrightarrow> (\<exists>a b c d e. xs = [a, b, c, d, e])"
  by (auto simp: numeral_eq_Suc length_Suc_conv)

lemma length3: "length xs = 3 \<longleftrightarrow> (\<exists>a b c. xs = [a, b, c])"
  by (auto simp: numeral_eq_Suc length_Suc_conv)

lemma length2: "length xs = 2 \<longleftrightarrow> (\<exists>a b. xs = [a, b])"
  by (auto simp: numeral_eq_Suc length_Suc_conv)

lemma le4_cases: "(i::nat) \<le> 4 \<Longrightarrow> i = 0 \<or> i = 1 \<or> i = 2 \<or> i = 3 \<or> i = 4"
  by linarith

lemma le3_cases: "(i::nat) \<le> 3 \<Longrightarrow> i = 0 \<or> i = 1 \<or> i = 2 \<or> i = 3"
  by linarith

lemma less2_cases: "(i::nat) < 2 \<Longrightarrow> i = 0 \<or> i = 1"
  by linarith

lemma half_M: "Suc (Suc (Suc (Suc (Suc 0)))) div Suc (Suc 0) = Suc (Suc 0)"
  by (rule div_nat_eqI) simp_all

lemmas vec_simps = half_M at_def set_at_def vfront_def vback_def pop_back_def emplace_at_def erase_at_def
  resize_def for_up_step numeral_eq_Suc ins_at_def del_at_def

lemma npos_not_Suc [simp]:
  "npos \<noteq> 0" "npos \<noteq> Suc 0" "npos \<noteq> Suc (Suc 0)" "npos \<noteq> Suc (Suc (Suc 0))"
  "0 \<noteq> npos" "Suc 0 \<noteq> npos" "Suc (Suc 0) \<noteq> npos" "Suc (Suc (Suc 0)) \<noteq> npos"
  "npos \<noteq> 1" "npos \<noteq> 2" "npos \<noteq> 3" "npos \<noteq> 4" "1 \<noteq> npos" "2 \<noteq> npos" "3 \<noteq> npos" "4 \<noteq> npos"
  by (simp_all add: npos_def)

section \<open>Leaves\<close>

lemma insert_leaf_entry_node:
  assumes "length ds = length ks" "i \<le> length ks"
  shows "insert_leaf_entry i k d (leaf_node par ks ds a b) =
    Some (leaf_node par (ins_at i k ks) (ins_at i (ucast d) ds) a b)"
  using assms
  by (simp add: insert_leaf_entry_def emplace_at_def leaf_node_def ins_at_def
      replicate_append_same)

lemma shift_left_insert_node:
  assumes "length ks = 4" "length ds = 4" "0 < i" "i \<le> 4"
  shows "shift_left_insert i k d (leaf_node par ks ds a b) =
    Some (leaf_node par (tl (ins_at i k ks)) (tl (ins_at i (ucast d) ds)) a b)"
  using assms le4_cases [of i]
  by (simp only: length2 length3 length4 length5) (auto simp: shift_left_insert_def leaf_node_def vec_simps)

lemma shift_right_insert_node:
  assumes "length ks = 4" "length ds = 4" "i < 4"
  shows "shift_right_insert i k d (leaf_node par ks ds a b) =
    Some (leaf_node par (butlast (ins_at i k ks)) (butlast (ins_at i (ucast d) ds)) a b)"
  using assms le3_cases [of i]
  by (simp only: length2 length3 length4 length5) (auto simp: shift_right_insert_def leaf_node_def vec_simps)

lemma leaf_node_grow [simp]:
  "(leaf_node par ks ds a b)\<lparr>key := ks @ [x], data := ds', child := 0 # replicate (length ks) 0 @ [0]\<rparr> =
     leaf_node par (ks @ [x]) ds' a b"
  "(leaf_node par ks ds a b)\<lparr>key := x # ks, data := ds', child := 0 # replicate (length ks) 0 @ [0]\<rparr> =
     leaf_node par (x # ks) ds' a b"
  by (simp_all add: leaf_node_def replicate_append_same)

lemma pop_null_child [simp]: "pop_back (0 # replicate n 0) = Some (replicate n 0)"
  using pop_back_snoc [of "replicate n 0" 0] by (simp add: replicate_append_same)

lemma leaf_node_set [simp]:
  "length ks' = length ks \<Longrightarrow>
   (leaf_node par ks ds a b)\<lparr>key := ks', data := ds'\<rparr> = leaf_node par ks' ds' a b"
  by (simp add: leaf_node_def)

lemma leaf_node_shrink [simp]:
  "length ks = Suc (length ks') \<Longrightarrow> (leaf_node par ks ds a b)\<lparr>key := ks', data := ds',
     child := replicate (length ks) 0\<rparr> = leaf_node par ks' ds' a b"
  by (simp add: leaf_node_def)

text \<open>The contents of \<^verbatim>\<open>_tmp_idx\<close> when the new element goes to position \<open>i\<close>.\<close>

definition split_idx :: "nat \<Rightarrow> nat list" where
  "split_idx i = map (\<lambda>j. if j < i then j else if j = i then npos else j - 1) [0..<5]"

lemma prepare_tmp_idx_eq:
  assumes "length (bt_tmp_idx t) = 5" "i \<le> 4"
  shows "prepare_tmp_idx i t = Some (t\<lparr>bt_tmp_idx := split_idx i\<rparr>)"
  using assms le4_cases [of i]
  by (simp only: length2 length3 length4 length5) (auto simp: prepare_tmp_idx_def split_idx_def vec_simps)

lemma nth_split_idx:
  "j < 5 \<Longrightarrow> split_idx i ! j = (if j < i then j else if j = i then npos else j - 1)"
  by (simp add: split_idx_def)

lemma length_split_idx [simp]: "length (split_idx i) = 5"
  by (simp add: split_idx_def)

lemma fill_right_leaf_node:
  assumes "length ks = 4" "length ds = 4" "i \<le> 4" "\<forall>x\<in>set ks. nul_free x" "nul_free k"
  shows "fill_right_leaf (split_idx i) k d (leaf_node par ks ds a b)
      \<lparr>parent = q, is_leaf = True, key = [], child = [], data = [], prev = a', nxt = b'\<rparr> =
    Some (leaf_node q (drop 2 (ins_at i k ks)) (drop 2 (ins_at i (ucast d) ds)) a' b')"
  using assms le4_cases [of i]
  by (simp only: length2 length3 length4 length5) (auto simp: fill_right_leaf_def leaf_node_def split_idx_def vec_simps)

lemma keep_left_leaf_node:
  assumes "length ks = 4" "length ds = 4" "i \<le> 4"
  shows "keep_left_leaf (split_idx i) k d (leaf_node par ks ds a b) =
    Some (leaf_node par (take 2 (ins_at i k ks)) (take 2 (ins_at i (ucast d) ds)) a b)"
  using assms le4_cases [of i]
  by (simp only: length2 length3 length4 length5) (auto simp: keep_left_leaf_def leaf_node_def split_idx_def vec_simps)

lemma erase_leaf_entry_node:
  assumes "length ds = length ks" "i < length ks"
  shows "erase_leaf_entry i (leaf_node par ks ds a b) =
    Some (leaf_node par (del_at i ks) (del_at i ds) a b)"
  using assms
  by (cases "length ks") (simp_all add: erase_leaf_entry_def erase_at_def leaf_node_def del_at_def
      pop_back_def replicate_append_same [symmetric])

lemma shift_right_leaf_node:
  assumes "length ks = 2" "length ds = 2" "i < 2"
  shows "shift_right_leaf i (leaf_node par ks ds a b) =
    Some (leaf_node par (hd ks # del_at i ks) (hd ds # del_at i ds) a b)"
  using assms less2_cases [of i]
  by (simp only: length2 length3 length4 length5) (auto simp: shift_right_leaf_def leaf_node_def vec_simps)

lemma shift_left_append_node:
  assumes "length ks = 2" "length ds = 2" "i < 2"
  shows "shift_left_append i k d (leaf_node par ks ds a b) =
    Some (leaf_node par (del_at i ks @ [k]) (del_at i ds @ [d]) a b)"
  using assms less2_cases [of i]
  by (simp only: length2 length3 length4 length5) (auto simp: shift_left_append_def leaf_node_def vec_simps)

section \<open>Inner nodes\<close>

lemma keep_left_innode_node:
  assumes "length ks = 4" "length cs = 5" "i \<le> 4"
  shows "keep_left_innode (split_idx i) k c (inner_node par ks cs) =
    Some (inner_node par (take 2 (ins_at i k ks)) (take 3 (ins_at (Suc i) c cs)))"
  using assms le4_cases [of i]
  by (simp only: length2 length3 length4 length5) (auto simp: keep_left_innode_def inner_node_def split_idx_def vec_simps)

text \<open>Removing key \<open>i\<close> and the child behind it from a node with two keys.\<close>

lemma shift_right_innode_node:
  assumes "length ks = 2" "length cs = 3" "i < 2"
  shows "shift_right_innode i (inner_node par ks cs) =
    Some (inner_node par (hd ks # del_at i ks) (hd cs # del_at (Suc i) cs))"
  using assms less2_cases [of i]
  by (simp only: length2 length3 length4 length5) (auto simp: shift_right_innode_def inner_node_def vec_simps)

lemma shift_left_innode_node:
  assumes "length ks = 2" "length cs = 3" "i < 2"
  shows "shift_left_innode i (inner_node par ks cs) =
    Some (inner_node par (del_at i ks @ [last ks]) (del_at (Suc i) cs @ [last cs]))"
  using assms less2_cases [of i]
  by (simp only: length2 length3 length4 length5) (auto simp: shift_left_innode_def inner_node_def vec_simps)

end
