(* ===== verification/BTree_Search.thy ===== *)
theory BTree_Search
  imports BTree_Rep
begin

text \<open>
  The descent of \<^verbatim>\<open>BTree::search\<close> over a represented tree: it ends in the one leaf whose
  bounds contain the key, and the index vector it leaves describes the path to that leaf.
\<close>

text \<open>A focus whose surroundings and own nodes satisfy the invariant.\<close>

definition focus_ok :: "frame list \<Rightarrow> tree \<Rightarrow> string option \<Rightarrow> string option \<Rightarrow> nat \<Rightarrow> bool" where
  "focus_ok fs T lo hi n \<longleftrightarrow> path_inv lo hi n fs \<and> tinv (min_keys fs) lo hi n T \<and> path_sep fs T"

lemma focus_ok_root: "focus_ok fs T lo hi n \<Longrightarrow> root_inv (plug fs T)"
  by (auto simp: focus_ok_def intro: inv_plug)

text \<open>The vector \<^verbatim>\<open>_hot_idx\<close> of a path, root first.\<close>

definition path_idx :: "frame list \<Rightarrow> nat list" where
  "path_idx fs = rev (map (\<lambda>(p, L, R). length L) fs)"

lemma path_idx_simps [simp]:
  "path_idx [] = []" "path_idx ((p, L, R) # fs) = path_idx fs @ [length L]"
  by (simp_all add: path_idx_def)

lemma repF_inner:
  assumes "repF t fs [Nd p ks ts]"
  shows "bt_heap t p = Some (inner_node (ptop fs) ks (map addr ts))" "p \<noteq> 0"
proof -
  from assms have "has (bt_heap t) p (inner_node (ptop fs) ks (map addr ts)) \<and> p \<noteq> 0"
    by (auto simp: repF_def heap_is_def frame_nodes_def)
  then show "bt_heap t p = Some (inner_node (ptop fs) ks (map addr ts))" "p \<noteq> 0"
    by (simp_all add: has_inner)
qed

lemma repF_leaf:
  assumes "repF t fs [Lf p ks ds]"
  shows "bt_heap t p = Some (leaf_node (ptop fs) ks ds
           (last_of 0 (path_leaves_left fs)) (first_of (path_leaves_right fs) 0))" "p \<noteq> 0"
proof -
  from assms have h: "has (bt_heap t) p (leaf_node (ptop fs) ks ds 0 0)" "p \<noteq> 0"
    and l: "link (bt_heap t) p (last_of 0 (path_leaves_left fs)) (first_of (path_leaves_right fs) 0)"
    by (auto simp: repF_def heap_is_def frame_nodes_def frame_leaves_def)
  from h obtain a b where ab: "bt_heap t p = Some (leaf_node (ptop fs) ks ds a b)"
    by (auto simp: has_leaf)
  with l show "bt_heap t p = Some (leaf_node (ptop fs) ks ds
           (last_of 0 (path_leaves_left fs)) (first_of (path_leaves_right fs) 0))"
    by (simp add: link_leaf)
  show "p \<noteq> 0" by (rule h)
qed

lemma lo_of_lefts_at:
  "length ts = Suc (length ks) \<Longrightarrow> i \<le> length ks \<Longrightarrow>
   lo_of lo (lefts_at i ks ts) = (if i = 0 then lo else Some (ks ! (i - 1)))"
  by (cases i) (auto simp: lo_of_def lefts_at_def last_conv_nth zip_eq_Nil_iff)

lemma hi_of_rights_at:
  "length ts = Suc (length ks) \<Longrightarrow> i \<le> length ks \<Longrightarrow>
   hi_of hi (rights_at i ks ts) = (if i < length ks then Some (ks ! i) else hi)"
  by (auto simp: hi_of_def rights_at_def hd_conv_nth zip_eq_Nil_iff)

text \<open>One step down: opening the node at the child the search chooses.\<close>

lemma focus_ok_down:
  assumes f: "focus_ok fs (Nd p ks ts) lo hi (Suc n)" and k: "lbound lo k" "ubound hi k"
    and i: "i = upper_bound ks k" and L: "L = lefts_at i ks ts" and R: "R = rights_at i ks ts"
  shows "focus_ok ((p, L, R) # fs) (ts ! i) (lo_of lo L) (hi_of hi R) n"
    and "lbound (lo_of lo L) k" and "ubound (hi_of hi R) k"
    and "plug ((p, L, R) # fs) (ts ! i) = plug fs (Nd p ks ts)" and "length L = i"
proof -
  from f have inv: "tinv (min_keys fs) lo hi (Suc n) (Nd p ks ts)"
    and pi: "path_inv lo hi (Suc n) fs" by (simp_all add: focus_ok_def)
  have len: "length ts = Suc (length ks)" using inv by (auto dest: invs_length)
  have il: "i \<le> length ks" using i by simp
  note op = open_frame [OF len il, folded L R]
  show "length L = i" by (rule op)
  show "plug ((p, L, R) # fs) (ts ! i) = plug fs (Nd p ks ts)" by (simp add: op)
  have "tinv (min_keys fs) lo hi (Suc n) (Nd p (fkeys L R) (ftrees L [ts ! i] R))"
    using inv op by (simp del: tinv.simps)
  then have "max 1 (min_keys fs) \<le> length L + length R \<and> length L + length R \<le> 4 \<and>
     inv_left lo n L \<and> sep_left L (ts ! i) \<and>
     tinv 2 (lo_of lo L) (hi_of hi R) n (ts ! i) \<and> inv_right hi n R"
    by (simp only: inv_Nd_frame)
  then show "focus_ok ((p, L, R) # fs) (ts ! i) (lo_of lo L) (hi_of hi R) n"
    using pi by (auto simp: focus_ok_def)
  have "i \<noteq> 0 \<Longrightarrow> ks ! (i - 1) \<le> k" using i upper_bound_below [of "i - 1" ks k] by simp
  then show "lbound (lo_of lo L) k" using k by (simp add: L lo_of_lefts_at [OF len il])
  have "i < length ks \<Longrightarrow> k < ks ! i" using i upper_bound_above [of ks k] by simp
  then show "ubound (hi_of hi R) k" using k by (simp add: R hi_of_rights_at [OF len il])
qed

lemma search_loop_correct:
  assumes "repF t fs [T]" "focus_ok fs T lo hi n" "lbound lo k" "ubound hi k"
  shows "\<exists>fs' p ks ds lo' hi'.
    search_loop t k (addr T) hot (path_idx fs) = Some (p, path_idx fs' @ [upper_bound ks k]) \<and>
    plug fs' (Lf p ks ds) = plug fs T \<and> focus_ok fs' (Lf p ks ds) lo' hi' 0 \<and>
    lbound lo' k \<and> ubound hi' k"
  using assms
proof (induction n arbitrary: fs T lo hi hot)
  case 0
  then obtain p ks ds where T: "T = Lf p ks ds" by (cases T) (auto simp: focus_ok_def)
  note h = repF_leaf [OF "0.prems"(1) [unfolded T]]
  have "search_loop t k (addr T) hot (path_idx fs) = Some (p, path_idx fs @ [upper_bound ks k])"
    using h by (simp add: T search_loop.simps [of t k p] search_loop.simps [of t k 0] node_at_def
        del: replicate_Suc)
  with "0.prems" T show ?case by blast
next
  case (Suc n)
  then obtain p ks ts where T: "T = Nd p ks ts" by (cases T) (auto simp: focus_ok_def)
  define i where "i = upper_bound ks k"
  define L where "L = lefts_at i ks ts"
  define R where "R = rights_at i ks ts"
  note down = focus_ok_down [OF Suc.prems(2) [unfolded T] Suc.prems(3,4) i_def L_def R_def]
  have len: "length ts = Suc (length ks)"
    using Suc.prems(2) by (auto simp: T focus_ok_def dest: invs_length)
  have rep: "repF t ((p, L, R) # fs) [ts ! i]"
    using Suc.prems(1) down(4) repF_plug [of t fs T] repF_plug [of t "(p, L, R) # fs" "ts ! i"]
    by (simp add: T)
  have step: "search_loop t k (addr T) hot (path_idx fs) =
      search_loop t k (addr (ts ! i)) p (path_idx ((p, L, R) # fs))"
    using repF_inner [OF Suc.prems(1) [unfolded T]] len down(5)
    by (simp add: T search_loop.simps [of t k p] node_at_def at_def i_def less_Suc_eq_le)
  show ?case
    using Suc.IH [OF rep down(1-3), of p] unfolding step unfolding down(4) by (simp only: T)
qed

section \<open>The leaf the search ends in\<close>

lemma upper_bound_split:
  assumes "sorted_wrt (<) ks"
  shows "x \<in> set (drop (upper_bound ks k) ks) \<Longrightarrow> k < x"
    and "x \<in> set (take (upper_bound ks k) ks) \<Longrightarrow> x \<le> k"
proof -
  have d: "drop (upper_bound ks k) ks = dropWhile (\<lambda>x. \<not> k < x) ks"
    by (simp add: upper_bound_def dropWhile_eq_drop)
  show "x \<in> set (drop (upper_bound ks k) ks) \<Longrightarrow> k < x"
    unfolding d using assms
    by (induction ks) (auto split: if_splits)
  have t: "take (upper_bound ks k) ks = takeWhile (\<lambda>x. \<not> k < x) ks"
    by (simp add: upper_bound_def takeWhile_eq_take [symmetric])
  show "x \<in> set (take (upper_bound ks k) ks) \<Longrightarrow> x \<le> k"
    unfolding t by (auto dest: set_takeWhileD)
qed

lemma upper_bound_found:
  assumes s: "sorted_wrt (<) ks" and k: "k \<in> set ks"
  shows "0 < upper_bound ks k" "ks ! (upper_bound ks k - 1) = k"
proof -
  from k obtain xs ys where ks: "ks = xs @ k # ys" by (auto simp: in_set_conv_decomp)
  from s have "\<forall>x\<in>set xs. x < k" "\<forall>y\<in>set ys. k < y" by (auto simp: ks sorted_wrt_append)
  then have "upper_bound ks k = Suc (length xs)"
    by (cases ys) (auto simp: ks upper_bound_def takeWhile_append not_less dest: less_imp_le)
  then show "0 < upper_bound ks k" "ks ! (upper_bound ks k - 1) = k"
    by (simp_all add: ks)
qed

lemma scast_minus_1 [simp]: "scast (d :: 32 word) = (-1 :: 64 word) \<longleftrightarrow> d = -1"
proof
  assume "scast d = (-1 :: 64 word)"
  then have "sint (scast d :: 64 word) = -1" by simp
  then have "sint d = -1" by (simp add: sint_up_scast is_up)
  then have "sint d = sint (-1 :: 32 word)" by simp
  then show "d = -1" by (rule signed_word_eqI)
qed simp

text \<open>A tree state that represents a tree with the invariant.\<close>

definition btree_rep :: "btree \<Rightarrow> tree \<Rightarrow> bool" where
  "btree_rep t T \<longleftrightarrow> repF t [] [T] \<and> root_inv T"

lemma search_hot_correct:
  assumes "btree_rep t T"
  obtains fs p ks ds lo hi where
    "T = plug fs (Lf p ks ds)" "repF t fs [Lf p ks ds]" "focus_ok fs (Lf p ks ds) lo hi 0"
    "lbound lo k" "ubound hi k"
    "k \<notin> set ks \<Longrightarrow> search_hot t k = Some (-1, p, path_idx fs @ [upper_bound ks k])"
    "k \<in> set ks \<Longrightarrow> search_hot t k =
       Some (scast (ds ! (upper_bound ks k - 1)), p, path_idx fs @ [upper_bound ks k - 1])"
proof -
  from assms obtain n where rep: "repF t [] [T]" and f: "focus_ok [] T None None n"
    by (auto simp: btree_rep_def root_inv_def focus_ok_def)
  from search_loop_correct [OF rep f, of k 0]
  obtain fs p ks ds lo hi where
    s: "search_loop t k (addr T) 0 [] = Some (p, path_idx fs @ [upper_bound ks k])" and
    T: "plug fs (Lf p ks ds) = T" and f': "focus_ok fs (Lf p ks ds) lo hi 0" and
    b: "lbound lo k" "ubound hi k" by auto
  have rep': "repF t fs [Lf p ks ds]" using rep by (simp add: repF_plug [of t fs] T)
  have root: "bt_root t = addr T" using rep by (simp add: repF_def)
  have ok: "leaf_ok lo hi ks ds" using f' by (simp add: focus_ok_def)
  then have srt: "sorted_wrt (<) ks" and len: "length ds = length ks" by (simp_all add: leaf_ok_def)
  note h = repF_leaf [OF rep']
  let ?i = "upper_bound ks k"
  have il: "?i - 1 < length ks" if "0 < ?i"
    using that upper_bound_le [of ks k] by linarith
  have nf: "search_hot t k = Some (-1, p, path_idx fs @ [?i])" if "k \<notin> set ks"
  proof -
    have "ks ! (?i - 1) \<noteq> k" if "0 < ?i"
      using nth_mem [OF il [OF that]] \<open>k \<notin> set ks\<close> by metis
    then show ?thesis
      using h il
      by (simp add: search_hot_def root s node_at_def at_def)
  qed
  have fd: "search_hot t k = Some (scast (ds ! (?i - 1)), p, path_idx fs @ [?i - 1])"
    if "k \<in> set ks"
    using h il upper_bound_found [OF srt that] len
    by (simp add: search_hot_def root s node_at_def at_def)
  show thesis by (rule that [OF T [symmetric] rep' f' b nf fd])
qed

end
