(* ===== verification/BTree_Heap.thy ===== *)
theory BTree_Heap
  imports BTree_Nodes BTree_Search
begin

text \<open>
  Moving children to another parent, growing a parent or the root, and splitting a node:
  the heap operations of \<^verbatim>\<open>btree.cpp\<close> that several functions share, each with what it does
  to the represented tree.
\<close>

section \<open>Changing parents\<close>

definition reparent :: "(ptr \<rightharpoonup> bnode) \<Rightarrow> ptr set \<Rightarrow> ptr \<Rightarrow> (ptr \<rightharpoonup> bnode)" where
  "reparent h C u = (\<lambda>p. if p \<in> C then map_option (\<lambda>n. n\<lparr>parent := u\<rparr>) (h p) else h p)"

lemma set_parent_eq [exec_simps]:
  "c \<in> dom (bt_heap t) \<Longrightarrow>
   set_parent t c u = Some (t\<lparr>bt_heap := reparent (bt_heap t) {c} u\<rparr>)"
  by (auto simp: set_parent_def modify_node_def node_at_def put_node_def reparent_def fun_eq_iff
      intro!: arg_cong [where f = "\<lambda>h. t\<lparr>bt_heap := h\<rparr>"])

lemma reparent_reparent [simp]: "reparent (reparent h C u) D u = reparent h (C \<union> D) u"
  by (auto simp: reparent_def option.map_comp comp_def)

lemma reparent_upd: "p \<notin> C \<Longrightarrow> reparent (h(p \<mapsto> n)) C u = (reparent h C u)(p \<mapsto> n)"
  by (auto simp: reparent_def)

lemma reparent_other [simp]: "p \<notin> C \<Longrightarrow> reparent h C u p = h p"
  by (simp add: reparent_def)

lemma reparent_in: "p \<in> C \<Longrightarrow> reparent h C u p = map_option (\<lambda>n. n\<lparr>parent := u\<rparr>) (h p)"
  by (simp add: reparent_def)

lemma dom_reparent [simp]: "dom (reparent h C u) = dom h"
  by (auto simp: reparent_def dom_def)

lemma link_reparent [frame_simps]: "link (reparent h C u) p a b \<longleftrightarrow> link h p a b"
  by (auto simp: link_def reparent_def)

lemma linked_reparent [frame_simps]: "linked (reparent h C u) a ps b \<longleftrightarrow> linked h a ps b"
  by (induction ps arbitrary: a) (simp_all add: link_reparent)

lemma has_reparent [frame_simps]: "p \<notin> C \<Longrightarrow> has (reparent h C u) p c \<longleftrightarrow> has h p c"
  by (simp add: has_def)

lemma holds_reparent [frame_simps]:
  assumes "C \<inter> fst ` set N = {}"
  shows "holds (reparent h C u) N \<longleftrightarrow> holds h N"
proof -
  have "p \<notin> C" if "(p, c) \<in> set N" for p c using that assms by force
  then show ?thesis unfolding holds_def by (auto simp: has_reparent)
qed

definition node_core :: "ptr \<Rightarrow> tree \<Rightarrow> bnode" where
  "node_core p T = (case T of Lf q ks ds \<Rightarrow> leaf_node p ks ds 0 0
     | Nd q ks ts \<Rightarrow> inner_node p ks (map addr ts))"

definition nodes_below :: "tree \<Rightarrow> (ptr \<times> bnode) list" where
  "nodes_below T = (case T of Lf q ks ds \<Rightarrow> [] | Nd q ks ts \<Rightarrow> concat (map (nodes_of q) ts))"

lemma nodes_of_split: "nodes_of p T = (addr T, node_core p T) # nodes_below T"
  by (cases T) (simp_all add: node_core_def nodes_below_def)

lemma addrs_split: "addrs T = addr T # map fst (nodes_below T)"
  using fst_nodes_of [of 0 T] by (simp add: nodes_of_split)

lemma core_parent: "core n = node_core p T \<Longrightarrow> core (n\<lparr>parent := u\<rparr>) = node_core u T"
  by (cases T; cases n)
    (auto simp: node_core_def core_def leaf_node_def inner_node_def split: if_splits)

lemma holds_reparent_trees:
  assumes "holds h (concat (map (nodes_of p) ts))" "distinct (concat (map addrs ts))"
  shows "holds (reparent h (set (map addr ts)) u) (concat (map (nodes_of u) ts))"
proof -
  have "has (reparent h (set (map addr ts)) u) q c"
    if T: "T \<in> set ts" "(q, c) \<in> set (nodes_of u T)" for T q c
  proof (cases "(q, c) \<in> set (nodes_below T)")
    case True
    then have "(q, c) \<in> set (nodes_of p T)" by (simp add: nodes_of_split)
    with T assms(1) have "has h q c" by (auto simp: holds_def)
    moreover have "q \<notin> set (map addr ts)"
    proof
      assume "q \<in> set (map addr ts)"
      then obtain S where S: "S \<in> set ts" "q = addr S" by auto
      have q: "q \<in> set (map fst (nodes_below T))" using True by force
      show False
      proof (cases "S = T")
        case True
        have "distinct (addrs T)" using T assms(2) by (auto simp: distinct_concat_iff)
        then show False using q S True by (simp add: addrs_split)
      next
        case False
        then have "addrs S \<noteq> addrs T"
        proof -
          obtain xs ys where "ts = xs @ S # ys" using S by (auto simp: in_set_conv_decomp)
          with assms(2) T False have "set (addrs S) \<inter> set (addrs T) = {}" by auto
          then show ?thesis by (auto simp: addrs_split)
        qed
        moreover have "q \<in> set (addrs S)" "q \<in> set (addrs T)"
          using S q by (simp_all add: addrs_split)
        ultimately show False using assms(2) S T by (auto simp: distinct_concat_iff)
      qed
    qed
    ultimately show ?thesis by (simp add: has_reparent)
  next
    case False
    with T have qc: "q = addr T" "c = node_core u T" by (auto simp: nodes_of_split)
    have "has h q (node_core p T)" using T assms(1) qc
      by (auto simp: holds_def nodes_of_split)
    then show ?thesis using T qc
      by (auto simp: has_def reparent_def core_parent)
  qed
  then show ?thesis by (auto simp: holds_def)
qed

section \<open>Updates of a represented heap\<close>

lemma linked_in_dom: "linked h a ps b \<Longrightarrow> set ps \<subseteq> dom h"
  by (induction ps arbitrary: a) (auto simp: link_def)

lemma heap_isD:
  assumes "heap_is h N ls"
  shows "distinct (map fst N)" "dom h = fst ` set N" "0 \<notin> fst ` set N" "holds h N"
    "linked h 0 ls 0" "set ls \<subseteq> fst ` set N"
  using assms linked_in_dom [of h 0 ls 0] by (auto simp: heap_is_def)

text \<open>A new content for one node that keeps its place in the chain of leaves.\<close>

lemma heap_is_upd:
  assumes "heap_is h ((p, c) # N) ls" "core n = c'" "p \<in> set ls \<Longrightarrow> link h p (prev n) (nxt n)"
  shows "heap_is (h(p \<mapsto> n)) ((p, c') # N) ls"
proof -
  have "linked (h(p \<mapsto> n)) 0 ls 0"
    using assms(3) heap_isD(5) [OF assms(1)]
    by (cases "p \<in> set ls") (simp_all add: linked_upd linked_upd_same)
  moreover have "p \<notin> fst ` set N" using heap_isD(1) [OF assms(1)] by auto
  ultimately show ?thesis
    using assms(1,2) by (auto simp: heap_is_def has_upd holds_upd)
qed

lemma linked_upd_links:
  "h p = Some m \<Longrightarrow> prev n = prev m \<Longrightarrow> nxt n = nxt m \<Longrightarrow> linked (h(p \<mapsto> n)) a ps b \<longleftrightarrow> linked h a ps b"
  by (induction ps arbitrary: a) (auto simp: link_upd link_def)

text \<open>A new content for one node that keeps its links; the order of the nodes does not matter.\<close>

lemma heap_is_set:
  assumes h: "heap_is h N ls" and p: "h p = Some m" "prev n = prev m" "nxt n = nxt m"
    and N: "mset N = add_mset (p, c) M" and N': "mset N' = add_mset (p, core n) M"
  shows "heap_is (h(p \<mapsto> n)) N' ls"
proof -
  obtain xs where xs: "M = mset xs" by (metis ex_mset)
  have m: "mset N = mset ((p, c) # xs)" "mset ((p, core n) # xs) = mset N'" by (simp_all add: N N' xs)
  have "heap_is h ((p, c) # xs) ls" using h by (simp add: heap_is_perm [OF m(1)])
  moreover then have "p \<notin> fst ` set xs" by (auto simp: heap_is_def)
  ultimately have "heap_is (h(p \<mapsto> n)) ((p, core n) # xs) ls"
    using p by (auto simp: heap_is_def has_upd holds_upd linked_upd_links)
  then show ?thesis by (simp add: heap_is_perm [OF m(2)])
qed

lemma heap_is_new:
  assumes "heap_is h N ls" "p \<notin> dom h" "p \<noteq> 0"
  shows "heap_is (h(p \<mapsto> n)) ((p, core n) # N) ls"
proof -
  have "p \<notin> set ls" using assms(2) heap_isD(2,6) [OF assms(1)] by auto
  then show ?thesis
    using assms by (auto simp: heap_is_def has_upd holds_upd linked_upd)
qed

lemma heap_is_del:
  assumes "heap_is h ((p, c) # N) ls" "p \<notin> set ls"
  shows "heap_is (h(p := None)) N ls"
  using assms by (auto simp: heap_is_def has_del holds_del linked_del)

lemma heap_is_reparent:
  assumes "heap_is h (concat (map (nodes_of p) ts) @ N) ls"
  shows "heap_is (reparent h (set (map addr ts)) u) (concat (map (nodes_of u) ts) @ N) ls"
proof -
  have f: "map fst (concat (map (nodes_of q) ts)) = concat (map addrs ts)" for q
    using fst_concat_nodes [of q id ts] by (simp add: comp_def)
  have s: "fst ` set (concat (map (nodes_of q) ts)) = set (concat (map addrs ts))" for q
    by (metis f set_map)
  have d: "distinct (concat (map addrs ts) @ map fst N)"
    using heap_isD(1) [OF assms] by (simp only: map_append f)
  have "addr ` set ts \<subseteq> set (concat (map addrs ts))"
    by (auto simp: addrs_split)
  then have "set (map addr ts) \<inter> fst ` set N = {}" using d by auto
  then show ?thesis
    using assms d holds_reparent_trees [of h p ts u]
    unfolding heap_is_def
    by (simp only: map_append f set_append image_Un s holds_simps dom_reparent
        holds_reparent linked_reparent) simp
qed

text \<open>
  A new leaf \<open>u\<close> goes into the chain behind \<open>hot\<close>: its links are set, the next leaf and
  \<open>hot\<close> point to it.
\<close>

definition set_prev :: "(ptr \<rightharpoonup> bnode) \<Rightarrow> ptr \<Rightarrow> ptr \<Rightarrow> (ptr \<rightharpoonup> bnode)" where
  "set_prev h p a = (if p = nullptr then h else h(p := map_option (\<lambda>n. n\<lparr>prev := a\<rparr>) (h p)))"

lemma heap_is_link_in:
  assumes h: "heap_is h ((hot, c) # N) (xs @ hot # ys)" and d: "distinct (xs @ hot # ys)"
    and u: "u \<notin> dom h" "u \<noteq> 0"
    and lf: "\<And>p n. p \<in> set ys \<Longrightarrow> h p = Some n \<Longrightarrow> is_leaf n"
    and b: "b = first_of ys 0" and a: "a = last_of 0 xs"
    and n: "prev nu = hot" "nxt nu = b" "prev nh = a" "nxt nh = u"
  shows "heap_is ((set_prev h b u)(u \<mapsto> nu, hot \<mapsto> nh))
    ((hot, core nh) # (u, core nu) # N) (xs @ hot # u # ys)"
proof -
  note hD = heap_isD [OF h]
  have uls: "u \<notin> set (xs @ hot # ys)" using u(1) hD(2,6) by auto
  have hu: "hot \<noteq> u" using uls by auto
  have hN: "hot \<notin> fst ` set N" "u \<notin> fst ` set N" using hD(1,2) u by auto
  show ?thesis
  proof (cases ys)
    case Nil
    then show ?thesis
      using hD(1-5) d u hu hN uls n a b
      by (auto simp: heap_is_def set_prev_def has_upd holds_upd linked_upd link_upd)
  next
    case (Cons y zs)
    then have "y \<in> fst ` set ((hot, c) # N)" using hD(6) by auto
    with hD(3) have "y \<noteq> 0" by metis
    with Cons b have yb: "b = y" "y \<noteq> 0" by simp_all
    obtain m where m: "h y = Some m" "prev m = hot" "nxt m = first_of zs 0" "is_leaf m"
      using hD(5) lf [of y] by (auto simp: Cons link_def)
    have "core (m\<lparr>prev := u\<rparr>) = core m" using m(4) by (simp add: core_def)
    then have "holds (h(y \<mapsto> m\<lparr>prev := u\<rparr>)) N = holds h N"
      using m(1) by (intro holds_upd_core)
    then show ?thesis
      using hD(1-5) d u hu hN uls n a b m
      by (auto simp: Cons yb heap_is_def set_prev_def has_upd holds_upd linked_upd link_upd)
  qed
qed

text \<open>A leaf leaves the chain: its neighbours are linked to each other, and it is freed.\<close>

lemma heap_is_unlink:
  assumes h: "heap_is h ((hot, c) # (p, cp) # N) (xs @ p # hot # ys)" and d: "distinct (xs @ p # hot # ys)"
    and lf: "\<And>q n. q \<in> set ys \<Longrightarrow> h q = Some n \<Longrightarrow> is_leaf n"
    and b: "b = first_of ys 0" and n: "prev np = last_of 0 xs" "nxt np = b"
  shows "heap_is ((set_prev (h(p \<mapsto> np)) b p)(hot := None)) ((p, core np) # N) (xs @ p # ys)"
proof -
  note hD = heap_isD [OF h]
  have hN: "hot \<notin> fst ` set N" "p \<notin> fst ` set N" "hot \<noteq> p" using hD(1) by auto
  show ?thesis
  proof (cases ys)
    case Nil
    then show ?thesis
      using hD(1-5) d hN n b
      by (auto simp: heap_is_def set_prev_def has_upd has_del holds_upd holds_del linked_upd
          linked_del link_upd link_del)
  next
    case (Cons y zs)
    then have "y \<in> fst ` set ((hot, c) # (p, cp) # N)" using hD(6) by auto
    with hD(3) have "y \<noteq> 0" by metis
    with Cons b have yb: "b = y" "y \<noteq> 0" by simp_all
    obtain m where m: "h y = Some m" "nxt m = first_of zs 0" "is_leaf m"
      using hD(5) lf [of y] by (auto simp: Cons link_def)
    have "core (m\<lparr>prev := p\<rparr>) = core m" using m(3) by (simp add: core_def)
    then have "holds (h(p \<mapsto> np, y \<mapsto> m\<lparr>prev := p\<rparr>)) N = holds (h(p \<mapsto> np)) N"
      using d m(1) by (intro holds_upd_core) (auto simp: Cons)
    then show ?thesis
      using hD(1-5) d hN n b m
      by (auto simp: Cons yb heap_is_def set_prev_def has_upd has_del holds_upd holds_del linked_upd
          linked_del link_upd link_del)
  qed
qed

section \<open>The leaves among the nodes\<close>

definition leaf_addrs :: "(ptr \<times> bnode) list \<Rightarrow> ptr list" where
  "leaf_addrs N = map fst (filter (\<lambda>x. is_leaf (snd x)) N)"

lemma leaf_addrs_simps [simp]:
  "leaf_addrs [] = []" "leaf_addrs ((p, c) # N) = (if is_leaf c then [p] else []) @ leaf_addrs N"
  "leaf_addrs (N @ N') = leaf_addrs N @ leaf_addrs N'"
  by (simp_all add: leaf_addrs_def)

lemma leaf_addrs_concat: "leaf_addrs (concat Ns) = concat (map leaf_addrs Ns)"
  by (induction Ns) simp_all

lemma leaf_addrs_nodes [simp]: "leaf_addrs (nodes_of p T) = leaves T"
  by (induction p T rule: nodes_of.induct)
    (simp_all add: leaf_addrs_concat comp_def cong: map_cong)

lemma leaf_addrs_parts [simp]:
  "leaf_addrs (lefts_nodes p L) = concat (map (leaves \<circ> fst) L)"
  "leaf_addrs (rights_nodes p R) = concat (map (leaves \<circ> snd) R)"
  by (simp_all add: lefts_nodes_def rights_nodes_def leaf_addrs_concat comp_def)

lemma leaf_addrs_path:
  "mset (leaf_addrs (path_nodes c fs)) = mset (path_leaves_left fs @ path_leaves_right fs)"
  by (induction c fs rule: path_nodes.induct) simp_all

lemma leaf_addrs_frame: "mset (leaf_addrs (frame_nodes fs ts)) = mset (frame_leaves fs ts)"
proof -
  have "leaf_addrs (concat (map (nodes_of (ptop fs)) ts)) = concat (map leaves ts)"
    by (simp add: leaf_addrs_concat comp_def)
  then show ?thesis
    by (simp add: frame_nodes_def frame_leaves_def leaf_addrs_path)
qed

lemma heap_leaves:
  assumes "heap_is h N ls" "mset (leaf_addrs N) = mset ls"
  shows "distinct ls" and "p \<in> set ls \<Longrightarrow> h p = Some n \<Longrightarrow> is_leaf n"
proof -
  have "distinct (leaf_addrs N)"
    using heap_isD(1) [OF assms(1)] by (simp add: leaf_addrs_def distinct_map_filter)
  then show "distinct ls" using assms(2) by (metis mset_eq_imp_distinct_iff)
  show "is_leaf n" if p: "p \<in> set ls" "h p = Some n"
  proof -
    have "p \<in> set (leaf_addrs N)" using p(1) assms(2) by (metis mset_eq_setD)
    then obtain c where "(p, c) \<in> set N" "is_leaf c" by (auto simp: leaf_addrs_def)
    then have "core n = c" using p heap_isD(4) [OF assms(1)] by (auto simp: holds_def has_def)
    with \<open>is_leaf c\<close> show ?thesis by (auto simp: core_def split: if_splits)
  qed
qed

section \<open>Symbolic execution\<close>

lemma node_updates [simp]:
  "(inner_node q ks cs)\<lparr>key := ks'\<rparr> = inner_node q ks' cs"
  "(inner_node q ks cs)\<lparr>child := cs'\<rparr> = inner_node q ks cs'"
  "(leaf_node q ks ds a b)\<lparr>prev := a'\<rparr> = leaf_node q ks ds a' b"
  "(leaf_node q ks ds a b)\<lparr>nxt := b'\<rparr> = leaf_node q ks ds a b'"
  by (simp_all add: inner_node_def leaf_node_def)

lemma mk_bnode_inner [simp]: "mk_bnode q False = inner_node q [] []"
  by (simp add: mk_bnode_def inner_node_def)

lemma modify_node_eq [exec_simps]:
  "bt_heap t p = Some n \<Longrightarrow>
   modify_node t p f = map_option (\<lambda>n'. t\<lparr>bt_heap := (bt_heap t)(p \<mapsto> n')\<rparr>) (f n)"
  by (cases "f n") (simp_all add: modify_node_def node_at_def put_node_def)

lemma node_at_eq [exec_simps]: "node_at t p = bt_heap t p"
  by (simp add: node_at_def)

lemma bind_map_option [simp]: "Option.bind (map_option f x) g = Option.bind x (\<lambda>y. g (f y))"
  by (cases x) simp_all

lemma split_innode_eq:
  assumes h: "bt_heap t hot = Some (inner_node q ks cs)"
    and len: "length ks = 4" "length cs = 5" "length (bt_tmp_idx t) = 5" "i \<le> 4"
    and dom: "c \<in> dom (bt_heap t)" "set cs \<subseteq> dom (bt_heap t)" "bt_brk t \<notin> dom (bt_heap t)"
    and hot: "hot \<notin> set cs" "hot \<noteq> c"
    and nf: "\<forall>x\<in>set ks. nul_free x" "nul_free k"
  defines "ks' \<equiv> ins_at i k ks" and "cs' \<equiv> ins_at (Suc i) c cs" and "u \<equiv> bt_brk t"
  shows "split_innode k c hot i t = Some (ks' ! 2, u,
    t\<lparr>bt_tmp_idx := split_idx i, bt_brk := Suc u,
      bt_heap := (reparent (bt_heap t) (set (drop 3 cs')) u)
        (u \<mapsto> inner_node q (drop 3 ks') (drop 3 cs'),
         hot \<mapsto> inner_node q (take 2 ks') (take 3 cs'))\<rparr>)"
proof -
  obtain k0 k1 k2 k3 where ks: "ks = [k0, k1, k2, k3]" using len by (auto simp only: length4)
  obtain c0 c1 c2 c3 c4 where cs: "cs = [c0, c1, c2, c3, c4]" using len by (auto simp only: length5)
  have ne: "hot \<noteq> u" "u \<noteq> hot" using h dom unfolding u_def by auto
  have "u \<noteq> c0" "u \<noteq> c1" "u \<noteq> c2" "u \<noteq> c3" "u \<noteq> c4" "u \<noteq> c" using dom by (auto simp: cs u_def)
  moreover have "hot \<noteq> c0" "hot \<noteq> c1" "hot \<noteq> c2" "hot \<noteq> c3" "hot \<noteq> c4" using hot by (auto simp: cs)
  moreover have "c0 \<in> dom (bt_heap t)" "c1 \<in> dom (bt_heap t)" "c2 \<in> dom (bt_heap t)"
    "c3 \<in> dom (bt_heap t)" "c4 \<in> dom (bt_heap t)" using dom by (simp_all add: cs)
  ultimately show ?thesis
    using h ks cs len(3) dom(1) hot(2) nf ne le4_cases [OF len(4)]
    unfolding ks'_def cs'_def
    by (elim disjE) (simp_all add: split_innode_def prepare_tmp_idx_eq node_at_eq new_node_def
      take_middle_def move_to_right_innode_def move_child_to_right_def modify_node_eq set_parent_eq
      reparent_upd keep_left_innode_node u_def [symmetric] for_up_step nth_split_idx at_def
      ins_at_def nth_append insert_commute)
qed

lemma split_leaf_eq:
  fixes d :: "64 word"
  assumes h: "bt_heap t hot = Some (leaf_node q ks ds a b)"
    and len: "length ks = 4" "length ds = 4" "length (bt_tmp_idx t) = 5" "i \<le> 4"
    and u: "bt_brk t \<notin> dom (bt_heap t)"
    and b: "b \<noteq> 0 \<Longrightarrow> b \<in> dom (bt_heap t)" "b \<noteq> hot"
    and nf: "\<forall>x\<in>set ks. nul_free x" "nul_free k"
  defines "ks' \<equiv> ins_at i k ks" and "ds' \<equiv> ins_at i (ucast d) ds" and "u \<equiv> bt_brk t"
  shows "split_leaf k d hot i t = Some (u,
    t\<lparr>bt_tmp_idx := split_idx i, bt_brk := Suc u,
      bt_heap := (set_prev (bt_heap t) b u)
        (u \<mapsto> leaf_node q (drop 2 ks') (drop 2 ds') hot b,
         hot \<mapsto> leaf_node q (take 2 ks') (take 2 ds') a u)\<rparr>)"
proof -
  have ne: "hot \<noteq> u" "u \<noteq> hot" "b \<noteq> 0 \<Longrightarrow> u \<noteq> b" using h u b unfolding u_def by auto
  note sim = split_leaf_def prepare_tmp_idx_eq node_at_eq new_node_def modify_node_eq
    set_prev_def fill_right_leaf_node keep_left_leaf_node mk_bnode_def u_def [symmetric]
  show ?thesis
  proof (cases "b = 0")
    case True
    then show ?thesis using h len nf ne unfolding ks'_def ds'_def by (simp add: sim)
  next
    case False
    then obtain n where "bt_heap t b = Some n" using b by auto
    then show ?thesis using h len nf ne b False unfolding ks'_def ds'_def
      by (simp add: sim fun_upd_twist)
  qed
qed

end
