(* ===== verification/BPlus_Map.thy ===== *)
theory BPlus_Map
  imports BPlus_Tree
begin

text \<open>
  A tree with the invariant as a map: its entries are strictly sorted by key, the keys beside
  a path lie outside the bounds of the focus, and a change of one entry is an update of the map.
\<close>

section \<open>The keys of a tree\<close>

abbreviation keys_of :: "tree \<Rightarrow> string list" where
  "keys_of T \<equiv> map fst (entries T)"

lemma tree_keys:
  "tinv m lo hi n T \<Longrightarrow> sorted_wrt (<) (keys_of T) \<and>
     (\<forall>k\<in>set (keys_of T). lbound lo k \<and> ubound hi k) \<and> (0 < m \<longrightarrow> entries T \<noteq> [])"
  "tinvs lo hi n ks ts \<Longrightarrow> sorted_wrt (<) (concat (map keys_of ts)) \<and>
     (\<forall>k\<in>set (concat (map keys_of ts)). lbound lo k \<and> ubound hi k) \<and> concat (map entries ts) \<noteq> []"
proof (induction m lo hi n T and lo hi n ks ts rule: tinv_tinvs.induct)
  case (1 m lo hi n p ks ds)
  then show ?case by (auto simp: leaf_ok_def)
next
  case (2 m lo hi n p ks ts)
  then show ?case by (auto simp: map_concat comp_def)
next
  case (4 lo hi n t ts)
  then show ?case by auto
next
  case (6 lo hi n k ks t ts)
  then have t: "sorted_wrt (<) (keys_of t)" "\<forall>x\<in>set (keys_of t). lbound lo x \<and> x < k" "entries t \<noteq> []"
    and ts: "sorted_wrt (<) (concat (map keys_of ts))"
    "\<forall>x\<in>set (concat (map keys_of ts)). k \<le> x \<and> ubound hi x" "concat (map entries ts) \<noteq> []"
    by auto
  obtain y where y: "y \<in> set (keys_of t)" using t(3) by (cases "entries t") auto
  obtain z where z: "z \<in> set (concat (map keys_of ts))" using ts(3) by (fastforce simp: neq_Nil_conv)
  have "lbound lo x" if "x \<in> set (concat (map keys_of ts))" for x
    using t(2) y ts(2) that lbound_mono [of lo y x] by fastforce
  moreover have "ubound hi x" if "x \<in> set (keys_of t)" for x
    using t(2) z ts(2) that ubound_mono [of hi z x] by fastforce
  moreover have "x < z" if "x \<in> set (keys_of t)" "z \<in> set (concat (map keys_of ts))" for x z
    using t(2) ts(2) that by fastforce
  ultimately show ?case
    using t ts by (auto simp: sorted_wrt_append)
qed auto

lemma root_sorted: "root_inv T \<Longrightarrow> sorted_wrt (<) (keys_of T)"
  using tree_keys(1) by (auto simp: root_inv_def)

lemma sorted_wrt_distinct: "sorted_wrt (<) (xs :: 'a::linorder list) \<Longrightarrow> distinct xs"
  by (induction xs) auto

lemma root_distinct: "root_inv T \<Longrightarrow> distinct (keys_of T)"
  by (rule sorted_wrt_distinct [OF root_sorted])

lemma tree_key_ex: "tinv (Suc m) lo hi n T \<Longrightarrow> \<exists>k\<in>set (keys_of T). lbound lo k \<and> ubound hi k"
  using tree_keys(1) [of "Suc m" lo hi n T] by (cases "entries T") auto

section \<open>The keys beside a path\<close>

lemma left_keys:
  "inv_left lo n L \<Longrightarrow> lbound (lo_of lo L) k \<Longrightarrow>
   lbound lo k \<and> (\<forall>(T, s)\<in>set L. \<forall>x\<in>set (keys_of T). x < k)"
proof (induction lo n L rule: inv_left.induct)
  case (2 lo n t s L)
  then have "s \<le> k" "\<forall>(T, s)\<in>set L. \<forall>x\<in>set (keys_of T). x < k" by auto
  moreover obtain y where "lbound lo y" "y < s"
    using "2.prems"(1) tree_key_ex [of 1 lo "Some s" n t] by (auto simp: numeral_2_eq_2)
  moreover have "\<forall>x\<in>set (keys_of t). x < s" using "2.prems"(1) tree_keys(1) [of 2 lo "Some s" n t] by simp
  ultimately show ?case using lbound_mono [of lo y k] by fastforce
qed auto

lemma right_keys:
  "inv_right hi n R \<Longrightarrow> ubound (hi_of hi R) k \<Longrightarrow>
   ubound hi k \<and> (\<forall>(s, T)\<in>set R. \<forall>x\<in>set (keys_of T). k < x)"
proof (induction hi n R arbitrary: k rule: inv_right.induct)
  case (2 hi n s t R)
  then have t: "tinv 2 (Some s) (hi_of hi R) n t" "k < s" by auto
  then obtain y where y: "s \<le> y" "ubound (hi_of hi R) y"
    using tree_key_ex [of 1 "Some s" "hi_of hi R" n t] by (auto simp: numeral_2_eq_2)
  have "ubound hi y" "\<forall>(s, T)\<in>set R. \<forall>x\<in>set (keys_of T). y < x"
    using "2.IH" [OF _ y(2)] "2.prems"(1) by auto
  moreover have "\<forall>x\<in>set (keys_of t). s \<le> x" using t(1) tree_keys(1) by fastforce
  ultimately show ?case using t(2) y(1) ubound_mono [of hi y k] by fastforce
qed auto

lemma path_keys:
  "path_inv lo hi n fs \<Longrightarrow> lbound lo k \<Longrightarrow> ubound hi k \<Longrightarrow>
   (\<forall>x\<in>fst ` set (path_entries_left fs). x < k) \<and> (\<forall>x\<in>fst ` set (path_entries_right fs). k < x)"
proof (induction lo hi n fs rule: path_inv.induct)
  case (2 lo hi n p L R fs)
  then obtain lo' hi' where f: "lo = lo_of lo' L" "hi = hi_of hi' R" "inv_left lo' n L"
    "inv_right hi' n R" "path_inv lo' hi' (Suc n) fs" by auto
  have l: "lbound lo' k" "\<forall>(T, s)\<in>set L. \<forall>x\<in>set (keys_of T). x < k"
    using left_keys [OF f(3), of k] "2.prems"(2) f(1) by simp_all
  have r: "ubound hi' k" "\<forall>(s, T)\<in>set R. \<forall>x\<in>set (keys_of T). k < x"
    using right_keys [OF f(4), of k] "2.prems"(3) f(2) by simp_all
  have "(\<forall>x\<in>fst ` set (path_entries_left fs). x < k) \<and> (\<forall>x\<in>fst ` set (path_entries_right fs). k < x)"
    using "2.IH" f(5) l(1) r(1) by blast
  with l(2) r(2) show ?case by fastforce
qed simp

section \<open>Entries as a map\<close>

lemma map_of_insert:
  "k \<notin> fst ` set xs \<Longrightarrow> map_of (xs @ (k, v) # ys) = (map_of (xs @ ys))(k \<mapsto> v)"
  by (induction xs) (auto simp: fun_eq_iff)

lemma map_of_delete:
  "k \<notin> fst ` set xs \<Longrightarrow> k \<notin> fst ` set ys \<Longrightarrow>
   map_of (xs @ ys) = (map_of (xs @ (k, v) # ys))(k := None)"
  by (induction xs) (auto simp: fun_eq_iff map_of_eq_None_iff [symmetric])

end
