(* ===== verification/BTree_Siblings.thy ===== *)
theory BTree_Siblings
  imports BTree_Heap BPlus_Map
begin

text \<open>
  What insertion and removal share: the results they are stated with, the nodes around a
  focus, the sequence of entries of a leaf, and a pair of neighbouring siblings, between
  which both operations move entries.
\<close>

section \<open>Results\<close>

text \<open>
  \<open>replaced t fs es t'\<close>: \<open>t'\<close> represents a tree with the invariant that has the entries
  beside the path \<open>fs\<close> and, in the place of the hole, the entries \<open>es\<close>.
\<close>

definition replaced :: "btree \<Rightarrow> frame list \<Rightarrow> (string \<times> 32 word) list \<Rightarrow> btree \<Rightarrow> bool" where
  "replaced t fs es t' \<longleftrightarrow> (\<exists>T. btree_rep t' T \<and>
     entries T = path_entries_left fs @ es @ path_entries_right fs \<and> bt_size t' = bt_size t)"

lemma replaced_frame:
  "replaced t ((p, L, R) # fs) es t' \<longleftrightarrow>
   replaced t fs (concat (map (entries \<circ> fst) L) @ es @ concat (map (entries \<circ> snd) R)) t'"
  by (simp add: replaced_def)

lemma replaced_size: "bt_size t1 = bt_size t \<Longrightarrow> replaced t1 fs es t' \<longleftrightarrow> replaced t fs es t'"
  by (simp add: replaced_def)

text \<open>A focus that satisfies the invariant, in a state that represents it, is a result.\<close>

lemma replacedI:
  assumes "repF t' fs [T]" "focus_ok fs T lo hi n" "bt_size t' = bt_size t" "entries T = es"
  shows "replaced t fs es t'"
proof -
  have "btree_rep t' (plug fs T)"
    using assms(1) focus_ok_root [OF assms(2)] by (simp add: btree_rep_def repF_plug [of t' fs])
  with assms(3,4) show ?thesis by (auto simp: replaced_def entries_plug)
qed

lemma focus_ok_frame:
  "focus_ok ((p, L, R) # fs) T lo hi n \<longleftrightarrow>
   (\<exists>lo' hi'. lo = lo_of lo' L \<and> hi = hi_of hi' R \<and>
     focus_ok fs (Nd p (fkeys L R) (ftrees L [T] R)) lo' hi' (Suc n))"
  by (simp add: focus_ok_def inv_Nd_frame del: tinv.simps) blast

text \<open>The nodes around the focus.\<close>

lemma repF_node:
  assumes "repF t fs (A # ts)"
  obtains n where "bt_heap t (addr A) = Some n" "core n = node_core (ptop fs) A"
    "parent n = ptop fs" "addr A \<noteq> 0"
proof -
  from assms have "has (bt_heap t) (addr A) (node_core (ptop fs) A)" "addr A \<noteq> 0"
    by (auto simp: repF_def heap_is_def frame_nodes_def nodes_of_split)
  then obtain n where n: "bt_heap t (addr A) = Some n" "core n = node_core (ptop fs) A" "addr A \<noteq> 0"
    by (auto simp: has_def)
  moreover from n(2) have "parent n = ptop fs"
    by (cases A; cases n) (auto simp: node_core_def core_def leaf_node_def inner_node_def split: if_splits)
  ultimately show thesis using that by simp
qed

lemma repF_parent:
  assumes "repF t ((p, L, R) # fs) (A # ts)"
  shows "bt_heap t p = Some (inner_node (ptop fs) (fkeys L R)
    (map (addr \<circ> fst) L @ addr A # map (addr \<circ> snd) R))" "p \<noteq> 0"
  using assms by (auto simp: repF_def heap_is_def frame_nodes_def has_inner)

lemma repF_leaves:
  assumes "repF t fs ts"
  shows "distinct (frame_leaves fs ts)"
    and "x \<in> set (frame_leaves fs ts) \<Longrightarrow> bt_heap t x = Some n \<Longrightarrow> is_leaf n"
proof -
  from assms have h: "heap_is (bt_heap t) (frame_nodes fs ts) (frame_leaves fs ts)"
    by (simp add: repF_def)
  show "distinct (frame_leaves fs ts)"
    "x \<in> set (frame_leaves fs ts) \<Longrightarrow> bt_heap t x = Some n \<Longrightarrow> is_leaf n"
    by (rule heap_leaves [OF h leaf_addrs_frame], assumption?)+
qed

lemma first_of_in: "first_of ps 0 = 0 \<or> first_of ps 0 \<in> set ps"
  by (cases ps) auto

lemma last_of_in: "last_of 0 ps = 0 \<or> last_of 0 ps \<in> set ps"
  by (auto simp: last_of_def)

section \<open>The entries of a leaf\<close>

lemma length_fkeys [simp]: "length (fkeys L R) = length L + length R"
  by (simp add: fkeys_def)

definition leaf_seq :: "string option \<Rightarrow> string option \<Rightarrow> string list \<Rightarrow> 32 word list \<Rightarrow> bool" where
  "leaf_seq lo hi ks ds \<longleftrightarrow> length ds = length ks \<and> sorted_wrt (<) ks \<and>
     (\<forall>k\<in>set ks. nul_free k \<and> lbound lo k \<and> ubound hi k) \<and> -1 \<notin> set ds"

lemma leaf_ok_seq: "leaf_ok lo hi ks ds \<longleftrightarrow> length ks \<le> 4 \<and> leaf_seq lo hi ks ds"
  by (auto simp: leaf_ok_def leaf_seq_def)

lemma leaf_seq_ins:
  assumes "leaf_seq lo hi ks ds" "k \<notin> set ks" "lbound lo k" "ubound hi k" "nul_free k" "d \<noteq> -1"
    and i: "i = upper_bound ks k"
  shows "leaf_seq lo hi (ins_at i k ks) (ins_at i d ds)"
proof -
  have s: "sorted_wrt (<) (take i ks @ drop i ks)" using assms(1) by (simp add: leaf_seq_def)
  have "\<forall>x\<in>set (take i ks). x < k"
    using upper_bound_split(2) [of ks _ k] assms(1,2) i
    by (metis in_set_takeD leaf_seq_def order_le_imp_less_or_eq)
  moreover have "\<forall>x\<in>set (drop i ks). k < x"
    using upper_bound_split(1) [of ks _ k] assms(1) i by (auto simp: leaf_seq_def)
  ultimately have "sorted_wrt (<) (ins_at i k ks)"
    using s unfolding sorted_wrt_append by (auto simp: ins_at_def sorted_wrt_append)
  then show ?thesis
    using assms(1,3-6) unfolding leaf_seq_def
    by (auto simp: ins_at_def dest: in_set_takeD in_set_dropD)
qed

lemma leaf_seq_del:
  assumes "leaf_seq lo hi ks ds" "i < length ks"
  shows "leaf_seq lo hi (del_at i ks) (del_at i ds)"
proof -
  have "sorted_wrt (<) (take i ks @ ks ! i # drop (Suc i) ks)"
    using assms by (simp add: leaf_seq_def id_take_nth_drop [symmetric])
  then have "sorted_wrt (<) (del_at i ks)" by (simp add: del_at_def sorted_wrt_append)
  then show ?thesis
    using assms unfolding leaf_seq_def
    by (auto simp: del_at_def dest: in_set_takeD in_set_dropD)
qed

lemma leaf_seq_append:
  assumes "leaf_seq lo (Some s) k1 d1" "leaf_seq (Some s) hi k2 d2" "k1 \<noteq> []" "k2 \<noteq> []"
  shows "leaf_seq lo hi (k1 @ k2) (d1 @ d2)"
proof -
  have lt: "\<forall>x\<in>set k1. \<forall>y\<in>set k2. x < y" using assms(1,2) by (fastforce simp: leaf_seq_def)
  moreover have "\<forall>y\<in>set k2. lbound lo y"
    using assms(1,3) lt unfolding leaf_seq_def
    by (metis lbound_mono less_imp_le list.set_intros(1) neq_Nil_conv)
  moreover have "\<forall>x\<in>set k1. ubound hi x"
    using assms(2,4) lt unfolding leaf_seq_def
    by (metis less_imp_le list.set_intros(1) neq_Nil_conv ubound_mono)
  ultimately show ?thesis
    using assms(1,2) by (auto simp: leaf_seq_def sorted_wrt_append)
qed

text \<open>Two leaves cut out of one sequence, with the first key of the second as separator.\<close>

lemma leaf_seq_cut:
  assumes "leaf_seq lo hi (k1 @ k2) (d1 @ d2)" "length d1 = length k1" "length d2 = length k2"
    "2 \<le> length k1" "length k1 \<le> 4" "2 \<le> length k2" "length k2 \<le> 4"
  shows "tinv 2 lo (Some (hd k2)) 0 (Lf p k1 d1)" and "tinv 2 (Some (hd k2)) hi 0 (Lf q k2 d2)"
    and "sep_of (hd k2) (Lf q k2 d2)" and "nul_free (hd k2)"
proof -
  obtain s ks where k2: "k2 = s # ks" using assms(6) by (cases k2) auto
  show "tinv 2 lo (Some (hd k2)) 0 (Lf p k1 d1)" "tinv 2 (Some (hd k2)) hi 0 (Lf q k2 d2)"
    "sep_of (hd k2) (Lf q k2 d2)" "nul_free (hd k2)"
    using assms by (auto simp: k2 leaf_ok_seq leaf_seq_def sorted_wrt_append less_imp_le)
qed

lemma zip_ins_at: "length ds = length ks \<Longrightarrow> zip (ins_at i k ks) (ins_at i d ds) = ins_at i (k, d) (zip ks ds)"
  by (simp add: ins_at_def take_zip drop_zip)

lemma zip_del_at: "zip (del_at i ks) (del_at i ds) = del_at i (zip ks ds)"
  if "length ds = length ks"
  using that by (simp add: del_at_def take_zip drop_zip)

section \<open>A pair of siblings\<close>

text \<open>
  \<open>X\<close> and \<open>Y\<close> are neighbours under the parent \<open>p\<close>, with the separator \<open>s\<close> between them;
  together their keys lie between \<open>lo\<close> and \<open>hi\<close>.
\<close>

definition pair_ok :: "lefts \<Rightarrow> tree \<Rightarrow> string \<Rightarrow> tree \<Rightarrow> rights \<Rightarrow> frame list \<Rightarrow>
    string option \<Rightarrow> string option \<Rightarrow> nat \<Rightarrow> bool" where
  "pair_ok L X s Y R fs lo hi n \<longleftrightarrow> (\<exists>lo' hi'. lo = lo_of lo' L \<and> hi = hi_of hi' R \<and>
     inv_left lo' n L \<and> inv_right hi' n R \<and> path_inv lo' hi' (Suc n) fs) \<and>
     min_keys fs \<le> Suc (length L + length R) \<and> length L + length R \<le> 3 \<and>
     sep_left L X \<and> tinv 2 lo (Some s) n X \<and> nul_free s \<and> sep_of s Y \<and> tinv 2 (Some s) hi n Y"

lemma pair_right: "focus_ok ((p, L @ [(X, s)], R) # fs) Y l hi n \<longleftrightarrow>
    l = Some s \<and> (\<exists>lo. pair_ok L X s Y R fs lo hi n)"
  by (simp add: focus_ok_def pair_ok_def) blast

lemma pair_left: "focus_ok ((p, L, (s, Y) # R) # fs) X lo h n \<longleftrightarrow>
    h = Some s \<and> (\<exists>hi. pair_ok L X s Y R fs lo hi n)"
  by (simp add: focus_ok_def pair_ok_def) blast

lemma repF_shift: "repF t ((p, L, (s, Y) # R) # fs) [X] \<longleftrightarrow> repF t ((p, L @ [(X, s)], R) # fs) [Y]"
  by (simp add: repF_frame fkeys_def ftrees_def)

lemma pair_ok_change:
  "pair_ok L X s Y R fs lo hi n \<Longrightarrow> sep_left L X' \<Longrightarrow> tinv 2 lo (Some s') n X' \<Longrightarrow> nul_free s' \<Longrightarrow>
   sep_of s' Y' \<Longrightarrow> tinv 2 (Some s') hi n Y' \<Longrightarrow> pair_ok L X' s' Y' R fs lo hi n"
  by (auto simp: pair_ok_def)

lemma pair_leaves:
  assumes "pair_ok L X s Y R fs lo hi 0"
  obtains p ks ds q ks' ds' where "X = Lf p ks ds" "Y = Lf q ks' ds'"
  using assms by (cases X; cases Y) (auto simp: pair_ok_def)

lemma pair_seq:
  assumes "pair_ok L (Lf p ks ds) s (Lf q ks' ds') R fs lo hi 0"
  shows "leaf_seq lo (Some s) ks ds" "leaf_seq (Some s) hi ks' ds'" "2 \<le> length ks" "2 \<le> length ks'"
    "length ks \<le> 4" "length ks' \<le> 4" "hd ks' = s" "sep_left L (Lf p ks ds)"
  using assms by (auto simp: pair_ok_def leaf_ok_seq)

text \<open>The pair after its entries have been divided anew.\<close>

lemma pair_cut:
  assumes "pair_ok L (Lf p ks ds) s (Lf q ks' ds') R fs lo hi 0"
    and "leaf_seq lo hi (k1 @ k2) (d1 @ d2)" "length d1 = length k1" "length d2 = length k2"
    "2 \<le> length k1" "length k1 \<le> 4" "2 \<le> length k2" "length k2 \<le> 4"
    and "sep_left L (Lf p k1 d1)"
  shows "pair_ok L (Lf p k1 d1) (hd k2) (Lf q k2 d2) R fs lo hi 0"
  by (rule pair_ok_change [OF assms(1,9) leaf_seq_cut(1) [OF assms(2-8)]
        leaf_seq_cut(4) [OF assms(2-8)] leaf_seq_cut(3) [OF assms(2-8)] leaf_seq_cut(2) [OF assms(2-8)]])

text \<open>The three nodes of a pair of leaves, and their update.\<close>

definition pair_node :: "lefts \<Rightarrow> ptr \<Rightarrow> string \<Rightarrow> ptr \<Rightarrow> rights \<Rightarrow> frame list \<Rightarrow> bnode" where
  "pair_node L x s y R fs = inner_node (ptop fs) (map snd L @ s # map fst R)
     (map (addr \<circ> fst) L @ x # y # map (addr \<circ> snd) R)"

lemma pair_node_sels [simp]:
  "parent (pair_node L x s y R fs) = ptop fs" "\<not> is_leaf (pair_node L x s y R fs)"
  "key (pair_node L x s y R fs) = map snd L @ s # map fst R"
  "child (pair_node L x s y R fs) = map (addr \<circ> fst) L @ x # y # map (addr \<circ> snd) R"
  by (simp_all add: pair_node_def)

lemma pair_node_key:
  "(pair_node L x s y R fs)\<lparr>key := map snd L @ s' # map fst R\<rparr> = pair_node L x s' y R fs"
  by (simp add: pair_node_def)

lemma pair_set_key [simp]:
  "set_at (map snd L @ s # map fst R) (length L) k = Some (map snd L @ k # map fst R)"
  by (simp add: set_at_def list_update_append)

abbreviation pair_frames :: "lefts \<Rightarrow> tree \<Rightarrow> string \<Rightarrow> rights \<Rightarrow> ptr \<Rightarrow> frame list \<Rightarrow> frame list" where
  "pair_frames L X s R p fs \<equiv> (p, L @ [(X, s)], R) # fs"

abbreviation before_pair :: "lefts \<Rightarrow> frame list \<Rightarrow> ptr" where
  "before_pair L fs \<equiv> last_of (last_of 0 (path_leaves_left fs)) (concat (map (leaves \<circ> fst) L))"

abbreviation after_pair :: "rights \<Rightarrow> frame list \<Rightarrow> ptr" where
  "after_pair R fs \<equiv> first_of (concat (map (leaves \<circ> snd) R)) (first_of (path_leaves_right fs) 0)"

lemma pair_nodes:
  assumes r: "repF t (pair_frames L (Lf q kq dq) s R p fs) [Lf h kh dh]"
  shows "bt_heap t q = Some (leaf_node p kq dq (before_pair L fs) h)"
    and "bt_heap t h = Some (leaf_node p kh dh q (after_pair R fs))"
    and "bt_heap t p = Some (pair_node L q s h R fs)"
    and "q \<noteq> h" "h \<noteq> q" "p \<noteq> q" "q \<noteq> p" "p \<noteq> h" "h \<noteq> p" "q \<noteq> 0" "h \<noteq> 0" "p \<noteq> 0"
proof -
  have r': "repF t ((p, L, (s, Lf h kh dh) # R) # fs) [Lf q kq dq]" using r by (simp add: repF_shift)
  show q: "bt_heap t q = Some (leaf_node p kq dq (before_pair L fs) h)"
    using repF_leaf(1) [OF r'] by simp
  show h: "bt_heap t h = Some (leaf_node p kh dh q (after_pair R fs))"
    using repF_leaf(1) [OF r] by simp
  show p: "bt_heap t p = Some (pair_node L q s h R fs)"
    using repF_parent(1) [OF r] by (simp add: pair_node_def fkeys_def)
  show "q \<noteq> 0" "h \<noteq> 0" "p \<noteq> 0"
    using repF_leaf(2) [OF r'] repF_leaf(2) [OF r] repF_parent(2) [OF r] by simp_all
  have "distinct (map fst (frame_nodes (pair_frames L (Lf q kq dq) s R p fs) [Lf h kh dh]))"
    using r by (simp add: repF_def heap_is_def)
  then show "q \<noteq> h" "h \<noteq> q" "p \<noteq> q" "q \<noteq> p" "p \<noteq> h" "h \<noteq> p"
    by (auto simp: frame_nodes_def)
qed

lemma pair_update:
  assumes r: "repF t (pair_frames L (Lf q kq dq) s R p fs) [Lf h kh dh]"
    and hp: "bt_heap t' = (bt_heap t)(q \<mapsto> leaf_node p k1 d1 (before_pair L fs) h,
      h \<mapsto> leaf_node p k2 d2 q (after_pair R fs), p \<mapsto> pair_node L q s' h R fs)"
    and st: "bt_root t' = bt_root t" "bt_brk t' = bt_brk t" "length (bt_tmp_idx t') = 5"
  shows "repF t' (pair_frames L (Lf q k1 d1) s' R p fs) [Lf h k2 d2]"
proof -
  let ?fr = "\<lambda>k d s. pair_frames L (Lf q k d) s R p fs"
  note nd = pair_nodes [OF r]
  have ls: "frame_leaves (?fr k d s1) [Lf h k' d'] = frame_leaves (?fr kq dq s) [Lf h kh dh]"
    for k d k' d' s1 by (simp add: frame_leaves_def)
  have h0: "heap_is (bt_heap t) (frame_nodes (?fr kq dq s) [Lf h kh dh])
      (frame_leaves (?fr kq dq s) [Lf h kh dh])" and ok: "state_ok t"
    and root: "bt_root t = root_addr (?fr kq dq s) h"
    using r by (simp_all add: repF_def)
  have "heap_is ((bt_heap t)(q \<mapsto> leaf_node p k1 d1 (before_pair L fs) h))
      (frame_nodes (?fr k1 d1 s) [Lf h kh dh]) (frame_leaves (?fr kq dq s) [Lf h kh dh])"
    by (rule heap_is_set [OF h0 nd(1)]) (simp_all add: frame_nodes_def fkeys_def)
  then have "heap_is ((bt_heap t)(q \<mapsto> leaf_node p k1 d1 (before_pair L fs) h,
        h \<mapsto> leaf_node p k2 d2 q (after_pair R fs)))
      (frame_nodes (?fr k1 d1 s) [Lf h k2 d2]) (frame_leaves (?fr kq dq s) [Lf h kh dh])"
    by (rule heap_is_set [where m = "leaf_node p kh dh q (after_pair R fs)"])
      (use nd in \<open>simp_all add: frame_nodes_def fkeys_def\<close>)
  then have "heap_is (bt_heap t') (frame_nodes (?fr k1 d1 s') [Lf h k2 d2])
      (frame_leaves (?fr kq dq s) [Lf h kh dh])"
    unfolding hp
    by (rule heap_is_set [where m = "pair_node L q s h R fs"])
      (use nd in \<open>simp_all add: frame_nodes_def fkeys_def pair_node_def\<close>)
  then show ?thesis
    unfolding repF_def ls [of k1 d1 s' k2 d2]
    using ok root st nd by (auto simp: state_ok_def hp)
qed

lemma pair_divided:
  assumes r: "repF t (pair_frames L (Lf q kq dq) s R p fs) [Lf h kh dh]"
    and pair: "pair_ok L (Lf q kq dq) s (Lf h kh dh) R fs lo hi 0"
    and new: "leaf_seq lo hi (k1 @ k2) (d1 @ d2)" "length d1 = length k1" "length d2 = length k2"
    "2 \<le> length k1" "length k1 \<le> 4" "2 \<le> length k2" "length k2 \<le> 4"
    and sep: "L = [] \<or> hd k1 = hd kq"
    and hp: "bt_heap t' = (bt_heap t)(q \<mapsto> leaf_node p k1 d1 (before_pair L fs) h,
      h \<mapsto> leaf_node p k2 d2 q (after_pair R fs), p \<mapsto> pair_node L q (hd k2) h R fs)"
    and st: "bt_root t' = bt_root t" "bt_brk t' = bt_brk t" "bt_tmp_idx t' = bt_tmp_idx t"
      "bt_size t' = bt_size t"
  shows "replaced t fs (concat (map (entries \<circ> fst) L) @ zip (k1 @ k2) (d1 @ d2) @
    concat (map (entries \<circ> snd) R)) t'"
proof -
  have "sep_left L (Lf q k1 d1)"
    using pair_seq(8) [OF pair] sep new(4) by (auto simp: sep_left_def)
  note pair' = pair_cut [OF pair new this]
  have "repF t' (pair_frames L (Lf q k1 d1) (hd k2) R p fs) [Lf h k2 d2]"
    using r st by (intro pair_update [OF r hp]) (simp_all add: repF_def state_ok_def)
  then have "replaced t (pair_frames L (Lf q k1 d1) (hd k2) R p fs) (zip k2 d2) t'"
    using pair' st by (intro replacedI) (auto simp: pair_right)
  then show ?thesis using new(2,3) by (simp add: replaced_frame)
qed

lemma sep_left_change:
  "sep_left L (Lf p ks ds) \<Longrightarrow> ks' \<noteq> [] \<Longrightarrow> L = [] \<or> hd ks' = hd ks \<Longrightarrow> sep_left L (Lf p' ks' ds')"
  by (auto simp: sep_left_def)

lemma hd_butlast: "2 \<le> length xs \<Longrightarrow> hd (butlast xs) = hd xs"
  by (cases xs) (auto simp: neq_Nil_conv)

lemma fun_upd_rotate: "a \<noteq> b \<Longrightarrow> a \<noteq> c \<Longrightarrow> f(b := x, c := y, a := z) = f(a := z, b := x, c := y)"
  by (auto simp: fun_eq_iff)

section \<open>A leaf that changes in place\<close>

text \<open>A leaf whose content changes in place, with the same links.\<close>

lemma leaf_set_repF:
  assumes r: "repF t fs [Lf p ks ds]"
    and hp: "bt_heap t' = (bt_heap t)(p \<mapsto> leaf_node (ptop fs) ks' ds'
      (last_of 0 (path_leaves_left fs)) (first_of (path_leaves_right fs) 0))"
    and st: "bt_root t' = bt_root t" "bt_brk t' = bt_brk t" "bt_tmp_idx t' = bt_tmp_idx t"
  shows "repF t' fs [Lf p ks' ds']"
proof -
  have "heap_is (bt_heap t) (frame_nodes fs [Lf p ks ds]) (frame_leaves fs [Lf p ks ds])"
    and ok: "state_ok t" and root: "bt_root t = root_addr fs p" using r by (simp_all add: repF_def)
  from this(1) have "heap_is (bt_heap t') (frame_nodes fs [Lf p ks' ds']) (frame_leaves fs [Lf p ks ds])"
    unfolding hp
    by (rule heap_is_set [where m = "leaf_node (ptop fs) ks ds (last_of 0 (path_leaves_left fs))
        (first_of (path_leaves_right fs) 0)"])
      (simp_all add: frame_nodes_def repF_leaf(1) [OF r])
  then show ?thesis
    using ok root st repF_leaf(1) [OF r] by (auto simp: repF_def state_ok_def hp frame_leaves_def)
qed

lemma leaf_changed:
  assumes r: "repF t fs [Lf p ks ds]" and f: "focus_ok fs (Lf p ks ds) lo hi 0"
    and new: "leaf_seq lo hi ks' ds'" "length ks' \<le> 4" "min_keys fs \<le> length ks'" "path_sep fs (Lf p ks' ds')"
    and hp: "bt_heap t' = (bt_heap t)(p \<mapsto> leaf_node (ptop fs) ks' ds'
      (last_of 0 (path_leaves_left fs)) (first_of (path_leaves_right fs) 0))"
    and st: "bt_root t' = bt_root t" "bt_brk t' = bt_brk t" "bt_tmp_idx t' = bt_tmp_idx t"
      "bt_size t' = bt_size t"
  shows "replaced t fs (zip ks' ds') t'"
proof -
  have "focus_ok fs (Lf p ks' ds') lo hi 0" using f new by (simp add: focus_ok_def leaf_ok_seq)
  from replacedI [OF leaf_set_repF [OF r hp st(1-3)] this st(4)] show ?thesis by simp
qed

text \<open>Where the focus of a search stands among the entries.\<close>

lemma focus_entries:
  assumes f: "focus_ok fs (Lf p ks ds) lo hi 0" and k: "lbound lo k" "ubound hi k"
  defines "xs \<equiv> path_entries_left fs" and "ys \<equiv> path_entries_right fs" and "z \<equiv> zip ks ds"
  shows "k \<notin> fst ` set xs" "k \<notin> fst ` set ys"
    "k \<notin> set ks \<Longrightarrow> k \<notin> fst ` set (xs @ z @ ys)"
    "i < length ks \<Longrightarrow> ks ! i = k \<Longrightarrow>
      z = take i z @ (k, ds ! i) # drop (Suc i) z \<and> k \<notin> fst ` set (xs @ take i z) \<and>
      k \<notin> fst ` set (drop (Suc i) z @ ys)"
proof -
  from f have ok: "leaf_ok lo hi ks ds" and p: "path_inv lo hi 0 fs" by (simp_all add: focus_ok_def)
  show x: "k \<notin> fst ` set xs" and y: "k \<notin> fst ` set ys"
    using path_keys [OF p k] by (auto simp: xs_def ys_def)
  have z: "map fst z = ks" using ok by (simp add: leaf_ok_def z_def)
  then show "k \<notin> set ks \<Longrightarrow> k \<notin> fst ` set (xs @ z @ ys)" using x y by (metis UnE image_Un set_append set_map)
  assume i: "i < length ks" "ks ! i = k"
  have l: "length ds = length ks" and d: "distinct ks"
    using ok sorted_wrt_distinct by (auto simp: leaf_ok_def)
  then have e: "z = take i z @ (k, ds ! i) # drop (Suc i) z"
    using i by (simp add: z_def) (metis id_take_nth_drop length_zip min.idem nth_zip)
  have "distinct (map fst (take i z @ (k, ds ! i) # drop (Suc i) z))" using d z e by metis
  then have "k \<notin> fst ` set (take i z)" "k \<notin> fst ` set (drop (Suc i) z)" by auto
  with x y have "k \<notin> fst ` set (xs @ take i z)" "k \<notin> fst ` set (drop (Suc i) z @ ys)"
    by (simp_all add: image_Un)
  with e show "z = take i z @ (k, ds ! i) # drop (Suc i) z \<and> k \<notin> fst ` set (xs @ take i z) \<and>
      k \<notin> fst ` set (drop (Suc i) z @ ys)" by blast
qed

lemma zip_upd_right:
  assumes "length ds = length ks" "i < length ks"
  shows "zip ks (ds[i := d]) = take i (zip ks ds) @ (ks ! i, d) # drop (Suc i) (zip ks ds)"
proof -
  have "zip ks (ds[i := d]) = (zip ks ds)[i := (ks ! i, d)]"
    using zip_update [of ks i "ks ! i" ds d] by simp
  then show ?thesis using assms by (simp add: upd_conv_take_nth_drop)
qed

end
