(* ===== verification/BTree_Insert.thy ===== *)
theory BTree_Insert
  imports BTree_Siblings
begin

text \<open>
  Insertion into a represented tree: a split hands a new right sibling to the parent, which
  takes it, grows a root above it, or is split in turn; a full leaf with a sibling that has
  room passes one entry on; and \<^verbatim>\<open>BTree::insert\<close> puts all of it together.
\<close>

section \<open>A new right sibling\<close>

lemma state_ok_brk: "state_ok t \<Longrightarrow> bt_brk t \<notin> dom (bt_heap t) \<and> bt_brk t \<noteq> 0"
  by (auto simp: state_ok_def)

lemma grow_root_repF:
  assumes r: "repF t [] [A, B]"
  obtains t' p where "grow_root k (addr A) (addr B) t = Some t'"
    "repF t' [] [Nd p [c_str k] [A, B]]" "bt_size t' = bt_size t"
proof -
  let ?p = "bt_brk t" and ?h = "bt_heap t"
  from r have h: "heap_is ?h (concat (map (nodes_of 0) [A, B]) @ []) (leaves A @ leaves B)"
    and ok: "state_ok t"
    by (simp_all add: repF_def frame_nodes_def frame_leaves_def)
  have p: "?p \<notin> dom ?h" "?p \<noteq> 0" using state_ok_brk [OF ok] by simp_all
  have d: "addr A \<in> dom ?h" "addr B \<in> dom ?h"
    using heap_isD(2) [OF h] by (auto simp: nodes_of_split)
  then have ne: "?p \<noteq> addr A" "?p \<noteq> addr B" using p by auto
  let ?h' = "(reparent ?h (set (map addr [A, B])) ?p)(?p \<mapsto> inner_node 0 [c_str k] [addr A, addr B])"
  let ?t' = "t\<lparr>bt_heap := ?h', bt_brk := Suc ?p, bt_root := ?p\<rparr>"
  have "grow_root k (addr A) (addr B) t = Some ?t'"
    using d ne
    by (simp add: grow_root_def new_node_def modify_node_eq set_parent_eq reparent_upd
        insert_commute)
  moreover have "heap_is ?h' ((?p, core (inner_node 0 [c_str k] [addr A, addr B])) #
      concat (map (nodes_of ?p) [A, B]) @ []) (leaves A @ leaves B)"
    using heap_is_reparent [OF h] p by (intro heap_is_new) (simp_all del: list.map)
  then have "repF ?t' [] [Nd ?p [c_str k] [A, B]]"
    using ok by (auto simp: repF_def frame_nodes_def frame_leaves_def state_ok_def less_SucI)
  ultimately show thesis by (rule that) simp
qed


text \<open>The parent has room: it takes the separator and the sibling.\<close>

lemma emplace_frame:
  "emplace_at (fkeys L R) (length L) k = Some (fkeys L ((k, B) # R))"
  "emplace_at (map (addr \<circ> fst) L @ a # map (addr \<circ> snd) R) (Suc (length L)) b =
     Some (map (addr \<circ> fst) L @ a # b # map (addr \<circ> snd) R)"
  by (simp_all add: emplace_at_def fkeys_def)

lemma add_to_parent_repF:
  assumes r: "repF t ((p, L, R) # fs) [A, B]"
  obtains t' where "add_to_parent p (length L) k (addr B) t = Some t'"
    "repF t' ((p, L, (c_str k, B) # R) # fs) [A]" "bt_size t' = bt_size t"
proof -
  let ?h = "bt_heap t"
  let ?m = "inner_node (ptop fs) (fkeys L R) (map (addr \<circ> fst) L @ addr A # map (addr \<circ> snd) R)"
  let ?n = "inner_node (ptop fs) (fkeys L ((c_str k, B) # R))
    (map (addr \<circ> fst) L @ addr A # addr B # map (addr \<circ> snd) R)"
  let ?t' = "t\<lparr>bt_heap := ?h(p \<mapsto> ?n)\<rparr>"
  from r have h: "heap_is ?h (frame_nodes ((p, L, R) # fs) [A, B]) (frame_leaves ((p, L, R) # fs) [A, B])"
    and ok: "state_ok t" and root: "bt_root t = root_addr fs p"
    by (simp_all add: repF_def)
  have hp: "?h p = Some ?m"
    using heap_isD(4) [OF h] by (simp add: frame_nodes_def has_inner)
  have "add_to_parent p (length L) k (addr B) t = Some ?t'"
    by (simp add: add_to_parent_def modify_node_eq [OF hp] emplace_frame(1) [of _ _ _ B] emplace_frame(2))
  moreover have "heap_is (?h(p \<mapsto> ?n)) (frame_nodes ((p, L, (c_str k, B) # R) # fs) [A])
      (frame_leaves ((p, L, R) # fs) [A, B])"
    by (rule heap_is_set [OF h hp]) (simp_all add: frame_nodes_def)
  then have "repF ?t' ((p, L, (c_str k, B) # R) # fs) [A]"
    using ok root hp by (auto simp: repF_def frame_leaves_def state_ok_def)
  ultimately show thesis by (rule that) simp
qed

text \<open>A split of an inner node with four keys, into two with two keys and a middle key.\<close>

lemma split_innode_repF:
  assumes r: "repF t ((p, L, R) # fs) [A, B]" and len: "length L + length R = 4"
    and nf: "\<forall>x\<in>set (fkeys L R). nul_free x" "nul_free k"
  defines "ks \<equiv> fkeys L ((k, B) # R)" and "ts \<equiv> ftrees L [A] ((k, B) # R)"
  obtains t' u where "split_innode k (addr B) p (length L) t = Some (ks ! 2, u, t')"
    "repF t' fs [Nd p (take 2 ks) (take 3 ts), Nd u (drop 3 ks) (drop 3 ts)]"
    "bt_size t' = bt_size t"
proof -
  let ?h = "bt_heap t" and ?u = "bt_brk t" and ?q = "ptop fs"
  let ?cs = "map (addr \<circ> fst) L @ addr A # map (addr \<circ> snd) R"
  let ?ls = "frame_leaves ((p, L, R) # fs) [A, B]"
  from r have h: "heap_is ?h (frame_nodes ((p, L, R) # fs) [A, B]) ?ls"
    and ok: "state_ok t" and root: "bt_root t = root_addr fs p"
    by (simp_all add: repF_def)
  have hp: "?h p = Some (inner_node ?q (fkeys L R) ?cs)"
    using heap_isD(4) [OF h] by (simp add: frame_nodes_def has_inner)
  note brk = state_ok_brk [OF ok]
  let ?l = "Nd p (take 2 ks) (take 3 ts)" and ?r = "Nd ?u (drop 3 ks) (drop 3 ts)"
  let ?l' = "inner_node ?q (take 2 ks) (take 3 (map addr ts))"
  let ?r' = "inner_node ?q (drop 3 ks) (drop 3 (map addr ts))"
  have ins: "ins_at (length L) k (fkeys L R) = ks"
    "ins_at (Suc (length L)) (addr B) ?cs = map addr ts"
    by (simp_all add: ins_at_def ks_def ts_def fkeys_def ftrees_def)
  have m: "mset (frame_nodes ((p, L, R) # fs) [A, B]) =
      mset (concat (map (nodes_of p) (drop 3 ts)) @
        (p, inner_node ?q (fkeys L R) ?cs) # concat (map (nodes_of p) (take 3 ts)) @ path_nodes p fs)"
    (is "_ = mset (?D @ ?N)")
  proof -
    have "mset (concat (map (nodes_of p) ts)) =
        mset (concat (map (nodes_of p) (drop 3 ts))) + mset (concat (map (nodes_of p) (take 3 ts)))"
      by (metis append_take_drop_id concat_append map_append mset_append add.commute)
    moreover have "mset (concat (map (nodes_of p) ts)) =
        mset (lefts_nodes p L) + mset (rights_nodes p R) + mset (nodes_of p A) + mset (nodes_of p B)"
      by (simp add: ts_def ftrees_def lefts_nodes_def rights_nodes_def comp_def)
    ultimately show ?thesis by (simp add: frame_nodes_def ac_simps)
  qed
  have h1: "heap_is ?h (?D @ ?N) ?ls" using h by (simp add: heap_is_perm [OF m])
  let ?h2 = "reparent ?h (set (map addr (drop 3 ts))) ?u"
  note h2 = heap_is_reparent [OF h1, of ?u]
  have h3: "heap_is (?h2(?u \<mapsto> ?r')) ((?u, core ?r') # concat (map (nodes_of ?u) (drop 3 ts)) @ ?N) ?ls"
    using h2 brk by (intro heap_is_new) simp_all
  have sub: "set (map addr xs) \<subseteq> fst ` set (concat (map (nodes_of p) xs))" for xs
    by (force simp: nodes_of_split)
  have ts: "set (map addr ts) = set (map addr (take 3 ts)) \<union> set (map addr (drop 3 ts))"
    by (metis append_take_drop_id map_append set_append)
  have pd: "p \<notin> set (map addr (drop 3 ts))" "p \<notin> set (map addr ts)"
    using heap_isD(1) [OF h1] sub [of "take 3 ts"] sub [of "drop 3 ts"] unfolding ts by auto
  have "set (concat (map (nodes_of p) ts)) \<subseteq> set (?D @ ?N)"
  proof -
    have "set ts \<subseteq> set (take 3 ts) \<union> set (drop 3 ts)"
      by (metis append_take_drop_id set_append order_refl)
    then show ?thesis by fastforce
  qed
  then have "fst ` set (concat (map (nodes_of p) ts)) \<subseteq> fst ` set (?D @ ?N)" by (rule image_mono)
  then have "set (map addr ts) \<subseteq> dom ?h"
    unfolding heap_isD(2) [OF h1] by (rule order_trans [OF sub])
  moreover have "set (map addr ts) = insert (addr B) (set ?cs)" by (auto simp: ts_def ftrees_def)
  ultimately have dom: "addr B \<in> dom ?h" "set ?cs \<subseteq> dom ?h" "p \<notin> set ?cs" "p \<noteq> addr B"
    using pd(2) by auto
  have up: "p < ?u" using ok hp by (auto simp: state_ok_def)
  let ?h4 = "?h2(?u \<mapsto> ?r', p \<mapsto> ?l')"
  let ?t' = "t\<lparr>bt_tmp_idx := split_idx (length L), bt_brk := Suc ?u, bt_heap := ?h4\<rparr>"
  have "heap_is ?h4 (frame_nodes fs [?l, ?r]) ?ls"
    by (rule heap_is_set [OF h3, where m = "inner_node ?q (fkeys L R) ?cs"])
      (use up pd(1) hp in \<open>simp_all add: frame_nodes_def drop_map take_map\<close>)
  moreover have "frame_leaves fs [?l, ?r] = ?ls"
  proof -
    have "concat (map leaves (take 3 ts)) @ concat (map leaves (drop 3 ts)) = concat (map leaves ts)"
      by (metis append_take_drop_id concat_append map_append)
    then show ?thesis by (simp add: frame_leaves_def) (simp add: ts_def ftrees_def)
  qed
  ultimately have rep: "repF ?t' fs [?l, ?r]"
    using ok root hp up by (auto simp: repF_def state_ok_def less_SucI)
  have "split_innode k (addr B) p (length L) t = Some (ks ! 2, ?u, ?t')"
    using split_innode_eq [OF hp, of "length L" "addr B" k] len nf dom brk ok
    by (simp add: ins drop_map state_ok_def)
  then show thesis by (rule that) (use rep in simp_all)
qed

text \<open>The invariant of the two halves of a split.\<close>

lemma inv_halves:
  assumes "tinvs lo hi n ks ts" "length ks = 5" "\<forall>k\<in>set ks. nul_free k"
  shows "tinv 2 lo (Some (ks ! 2)) (Suc n) (Nd p (take 2 ks) (take 3 ts))"
    and "tinv 2 (Some (ks ! 2)) hi (Suc n) (Nd u (drop 3 ks) (drop 3 ts))"
    and "nul_free (ks ! 2)"
  using invs_split [OF assms(1), of 2] assms(2,3)
  by (auto dest: in_set_takeD in_set_dropD simp: eval_nat_numeral)

lemma entries_halves:
  "concat (map entries (take i ts)) @ concat (map entries (drop i ts)) = concat (map entries ts)"
  by (metis append_take_drop_id concat_append map_append)

text \<open>
  \<open>siblings_ok\<close>: the trees \<open>A\<close> and \<open>B\<close> may take the place of the hole, with the separator
  \<open>k\<close> between them.
\<close>

definition siblings_ok ::
    "frame list \<Rightarrow> tree \<Rightarrow> string \<Rightarrow> tree \<Rightarrow> string option \<Rightarrow> string option \<Rightarrow> nat \<Rightarrow> bool" where
  "siblings_ok fs A k B lo hi n \<longleftrightarrow> path_inv lo hi n fs \<and> path_sep fs A \<and> sep_of k B \<and>
     nul_free k \<and> tinv 2 lo (Some k) n A \<and> tinv 2 (Some k) hi n B"

lemma siblings_root:
  assumes "siblings_ok [] A k B lo hi n" "repF t [] [A, B]"
  shows "\<exists>t'. grow_root k (addr A) (addr B) t = Some t' \<and> replaced t [] (entries A @ entries B) t'"
proof -
  from grow_root_repF [OF assms(2)] obtain t' p where t': "grow_root k (addr A) (addr B) t = Some t'"
    "repF t' [] [Nd p [c_str k] [A, B]]" "bt_size t' = bt_size t" by metis
  have "focus_ok [] (Nd p [c_str k] [A, B]) None None (Suc n)"
    using assms(1) by (auto simp: focus_ok_def siblings_ok_def)
  with t' show ?thesis using replacedI [OF t'(2)] by simp
qed

lemma siblings_room:
  assumes s: "siblings_ok ((p, L, R) # fs) A k B lo hi n" and r: "repF t ((p, L, R) # fs) [A, B]"
    and "length L + length R < 4"
  shows "\<exists>t'. add_to_parent p (length L) k (addr B) t = Some t' \<and>
    replaced t ((p, L, R) # fs) (entries A @ entries B) t'"
proof -
  from add_to_parent_repF [OF r] obtain t' where t': "add_to_parent p (length L) k (addr B) t = Some t'"
    "repF t' ((p, L, (c_str k, B) # R) # fs) [A]" "bt_size t' = bt_size t" by metis
  from s have "focus_ok ((p, L, (c_str k, B) # R) # fs) A lo (Some k) n"
    using assms(3) by (auto simp: focus_ok_def siblings_ok_def)
  with t' have "replaced t ((p, L, (c_str k, B) # R) # fs) (entries A) t'"
    by (intro replacedI) auto
  with t'(1) show ?thesis by (simp add: replaced_frame)
qed

lemma siblings_split:
  assumes s: "siblings_ok ((p, L, R) # fs) A k B lo hi n" and r: "repF t ((p, L, R) # fs) [A, B]"
    and len: "length L + length R = 4"
  obtains t' u mk A' B' lo' hi' where "split_innode k (addr B) p (length L) t = Some (mk, u, t')"
    "addr A' = p" "addr B' = u" "repF t' fs [A', B']" "bt_size t' = bt_size t"
    "siblings_ok fs A' mk B' lo' hi' (Suc n)"
    "entries A' @ entries B' = concat (map (entries \<circ> fst) L) @ entries A @ entries B @
       concat (map (entries \<circ> snd) R)"
    "\<not> is_lf A'"
proof -
  let ?ks = "fkeys L ((k, B) # R)" and ?ts = "ftrees L [A] ((k, B) # R)"
  from s obtain lo' hi' where f: "lo = lo_of lo' L" "hi = hi_of hi' R"
    "inv_left lo' n L" "inv_right hi' n R" "path_inv lo' hi' (Suc n) fs"
    and g: "sep_left L A" "sep_of k B" "nul_free k" "tinv 2 lo (Some k) n A" "tinv 2 (Some k) hi n B"
    by (auto simp: siblings_ok_def)
  have R: "inv_right hi' n ((k, B) # R)" using f g by simp
  note nf = nul_free_frame [OF f(3) R]
  have "tinvs lo' hi' n ?ks ?ts" using f g R by (simp add: invs_frame [OF nf])
  note h = inv_halves [OF this _ nf]
  have "\<forall>x\<in>set (fkeys L R). nul_free x" using nul_free_frame [OF f(3,4)] .
  from split_innode_repF [OF r len this g(3)] obtain t' u where
    t': "split_innode k (addr B) p (length L) t = Some (?ks ! 2, u, t')"
    "repF t' fs [Nd p (take 2 ?ks) (take 3 ?ts), Nd u (drop 3 ?ks) (drop 3 ?ts)]"
    "bt_size t' = bt_size t" by metis
  have "siblings_ok fs (Nd p (take 2 ?ks) (take 3 ?ts)) (?ks ! 2)
      (Nd u (drop 3 ?ks) (drop 3 ?ts)) lo' hi' (Suc n)"
    using h len f(5) by (simp add: siblings_ok_def sep_of_def del: tinv.simps)
  from that [OF t'(1) _ _ t'(2) t'(3) this] show thesis
    using entries_halves [of 3 ?ts] by (simp add: ftrees_def comp_def)
qed

lemma solve_overflow_innode_correct:
  assumes "siblings_ok ((p, L, R) # fs) A k B lo hi n" "repF t ((p, L, R) # fs) [A, B]"
    "length L + length R = 4"
  shows "\<exists>t'. solve_overflow_innode k (addr B) p (path_idx ((p, L, R) # fs)) t = Some t' \<and>
    replaced t ((p, L, R) # fs) (entries A @ entries B) t'"
  using assms
proof (induction fs arbitrary: p L R A k B lo hi n t)
  case Nil
  from siblings_split [OF Nil] obtain t1 u mk A' B' lo' hi' where
    s: "split_innode k (addr B) p (length L) t = Some (mk, u, t1)" "addr A' = p" "addr B' = u"
    "repF t1 [] [A', B']" "bt_size t1 = bt_size t" "siblings_ok [] A' mk B' lo' hi' (Suc n)"
    "entries A' @ entries B' = concat (map (entries \<circ> fst) L) @ entries A @ entries B @
       concat (map (entries \<circ> snd) R)" "\<not> is_lf A'" by metis
  obtain hn where hn: "bt_heap t1 p = Some hn" "parent hn = 0"
    using repF_node [OF s(4)] s(2) by (metis ptop_simps(1))
  from siblings_root [OF s(6,4)] s hn show ?case
    by (auto simp: solve_overflow_innode.simps [of k _ p] node_at_eq replaced_frame
        replaced_size [OF s(5)])
next
  case (Cons a fs)
  obtain p2 L2 R2 where a: "a = (p2, L2, R2)" by (cases a)
  from siblings_split [OF Cons.prems(1-3)] obtain t1 u mk A' B' lo' hi' where
    s: "split_innode k (addr B) p (length L) t = Some (mk, u, t1)" "addr A' = p" "addr B' = u"
    "repF t1 (a # fs) [A', B']" "bt_size t1 = bt_size t"
    "siblings_ok (a # fs) A' mk B' lo' hi' (Suc n)"
    "entries A' @ entries B' = concat (map (entries \<circ> fst) L) @ entries A @ entries B @
       concat (map (entries \<circ> snd) R)" "\<not> is_lf A'" by metis
  obtain hn where hn: "bt_heap t1 p = Some hn" "parent hn = p2"
    using repF_node [OF s(4)] s(2) by (metis a ptop_simps(2))
  note pn = repF_parent [OF s(4) [unfolded a]]
  have le: "length L2 + length R2 \<le> 4" using s(6) by (auto simp: a siblings_ok_def)
  note unf = solve_overflow_innode.simps [of k _ p] node_at_eq is_full_def
    replaced_frame replaced_size [OF s(5)]
  show ?case
  proof (cases "length L2 + length R2 = 4")
    case False
    with le have "length L2 + length R2 < 4" by simp
    from siblings_room [OF s(6,4) [unfolded a] this] s hn pn False show ?thesis
      by (auto simp: unf a)
  next
    case True
    from Cons.IH [OF s(6,4) [unfolded a] True] s hn pn True show ?thesis
      by (auto simp: unf a)
  qed
qed

section \<open>Splitting a leaf\<close>

lemma split_leaf_repF:
  fixes d :: "64 word"
  assumes r: "repF t fs [Lf p ks ds]" and len: "length ks = 4" "length ds = 4" "i \<le> 4"
    and nf: "\<forall>x\<in>set ks. nul_free x" "nul_free k"
  defines "ks' \<equiv> ins_at i k ks" and "ds' \<equiv> ins_at i (ucast d) ds"
  obtains t' u where "split_leaf k d p i t = Some (u, t')"
    "repF t' fs [Lf p (take 2 ks') (take 2 ds'), Lf u (drop 2 ks') (drop 2 ds')]"
    "bt_size t' = bt_size t"
proof -
  let ?h = "bt_heap t" and ?u = "bt_brk t" and ?q = "ptop fs"
  let ?xs = "path_leaves_left fs" and ?ys = "path_leaves_right fs"
  let ?a = "last_of 0 ?xs" and ?b = "first_of ?ys 0"
  from r have h: "heap_is ?h ((p, leaf_node ?q ks ds 0 0) # path_nodes p fs) (?xs @ p # ?ys)"
    (is "heap_is _ ((_, ?c) # ?N) _")
    and ok: "state_ok t" and root: "bt_root t = root_addr fs p"
    by (simp_all add: repF_def frame_nodes_def frame_leaves_def heap_is_perm [of "_ @ [_]" "_ # _"])
  note hp = repF_leaf(1) [OF r]
  have d: "distinct (?xs @ p # ?ys)" using repF_leaves(1) [OF r] by (simp add: frame_leaves_def)
  have lf: "is_leaf n" if "y \<in> set ?ys" "?h y = Some n" for y n
    using repF_leaves(2) [OF r _ that(2)] that(1) by (simp add: frame_leaves_def)
  note brk = state_ok_brk [OF ok]
  have b: "?b \<noteq> 0 \<Longrightarrow> ?b \<in> dom ?h" "?b \<noteq> p"
    using heap_isD(2,3,6) [OF h] d by (cases ?ys; auto)+
  let ?l = "Lf p (take 2 ks') (take 2 ds')" and ?r = "Lf ?u (drop 2 ks') (drop 2 ds')"
  let ?nl = "leaf_node ?q (take 2 ks') (take 2 ds') ?a ?u"
  let ?nr = "leaf_node ?q (drop 2 ks') (drop 2 ds') p ?b"
  let ?h' = "(set_prev ?h ?b ?u)(?u \<mapsto> ?nr, p \<mapsto> ?nl)"
  let ?t' = "t\<lparr>bt_tmp_idx := split_idx i, bt_brk := Suc ?u, bt_heap := ?h'\<rparr>"
  have "heap_is ?h' ((p, core ?nl) # (?u, core ?nr) # ?N) (?xs @ p # ?u # ?ys)"
    using brk lf by (intro heap_is_link_in [OF h d]) simp_all
  moreover have "mset ((p, core ?nl) # (?u, core ?nr) # ?N) = mset (frame_nodes fs [?l, ?r])"
    by (simp add: frame_nodes_def)
  ultimately have "heap_is ?h' (frame_nodes fs [?l, ?r]) (?xs @ p # ?u # ?ys)"
    using heap_is_perm by blast
  then have "heap_is ?h' (frame_nodes fs [?l, ?r]) (frame_leaves fs [?l, ?r])"
    by (simp add: frame_leaves_def)
  moreover have "dom ?h' = insert ?u (dom ?h)"
    using hp b(1) by (auto simp: set_prev_def)
  ultimately have rep: "repF ?t' fs [?l, ?r]"
    using ok root by (auto simp: repF_def state_ok_def less_SucI)
  have "split_leaf k d p i t = Some (?u, ?t')"
    unfolding ks'_def ds'_def
    by (rule split_leaf_eq [OF hp len(1,2) _ len(3) _ b nf])
      (use ok brk in \<open>simp_all add: state_ok_def\<close>)
  then show thesis by (rule that) (use rep in simp_all)
qed

section \<open>A full leaf\<close>

lemma upper_bound_pos: "ks \<noteq> [] \<Longrightarrow> hd ks \<le> k \<Longrightarrow> 0 < upper_bound ks k"
  by (cases ks) (auto simp: upper_bound_def)

lemma hd_ins_at: "ks \<noteq> [] \<Longrightarrow> 0 < i \<Longrightarrow> hd (ins_at i x ks) = hd ks"
  by (cases ks; cases i) (simp_all add: ins_at_def)

lemma sep_left_ins:
  assumes "sep_left L (Lf p ks ds)" "lbound (lo_of lo L) k" "i = upper_bound ks k" "0 < j"
  shows "sep_left L (Lf p (take j (ins_at i k ks)) ds')"
proof (cases "L = []")
  case False
  with assms have "ks \<noteq> []" "0 < i" by (auto simp: sep_left_def lo_of_def upper_bound_pos)
  then have "hd (ins_at i k ks) = hd ks" by (rule hd_ins_at)
  then show ?thesis
    using assms(4) by (intro sep_left_change [OF assms(1)]) auto
qed simp

text \<open>What is assumed of a full leaf, the entry to insert and its place.\<close>

definition full_leaf :: "btree \<Rightarrow> frame list \<Rightarrow> ptr \<Rightarrow> string list \<Rightarrow> 32 word list \<Rightarrow>
    string option \<Rightarrow> string option \<Rightarrow> string \<Rightarrow> 64 word \<Rightarrow> nat \<Rightarrow> bool" where
  "full_leaf t fs p ks ds lo hi k d i \<longleftrightarrow> repF t fs [Lf p ks ds] \<and> focus_ok fs (Lf p ks ds) lo hi 0 \<and>
     length ks = 4 \<and> lbound lo k \<and> ubound hi k \<and> nul_free k \<and> k \<notin> set ks \<and>
     ucast d \<noteq> (-1 :: 32 word) \<and> i = upper_bound ks k"

lemma full_leafD:
  assumes "full_leaf t fs p ks ds lo hi k d i"
  shows "repF t fs [Lf p ks ds]" "focus_ok fs (Lf p ks ds) lo hi 0" "length ks = 4" "length ds = 4"
    "leaf_seq lo hi ks ds" "leaf_seq lo hi (ins_at i k ks) (ins_at i (ucast d) ds)"
    "lbound lo k" "nul_free k" "i = upper_bound ks k" "i \<le> 4" "\<forall>x\<in>set ks. nul_free x"
proof -
  from assms have s: "leaf_seq lo hi ks ds" by (simp add: full_leaf_def focus_ok_def leaf_ok_seq)
  with assms show "repF t fs [Lf p ks ds]" "focus_ok fs (Lf p ks ds) lo hi 0" "length ks = 4"
    "length ds = 4" "leaf_seq lo hi ks ds" "lbound lo k" "nul_free k" "i = upper_bound ks k" "i \<le> 4"
    "leaf_seq lo hi (ins_at i k ks) (ins_at i (ucast d) ds)" "\<forall>x\<in>set ks. nul_free x"
    using upper_bound_le [of ks k] leaf_seq_ins [OF s, of k "ucast d"]
    by (auto simp: full_leaf_def leaf_seq_def)
qed

lemma overflow_leaf_rotate_prev_correct:
  assumes f: "full_leaf t (pair_frames L (Lf q kq dq) s R p fs) h ks ds lo hi k d i"
    and room: "length kq < 4"
  shows "\<exists>t'. overflow_leaf_rotate_prev k d h (path_idx (pair_frames L (Lf q kq dq) s R p fs) @ [i]) t = Some t' \<and>
    replaced t (pair_frames L (Lf q kq dq) s R p fs) (ins_at i (k, ucast d) (zip ks ds)) t'"
proof -
  note fD = full_leafD [OF f]
  from fD(2) obtain lo0 where lo: "lo = Some s" and pair: "pair_ok L (Lf q kq dq) s (Lf h ks ds) R fs lo0 hi 0"
    by (auto simp: pair_right)
  note pD = pair_seq [OF pair]
  have ne: "ks \<noteq> []" "ds \<noteq> []" "kq \<noteq> []" using fD(3,4) pD(3) by auto
  have i: "0 < i" using fD(7,9) lo pD(7) ne upper_bound_pos [of ks k] by simp
  let ?ks = "ins_at i k ks" and ?ds = "ins_at i (ucast d) ds"
  let ?k1 = "kq @ [hd ks]" and ?k2 = "tl ?ks" and ?d1 = "dq @ [hd ds]" and ?d2 = "tl ?ds"
  have lq: "length dq = length kq" using pD(1) by (simp add: leaf_seq_def)
  have hd: "?ks = hd ks # ?k2" "?ds = hd ds # ?d2"
    using hd_ins_at [OF ne(1) i] hd_ins_at [OF ne(2) i] by (metis list.collapse length_0_conv length_ins_at nat.distinct(1))+
  then have eq: "kq @ ?ks = ?k1 @ ?k2" "dq @ ?ds = ?d1 @ ?d2" by simp_all
  have seq: "leaf_seq lo0 hi (?k1 @ ?k2) (?d1 @ ?d2)"
    using leaf_seq_append [OF pD(1) fD(6) [unfolded lo] ne(3)] unfolding eq by simp
  have k2: "?k2 \<noteq> []" using fD(3) by (cases ?k2) (auto dest: arg_cong [where f = length])
  note nd = pair_nodes [OF fD(1)]
  let ?t' = "t\<lparr>bt_heap := (bt_heap t)(q \<mapsto> leaf_node p ?k1 ?d1 (before_pair L fs) h,
      h \<mapsto> leaf_node p ?k2 ?d2 q (after_pair R fs), p \<mapsto> pair_node L q (hd ?k2) h R fs)\<rparr>"
  have "replaced t fs (concat (map (entries \<circ> fst) L) @ zip (?k1 @ ?k2) (?d1 @ ?d2) @
      concat (map (entries \<circ> snd) R)) ?t'"
    using pD room lq fD(3,4) ne by (intro pair_divided [OF fD(1) pair seq]) auto
  then have "replaced t (pair_frames L (Lf q kq dq) s R p fs) (ins_at i (k, ucast d) (zip ks ds)) ?t'"
    unfolding eq [symmetric] using lq fD(3,4) by (simp add: replaced_frame zip_ins_at)
  moreover have "overflow_leaf_rotate_prev k d h (path_idx (pair_frames L (Lf q kq dq) s R p fs) @ [i]) t = Some ?t'"
    using nd ne fD i k2
    by (simp add: overflow_leaf_rotate_prev_def exec_simps shift_left_insert_node pair_node_key)
  ultimately show ?thesis by blast
qed

lemma sep_left_pos:
  assumes "sep_left L (Lf p ks ds)" "L \<noteq> []" "lbound (lo_of lo L) k" "i = upper_bound ks k"
  shows "hd (ins_at i k ks) = hd ks"
  using assms by (intro hd_ins_at) (auto simp: sep_left_def lo_of_def upper_bound_pos)

lemma ins_at_end: "i = length ks \<Longrightarrow> butlast (ins_at i k ks) = ks \<and> last (ins_at i k ks) = k"
  by (simp add: ins_at_def)

lemma last_ins_at: "i < length ks \<Longrightarrow> last (ins_at i k ks) = last ks"
  by (simp add: ins_at_def)

lemma overflow_leaf_rotate_next_correct:
  assumes f: "full_leaf t ((p, L, (s, Lf y ky dy) # R) # fs) h ks ds lo hi k d i"
    and room: "length ky < 4"
  shows "\<exists>t'. overflow_leaf_rotate_next k d h (path_idx ((p, L, (s, Lf y ky dy) # R) # fs) @ [i]) t = Some t' \<and>
    replaced t ((p, L, (s, Lf y ky dy) # R) # fs) (ins_at i (k, ucast d) (zip ks ds)) t'"
proof -
  note fD = full_leafD [OF f]
  from fD(2) obtain hi0 where hi: "hi = Some s" and pair: "pair_ok L (Lf h ks ds) s (Lf y ky dy) R fs lo hi0 0"
    by (auto simp: pair_left)
  from pair obtain lo' where lo: "lo = lo_of lo' L" by (auto simp: pair_ok_def)
  note pD = pair_seq [OF pair]
  have ne: "ks \<noteq> []" "ds \<noteq> []" "ky \<noteq> []" using fD(3,4) pD(4) by auto
  let ?ks = "ins_at i k ks" and ?ds = "ins_at i (ucast d) ds"
  let ?k1 = "butlast ?ks" and ?k2 = "last ?ks # ky" and ?d1 = "butlast ?ds" and ?d2 = "last ?ds # dy"
  have lq: "length dy = length ky" using pD(2) by (simp add: leaf_seq_def)
  have eq: "?ks @ ky = ?k1 @ ?k2" "?ds @ dy = ?d1 @ ?d2" by simp_all
  have seq: "leaf_seq lo hi0 (?k1 @ ?k2) (?d1 @ ?d2)"
    using leaf_seq_append [OF fD(6) [unfolded hi] pD(2) _ ne(3)] unfolding eq by simp
  note r = fD(1) [unfolded repF_shift]
  note nd = pair_nodes [OF r]
  let ?t' = "t\<lparr>bt_heap := (bt_heap t)(h \<mapsto> leaf_node p ?k1 ?d1 (before_pair L fs) y,
      y \<mapsto> leaf_node p ?k2 ?d2 h (after_pair R fs), p \<mapsto> pair_node L h (hd ?k2) y R fs)\<rparr>"
  have "replaced t fs (concat (map (entries \<circ> fst) L) @ zip (?k1 @ ?k2) (?d1 @ ?d2) @
      concat (map (entries \<circ> snd) R)) ?t'"
    using pD room lq fD(3,4) sep_left_pos [OF pD(8) _ fD(7) [unfolded lo] fD(9)]
    by (intro pair_divided [OF r pair seq]) (auto simp: hd_butlast)
  then have "replaced t ((p, L, (s, Lf y ky dy) # R) # fs) (ins_at i (k, ucast d) (zip ks ds)) ?t'"
    unfolding eq [symmetric] using lq fD(3,4) by (simp add: replaced_frame zip_ins_at)
  moreover have "overflow_leaf_rotate_next k d h (path_idx ((p, L, (s, Lf y ky dy) # R) # fs) @ [i]) t = Some ?t'"
  proof (cases "i = 4")
    case True
    then show ?thesis
      using nd fD ins_at_end [of i ks k] ins_at_end [of i ds "ucast d"]
      by (simp add: overflow_leaf_rotate_next_def exec_simps pair_node_key map_upd_triv)
  next
    case False
    then have "i < 4" using fD(10) by simp
    then show ?thesis
      using nd fD ne last_ins_at [of i ks k] last_ins_at [of i ds "ucast d"]
      by (simp add: overflow_leaf_rotate_next_def exec_simps pair_node_key shift_right_insert_node
          fun_upd_rotate)
  qed
  ultimately show ?thesis by blast
qed

lemma repF_second:
  assumes "repF t fs [A, Lf u ks ds]"
  shows "\<exists>n. bt_heap t u = Some n \<and> key n = ks"
proof -
  have "has (bt_heap t) u (leaf_node (ptop fs) ks ds 0 0)"
    using assms by (simp add: repF_def heap_is_def frame_nodes_def)
  then show ?thesis by (auto simp: has_leaf)
qed

lemma overflow_leaf_split_correct:
  assumes f: "full_leaf t fs p ks ds lo hi k d i"
  shows "\<exists>t'. overflow_leaf_split k d p (path_idx fs @ [i]) t = Some t' \<and>
    replaced t fs (ins_at i (k, ucast d) (zip ks ds)) t'"
proof -
  note fD = full_leafD [OF f]
  let ?ks = "ins_at i k ks" and ?ds = "ins_at i (ucast d) ds"
  from split_leaf_repF [OF fD(1,3,4,10,11,8)] obtain t1 u where
    s: "split_leaf k d p i t = Some (u, t1)"
    "repF t1 fs [Lf p (take 2 ?ks) (take 2 ?ds), Lf u (drop 2 ?ks) (drop 2 ?ds)]"
    "bt_size t1 = bt_size t" by metis
  let ?A = "Lf p (take 2 ?ks) (take 2 ?ds)" and ?B = "Lf u (drop 2 ?ks) (drop 2 ?ds)"
  let ?k = "hd (drop 2 ?ks)"
  have seq: "leaf_seq lo hi (take 2 ?ks @ drop 2 ?ks) (take 2 ?ds @ drop 2 ?ds)" using fD(6) by simp
  have "path_sep fs ?A"
  proof (cases fs)
    case (Cons g fs')
    obtain q L R where g: "g = (q, L, R)" by (cases g)
    with fD(2) Cons obtain lo' where "lo = lo_of lo' L" "sep_left L (Lf p ks ds)"
      by (auto simp: focus_ok_def)
    with fD(7,9) Cons g show ?thesis by (auto intro!: sep_left_ins)
  qed simp
  then have sib: "siblings_ok fs ?A ?k ?B lo hi 0"
    using leaf_seq_cut [OF seq] fD(2,3,4) by (auto simp: siblings_ok_def focus_ok_def)
  have ent: "zip (take 2 ?ks) (take 2 ?ds) @ zip (drop 2 ?ks) (drop 2 ?ds) =
      ins_at i (k, ucast d) (zip ks ds)"
    using fD(3,4) by (simp add: take_zip [symmetric] drop_zip [symmetric] zip_ins_at)
  obtain un where un: "bt_heap t1 u = Some un" "key un = drop 2 ?ks" using repF_second [OF s(2)] by auto
  obtain hn where hn: "bt_heap t1 p = Some hn" "parent hn = ptop fs"
    using repF_node [OF s(2)] by (metis addr.simps(1))
  have ne: "drop 2 ?ks \<noteq> []" using fD(3) by simp
  note unf = overflow_leaf_split_def node_at_eq vfront_Some [OF ne] replaced_size [OF s(3)] ent is_full_def
  show ?thesis
  proof (cases fs)
    case Nil
    from siblings_root [OF sib [unfolded Nil] s(2) [unfolded Nil]] s un hn Nil show ?thesis
      by (auto simp: unf)
  next
    case (Cons g fs')
    obtain q L R where g: "g = (q, L, R)" by (cases g)
    note sib' = sib [unfolded Cons g] and rep' = s(2) [unfolded Cons g]
    note pn = repF_parent [OF rep']
    show ?thesis
    proof (cases "length L + length R = 4")
      case True
      from solve_overflow_innode_correct [OF sib' rep' True] s un hn Cons g pn True show ?thesis
        by (auto simp: unf)
    next
      case False
      with sib' have "length L + length R < 4" by (auto simp: siblings_ok_def)
      from siblings_room [OF sib' rep' this] s un hn Cons g pn False show ?thesis
        by (auto simp: unf)
    qed
  qed
qed

section \<open>The guards\<close>

lemma parent_in_tree: "(x, c) \<in> set (nodes_of par T) \<Longrightarrow> parent c = par \<or> parent c \<in> set (addrs T)"
proof (induction par T arbitrary: rule: nodes_of.induct)
  case (2 par p ks ts)
  then show ?case by fastforce
qed simp

lemma parent_in_path:
  "(x, c) \<in> set (path_nodes q fs) \<Longrightarrow> is_leaf c \<Longrightarrow> parent c \<in> fst ` set (path_nodes q fs)"
proof (induction q fs rule: path_nodes.induct)
  case (2 q p L R fs)
  consider "(x, c) \<in> set (lefts_nodes p L)" | "(x, c) \<in> set (rights_nodes p R)" |
    "(x, c) \<in> set (path_nodes p fs)" using "2.prems" by auto
  then show ?case
  proof cases
    case 1
    then obtain T s where T: "(T, s) \<in> set L" "(x, c) \<in> set (nodes_of p T)"
      by (auto simp: lefts_nodes_def)
    then have "set (addrs T) \<subseteq> fst ` set (lefts_nodes p L)"
      by (force simp: lefts_nodes_def fst_set_nodes_of [symmetric, of _ p] simp del: fst_set_nodes_of)
    with parent_in_tree [OF T(2)] show ?thesis by (auto simp: image_Un)
  next
    case 2
    then obtain T s where T: "(s, T) \<in> set R" "(x, c) \<in> set (nodes_of p T)"
      by (auto simp: rights_nodes_def)
    then have "set (addrs T) \<subseteq> fst ` set (rights_nodes p R)"
      by (force simp: rights_nodes_def fst_set_nodes_of [symmetric, of _ p] simp del: fst_set_nodes_of)
    with parent_in_tree [OF T(2)] show ?thesis by (auto simp: image_Un)
  next
    case 3
    with "2.IH" "2.prems"(2) show ?thesis by (auto simp: image_Un)
  qed
qed simp

text \<open>A leaf beyond the parent of the focus hangs under another parent.\<close>

lemma outside_parent:
  assumes r: "repF t ((p, L, R) # fs) ts" and x: "x \<in> set (path_leaves_left fs @ path_leaves_right fs)"
  shows "\<exists>n. bt_heap t x = Some n \<and> parent n \<noteq> p"
proof -
  have "x \<in> set (leaf_addrs (path_nodes p fs))" using x leaf_addrs_path by (metis mset_eq_setD)
  then obtain c where c: "(x, c) \<in> set (path_nodes p fs)" "is_leaf c" by (auto simp: leaf_addrs_def)
  from r have "holds (bt_heap t) (path_nodes p fs)" "p \<notin> fst ` set (path_nodes p fs)"
    by (auto simp: repF_def heap_is_def frame_nodes_def)
  moreover from this(1) c obtain n where "bt_heap t x = Some n" "core n = c"
    by (auto simp: holds_def has_def)
  ultimately show ?thesis using parent_in_path [OF c] by (force simp: core_def split: if_splits)
qed

text \<open>Whether the left, or the right, neighbour is a sibling with room for another key.\<close>

lemma left_guard:
  assumes r: "repF t fs [Lf h ks ds]" and f: "focus_ok fs (Lf h ks ds) lo hi 0"
    and hn: "hn = leaf_node (ptop fs) ks ds (last_of 0 (path_leaves_left fs)) b"
  shows "sibling_has_room (prev hn) hn t = Some False \<or>
    (\<exists>L q kq dq s R p fs'. fs = pair_frames L (Lf q kq dq) s R p fs' \<and> length kq < 4 \<and>
       sibling_has_room (prev hn) hn t = Some True)"
proof (cases fs)
  case Nil
  then show ?thesis by (simp add: hn sibling_has_room_def)
next
  case (Cons g fs')
  obtain p L R where g: "g = (p, L, R)" by (cases g)
  show ?thesis
  proof (cases L rule: rev_cases)
    case Nil
    with r Cons g have "repF t ((p, [], R) # fs') [Lf h ks ds]" by simp
    from outside_parent [OF this] have "last_of 0 (path_leaves_left fs') \<noteq> 0 \<Longrightarrow>
        \<exists>n. bt_heap t (last_of 0 (path_leaves_left fs')) = Some n \<and> parent n \<noteq> p"
      using last_of_in [of "path_leaves_left fs'"] by simp
    then show ?thesis by (auto simp: hn Cons g Nil sibling_has_room_def node_at_eq)
  next
    case (snoc L' xs)
    obtain X s where xs: "xs = (X, s)" by (cases xs)
    note e = Cons [unfolded g snoc xs]
    obtain lo' where pair: "pair_ok L' X s (Lf h ks ds) R fs' lo' hi 0"
      using f by (auto simp: e pair_right)
    then obtain q kq dq where X: "X = Lf q kq dq" by (rule pair_leaves) auto
    note nd = pair_nodes [OF r [unfolded e X]]
    have "length kq \<le> 4" using pair_seq(5) [OF pair [unfolded X]] .
    then show ?thesis using nd
      by (cases "length kq = 4") (auto simp: hn e X sibling_has_room_def node_at_eq is_full_def)
  qed
qed

lemma right_guard:
  assumes r: "repF t fs [Lf h ks ds]" and f: "focus_ok fs (Lf h ks ds) lo hi 0"
    and hn: "hn = leaf_node (ptop fs) ks ds a (first_of (path_leaves_right fs) 0)"
  shows "sibling_has_room (nxt hn) hn t = Some False \<or>
    (\<exists>L q kq dq s R p fs'. fs = (p, L, (s, Lf q kq dq) # R) # fs' \<and> length kq < 4 \<and>
       sibling_has_room (nxt hn) hn t = Some True)"
proof (cases fs)
  case Nil
  then show ?thesis by (simp add: hn sibling_has_room_def)
next
  case (Cons g fs')
  obtain p L R where g: "g = (p, L, R)" by (cases g)
  show ?thesis
  proof (cases R)
    case Nil
    with r Cons g have "repF t ((p, L, []) # fs') [Lf h ks ds]" by simp
    from outside_parent [OF this] have "first_of (path_leaves_right fs') 0 \<noteq> 0 \<Longrightarrow>
        \<exists>n. bt_heap t (first_of (path_leaves_right fs') 0) = Some n \<and> parent n \<noteq> p"
      using first_of_in [of "path_leaves_right fs'"] by simp
    then show ?thesis by (auto simp: hn Cons g Nil sibling_has_room_def node_at_eq)
  next
    case R: (Cons xs R')
    obtain s X where xs: "xs = (s, X)" by (cases xs)
    note e = Cons [unfolded g R xs]
    obtain hi' where pair: "pair_ok L (Lf h ks ds) s X R' fs' lo hi' 0"
      using f by (auto simp: e pair_left)
    then obtain q kq dq where X: "X = Lf q kq dq" by (rule pair_leaves) auto
    note nd = pair_nodes [OF r [unfolded e X repF_shift]]
    have "length kq \<le> 4" using pair_seq(6) [OF pair [unfolded X]] .
    then show ?thesis using nd
      by (cases "length kq = 4") (auto simp: hn e X sibling_has_room_def node_at_eq is_full_def)
  qed
qed

lemma solve_overflow_leaf_correct:
  assumes f: "full_leaf t fs p ks ds lo hi k d i"
  shows "\<exists>t'. solve_overflow_leaf k d p (path_idx fs @ [i]) t = Some t' \<and>
    replaced t fs (ins_at i (k, ucast d) (zip ks ds)) t'"
proof -
  note fD = full_leafD [OF f]
  define hn where "hn = leaf_node (ptop fs) ks ds (last_of 0 (path_leaves_left fs))
    (first_of (path_leaves_right fs) 0)"
  note left = left_guard [OF fD(1,2) hn_def] and right = right_guard [OF fD(1,2) hn_def]
  have "bt_heap t p = Some hn" using repF_leaf(1) [OF fD(1)] by (simp add: hn_def)
  note unf = solve_overflow_leaf_def node_at_eq this
  consider (l) "sibling_has_room (prev hn) hn t = Some True" |
    (r) "sibling_has_room (prev hn) hn t = Some False" "sibling_has_room (nxt hn) hn t = Some True" |
    (s) "sibling_has_room (prev hn) hn t = Some False" "sibling_has_room (nxt hn) hn t = Some False"
    using left right by blast
  then show ?thesis
  proof cases
    case l
    with left obtain L q kq dq s R p' fs' where
      e: "fs = pair_frames L (Lf q kq dq) s R p' fs'" "length kq < 4" by auto
    from overflow_leaf_rotate_prev_correct [OF f [unfolded e(1)] e(2)] l show ?thesis
      by (simp add: unf e(1) [symmetric])
  next
    case r
    with right obtain L q kq dq s R p' fs' where
      e: "fs = (p', L, (s, Lf q kq dq) # R) # fs'" "length kq < 4" by auto
    from overflow_leaf_rotate_next_correct [OF f [unfolded e(1)] e(2)] r show ?thesis
      by (simp add: unf e(1) [symmetric])
  next
    case s
    with overflow_leaf_split_correct [OF f] show ?thesis by (simp add: unf)
  qed
qed

section \<open>Insertion\<close>

lemma path_sep_ins:
  assumes "focus_ok fs (Lf p ks ds) lo hi n" "lbound lo k" "i = upper_bound ks k"
  shows "path_sep fs (Lf p (ins_at i k ks) ds')"
proof (cases fs)
  case (Cons g fs')
  obtain q L R where g: "g = (q, L, R)" by (cases g)
  with assms(1) Cons obtain lo' where "lo = lo_of lo' L" "sep_left L (Lf p ks ds)"
    by (auto simp: focus_ok_def)
  with sep_left_ins [of L p ks ds lo' k i "Suc (length ks)" ds'] assms(2,3) Cons g show ?thesis by simp
qed simp

lemma insert_new:
  assumes rep: "repF t fs [Lf p ks ds]" and f: "focus_ok fs (Lf p ks ds) lo hi 0"
    and k: "lbound lo k" "ubound hi k" "nul_free k" "k \<notin> set ks" and d: "ucast d \<noteq> (-1 :: 32 word)"
    and s: "search_hot t k = Some (-1, p, path_idx fs @ [upper_bound ks k])"
  shows "\<exists>t'. BTree_insert k d t = Some (1, t') \<and>
    replaced (t\<lparr>bt_size := bt_size t + 1\<rparr>) fs (ins_at (upper_bound ks k) (k, ucast d) (zip ks ds)) t'"
proof -
  let ?i = "upper_bound ks k"
  note hp = repF_leaf(1) [OF rep]
  have seq: "leaf_seq lo hi ks ds" "length ks \<le> 4" "min_keys fs \<le> length ks"
    using f by (auto simp: focus_ok_def leaf_ok_seq)
  then have len: "length ds = length ks" by (simp add: leaf_seq_def)
  note unf = BTree_insert_def s node_at_eq hp is_full_def
  have fin: "replaced (t\<lparr>bt_size := bt_size t + 1\<rparr>) fs es (t'\<lparr>bt_size := bt_size t' + 1\<rparr>)"
    if "replaced t fs es t'" for es t'
    using that by (auto simp: replaced_def btree_rep_def repF_def state_ok_def)
  show ?thesis
  proof (cases "length ks = 4")
    case True
    then have "full_leaf t fs p ks ds lo hi k d ?i"
      using rep f k d by (simp add: full_leaf_def)
    from solve_overflow_leaf_correct [OF this] fin True show ?thesis by (auto simp: unf)
  next
    case False
    let ?t' = "t\<lparr>bt_heap := (bt_heap t)(p \<mapsto> leaf_node (ptop fs) (ins_at ?i k ks) (ins_at ?i (ucast d) ds)
      (last_of 0 (path_leaves_left fs)) (first_of (path_leaves_right fs) 0))\<rparr>"
    have "replaced t fs (zip (ins_at ?i k ks) (ins_at ?i (ucast d) ds)) ?t'"
      using seq False path_sep_ins [OF f k(1) refl]
      by (intro leaf_changed [OF rep f]) (auto intro!: leaf_seq_ins [OF seq(1)] k d)
    from fin [OF this] show ?thesis
      using False len
      by (simp add: unf modify_node_eq [OF hp] insert_leaf_entry_node zip_ins_at)
  qed
qed

lemma insert_old:
  assumes rep: "repF t fs [Lf p ks ds]" and f: "focus_ok fs (Lf p ks ds) lo hi 0"
    and k: "i < length ks" "ks ! i = k" and d: "ucast d \<noteq> (-1 :: 32 word)"
    and s: "search_hot t k = Some (r, p, path_idx fs @ [i])" "r \<noteq> -1"
  shows "\<exists>t'. BTree_insert k d t = Some (0, t') \<and> replaced t fs (zip ks (ds[i := ucast d])) t'"
proof -
  note hp = repF_leaf(1) [OF rep]
  have seq: "leaf_seq lo hi ks ds" "length ks \<le> 4" "min_keys fs \<le> length ks"
    using f by (auto simp: focus_ok_def leaf_ok_seq)
  then have len: "length ds = length ks" by (simp add: leaf_seq_def)
  let ?ds = "ds[i := ucast d]"
  let ?t' = "t\<lparr>bt_heap := (bt_heap t)(p \<mapsto> leaf_node (ptop fs) ks ?ds
    (last_of 0 (path_leaves_left fs)) (first_of (path_leaves_right fs) 0))\<rparr>"
  have "path_sep fs (Lf p ks ?ds)"
    using f by (auto simp: focus_ok_def path_sep_def sep_left_def split: list.splits)
  moreover have "leaf_seq lo hi ks ?ds"
    using seq(1) d by (auto simp: leaf_seq_def dest: subsetD [OF set_update_subset_insert])
  ultimately have "replaced t fs (zip ks ?ds) ?t'"
    using seq by (intro leaf_changed [OF rep f]) auto
  moreover have "BTree_insert k d t = Some (0, ?t')"
    using s k len
    by (simp add: BTree_insert_def modify_node_eq [OF hp] exec_simps leaf_node_def)
  ultimately show ?thesis by blast
qed

text \<open>\<^verbatim>\<open>BTree::insert\<close> returns, and it updates the map at the key.\<close>

lemma BTree_insert_map:
  assumes rep: "btree_rep t T" and k: "nul_free k" and d: "ucast d \<noteq> (-1 :: 32 word)"
  shows "\<exists>t' T'. BTree_insert k d t = Some (if k \<in> set (keys_of T) then 0 else 1, t') \<and>
    btree_rep t' T' \<and> map_of (entries T') = (map_of (entries T))(k \<mapsto> ucast d) \<and>
    bt_size t' = (if k \<in> set (keys_of T) then bt_size t else bt_size t + 1) \<and>
    length (entries T') = (if k \<in> set (keys_of T) then length (entries T) else Suc (length (entries T)))"
proof -
  from search_hot_correct [OF rep] obtain fs p ks ds lo hi where
    T: "T = plug fs (Lf p ks ds)" and r: "repF t fs [Lf p ks ds]" and
    f: "focus_ok fs (Lf p ks ds) lo hi 0" and b: "lbound lo k" "ubound hi k" and
    nf: "k \<notin> set ks \<Longrightarrow> search_hot t k = Some (-1, p, path_idx fs @ [upper_bound ks k])" and
    fd: "k \<in> set ks \<Longrightarrow> search_hot t k =
       Some (scast (ds ! (upper_bound ks k - 1)), p, path_idx fs @ [upper_bound ks k - 1])" by metis
  let ?xs = "path_entries_left fs" and ?ys = "path_entries_right fs" and ?z = "zip ks ds"
  have e: "entries T = ?xs @ ?z @ ?ys" by (simp add: T entries_plug)
  have ok: "leaf_ok lo hi ks ds" using f by (simp add: focus_ok_def)
  then have len: "length ds = length ks" by (simp add: leaf_ok_def)
  note fe = focus_entries [OF f b]
  show ?thesis
  proof (cases "k \<in> set ks")
    case False
    let ?i = "upper_bound ks k"
    from insert_new [OF r f b k False d nf [OF False]] obtain t' T' where
      t': "BTree_insert k d t = Some (1, t')" "btree_rep t' T'" "bt_size t' = bt_size t + 1"
      "entries T' = (?xs @ take ?i ?z) @ (k, ucast d) # (drop ?i ?z @ ?ys)"
      by (auto simp: replaced_def ins_at_def)
    have "k \<notin> fst ` set (?xs @ ?z @ ?ys)" using fe(3) [OF False] .
    then have nk: "k \<notin> set (keys_of T)" and nx: "k \<notin> fst ` set (?xs @ take ?i ?z)"
      using e by (auto dest: in_set_takeD)
    have "map_of (entries T') = (map_of ((?xs @ take ?i ?z) @ (drop ?i ?z @ ?ys)))(k \<mapsto> ucast d)"
      unfolding t'(4) by (rule map_of_insert [OF nx])
    moreover have eT: "entries T = (?xs @ take ?i ?z) @ (drop ?i ?z @ ?ys)" by (simp add: e)
    ultimately have "map_of (entries T') = (map_of (entries T))(k \<mapsto> ucast d)" by (simp only:)
    moreover have "length (entries T') = Suc (length (entries T))" unfolding t'(4) eT by simp
    ultimately show ?thesis using t'(1-3) nk by auto
  next
    case True
    let ?i = "upper_bound ks k - 1"
    have srt: "sorted_wrt (<) ks" using ok by (simp add: leaf_ok_def)
    have i: "?i < length ks" "ks ! ?i = k"
      using upper_bound_found [OF srt True] upper_bound_le [of ks k] by (simp_all, linarith)
    have "ds ! ?i \<in> set ds" "-1 \<notin> set ds" using i(1) len ok by (simp_all add: leaf_ok_def)
    then have "ds ! ?i \<noteq> -1" by metis
    then have ne: "scast (ds ! ?i) \<noteq> (-1 :: 64 word)" by simp
    have z: "zip ks (ds[?i := ucast d]) = take ?i ?z @ (k, ucast d) # drop (Suc ?i) ?z"
      using zip_upd_right [of ds ks ?i "ucast d"] i len by simp
    from insert_old [OF r f i d fd [OF True] ne] obtain t' T' where
      t': "BTree_insert k d t = Some (0, t')" "btree_rep t' T'" "bt_size t' = bt_size t"
      "entries T' = (?xs @ take ?i ?z) @ (k, ucast d) # (drop (Suc ?i) ?z @ ?ys)"
      unfolding replaced_def z by auto
    note s = fe(4) [OF i]
    then have eT: "entries T = (?xs @ take ?i ?z) @ (k, ds ! ?i) # (drop (Suc ?i) ?z @ ?ys)"
      by (metis append.assoc append_Cons e)
    have "k \<in> set (keys_of T)" by (simp add: eT)
    moreover have "map_of (entries T') = (map_of (entries T))(k \<mapsto> ucast d)"
      unfolding t'(4) eT by (simp only: map_of_insert [OF conjunct1 [OF conjunct2 [OF s]]] fun_upd_upd)
    moreover have "length (entries T') = length (entries T)" by (simp only: t'(4) eT length_append list.size)
    ultimately show ?thesis using t' by auto
  qed
qed

end
