(* ===== verification/BTree_Underflow.thy ===== *)
theory BTree_Underflow
  imports BTree_Siblings
begin

text \<open>
  Rebalancing above a merge: the parent of two merged nodes keeps a stale separator and
  pointer until it drops them, and \<^verbatim>\<open>BTree::solve_underflow_innode\<close> restores the minimum of
  two keys on the way up by moving one child between siblings or by merging them.
\<close>

section \<open>A parent with a stale entry\<close>

text \<open>
  After a merge the parent \<open>p\<close> still holds the separator \<open>kd ! i\<close> and, behind it, the pointer
  to the freed child; without them its children are \<open>ts\<close>.  Everything else is in place.
\<close>

definition repD :: "btree \<Rightarrow> frame list \<Rightarrow> ptr \<Rightarrow> string list \<Rightarrow> ptr list \<Rightarrow> nat \<Rightarrow> tree list \<Rightarrow> bool" where
  "repD t fs p kd cd i ts \<longleftrightarrow> i < length kd \<and> length cd = Suc (length kd) \<and>
     map addr ts = del_at (Suc i) cd \<and>
     heap_is (bt_heap t) ((p, inner_node (ptop fs) kd cd) # concat (map (nodes_of p) ts) @ path_nodes p fs)
       (path_leaves_left fs @ concat (map leaves ts) @ path_leaves_right fs) \<and>
     state_ok t \<and> bt_root t = root_addr fs p"

lemma repDD:
  assumes "repD t fs p kd cd i ts"
  shows "bt_heap t p = Some (inner_node (ptop fs) kd cd)" "p \<noteq> 0" "i < length kd"
    "length cd = Suc (length kd)" "map addr ts = del_at (Suc i) cd" "state_ok t"
    "bt_root t = root_addr fs p" "length ts = length kd" "cd ! i = addr (ts ! i)"
    "heap_is (bt_heap t) ((p, inner_node (ptop fs) kd cd) # concat (map (nodes_of p) ts) @ path_nodes p fs)
       (path_leaves_left fs @ concat (map leaves ts) @ path_leaves_right fs)"
proof -
  from assms have "has (bt_heap t) p (inner_node (ptop fs) kd cd)" by (simp add: repD_def heap_is_def)
  then show "bt_heap t p = Some (inner_node (ptop fs) kd cd)" by (simp add: has_inner)
  from assms have l: "i < length kd" "length cd = Suc (length kd)" and m: "map addr ts = del_at (Suc i) cd"
    by (simp_all add: repD_def)
  then have "length (map addr ts) = length kd" by simp
  then show len: "length ts = length kd" by simp
  have "cd ! i = map addr ts ! i" using l by (simp add: m del_at_def nth_append)
  then show "cd ! i = addr (ts ! i)" using l len by simp
  show "p \<noteq> 0" "i < length kd" "length cd = Suc (length kd)" "map addr ts = del_at (Suc i) cd"
    "state_ok t" "bt_root t = root_addr fs p"
    "heap_is (bt_heap t) ((p, inner_node (ptop fs) kd cd) # concat (map (nodes_of p) ts) @ path_nodes p fs)
       (path_leaves_left fs @ concat (map leaves ts) @ path_leaves_right fs)"
    using assms by (auto simp: repD_def heap_is_def)
qed

lemma not_root:
  assumes "p \<notin> fst ` set (path_nodes p fs)"
  shows "root_addr fs p = p \<longleftrightarrow> fs = []"
proof
  assume e: "root_addr fs p = p"
  have "fs \<noteq> [] \<Longrightarrow> fst (last fs) \<in> fst ` set (path_nodes q fs)" for q
  proof (induction q fs rule: path_nodes.induct)
    case (2 c p L R fs)
    then show ?case by (cases fs) (auto simp: image_Un)
  qed simp
  with e assms show "fs = []" by (metis root_addr_def)
qed simp

lemma repD_root: "repD t fs p kd cd i ts \<Longrightarrow> p = bt_root t \<longleftrightarrow> fs = []"
  using not_root [of p fs] by (auto simp: repD_def heap_is_def)

lemma has_not_leaf: "\<not> is_leaf c \<Longrightarrow> has h p c \<longleftrightarrow> h p = Some c"
  unfolding has_def by (auto simp: core_def)

lemma length_one: "length xs = Suc 0 \<longleftrightarrow> (\<exists>x. xs = [x])"
  by (simp add: length_Suc_conv)

text \<open>The stale entry goes, or with it a root that has no other.\<close>

lemma drop_repF:
  assumes r: "repD t fs p kd cd i ts" and one: "length kd = 1 \<Longrightarrow> fs = []"
  obtains t' where "drop_from_parent p (addr (ts ! i)) i t = Some t'" "bt_size t' = bt_size t"
    "fs = [] \<and> length kd = 1 \<and> repF t' [] [ts ! 0] \<and> length ts = 1 \<or>
     \<not> (fs = [] \<and> length kd = 1) \<and> repF t' fs [Nd p (del_at i kd) ts]"
proof -
  note rD = repDD [OF r]
  note root = repD_root [OF r]
  show thesis
  proof (cases "fs = [] \<and> length kd = 1")
    case True
    with rD(3,8) obtain T where ts: "ts = [T]" "i = 0" by (auto simp: length_one)
    let ?h = "bt_heap t"
    let ?h1 = "reparent ?h {addr T} 0"
    let ?t' = "t\<lparr>bt_heap := ?h1(p := None), bt_root := addr T\<rparr>"
    have h: "heap_is ?h (concat (map (nodes_of p) [T]) @ [(p, inner_node 0 kd cd)]) (leaves T)"
      using rD(10) True ts heap_is_perm [of "(p, inner_node 0 kd cd) # nodes_of p T"
          "nodes_of p T @ [(p, inner_node 0 kd cd)]"] by simp
    have "heap_is ?h1 (concat (map (nodes_of 0) [T]) @ [(p, inner_node 0 kd cd)]) (leaves T)"
      using heap_is_reparent [OF h, of 0] by simp
    then have h1: "heap_is ?h1 ((p, inner_node 0 kd cd) # nodes_of 0 T) (leaves T)"
      using heap_is_perm [of "(p, inner_node 0 kd cd) # nodes_of 0 T"
          "nodes_of 0 T @ [(p, inner_node 0 kd cd)]"] by simp
    have dom: "addr T \<in> dom ?h" "addr T \<noteq> p"
      using heap_isD(1,2) [OF h] by (auto simp: nodes_of_split)
    have "p \<notin> set (leaves T)"
    proof
      assume "p \<in> set (leaves T)"
      moreover have "mset (leaf_addrs ((p, inner_node 0 kd cd) # nodes_of 0 T)) = mset (leaves T)" by simp
      moreover have "?h1 p = Some (inner_node 0 kd cd)" using h1 by (simp add: heap_is_def has_inner)
      ultimately show False using heap_leaves(2) [OF h1] by (metis node_sels(9))
    qed
    from heap_is_del [OF h1 this] have "repF ?t' [] [T]"
      using rD(6) by (auto simp: repF_def frame_nodes_def frame_leaves_def state_ok_def)
    moreover have "drop_from_parent p (addr T) 0 t = Some ?t'"
      using rD(1,7) True dom
      by (auto simp: drop_from_parent_def node_at_eq set_parent_eq delete_node_def)
    ultimately show thesis using that [of ?t'] True ts by simp
  next
    case False
    let ?n = "inner_node (ptop fs) (del_at i kd) (del_at (Suc i) cd)"
    let ?t' = "t\<lparr>bt_heap := (bt_heap t)(p \<mapsto> ?n)\<rparr>"
    have "heap_is ((bt_heap t)(p \<mapsto> ?n)) (frame_nodes fs [Nd p (del_at i kd) ts])
        (path_leaves_left fs @ concat (map leaves ts) @ path_leaves_right fs)"
      by (rule heap_is_set [OF rD(10,1)]) (simp_all add: frame_nodes_def rD(5))
    then have "repF ?t' fs [Nd p (del_at i kd) ts]"
      using rD by (auto simp: repF_def frame_leaves_def state_ok_def)
    moreover have "drop_from_parent p (addr (ts ! i)) i t = Some ?t'"
      using rD(1,3,4) root False one
      by (auto simp: drop_from_parent_def node_at_eq modify_node_eq exec_simps del_at_def le_Suc_eq)
    ultimately show thesis using that [of ?t'] False by simp
  qed
qed

section \<open>Moving children between inner siblings\<close>

text \<open>
  Children \<open>mv\<close> go from the node \<open>a\<close> to the node \<open>b\<close>; both and their parent \<open>q\<close> get new
  contents.
\<close>

lemma heap_is_move:
  assumes h: "heap_is h N ls"
    and N: "mset N = add_mset (a, ca) (add_mset (b, cb) (add_mset (q, cq)
      (mset (concat (map (nodes_of a) ta)) + mset (concat (map (nodes_of b) tb)) + M)))"
    and inner: "\<not> is_leaf ca" "\<not> is_leaf cb" "\<not> is_leaf cq"
      "prev ca = 0" "nxt ca = 0" "prev cb = 0" "nxt cb = 0" "prev cq = 0" "nxt cq = 0"
    and K: "M = mset K"
    and mv: "mset ta = mset mv + mset ta'" "mset tb' = mset mv + mset tb"
  shows "heap_is ((reparent h (set (map addr mv)) b)(b \<mapsto> inner_node r kb db, q \<mapsto> inner_node r' kq dq,
      a \<mapsto> inner_node r'' ka da))
    ((a, inner_node r'' ka da) # (b, inner_node r kb db) # (q, inner_node r' kq dq) #
      concat (map (nodes_of a) ta') @ concat (map (nodes_of b) tb') @ K) ls"
proof -
  have ms: "mset (concat (map f xs)) = \<Sum>\<^sub># (image_mset (mset \<circ> f) (mset xs))" for f :: "tree \<Rightarrow> (ptr \<times> bnode) list" and xs
    by (induction xs) simp_all
  let ?R = "(a, ca) # (b, cb) # (q, cq) # concat (map (nodes_of a) ta') @ concat (map (nodes_of b) tb) @ K"
  have "mset N = mset (concat (map (nodes_of a) mv) @ ?R)"
    unfolding N by (simp add: ms mv K ac_simps)
  then have h1: "heap_is h (concat (map (nodes_of a) mv) @ ?R) ls" using h heap_is_perm by blast
  note hD = heap_isD [OF h1]
  have sub: "set (map addr mv) \<subseteq> fst ` set (concat (map (nodes_of a) mv))"
    by (force simp: nodes_of_split)
  have nin: "a \<notin> set (map addr mv)" "b \<notin> set (map addr mv)" "q \<notin> set (map addr mv)"
    using hD(1) sub by auto
  have ne: "a \<noteq> b" "a \<noteq> q" "b \<noteq> q" using hD(1) by auto
  have get: "h a = Some ca" "h b = Some cb" "h q = Some cq"
    using hD(4) inner by (simp_all add: has_not_leaf)
  have "heap_is (reparent h (set (map addr mv)) b) (concat (map (nodes_of b) mv) @ ?R) ls"
    by (rule heap_is_reparent [OF h1])
  then have "heap_is ((reparent h (set (map addr mv)) b)(b \<mapsto> inner_node r kb db))
      ((b, inner_node r kb db) # (a, ca) # (q, cq) # concat (map (nodes_of b) mv) @
        concat (map (nodes_of a) ta') @ concat (map (nodes_of b) tb) @ K) ls"
    by (rule heap_is_set [where m = cb]) (use get nin inner in simp_all)
  then have "heap_is ((reparent h (set (map addr mv)) b)(b \<mapsto> inner_node r kb db, q \<mapsto> inner_node r' kq dq))
      ((b, inner_node r kb db) # (q, inner_node r' kq dq) # (a, ca) # concat (map (nodes_of b) mv) @
        concat (map (nodes_of a) ta') @ concat (map (nodes_of b) tb) @ K) ls"
    by (rule heap_is_set [where m = cq]) (use get nin inner ne in simp_all)
  then show ?thesis
    by (rule heap_is_set [where m = ca]) (use get nin inner ne mv in \<open>simp_all add: ms ac_simps\<close>)
qed

text \<open>The separator between two inner siblings whose children come together.\<close>

primrec node_keys :: "tree \<Rightarrow> string list" where
  "node_keys (Lf p ks ds) = ks"
| "node_keys (Nd p ks ts) = ks"

definition join_sep :: "string \<Rightarrow> tree \<Rightarrow> string" where
  "join_sep s T = (if is_lf T then hd (node_keys T) else s)"

lemma node_core_sels [simp]:
  "parent (node_core p T) = p" "is_leaf (node_core p T) = is_lf T" "key (node_core p T) = node_keys T"
  by (cases T; simp add: node_core_def)+

lemma core_sels [simp]: "is_leaf (core n) = is_leaf n" "key (core n) = key n" "parent (core n) = parent n"
  by (simp_all add: core_def)

lemma has_node_core:
  "has h x (node_core p T) \<Longrightarrow> \<exists>n. h x = Some n \<and> is_leaf n = is_lf T \<and> key n = node_keys T"
  unfolding has_def by (metis core_sels node_core_sels(2,3))

lemma at_pair [simp]:
  "at (map f L @ x # ys) (length L) = Some x" "at (map f L @ x # y # ys) (Suc (length L)) = Some y"
  by (simp_all add: at_def nth_append)

text \<open>The nodes of a parent with a stale entry and of its left, or right, sibling.\<close>

lemma repD_left:
  assumes r: "repD t ((pp, L @ [(Nd q kq tq, s)], R) # fs) p kd cd i ts"
  shows "heap_is (bt_heap t) ((q, inner_node pp kq (map addr tq)) # (p, inner_node pp kd cd) #
      (pp, pair_node L q s p R fs) # concat (map (nodes_of q) tq) @ concat (map (nodes_of p) ts) @
      lefts_nodes pp L @ rights_nodes pp R @ path_nodes pp fs)
    (path_leaves_left ((pp, L, R) # fs) @ concat (map leaves tq) @ concat (map leaves ts) @
      path_leaves_right ((pp, L, R) # fs))"
proof -
  note h = repDD(10) [OF r]
  have "heap_is (bt_heap t) ((q, inner_node pp kq (map addr tq)) # (p, inner_node pp kd cd) #
      (pp, pair_node L q s p R fs) # concat (map (nodes_of q) tq) @ concat (map (nodes_of p) ts) @
      lefts_nodes pp L @ rights_nodes pp R @ path_nodes pp fs)
    (path_leaves_left ((pp, L @ [(Nd q kq tq, s)], R) # fs) @ concat (map leaves ts) @
      path_leaves_right ((pp, L @ [(Nd q kq tq, s)], R) # fs))"
    by (rule iffD1 [OF heap_is_perm h]) (simp add: pair_node_def fkeys_def)
  then show ?thesis by simp
qed

lemma repD_right:
  assumes r: "repD t ((pp, L, (s, Nd q kq tq) # R) # fs) p kd cd i ts"
  shows "heap_is (bt_heap t) ((q, inner_node pp kq (map addr tq)) # (p, inner_node pp kd cd) #
      (pp, pair_node L p s q R fs) # concat (map (nodes_of q) tq) @ concat (map (nodes_of p) ts) @
      lefts_nodes pp L @ rights_nodes pp R @ path_nodes pp fs)
    (path_leaves_left ((pp, L, R) # fs) @ concat (map leaves ts) @ concat (map leaves tq) @
      path_leaves_right ((pp, L, R) # fs))"
proof -
  note h = repDD(10) [OF r]
  have "heap_is (bt_heap t) ((q, inner_node pp kq (map addr tq)) # (p, inner_node pp kd cd) #
      (pp, pair_node L p s q R fs) # concat (map (nodes_of q) tq) @ concat (map (nodes_of p) ts) @
      lefts_nodes pp L @ rights_nodes pp R @ path_nodes pp fs)
    (path_leaves_left ((pp, L, (s, Nd q kq tq) # R) # fs) @ concat (map leaves ts) @
      path_leaves_right ((pp, L, (s, Nd q kq tq) # R) # fs))"
    by (rule iffD1 [OF heap_is_perm h]) (simp add: pair_node_def fkeys_def)
  then show ?thesis by simp
qed

lemma inner_rotate_prev_repF:
  assumes r: "repD t ((pp, L @ [(Nd q kq tq, s)], R) # fs) p kd cd i ts" and len: "length kd = 2"
    and q: "length tq = Suc (length kq)" "3 \<le> length kq" and ne: "is_lf (hd ts) \<Longrightarrow> node_keys (hd ts) \<noteq> []"
    and lf: "is_lf (last tq) = is_lf (hd ts)"
  shows "\<exists>t'. underflow_innode_rotate_prev p i (Suc (length L)) pp t = Some t' \<and> bt_size t' = bt_size t \<and>
    repF t' ((pp, L @ [(Nd q (butlast kq) (butlast tq), last kq)], R) # fs)
      [Nd p (join_sep s (hd ts) # del_at i kd) (last tq # ts)]"
proof -
  note rD = repDD [OF r]
  note h = repD_left [OF r]
  obtain tq' M where tq: "tq = tq' @ [M]" using q by (cases tq rule: rev_cases) auto
  obtain C1 C2 where ts: "ts = [C1, C2]" using rD(8) len by (auto simp: length2)
  note hD = heap_isD [OF h]
  let ?h = "bt_heap t"
  have get: "?h q = Some (inner_node pp kq (map addr tq))" "?h p = Some (inner_node pp kd cd)"
    "?h pp = Some (pair_node L q s p R fs)"
    using hD(4) by (simp_all add: has_inner has_not_leaf)
  have "has ?h (addr M) (node_core q M)" "has ?h (addr C1) (node_core p C1)"
    using hD(4) by (simp_all add: tq ts nodes_of_split)
  then obtain nm n1 where nm: "?h (addr M) = Some nm" "is_leaf nm = is_lf M" and
    n1: "?h (addr C1) = Some n1" "key n1 = node_keys C1" by (meson has_node_core)
  have ne': "addr M \<noteq> p" "addr M \<noteq> q" "addr M \<noteq> pp" "addr C1 \<noteq> p" "addr C1 \<noteq> addr M" "p \<noteq> q" "q \<noteq> p"
    "pp \<noteq> p" "pp \<noteq> q" "p \<noteq> pp" "q \<noteq> pp"
    using hD(1) by (auto simp: tq ts nodes_of_split)
  have dom: "addr M \<in> dom ?h" using nm(1) by blast
  have kq: "kq \<noteq> []" using q(2) by auto
  let ?sep = "join_sep s C1"
  let ?np = "inner_node pp (?sep # del_at i kd) (addr M # del_at (Suc i) cd)"
  let ?nq = "inner_node pp (butlast kq) (butlast (map addr tq))"
  let ?h' = "(reparent ?h (set (map addr [M])) p)(p \<mapsto> ?np, pp \<mapsto> pair_node L q (last kq) p R fs, q \<mapsto> ?nq)"
  let ?t' = "t\<lparr>bt_heap := ?h'\<rparr>"
  let ?fr = "(pp, L @ [(Nd q (butlast kq) (butlast tq), last kq)], R) # fs"
  let ?H = "Nd p (?sep # del_at i kd) (last tq # ts)"
  have "heap_is ?h' ((q, ?nq) # (p, ?np) # (pp, pair_node L q (last kq) p R fs) #
      concat (map (nodes_of q) (butlast tq)) @ concat (map (nodes_of p) (last tq # ts)) @
      lefts_nodes pp L @ rights_nodes pp R @ path_nodes pp fs)
    (path_leaves_left ((pp, L, R) # fs) @ concat (map leaves tq) @ concat (map leaves ts) @
      path_leaves_right ((pp, L, R) # fs))" (is "heap_is _ ?N ?ls")
    unfolding pair_node_def
    by (rule heap_is_move [OF h, where ta = tq and tb = ts and ca = "inner_node pp kq (map addr tq)" and
        cb = "inner_node pp kd cd" and cq = "pair_node L q s p R fs", OF _ _ _ _ _ _ _ _ _ _ refl])
      (simp_all add: tq pair_node_def ac_simps)
  moreover have "mset ?N = mset (frame_nodes ?fr [?H])"
    by (simp add: frame_nodes_def pair_node_def fkeys_def rD(5) [symmetric] tq)
  ultimately have "heap_is ?h' (frame_nodes ?fr [?H]) ?ls" using heap_is_perm by blast
  moreover have "?ls = frame_leaves ?fr [?H]" by (simp add: frame_leaves_def tq)
  ultimately have "heap_is ?h' (frame_nodes ?fr [?H]) (frame_leaves ?fr [?H])" by (simp only:)
  moreover have "state_ok ?t'" using rD(6) get by (auto simp: state_ok_def)
  ultimately have "repF ?t' ?fr [?H]" using rD(7) by (simp add: repF_def)
  moreover have "underflow_innode_rotate_prev p i (Suc (length L)) pp t = Some ?t'"
    using get nm n1 ne' rD(3,4) rD(5) [symmetric] len q ne lf dom kq
    by (simp add: underflow_innode_rotate_prev_def shift_right_innode_node
      exec_simps moved_separator_def reparent_upd reparent_in join_sep_def tq ts pair_node_key)
  ultimately show ?thesis by (auto simp: ts)
qed

lemma inner_rotate_next_repF:
  assumes r: "repD t ((pp, L, (s, Nd q kq tq) # R) # fs) p kd cd i ts" and len: "length kd = 2"
    and q: "length tq = Suc (length kq)" "3 \<le> length kq" and ne: "is_lf (hd tq) \<Longrightarrow> node_keys (hd tq) \<noteq> []"
  shows "\<exists>t'. underflow_innode_rotate_next p i (length L) pp t = Some t' \<and> bt_size t' = bt_size t \<and>
    repF t' ((pp, L, (hd kq, Nd q (tl kq) (tl tq)) # R) # fs)
      [Nd p (del_at i kd @ [join_sep s (hd tq)]) (ts @ [hd tq])]"
proof -
  note rD = repDD [OF r]
  note h = repD_right [OF r]
  obtain M tq' where tq: "tq = M # tq'" using q by (cases tq) auto
  obtain k1 kq' where kq: "kq = k1 # kq'" using q by (cases kq) auto
  have "length (del_at i kd) = Suc 0" using rD(3) len by simp
  then obtain x where x: "del_at i kd = [x]" by (auto simp: length_one)
  obtain C1 C2 where ts: "ts = [C1, C2]" using rD(8) len by (auto simp: length2)
  note hD = heap_isD [OF h]
  let ?h = "bt_heap t"
  have get: "?h q = Some (inner_node pp kq (map addr tq))" "?h p = Some (inner_node pp kd cd)"
    "?h pp = Some (pair_node L p s q R fs)"
    using hD(4) by (simp_all add: has_inner has_not_leaf)
  have "has ?h (addr M) (node_core q M)" using hD(4) by (simp add: tq ts nodes_of_split)
  then obtain nm where nm: "?h (addr M) = Some nm" "is_leaf nm = is_lf M" "key nm = node_keys M"
    by (meson has_node_core)
  have ne': "addr M \<noteq> p" "addr M \<noteq> q" "addr M \<noteq> pp" "p \<noteq> q" "q \<noteq> p"
    "pp \<noteq> p" "pp \<noteq> q" "p \<noteq> pp" "q \<noteq> pp"
    using hD(1) by (auto simp: tq ts nodes_of_split)
  have dom: "addr M \<in> dom ?h" using nm(1) by blast
  let ?sep = "join_sep s M"
  let ?np = "inner_node pp (del_at i kd @ [?sep]) (del_at (Suc i) cd @ [addr M])"
  let ?nq = "inner_node pp (tl kq) (tl (map addr tq))"
  let ?h' = "(reparent ?h (set (map addr [M])) p)(p \<mapsto> ?np, pp \<mapsto> pair_node L p (hd kq) q R fs, q \<mapsto> ?nq)"
  let ?t' = "t\<lparr>bt_heap := ?h'\<rparr>"
  let ?fr = "(pp, L, (hd kq, Nd q (tl kq) (tl tq)) # R) # fs"
  let ?H = "Nd p (del_at i kd @ [?sep]) (ts @ [hd tq])"
  have "heap_is ?h' ((q, ?nq) # (p, ?np) # (pp, pair_node L p (hd kq) q R fs) #
      concat (map (nodes_of q) (tl tq)) @ concat (map (nodes_of p) (ts @ [hd tq])) @
      lefts_nodes pp L @ rights_nodes pp R @ path_nodes pp fs)
    (path_leaves_left ((pp, L, R) # fs) @ concat (map leaves ts) @ concat (map leaves tq) @
      path_leaves_right ((pp, L, R) # fs))" (is "heap_is _ ?N ?ls")
    unfolding pair_node_def
    by (rule heap_is_move [OF h, where ta = tq and tb = ts and ca = "inner_node pp kq (map addr tq)" and
        cb = "inner_node pp kd cd" and cq = "pair_node L p s q R fs", OF _ _ _ _ _ _ _ _ _ _ refl])
      (simp_all add: tq pair_node_def ac_simps)
  moreover have "mset ?N = mset (frame_nodes ?fr [?H])"
    by (simp add: frame_nodes_def pair_node_def fkeys_def rD(5) [symmetric] tq)
  ultimately have "heap_is ?h' (frame_nodes ?fr [?H]) ?ls" using heap_is_perm by blast
  moreover have "?ls = frame_leaves ?fr [?H]" by (simp add: frame_leaves_def tq)
  ultimately have "heap_is ?h' (frame_nodes ?fr [?H]) (frame_leaves ?fr [?H])" by (simp only:)
  moreover have "state_ok ?t'" using rD(6) get by (auto simp: state_ok_def)
  ultimately have "repF ?t' ?fr [?H]" using rD(7) by (simp add: repF_def)
  moreover have "underflow_innode_rotate_next p i (length L) pp t = Some ?t'"
    using get nm ne' rD(3,4) rD(5) [symmetric] len q ne dom
    by (simp add: underflow_innode_rotate_next_def take_first_of_next_def shift_left_innode_node
      exec_simps moved_separator_def reparent_upd reparent_in join_sep_def tq ts kq x pair_node_key)
  ultimately show ?thesis by (auto simp: tq)
qed

text \<open>A node that is not a leaf is not in the chain of leaves.\<close>

lemma not_in_chain:
  assumes "heap_is h N ls" "mset (leaf_addrs N) = mset ls" "(a, ca) \<in> set N" "\<not> is_leaf ca"
  shows "a \<notin> set ls"
proof
  assume "a \<in> set ls"
  moreover have "h a = Some ca" using assms(1,3,4) by (auto simp: heap_is_def holds_def has_not_leaf)
  ultimately show False using heap_leaves(2) [OF assms(1,2)] assms(4) by auto
qed

text \<open>All children of the node \<open>a\<close> go to the end of its sibling \<open>b\<close>, and \<open>a\<close> is freed.\<close>

lemma heap_is_merge:
  assumes h: "heap_is h ((a, ca) # (b, cb) # (q, cq) # concat (map (nodes_of a) ta) @
      concat (map (nodes_of b) tb) @ K) ls"
    and inner: "\<not> is_leaf ca" "\<not> is_leaf cb" "\<not> is_leaf cq"
      "prev ca = 0" "nxt ca = 0" "prev cb = 0" "nxt cb = 0"
    and cq: "cq = inner_node r' kq dq" and a: "a \<notin> set ls"
    and tb': "mset tb' = mset ta + mset tb"
  shows "heap_is ((reparent h (set (map addr ta)) b)(b \<mapsto> inner_node r kb db, a := None))
    ((b, inner_node r kb db) # (q, cq) # concat (map (nodes_of b) tb') @ K) ls"
proof -
  let ?h1 = "reparent h (set (map addr ta)) b"
  have sub: "set (map addr ta) \<subseteq> fst ` set (concat (map (nodes_of a) ta))" by (force simp: nodes_of_split)
  have "distinct (a # b # q # map fst (concat (map (nodes_of a) ta)))" using heap_isD(1) [OF h] by auto
  then have ne: "a \<noteq> b" "a \<noteq> q" "b \<noteq> q" "q \<notin> set (map addr ta)" using sub by auto
  have "h q = Some cq" using h by (simp add: heap_is_def cq has_inner)
  then have hq: "(?h1(b \<mapsto> inner_node r kb db, q \<mapsto> cq, a \<mapsto> inner_node 0 [] [])) =
      ?h1(b \<mapsto> inner_node r kb db, a \<mapsto> inner_node 0 [] [])"
    using ne by (auto simp: fun_eq_iff)
  have "heap_is (?h1(b \<mapsto> inner_node r kb db, q \<mapsto> cq, a \<mapsto> inner_node 0 [] []))
    ((a, inner_node 0 [] []) # (b, inner_node r kb db) # (q, cq) # concat (map (nodes_of a) []) @
      concat (map (nodes_of b) tb') @ K) ls"
    unfolding cq
    by (rule heap_is_move [OF h, where ta = ta and tb = tb and ca = ca and cb = cb and cq = cq,
        OF _ _ _ _ _ _ _ _ _ _ refl])
      (use inner tb' in \<open>simp_all add: cq ac_simps\<close>)
  then have "heap_is (?h1(b \<mapsto> inner_node r kb db, a \<mapsto> inner_node 0 [] []))
    ((a, inner_node 0 [] []) # (b, inner_node r kb db) # (q, cq) # concat (map (nodes_of b) tb') @ K) ls"
    unfolding hq by simp
  from heap_is_del [OF this a] show ?thesis by simp
qed

lemma inner_merge_prev_repF:
  assumes r: "repD t ((pp, L @ [(Nd q kq tq, s)], R) # fs) p kd cd i ts" and len: "length kd = 2"
    and ne: "is_lf (hd ts) \<Longrightarrow> node_keys (hd ts) \<noteq> []"
    and nf: "\<forall>x\<in>set (del_at i kd). nul_free x" "nul_free (join_sep s (hd ts))"
  shows "\<exists>t' T. underflow_innode_merge_prev p i (Suc (length L)) pp t = Some (q, t') \<and>
    T = Nd q (kq @ join_sep s (hd ts) # del_at i kd) (tq @ ts) \<and> bt_size t' = bt_size t \<and>
    repD t' fs pp (map snd L @ s # map fst R) (map (addr \<circ> fst) L @ q # p # map (addr \<circ> snd) R)
      (length L) (ftrees L [T] R)"
proof -
  note rD = repDD [OF r]
  note h = repD_left [OF r]
  obtain C1 C2 where ts: "ts = [C1, C2]" using rD(8) len by (auto simp: length2)
  obtain a b where kd: "kd = [a, b]" using len by (auto simp: length2)
  obtain c0 c1 c2 where cd: "cd = [c0, c1, c2]" using rD(4) len by (auto simp: length3 eval_nat_numeral length_Suc_conv)
  note hD = heap_isD [OF h]
  let ?h = "bt_heap t"
  let ?N = "(q, inner_node pp kq (map addr tq)) # (p, inner_node pp kd cd) #
      (pp, pair_node L q s p R fs) # concat (map (nodes_of q) tq) @ concat (map (nodes_of p) ts) @
      lefts_nodes pp L @ rights_nodes pp R @ path_nodes pp fs"
  let ?ls = "path_leaves_left ((pp, L, R) # fs) @ concat (map leaves tq) @ concat (map leaves ts) @
      path_leaves_right ((pp, L, R) # fs)"
  have get: "?h q = Some (inner_node pp kq (map addr tq))" "?h p = Some (inner_node pp kd cd)"
    "?h pp = Some (pair_node L q s p R fs)"
    using hD(4) by (simp_all add: has_inner has_not_leaf)
  have "has ?h (addr C1) (node_core p C1)" "has ?h (addr C2) (node_core p C2)"
    using hD(4) by (simp_all add: ts nodes_of_split)
  then obtain n1 n2 where n1: "?h (addr C1) = Some n1" "is_leaf n1 = is_lf C1" "key n1 = node_keys C1"
    and n2: "?h (addr C2) = Some n2" by (meson has_node_core)
  have ne': "addr C1 \<noteq> p" "addr C1 \<noteq> q" "addr C1 \<noteq> pp" "addr C2 \<noteq> p" "addr C2 \<noteq> q" "addr C2 \<noteq> pp"
    "addr C1 \<noteq> addr C2" "addr C2 \<noteq> addr C1" "p \<noteq> q" "q \<noteq> p" "pp \<noteq> p" "pp \<noteq> q" "p \<noteq> pp" "q \<noteq> pp"
    using hD(1) by (auto simp: ts nodes_of_split)
  have dom: "addr C1 \<in> dom ?h" "addr C2 \<in> dom ?h" using n1(1) n2 by blast+
  have la: "mset (leaf_addrs ?N) = mset ?ls"
    by (simp add: leaf_addrs_concat comp_def leaf_addrs_path)
  have p: "p \<notin> set ?ls" by (rule not_in_chain [OF h la, of _ "inner_node pp kd cd"]) simp_all
  let ?sep = "join_sep s C1"
  let ?nq = "inner_node pp (kq @ ?sep # del_at i kd) (map addr (tq @ ts))"
  let ?h' = "(reparent ?h (set (map addr ts)) q)(q \<mapsto> ?nq, p := None)"
  let ?t' = "t\<lparr>bt_heap := ?h'\<rparr>"
  let ?T = "Nd q (kq @ ?sep # del_at i kd) (tq @ ts)"
  have "heap_is ?h' ((q, ?nq) # (pp, pair_node L q s p R fs) # concat (map (nodes_of q) (tq @ ts)) @
      lefts_nodes pp L @ rights_nodes pp R @ path_nodes pp fs) ?ls"
    by (rule heap_is_merge [where ca = "inner_node pp kd cd" and cb = "inner_node pp kq (map addr tq)" and
        ta = ts and tb = tq, OF iffD1 [OF heap_is_perm h] _ _ _ _ _ _ _ _ p])
      (simp_all add: pair_node_def ac_simps)
  then have "heap_is ?h' ((pp, inner_node (ptop fs) (map snd L @ s # map fst R)
        (map (addr \<circ> fst) L @ q # p # map (addr \<circ> snd) R)) #
      concat (map (nodes_of pp) (ftrees L [?T] R)) @ path_nodes pp fs) ?ls"
    by (rule iffD1 [OF heap_is_perm, rotated])
      (simp add: pair_node_def ftrees_def lefts_nodes_def rights_nodes_def comp_def)
  moreover have "?ls = path_leaves_left fs @ concat (map leaves (ftrees L [?T] R)) @ path_leaves_right fs"
    by (simp add: ftrees_def comp_def)
  moreover have "state_ok ?t'" using rD(6) get by (auto simp: state_ok_def split: if_splits)
  ultimately have "repD ?t' fs pp (map snd L @ s # map fst R) (map (addr \<circ> fst) L @ q # p # map (addr \<circ> snd) R)
      (length L) (ftrees L [?T] R)"
    using rD(7) by (simp add: repD_def ftrees_def del_at_def comp_def)
  moreover have "underflow_innode_merge_prev p i (Suc (length L)) pp t = Some (q, ?t')"
  proof -
    note steps = underflow_innode_merge_prev_def move_entry_innode_def move_child_to_right_def
      delete_node_def exec_simps moved_separator_def reparent_upd reparent_in join_sep_def del_at_def
    have cs: "is_lf C1 \<Longrightarrow> c_str (hd (node_keys C1)) = hd (node_keys C1)"
      using nf(2) by (simp add: ts join_sep_def)
    have "i = 0 \<or> i = 1" using less2_cases [of i] rD(3) len by simp
    then show ?thesis
    proof
      assume i: "i = 0"
      then have "c0 = addr C1" "c2 = addr C2" using rD(5) by (simp_all add: cd ts del_at_def)
      then show ?thesis
        using get n1 n2 ne' nf ne dom cs by (simp add: cd kd ts i steps insert_commute)
    next
      assume i: "i = 1"
      then have "c0 = addr C1" "c1 = addr C2" using rD(5) by (simp_all add: cd ts del_at_def)
      then show ?thesis
        using get n1 n2 ne' nf ne dom cs by (simp add: cd kd ts i steps insert_commute)
    qed
  qed
  ultimately show ?thesis by (auto simp: ts)
qed

lemma inner_merge_next_repF:
  assumes r: "repD t ((pp, L, (s, Nd q kq tq) # R) # fs) p kd cd i ts" and len: "length kd = 2"
    and q: "length tq = Suc (length kq)" "length kq = 2"
    and ne: "is_lf (hd tq) \<Longrightarrow> node_keys (hd tq) \<noteq> []" and nf: "\<forall>x\<in>set kq. nul_free x"
  shows "\<exists>t' T. underflow_innode_merge_next p i (length L) pp t = Some t' \<and>
    T = Nd p (del_at i kd @ join_sep s (hd tq) # kq) (ts @ tq) \<and> bt_size t' = bt_size t \<and>
    repD t' fs pp (map snd L @ s # map fst R) (map (addr \<circ> fst) L @ p # q # map (addr \<circ> snd) R)
      (length L) (ftrees L [T] R)"
proof -
  note rD = repDD [OF r]
  note h = repD_right [OF r]
  obtain C1 C2 C3 where tq: "tq = [C1, C2, C3]"
    using q by (auto simp: eval_nat_numeral length_Suc_conv)
  obtain k1 k2 where kq: "kq = [k1, k2]" using q by (auto simp: length2)
  have "length (del_at i kd) = Suc 0" using rD(3) len by simp
  then obtain x where x: "del_at i kd = [x]" by (auto simp: length_one)
  obtain T1 T2 where ts: "ts = [T1, T2]" using rD(8) len by (auto simp: length2)
  note hD = heap_isD [OF h]
  let ?h = "bt_heap t"
  let ?N = "(q, inner_node pp kq (map addr tq)) # (p, inner_node pp kd cd) #
      (pp, pair_node L p s q R fs) # concat (map (nodes_of q) tq) @ concat (map (nodes_of p) ts) @
      lefts_nodes pp L @ rights_nodes pp R @ path_nodes pp fs"
  let ?ls = "path_leaves_left ((pp, L, R) # fs) @ concat (map leaves ts) @ concat (map leaves tq) @
      path_leaves_right ((pp, L, R) # fs)"
  have get: "?h q = Some (inner_node pp kq (map addr tq))" "?h p = Some (inner_node pp kd cd)"
    "?h pp = Some (pair_node L p s q R fs)"
    using hD(4) by (simp_all add: has_inner has_not_leaf)
  have "has ?h (addr C1) (node_core q C1)" "has ?h (addr C2) (node_core q C2)" "has ?h (addr C3) (node_core q C3)"
    using hD(4) by (simp_all add: tq nodes_of_split)
  then obtain n1 n2 n3 where n1: "?h (addr C1) = Some n1" "is_leaf n1 = is_lf C1" "key n1 = node_keys C1"
    and n2: "?h (addr C2) = Some n2" "?h (addr C3) = Some n3" by (meson has_node_core)
  have ne': "addr C1 \<noteq> p" "addr C1 \<noteq> q" "addr C1 \<noteq> pp" "addr C2 \<noteq> p" "addr C2 \<noteq> q" "addr C2 \<noteq> pp"
    "addr C3 \<noteq> p" "addr C3 \<noteq> q" "addr C3 \<noteq> pp" "p \<noteq> q" "q \<noteq> p" "pp \<noteq> p" "pp \<noteq> q" "p \<noteq> pp" "q \<noteq> pp"
    using hD(1) by (auto simp: tq nodes_of_split)
  have dom: "addr C1 \<in> dom ?h" "addr C2 \<in> dom ?h" "addr C3 \<in> dom ?h" using n1(1) n2 by blast+
  have la: "mset (leaf_addrs ?N) = mset ?ls"
    by (simp add: leaf_addrs_concat comp_def leaf_addrs_path)
  have qls: "q \<notin> set ?ls" by (rule not_in_chain [OF h la, of _ "inner_node pp kq (map addr tq)"]) simp_all
  let ?sep = "join_sep s C1"
  let ?np = "inner_node pp (del_at i kd @ ?sep # kq) (map addr (ts @ tq))"
  let ?h' = "(reparent ?h (set (map addr tq)) p)(p \<mapsto> ?np, q := None)"
  let ?t' = "t\<lparr>bt_heap := ?h'\<rparr>"
  let ?T = "Nd p (del_at i kd @ ?sep # kq) (ts @ tq)"
  have "heap_is ?h' ((p, ?np) # (pp, pair_node L p s q R fs) # concat (map (nodes_of p) (ts @ tq)) @
      lefts_nodes pp L @ rights_nodes pp R @ path_nodes pp fs) ?ls"
    by (rule heap_is_merge [where ca = "inner_node pp kq (map addr tq)" and cb = "inner_node pp kd cd" and
        ta = tq and tb = ts, OF h _ _ _ _ _ _ _ _ qls])
      (simp_all add: pair_node_def ac_simps)
  then have "heap_is ?h' ((pp, inner_node (ptop fs) (map snd L @ s # map fst R)
        (map (addr \<circ> fst) L @ p # q # map (addr \<circ> snd) R)) #
      concat (map (nodes_of pp) (ftrees L [?T] R)) @ path_nodes pp fs) ?ls"
    by (rule iffD1 [OF heap_is_perm, rotated])
      (simp add: pair_node_def ftrees_def lefts_nodes_def rights_nodes_def comp_def)
  moreover have "?ls = path_leaves_left fs @ concat (map leaves (ftrees L [?T] R)) @ path_leaves_right fs"
    by (simp add: ftrees_def comp_def)
  moreover have "state_ok ?t'" using rD(6) get by (auto simp: state_ok_def split: if_splits)
  ultimately have "repD ?t' fs pp (map snd L @ s # map fst R) (map (addr \<circ> fst) L @ p # q # map (addr \<circ> snd) R)
      (length L) (ftrees L [?T] R)"
    using rD(7) by (simp add: repD_def ftrees_def del_at_def comp_def)
  moreover have "underflow_innode_merge_next p i (length L) pp t = Some ?t'"
    using get n1 n2 ne' rD(3,4) rD(5) [symmetric] len nf ne dom
    by (simp add: underflow_innode_merge_next_def take_first_of_next_def move_entry_innode_def
      move_child_to_right_def delete_node_def shift_left_innode_node exec_simps moved_separator_def
      reparent_upd reparent_in join_sep_def tq ts kq x insert_commute)
  ultimately show ?thesis by (auto simp: tq)
qed

section \<open>The invariant when children come together\<close>

lemma tinv_min: "tinv m lo hi n T \<Longrightarrow> m' \<le> m \<Longrightarrow> tinv m' lo hi n T"
  by (cases T) auto

lemma leaf_ok_lo: "leaf_ok (Some s) hi ks ds \<Longrightarrow> leaf_ok (Some (hd ks)) hi ks ds"
  by (cases ks) (auto simp: leaf_ok_def)

lemma leaf_ok_hi: "leaf_ok lo (Some s) ks ds \<Longrightarrow> s \<le> s' \<Longrightarrow> leaf_ok lo (Some s') ks ds"
  by (auto simp: leaf_ok_def)

lemma join_first:
  assumes "tinvs (Some s) hi n ks ts" "nul_free s"
  shows "s \<le> join_sep s (hd ts)" "sep_of (join_sep s (hd ts)) (hd ts)" "nul_free (join_sep s (hd ts))"
    "tinvs (Some (join_sep s (hd ts))) hi n ks ts" "ts \<noteq> []"
    "0 < n \<Longrightarrow> join_sep s (hd ts) = s" "is_lf (hd ts) \<Longrightarrow> node_keys (hd ts) \<noteq> []"
proof -
  from assms(1) obtain T ts' where ts: "ts = T # ts'" by (cases ts; cases ks) auto
  then obtain h where T: "tinv 2 (Some s) h n T"
    and rest: "\<And>l. tinv 2 (Some l) h n T \<Longrightarrow> tinvs (Some l) hi n ks ts"
    using assms(1) by (cases ks) auto
  have "s \<le> join_sep s T \<and> sep_of (join_sep s T) T \<and> nul_free (join_sep s T) \<and>
    tinv 2 (Some (join_sep s T)) h n T \<and> (0 < n \<longrightarrow> join_sep s T = s) \<and> (is_lf T \<longrightarrow> node_keys T \<noteq> [])"
  proof (cases T)
    case (Lf q ks' ds')
    with T have ok: "leaf_ok (Some s) h ks' ds'" "2 \<le> length ks'" "n = 0" by simp_all
    then have ne: "ks' \<noteq> []" by auto
    then have "hd ks' \<in> set ks'" by simp
    with ok(1) have "s \<le> hd ks'" "nul_free (hd ks')" by (auto simp: leaf_ok_def)
    with ok ne show ?thesis by (auto simp: Lf join_sep_def intro: leaf_ok_lo)
  next
    case (Nd q ks' ts'')
    with T assms(2) show ?thesis by (simp add: join_sep_def)
  qed
  with rest show "s \<le> join_sep s (hd ts)" "sep_of (join_sep s (hd ts)) (hd ts)" "nul_free (join_sep s (hd ts))"
    "tinvs (Some (join_sep s (hd ts))) hi n ks ts" "ts \<noteq> []"
    "0 < n \<Longrightarrow> join_sep s (hd ts) = s" "is_lf (hd ts) \<Longrightarrow> node_keys (hd ts) \<noteq> []"
    by (auto simp: ts)
qed

lemma tinv_hi_leaf: "tinv m lo (Some s) 0 T \<Longrightarrow> s \<le> s' \<Longrightarrow> tinv m lo (Some s') 0 T"
  by (cases T) (auto intro: leaf_ok_hi)

lemma invs_join:
  assumes "tinvs lo (Some s) n ks ts" "tinvs (Some s) hi n ks' ts'" "nul_free s"
  shows "tinvs lo hi n (ks @ join_sep s (hd ts') # ks') (ts @ ts')"
  using assms(1)
proof (induction ks arbitrary: lo ts)
  case Nil
  note f = join_first [OF assms(2,3)]
  from Nil obtain T where T: "ts = [T]" "tinv 2 lo (Some s) n T" by (cases ts) auto
  have "tinv 2 lo (Some (join_sep s (hd ts'))) n T"
    using T(2) f(1,6) tinv_hi_leaf [of 2 lo s T] by (cases n) auto
  with T f(2,4,5) show ?case by (cases ts') auto
next
  case (Cons k ks)
  then obtain T ts1 where "ts = T # ts1" "ts1 \<noteq> []" by (cases ts) (auto split: list.splits)
  with Cons.prems Cons.IH [of "Some k" ts1] show ?case by (cases ts1) auto
qed

section \<open>Dropping the stale entry, or going on\<close>

definition dirty_ok :: "btree \<Rightarrow> frame list \<Rightarrow> ptr \<Rightarrow> string list \<Rightarrow> ptr list \<Rightarrow> nat \<Rightarrow> tree list \<Rightarrow>
    string option \<Rightarrow> string option \<Rightarrow> nat \<Rightarrow> bool" where
  "dirty_ok t fs p kd cd i ts lo hi n \<longleftrightarrow> repD t fs p kd cd i ts \<and>
     tinvs lo hi n (del_at i kd) ts \<and> (\<forall>k\<in>set (del_at i kd). nul_free k) \<and>
     path_inv lo hi (Suc n) fs \<and> max 1 (min_keys fs) \<le> length kd \<and> length kd \<le> 4"

lemma drop_correct:
  assumes d: "dirty_ok t fs p kd cd i ts lo hi n" and nu: "\<not> (fs \<noteq> [] \<and> length kd \<le> 2)"
  shows "\<exists>t'. drop_from_parent p (addr (ts ! i)) i t = Some t' \<and> replaced t fs (concat (map entries ts)) t'"
proof -
  from d have r: "repD t fs p kd cd i ts" and inv: "tinvs lo hi n (del_at i kd) ts"
    "\<forall>k\<in>set (del_at i kd). nul_free k" "path_inv lo hi (Suc n) fs"
    "max 1 (min_keys fs) \<le> length kd" "length kd \<le> 4" by (simp_all add: dirty_ok_def)
  note rD = repDD [OF r]
  have "length kd = 1 \<Longrightarrow> fs = []" using nu by auto
  from drop_repF [OF r this] obtain t' where t': "drop_from_parent p (addr (ts ! i)) i t = Some t'"
    "bt_size t' = bt_size t"
    "fs = [] \<and> length kd = 1 \<and> repF t' [] [ts ! 0] \<and> length ts = 1 \<or>
     \<not> (fs = [] \<and> length kd = 1) \<and> repF t' fs [Nd p (del_at i kd) ts]" by metis
  from t'(3) have "replaced t fs (concat (map entries ts)) t'"
  proof (elim disjE conjE)
    assume a: "fs = []" "length kd = 1" "repF t' [] [ts ! 0]" "length ts = 1"
    then obtain T where ts: "ts = [T]" by (auto simp: length_one)
    have "tinv 2 None None n T" using inv(1,3) a rD(3) by (cases kd) (auto simp: ts del_at_def)
    then have "focus_ok [] T None None n" by (auto simp: focus_ok_def intro: tinv_min)
    from replacedI [OF a(3) [unfolded ts nth_Cons_0] this t'(2)] a(1) show ?thesis by (simp add: ts)
  next
    assume a: "\<not> (fs = [] \<and> length kd = 1)" "repF t' fs [Nd p (del_at i kd) ts]"
    have "focus_ok fs (Nd p (del_at i kd) ts) lo hi (Suc n)"
      using inv nu a(1) rD(3) by (auto simp: focus_ok_def min_keys_def)
    from replacedI [OF a(2) this t'(2)] show ?thesis by simp
  qed
  with t'(1) show ?thesis by blast
qed

lemma innode_underflows_eq:
  "repD t fs p kd cd i ts \<Longrightarrow> innode_underflows p t = Some (fs \<noteq> [] \<and> length kd \<le> 2)"
  using repDD(1) [of t fs p kd cd i ts] repD_root [of t fs p kd cd i ts]
  by (simp add: innode_underflows_def node_at_eq)

lemma merged_step:
  assumes d: "dirty_ok t fs p kd cd i ts lo hi n"
    and up: "fs \<noteq> [] \<Longrightarrow> length kd = 2 \<Longrightarrow>
      \<exists>t'. solve_underflow_innode p (path_idx fs @ [i]) t = Some t' \<and> replaced t fs (concat (map entries ts)) t'"
  obtains t' again where "innode_underflows p t = Some again"
    "(if again then solve_underflow_innode p (path_idx fs @ [i]) t
      else drop_from_parent p (addr (ts ! i)) i t) = Some t'"
    "replaced t fs (concat (map entries ts)) t'"
proof -
  have r: "repD t fs p kd cd i ts" and "max 1 (min_keys fs) \<le> length kd" using d by (simp_all add: dirty_ok_def)
  then have "fs \<noteq> [] \<Longrightarrow> length kd \<le> 2 \<Longrightarrow> length kd = 2" by (simp add: min_keys_def)
  with up drop_correct [OF d] that innode_underflows_eq [OF r] show thesis by (metis (full_types))
qed

section \<open>The surroundings of two siblings\<close>

definition outer_ok :: "lefts \<Rightarrow> rights \<Rightarrow> frame list \<Rightarrow> string option \<Rightarrow> string option \<Rightarrow> nat \<Rightarrow> bool" where
  "outer_ok L R fs lo hi n \<longleftrightarrow> (\<exists>lo' hi'. lo = lo_of lo' L \<and> hi = hi_of hi' R \<and>
     inv_left lo' n L \<and> inv_right hi' n R \<and> path_inv lo' hi' (Suc n) fs) \<and>
     min_keys fs \<le> Suc (length L + length R) \<and> length L + length R \<le> 3"

lemma path_left:
  "path_inv lo hi n ((pp, L @ [(Q, s)], R) # fs) \<Longrightarrow> lo = Some s \<and> nul_free s \<and>
   (\<exists>lo0. sep_left L Q \<and> tinv 2 lo0 (Some s) n Q \<and> outer_ok L R fs lo0 hi n)"
  by (simp add: outer_ok_def) blast

lemma path_right:
  "path_inv lo hi n ((pp, L, (s, Y) # R) # fs) \<Longrightarrow> hi = Some s \<and> nul_free s \<and>
   (\<exists>hi0. sep_of s Y \<and> tinv 2 (Some s) hi0 n Y \<and> outer_ok L R fs lo hi0 n)"
  by (simp add: outer_ok_def) blast

lemma outer_pair:
  "outer_ok L R fs lo hi n \<Longrightarrow> sep_left L X \<Longrightarrow> tinv 2 lo (Some s) n X \<Longrightarrow> nul_free s \<Longrightarrow> sep_of s Y \<Longrightarrow>
   tinv 2 (Some s) hi n Y \<Longrightarrow> pair_ok L X s Y R fs lo hi n"
  by (simp add: outer_ok_def pair_ok_def)

lemma del_at_pair [simp]: "del_at (length L) (map snd L @ s # map fst R) = fkeys L R"
  by (simp add: del_at_def fkeys_def)

lemma nth_ftrees [simp]: "ftrees L [T] R ! length L = T"
  by (simp add: ftrees_def nth_append)

lemma concat_ftrees [simp]: "concat (map entries (ftrees L [T] R)) =
    concat (map (entries \<circ> fst) L) @ entries T @ concat (map (entries \<circ> snd) R)"
  by (simp add: ftrees_def comp_def)

text \<open>After a merge the parent's invariant holds but for the stale entry.\<close>

lemma outer_merged:
  assumes "outer_ok L R fs lo hi n" "tinv 2 lo hi n T" "sep_left L T"
    "repD t fs pp (map snd L @ s # map fst R) cd (length L) (ftrees L [T] R)"
  shows "\<exists>lo' hi'. dirty_ok t fs pp (map snd L @ s # map fst R) cd (length L) (ftrees L [T] R) lo' hi' n"
proof -
  from assms(1) obtain lo' hi' where f: "lo = lo_of lo' L" "hi = hi_of hi' R" "inv_left lo' n L"
    "inv_right hi' n R" "path_inv lo' hi' (Suc n) fs"
    and l: "min_keys fs \<le> Suc (length L + length R)" "length L + length R \<le> 3"
    by (auto simp: outer_ok_def)
  note nf = nul_free_frame [OF f(3,4)]
  have "tinvs lo' hi' n (fkeys L R) (ftrees L [T] R)" using f assms(2,3) by (simp add: invs_frame [OF nf])
  with f(5) l nf assms(4) show ?thesis by (auto simp: dirty_ok_def)
qed

lemma inv_rotate_prev:
  assumes "tinvs lo (Some s) n (kq @ [z]) (tq @ [M])" "tinvs (Some s) hi n ks ts" "nul_free s"
    "length tq = Suc (length kq)"
  shows "tinvs lo (Some z) n kq tq" "tinvs (Some z) hi n (join_sep s (hd ts) # ks) (M # ts)"
  using invs_split [OF invs_join [OF assms(1-3)], of "length kq"] assms(4) by (simp_all add: nth_append)

lemma inv_rotate_next:
  assumes "tinvs lo (Some s) n ks ts" "tinvs (Some s) hi n (z # ky) (M # ty)" "nul_free s"
  shows "tinvs lo (Some z) n (ks @ [join_sep s M]) (ts @ [M])" "tinvs (Some z) hi n ky ty"
  using invs_split [OF invs_join [OF assms], of "Suc (length ks)"] invs_length [OF assms(1)]
  by (simp_all add: nth_append)

section \<open>An inner node that underflows\<close>

text \<open>What is assumed of the node: two keys, one of them stale.\<close>

definition under_ok :: "btree \<Rightarrow> frame list \<Rightarrow> ptr \<Rightarrow> string list \<Rightarrow> ptr list \<Rightarrow> nat \<Rightarrow> tree list \<Rightarrow>
    string option \<Rightarrow> string option \<Rightarrow> nat \<Rightarrow> bool" where
  "under_ok t fs p kd cd i ts lo hi n \<longleftrightarrow> dirty_ok t fs p kd cd i ts lo hi n \<and> length kd = 2"

lemma under_okD:
  assumes "under_ok t fs p kd cd i ts lo hi n"
  shows "repD t fs p kd cd i ts" "length kd = 2" "tinvs lo hi n (del_at i kd) ts"
    "\<forall>k\<in>set (del_at i kd). nul_free k" "path_inv lo hi (Suc n) fs" "length (del_at i kd) = 1" "length ts = 2"
proof -
  from assms show *: "repD t fs p kd cd i ts" "length kd = 2" "tinvs lo hi n (del_at i kd) ts"
    "\<forall>k\<in>set (del_at i kd). nul_free k" "path_inv lo hi (Suc n) fs"
    by (simp_all add: under_ok_def dirty_ok_def)
  show "length (del_at i kd) = 1" "length ts = 2" using repDD(3,8) [OF *(1)] *(2) by simp_all
qed

lemma tinv_inner:
  assumes "tinv 2 lo hi (Suc n) Q"
  obtains q kq tq where "Q = Nd q kq tq" "tinvs lo hi n kq tq" "2 \<le> length kq" "length kq \<le> 4"
    "\<forall>k\<in>set kq. nul_free k" "length tq = Suc (length kq)"
  using assms by (cases Q) (auto dest: invs_length)

lemma inner_rotate_prev_correct:
  assumes u: "under_ok t ((pp, L @ [(Nd q kq tq, s)], R) # fs) p kd cd i ts lo hi n" and q: "3 \<le> length kq"
  shows "\<exists>t'. underflow_innode_rotate_prev p i (Suc (length L)) pp t = Some t' \<and>
    replaced t ((pp, L @ [(Nd q kq tq, s)], R) # fs) (concat (map entries ts)) t'"
proof -
  note uD = under_okD [OF u]
  from path_left [OF uD(5)] obtain lo0 where lo: "lo = Some s" "nul_free s"
    and Q: "tinv 2 lo0 (Some s) (Suc n) (Nd q kq tq)" and out: "outer_ok L R fs lo0 hi (Suc n)" by blast
  then have kq: "tinvs lo0 (Some s) n kq tq" "length kq \<le> 4" "\<forall>k\<in>set kq. nul_free k" by simp_all
  have len: "length tq = Suc (length kq)" using invs_length [OF kq(1)] .
  obtain kq' z where z: "kq = kq' @ [z]" using q by (cases kq rule: rev_cases) auto
  obtain tq' M where M: "tq = tq' @ [M]" using len by (cases tq rule: rev_cases) auto
  note jf = join_first [OF uD(3) [unfolded lo(1)] lo(2)]
  have inv: "tinvs lo0 (Some z) n kq' tq'" "tinvs (Some z) hi n (join_sep s (hd ts) # del_at i kd) (M # ts)"
    using inv_rotate_prev [OF kq(1) [unfolded z M] uD(3) [unfolded lo(1)] lo(2)] len by (simp_all add: z M)
  have lf: "is_lf (last tq) = is_lf (hd ts)"
  proof -
    have "\<exists>l h. tinv 2 l h n M" using inv(2) by auto
    moreover have "\<exists>l h. tinv 2 l h n (hd ts)" using inv(2) jf(5) by (cases ts; cases "del_at i kd") auto
    ultimately show ?thesis by (cases M; cases "hd ts") (auto simp: M)
  qed
  from inner_rotate_prev_repF [OF uD(1,2) len q jf(7) lf] obtain t' where
    t': "underflow_innode_rotate_prev p i (Suc (length L)) pp t = Some t'" "bt_size t' = bt_size t"
    "repF t' ((pp, L @ [(Nd q (butlast kq) (butlast tq), last kq)], R) # fs)
      [Nd p (join_sep s (hd ts) # del_at i kd) (last tq # ts)]" by auto
  have "pair_ok L (Nd q kq' tq') z (Nd p (join_sep s (hd ts) # del_at i kd) (M # ts)) R fs lo0 hi (Suc n)"
    using inv kq(2,3) q uD(4,6) jf(3) by (intro outer_pair [OF out]) (simp_all add: z)
  then have "focus_ok ((pp, L @ [(Nd q kq' tq', z)], R) # fs)
      (Nd p (join_sep s (hd ts) # del_at i kd) (M # ts)) (Some z) hi (Suc n)"
    by (auto simp: pair_right)
  from replacedI [OF _ this t'(2) refl] t'(3)
  have "replaced t ((pp, L @ [(Nd q kq' tq', z)], R) # fs) (concat (map entries (M # ts))) t'"
    by (simp add: z M)
  with t'(1) show ?thesis by (simp add: replaced_frame M)
qed

lemma inner_rotate_next_correct:
  assumes u: "under_ok t ((pp, L, (s, Nd q kq tq) # R) # fs) p kd cd i ts lo hi n" and q: "3 \<le> length kq"
  shows "\<exists>t'. underflow_innode_rotate_next p i (length L) pp t = Some t' \<and>
    replaced t ((pp, L, (s, Nd q kq tq) # R) # fs) (concat (map entries ts)) t'"
proof -
  note uD = under_okD [OF u]
  from path_right [OF uD(5)] obtain hi0 where hi: "hi = Some s" "nul_free s"
    and Q: "tinv 2 (Some s) hi0 (Suc n) (Nd q kq tq)" and out: "outer_ok L R fs lo hi0 (Suc n)" by blast
  then have kq: "tinvs (Some s) hi0 n kq tq" "length kq \<le> 4" "\<forall>k\<in>set kq. nul_free k" by simp_all
  have len: "length tq = Suc (length kq)" using invs_length [OF kq(1)] .
  obtain z kq' where z: "kq = z # kq'" using q by (cases kq) auto
  obtain M tq' where M: "tq = M # tq'" using len by (cases tq) auto
  note jf = join_first [OF kq(1) hi(2)]
  have inv: "tinvs lo (Some z) n (del_at i kd @ [join_sep s M]) (ts @ [M])" "tinvs (Some z) hi0 n kq' tq'"
    using inv_rotate_next [OF uD(3) [unfolded hi(1)] kq(1) [unfolded z M] hi(2)] by simp_all
  from inner_rotate_next_repF [OF uD(1,2) len q jf(7)] obtain t' where
    t': "underflow_innode_rotate_next p i (length L) pp t = Some t'" "bt_size t' = bt_size t"
    "repF t' ((pp, L, (hd kq, Nd q (tl kq) (tl tq)) # R) # fs)
      [Nd p (del_at i kd @ [join_sep s (hd tq)]) (ts @ [hd tq])]" by auto
  have "pair_ok L (Nd p (del_at i kd @ [join_sep s M]) (ts @ [M])) z (Nd q kq' tq') R fs lo hi0 (Suc n)"
    using inv kq(2,3) q uD(4,6) jf(3) by (intro outer_pair [OF out]) (auto simp: z M)
  then have "focus_ok ((pp, L, (z, Nd q kq' tq') # R) # fs)
      (Nd p (del_at i kd @ [join_sep s M]) (ts @ [M])) lo (Some z) (Suc n)"
    by (auto simp: pair_left)
  from replacedI [OF _ this t'(2) refl] t'(3)
  have "replaced t ((pp, L, (z, Nd q kq' tq') # R) # fs) (concat (map entries (ts @ [M]))) t'"
    by (simp add: z M)
  with t'(1) show ?thesis by (simp add: replaced_frame M)
qed

lemma inner_merge_prev_correct:
  assumes u: "under_ok t ((pp, L @ [(Nd q kq tq, s)], R) # fs) p kd cd i ts lo hi n" and q: "length kq = 2"
  shows "\<exists>t' T cd' lo' hi'. underflow_innode_merge_prev p i (Suc (length L)) pp t = Some (q, t') \<and>
    bt_size t' = bt_size t \<and> addr T = q \<and> entries T = concat (map entries (tq @ ts)) \<and>
    dirty_ok t' fs pp (map snd L @ s # map fst R) cd' (length L) (ftrees L [T] R) lo' hi' (Suc n)"
proof -
  note uD = under_okD [OF u]
  from path_left [OF uD(5)] obtain lo0 where lo: "lo = Some s" "nul_free s"
    and Q: "tinv 2 lo0 (Some s) (Suc n) (Nd q kq tq)" and out: "outer_ok L R fs lo0 hi (Suc n)" by blast
  then have kq: "tinvs lo0 (Some s) n kq tq" "\<forall>k\<in>set kq. nul_free k" by simp_all
  note jf = join_first [OF uD(3) [unfolded lo(1)] lo(2)]
  from inner_merge_prev_repF [OF uD(1,2) jf(7) uD(4) jf(3)] obtain t' T where
    t': "underflow_innode_merge_prev p i (Suc (length L)) pp t = Some (q, t')" "bt_size t' = bt_size t"
    "repD t' fs pp (map snd L @ s # map fst R) (map (addr \<circ> fst) L @ q # p # map (addr \<circ> snd) R)
      (length L) (ftrees L [T] R)"
    and T: "T = Nd q (kq @ join_sep s (hd ts) # del_at i kd) (tq @ ts)" by auto
  have "tinv 2 lo0 hi (Suc n) T"
    using invs_join [OF kq(1) uD(3) [unfolded lo(1)] lo(2)] kq(2) q uD(4,6) jf(3) by (auto simp: T)
  moreover have "sep_left L T" "addr T = q" "entries T = concat (map entries (tq @ ts))" by (simp_all add: T)
  ultimately show ?thesis using outer_merged [OF out _ _ t'(3)] t'(1,2) by blast
qed

lemma inner_merge_next_correct:
  assumes u: "under_ok t ((pp, L, (s, Nd q kq tq) # R) # fs) p kd cd i ts lo hi n" and q: "length kq = 2"
  shows "\<exists>t' T cd' lo' hi'. underflow_innode_merge_next p i (length L) pp t = Some t' \<and>
    bt_size t' = bt_size t \<and> addr T = p \<and> entries T = concat (map entries (ts @ tq)) \<and>
    dirty_ok t' fs pp (map snd L @ s # map fst R) cd' (length L) (ftrees L [T] R) lo' hi' (Suc n)"
proof -
  note uD = under_okD [OF u]
  from path_right [OF uD(5)] obtain hi0 where hi: "hi = Some s" "nul_free s"
    and Q: "tinv 2 (Some s) hi0 (Suc n) (Nd q kq tq)" and out: "outer_ok L R fs lo hi0 (Suc n)" by blast
  then have kq: "tinvs (Some s) hi0 n kq tq" "\<forall>k\<in>set kq. nul_free k" by simp_all
  have len: "length tq = Suc (length kq)" using invs_length [OF kq(1)] .
  note jf = join_first [OF kq(1) hi(2)]
  from inner_merge_next_repF [OF uD(1,2) len q jf(7) kq(2)] obtain t' T where
    t': "underflow_innode_merge_next p i (length L) pp t = Some t'" "bt_size t' = bt_size t"
    "repD t' fs pp (map snd L @ s # map fst R) (map (addr \<circ> fst) L @ p # q # map (addr \<circ> snd) R)
      (length L) (ftrees L [T] R)"
    and T: "T = Nd p (del_at i kd @ join_sep s (hd tq) # kq) (ts @ tq)" by auto
  have "tinv 2 lo hi0 (Suc n) T"
    using invs_join [OF uD(3) [unfolded hi(1)] kq(1) hi(2)] kq(2) q uD(4,6) jf(3) by (auto simp: T)
  moreover have "sep_left L T" "addr T = p" "entries T = concat (map entries (ts @ tq))" by (simp_all add: T)
  ultimately show ?thesis using outer_merged [OF out _ _ t'(3)] t'(1,2) by blast
qed

text \<open>The guards: the neighbours' numbers of keys.\<close>

lemma left_give:
  assumes "under_ok t ((pp, L @ [(Nd q kq tq, s)], R) # fs) p kd cd i ts lo hi n"
  shows "child_can_give pp (length L) t = Some (3 \<le> length kq)"
  using heap_isD(4) [OF repD_left [OF under_okD(1) [OF assms]]]
  by (simp add: child_can_give_def node_at_eq has_inner has_not_leaf)

lemma right_give:
  assumes "under_ok t ((pp, L, (s, Nd q kq tq) # R) # fs) p kd cd i ts lo hi n"
  shows "child_can_give pp (Suc (length L)) t = Some (3 \<le> length kq)"
  using heap_isD(4) [OF repD_right [OF under_okD(1) [OF assms]]]
  by (simp add: child_can_give_def node_at_eq has_inner has_not_leaf)

lemma under_parent:
  assumes "under_ok t ((pp, L, R) # fs) p kd cd i ts lo hi n"
  shows "bt_heap t pp = Some (inner_node (ptop fs) (fkeys L R) (map (addr \<circ> fst) L @ p # map (addr \<circ> snd) R))"
proof -
  note rD = repDD(10) [OF under_okD(1) [OF assms]]
  then show ?thesis by (simp add: heap_is_def has_inner)
qed

lemma path_height:
  assumes "path_inv lo hi (Suc n) ((pp, L, R) # fs)"
  shows "(T, s) \<in> set L \<Longrightarrow> \<exists>q kq tq. T = Nd q kq tq \<and> 2 \<le> length kq \<and> length kq \<le> 4"
    "(s, T) \<in> set R \<Longrightarrow> \<exists>q kq tq. T = Nd q kq tq \<and> 2 \<le> length kq \<and> length kq \<le> 4"
proof -
  from assms obtain lo' hi' where f: "inv_left lo' (Suc n) L" "inv_right hi' (Suc n) R" by auto
  have n: "\<exists>q kq tq. T = Nd q kq tq \<and> 2 \<le> length kq \<and> length kq \<le> 4" if "tinv 2 l h (Suc n) T" for T l h
    using that by (cases T) auto
  have l: "inv_left l m L \<Longrightarrow> (T, s) \<in> set L \<Longrightarrow> \<exists>l h. tinv 2 l h m T" for l m L
    by (induction l m L rule: inv_left.induct) auto
  have r: "inv_right l m R \<Longrightarrow> (s, T) \<in> set R \<Longrightarrow> \<exists>l h. tinv 2 l h m T" for l m R
    by (induction l m R rule: inv_right.induct) auto
  from l [OF f(1)] n show "(T, s) \<in> set L \<Longrightarrow> \<exists>q kq tq. T = Nd q kq tq \<and> 2 \<le> length kq \<and> length kq \<le> 4" by blast
  from r [OF f(2)] n show "(s, T) \<in> set R \<Longrightarrow> \<exists>q kq tq. T = Nd q kq tq \<and> 2 \<le> length kq \<and> length kq \<le> 4" by blast
qed

text \<open>The four branches, with the recursion of the two merges.\<close>

lemma solve_underflow_innode_correct:
  assumes "under_ok t (g # fs) p kd cd i ts lo hi n"
  shows "\<exists>t'. solve_underflow_innode p (path_idx (g # fs) @ [i]) t = Some t' \<and>
    replaced t (g # fs) (concat (map entries ts)) t'"
  using assms
proof (induction fs arbitrary: g t p kd cd i ts lo hi n)
  have step: "\<exists>t'. solve_underflow_innode p (path_idx (g # fs) @ [i]) t = Some t' \<and>
    replaced t (g # fs) (concat (map entries ts)) t'"
    if u: "under_ok t (g # fs) p kd cd i ts lo hi n"
    and IH: "\<And>t p kd cd i ts lo hi n. under_ok t fs p kd cd i ts lo hi n \<Longrightarrow> fs \<noteq> [] \<Longrightarrow>
      \<exists>t'. solve_underflow_innode p (path_idx fs @ [i]) t = Some t' \<and> replaced t fs (concat (map entries ts)) t'"
    for g fs t p kd cd i ts lo hi n
  proof -
    obtain pp L R where g: "g = (pp, L, R)" by (cases g)
    note uD = under_okD [OF u [unfolded g]]
    note pn = under_parent [OF u [unfolded g]] and hn = repDD(1) [OF uD(1)]
    note unf = solve_underflow_innode.simps [of p] node_at_eq hn pn
    have up: "\<exists>t'. solve_underflow_innode pp (path_idx fs @ [j]) t1 = Some t' \<and>
        replaced t1 fs (concat (map entries us)) t'"
      if "dirty_ok t1 fs pp kd1 cd1 j us l h m" "fs \<noteq> []" "length kd1 = 2" for t1 kd1 cd1 j us l h m
      using IH [of t1 pp kd1 cd1 j us l h m] that by (simp add: under_ok_def)
    have hts: "L = [] \<or> (\<exists>L' q kq tq s. L = L' @ [(Nd q kq tq, s)] \<and> 2 \<le> length kq)"
      "R = [] \<or> (\<exists>R' q kq tq s. R = (s, Nd q kq tq) # R' \<and> 2 \<le> length kq)"
    proof -
      note ph = path_height [OF uD(5)]
      show "L = [] \<or> (\<exists>L' q kq tq s. L = L' @ [(Nd q kq tq, s)] \<and> 2 \<le> length kq)"
        using ph(1) by (cases L rule: rev_cases) force+
      show "R = [] \<or> (\<exists>R' q kq tq s. R = (s, Nd q kq tq) # R' \<and> 2 \<le> length kq)"
        using ph(2) by (cases R) force+
    qed
    have some: "L \<noteq> [] \<or> R \<noteq> []" using uD(5) by auto
    consider (rp) L' q kq tq s where "L = L' @ [(Nd q kq tq, s)]" "3 \<le> length kq" |
      (rn) R' q kq tq s where "L = [] \<or> (\<exists>L' q kq tq s. L = L' @ [(Nd q kq tq, s)] \<and> length kq = 2)"
        "R = (s, Nd q kq tq) # R'" "3 \<le> length kq" |
      (mp) L' q kq tq s where "L = L' @ [(Nd q kq tq, s)]" "length kq = 2"
        "R = [] \<or> (\<exists>R' q kq tq s. R = (s, Nd q kq tq) # R' \<and> length kq = 2)" |
      (mn) R' q kq tq s where "L = []" "R = (s, Nd q kq tq) # R'" "length kq = 2"
      using hts some by (metis eval_nat_numeral(3) le_antisym not_less_eq_eq)
    then show ?thesis
    proof cases
      case rp
      note u' = u [unfolded g rp(1)]
      from inner_rotate_prev_correct [OF u' rp(2)] left_give [OF u'] rp(2) show ?thesis
        by (simp add: unf g rp(1))
    next
      case rn
      note u' = u [unfolded g rn(2)]
      have "(if length L > 0 then child_can_give pp (length L - 1) t else Some False) = Some False"
        using rn(1) left_give u [unfolded g] by auto
      with inner_rotate_next_correct [OF u' rn(3)] right_give [OF u'] rn(3) show ?thesis
        by (auto simp: unf g rn(2))
    next
      case mp
      note u' = u [unfolded g mp(1)]
      have right: "(if length L < length L + length R then child_can_give pp (Suc (length L)) t else Some False) = Some False"
        using mp(3) right_give u [unfolded g] by auto
      from inner_merge_prev_correct [OF u' mp(2)] obtain t1 T cd' lo' hi' where
        m: "underflow_innode_merge_prev p i (Suc (length L')) pp t = Some (q, t1)" "bt_size t1 = bt_size t"
        "addr T = q" "entries T = concat (map entries (tq @ ts))"
        "dirty_ok t1 fs pp (map snd L' @ s # map fst R) cd' (length L') (ftrees L' [T] R) lo' hi' (Suc n)"
        by blast
      obtain t' again where st: "innode_underflows pp t1 = Some again"
        "(if again then solve_underflow_innode pp (path_idx fs @ [length L']) t1
          else drop_from_parent pp (addr (ftrees L' [T] R ! length L')) (length L') t1) = Some t'"
        "replaced t1 fs (concat (map entries (ftrees L' [T] R))) t'"
        using merged_step [OF m(5) up [OF m(5)]] by metis
      from st(3) have "replaced t (g # fs) (concat (map entries ts)) t'"
        by (simp add: g mp(1) replaced_frame replaced_size [OF m(2)] m(4))
      moreover have "solve_underflow_innode p (path_idx (g # fs) @ [i]) t = Some t'"
        using left_give [OF u'] mp(2) right m(1,3) st(1,2)
        by (auto simp: unf g mp(1) split: if_splits)
      ultimately show ?thesis by blast
    next
      case mn
      note u' = u [unfolded g mn(2)]
      from inner_merge_next_correct [OF u' mn(3)] obtain t1 T cd' lo' hi' where
        m: "underflow_innode_merge_next p i (length L) pp t = Some t1" "bt_size t1 = bt_size t"
        "addr T = p" "entries T = concat (map entries (ts @ tq))"
        "dirty_ok t1 fs pp (map snd L @ s # map fst R') cd' (length L) (ftrees L [T] R') lo' hi' (Suc n)"
        by blast
      obtain t' again where st: "innode_underflows pp t1 = Some again"
        "(if again then solve_underflow_innode pp (path_idx fs @ [length L]) t1
          else drop_from_parent pp (addr (ftrees L [T] R' ! length L)) (length L) t1) = Some t'"
        "replaced t1 fs (concat (map entries (ftrees L [T] R'))) t'"
        using merged_step [OF m(5) up [OF m(5)]] by metis
      from st(3) have "replaced t (g # fs) (concat (map entries ts)) t'"
        by (simp add: g mn(2) replaced_frame replaced_size [OF m(2)] m(4))
      moreover have "solve_underflow_innode p (path_idx (g # fs) @ [i]) t = Some t'"
        using right_give [OF u'] mn m(1,3) st(1,2) [unfolded nth_ftrees]
        by (auto simp: unf g split: if_splits)
      ultimately show ?thesis by blast
    qed
  qed
  {
    case Nil
    then show ?case by (rule step) simp
  next
    case (Cons a fs)
    from Cons.prems show ?case by (rule step) (rule Cons.IH)
  }
qed

end
