(* ===== verification/BTree_Delete.thy ===== *)
theory BTree_Delete
  imports BTree_Underflow
begin

text \<open>
  Removal from a represented tree: an entry taken over from a sibling leaf, a merge with it,
  and \<^verbatim>\<open>BTree::remove\<close> itself, which deletes one key of the map.
\<close>

section \<open>A leaf that underflows\<close>

text \<open>What is assumed of the leaf: two entries, of which the one at \<open>i\<close> goes.\<close>

definition min_leaf :: "btree \<Rightarrow> frame list \<Rightarrow> ptr \<Rightarrow> string list \<Rightarrow> 32 word list \<Rightarrow>
    string option \<Rightarrow> string option \<Rightarrow> nat \<Rightarrow> bool" where
  "min_leaf t fs h ks ds lo hi i \<longleftrightarrow> repF t fs [Lf h ks ds] \<and> focus_ok fs (Lf h ks ds) lo hi 0 \<and>
     length ks = 2 \<and> i < 2"

lemma min_leafD:
  assumes "min_leaf t fs h ks ds lo hi i"
  shows "repF t fs [Lf h ks ds]" "focus_ok fs (Lf h ks ds) lo hi 0" "length ks = 2" "length ds = 2" "i < 2"
    "leaf_seq lo hi ks ds" "leaf_seq lo hi (del_at i ks) (del_at i ds)"
    "length (del_at i ks) = 1" "length (del_at i ds) = 1" "\<forall>k\<in>set ks. nul_free k"
proof -
  from assms show *: "repF t fs [Lf h ks ds]" "focus_ok fs (Lf h ks ds) lo hi 0" "length ks = 2" "i < 2"
    by (simp_all add: min_leaf_def)
  then show s: "leaf_seq lo hi ks ds" by (simp add: focus_ok_def leaf_ok_seq)
  then show len: "length ds = 2" using *(3) by (simp add: leaf_seq_def)
  show "leaf_seq lo hi (del_at i ks) (del_at i ds)" using leaf_seq_del [OF s, of i] * by simp
  show "length (del_at i ks) = 1" "length (del_at i ds) = 1" using * len by simp_all
  show "\<forall>k\<in>set ks. nul_free k" using s by (simp add: leaf_seq_def)
qed

lemma underflow_leaf_rotate_prev_correct:
  assumes m: "min_leaf t (pair_frames L (Lf q kq dq) s R p fs) h ks ds lo hi i" and q: "3 \<le> length kq"
  shows "\<exists>t'. underflow_leaf_rotate_prev h i (Suc (length L)) p t = Some t' \<and>
    replaced t (pair_frames L (Lf q kq dq) s R p fs) (del_at i (zip ks ds)) t'"
proof -
  note mD = min_leafD [OF m]
  from mD(2) obtain lo0 where lo: "lo = Some s" and pair: "pair_ok L (Lf q kq dq) s (Lf h ks ds) R fs lo0 hi 0"
    by (auto simp: pair_right)
  note pD = pair_seq [OF pair]
  have lq: "length dq = length kq" using pD(1) by (simp add: leaf_seq_def)
  obtain kq' k0 where kq: "kq = kq' @ [k0]" using q by (cases kq rule: rev_cases) auto
  obtain dq' d0 where dq: "dq = dq' @ [d0]" using q lq by (cases dq rule: rev_cases) auto
  have lq': "length dq' = length kq'" using lq by (simp add: kq dq)
  let ?k2 = "k0 # del_at i ks" and ?d2 = "d0 # del_at i ds"
  have "del_at i ks \<noteq> []" using mD(8) by auto
  then have seq: "leaf_seq lo0 hi (kq' @ ?k2) (dq' @ ?d2)"
    using leaf_seq_append [OF pD(1) mD(7) [unfolded lo]] pD(3) by (auto simp: kq dq)
  note nd = pair_nodes [OF mD(1)]
  let ?t' = "t\<lparr>bt_heap := (bt_heap t)(q \<mapsto> leaf_node p kq' dq' (before_pair L fs) h,
      h \<mapsto> leaf_node p ?k2 ?d2 q (after_pair R fs), p \<mapsto> pair_node L q k0 h R fs)\<rparr>"
  have "replaced t fs (concat (map (entries \<circ> fst) L) @ zip (kq' @ ?k2) (dq' @ ?d2) @
      concat (map (entries \<circ> snd) R)) ?t'"
    using pD q lq' mD(8,9) by (intro pair_divided [OF mD(1) pair seq]) (auto simp: kq hd_append)
  then have "replaced t (pair_frames L (Lf q kq dq) s R p fs) (del_at i (zip ks ds)) ?t'"
    using lq' mD(3,4) by (simp add: replaced_frame kq dq zip_del_at)
  moreover have "underflow_leaf_rotate_prev h i (Suc (length L)) p t = Some ?t'"
  proof -
    have "kq' = butlast kq" "k0 = last kq" "dq' = butlast dq" "d0 = last dq" "kq \<noteq> []" "dq \<noteq> []"
      by (simp_all add: kq dq)
    then show ?thesis
      using nd mD(3,4,5,8) lq' q
      by (simp add: underflow_leaf_rotate_prev_def exec_simps shift_right_leaf_node pair_node_key
          fun_upd_twist [OF nd(5)])
  qed
  ultimately show ?thesis by blast
qed

text \<open>
  The right sibling gives its first entry.  When the removed entry was the first of a leaf
  that has a left sibling, the separator in front of the leaf changes as well.
\<close>

lemma set_sep_repF:
  assumes r: "repF t ((p, L @ [(X, s)], R) # fs) [A]"
    and hp: "bt_heap t' = (bt_heap t)(p \<mapsto> pair_node L (addr X) s' (addr A) R fs)"
    and st: "bt_root t' = bt_root t" "bt_brk t' = bt_brk t" "bt_tmp_idx t' = bt_tmp_idx t"
  shows "repF t' ((p, L @ [(X, s')], R) # fs) [A]"
proof -
  have get: "bt_heap t p = Some (pair_node L (addr X) s (addr A) R fs)"
    using repF_parent(1) [OF r] by (simp add: pair_node_def fkeys_def)
  have "heap_is (bt_heap t) (frame_nodes ((p, L @ [(X, s)], R) # fs) [A])
      (frame_leaves ((p, L @ [(X, s)], R) # fs) [A])" using r by (simp add: repF_def)
  then have "heap_is (bt_heap t') (frame_nodes ((p, L @ [(X, s')], R) # fs) [A])
      (frame_leaves ((p, L @ [(X, s)], R) # fs) [A])"
    unfolding hp
    by (rule heap_is_set [where m = "pair_node L (addr X) s (addr A) R fs"])
      (simp_all add: get, simp_all add: frame_nodes_def fkeys_def pair_node_def)
  then show ?thesis
    using r st get by (auto simp: repF_def state_ok_def hp frame_leaves_def)
qed

lemma pair_first:
  assumes pair: "pair_ok (L @ [(X, s0)]) (Lf h ks ds) s (Lf y ky dy) R fs lo hi 0"
    and new: "leaf_seq lo hi (k1 @ k2) (d1 @ d2)" "length d1 = length k1" "length d2 = length k2"
    "2 \<le> length k1" "length k1 \<le> 4" "2 \<le> length k2" "length k2 \<le> 4"
  shows "focus_ok ((p, L @ [(X, hd k1)], (hd k2, Lf y k2 d2) # R) # fs) (Lf h k1 d1)
    (Some (hd k1)) (Some (hd k2)) 0"
proof -
  note cut = leaf_seq_cut(1) [OF new, of h] leaf_seq_cut(2) [OF new, of y] leaf_seq_cut(3) [OF new, of y] leaf_seq_cut(4) [OF new]
  have lo: "lo = Some s0" using pair by (auto simp: pair_ok_def)
  have ne: "k1 \<noteq> []" using new(4) by auto
  then have "hd k1 \<in> set k1" by simp
  then have k: "s0 \<le> hd k1" "nul_free (hd k1)" using new(1) by (auto simp: leaf_seq_def lo)
  have "tinv 2 (Some (hd k1)) (Some (hd k2)) 0 (Lf h k1 d1)"
    using cut(1) by (auto intro: leaf_ok_lo simp: lo)
  then show ?thesis
    using pair cut k ne tinv_hi_leaf [of 2 _ s0 X "hd k1"]
    by (auto simp: focus_ok_def pair_ok_def simp del: tinv.simps)
qed

lemma underflow_leaf_rotate_next_correct:
  assumes m: "min_leaf t ((p, L, (s, Lf y ky dy) # R) # fs) h ks ds lo hi i" and y: "3 \<le> length ky"
  shows "\<exists>t'. underflow_leaf_rotate_next h i (length L) p t = Some t' \<and>
    replaced t ((p, L, (s, Lf y ky dy) # R) # fs) (del_at i (zip ks ds)) t'"
proof -
  note mD = min_leafD [OF m]
  from mD(2) obtain hi0 where hi: "hi = Some s" and pair: "pair_ok L (Lf h ks ds) s (Lf y ky dy) R fs lo hi0 0"
    by (auto simp: pair_left)
  note pD = pair_seq [OF pair]
  have ly: "length dy = length ky" using pD(2) by (simp add: leaf_seq_def)
  let ?k1 = "del_at i ks @ [hd ky]" and ?d1 = "del_at i ds @ [hd dy]"
  have ky: "ky \<noteq> []" "dy \<noteq> []" using y ly by auto
  have tl: "tl ky \<noteq> []"
  proof
    assume "tl ky = []"
    then have "length ky - 1 = 0" by (metis length_tl list.size(3))
    with y show False by simp
  qed
  have eq: "?k1 @ tl ky = del_at i ks @ ky" "?d1 @ tl dy = del_at i ds @ dy" using ky by simp_all
  have "del_at i ks \<noteq> []" using mD(8) by auto
  then have seq: "leaf_seq lo hi0 (?k1 @ tl ky) (?d1 @ tl dy)"
    unfolding eq using leaf_seq_append [OF mD(7) [unfolded hi] pD(2)] ky by simp
  note r = mD(1) [unfolded repF_shift]
  note nd = pair_nodes [OF r]
  let ?h1 = "(bt_heap t)(h \<mapsto> leaf_node p ?k1 ?d1 (before_pair L fs) y,
      y \<mapsto> leaf_node p (tl ky) (tl dy) h (after_pair R fs), p \<mapsto> pair_node L h (hd (tl ky)) y R fs)"
  let ?t1 = "t\<lparr>bt_heap := ?h1\<rparr>"
  have lens: "length ?d1 = length ?k1" "length (tl dy) = length (tl ky)" "2 \<le> length ?k1" "length ?k1 \<le> 4"
    "2 \<le> length (tl ky)" "length (tl ky) \<le> 4" using mD(8,9) y ly pD(6) by auto
  have e1: "zip (?k1 @ tl ky) (?d1 @ tl dy) = del_at i (zip ks ds) @ zip ky dy"
    unfolding eq using mD(3,4,8,9) by (simp add: zip_del_at)
  note steps = underflow_leaf_rotate_next_def take_first_entry_of_next_def exec_simps
    shift_left_append_node pair_node_key erase_at_0
  show ?thesis
  proof (cases "L = [] \<or> i \<noteq> 0")
    case True
    then have "L = [] \<or> hd ?k1 = hd ks"
      using mD(3,5) less2_cases [of i] by (auto simp: length2 del_at_def)
    then have "replaced t fs (concat (map (entries \<circ> fst) L) @ zip (?k1 @ tl ky) (?d1 @ tl dy) @
        concat (map (entries \<circ> snd) R)) ?t1"
      using lens by (intro pair_divided [OF r pair seq]) simp_all
    then have "replaced t ((p, L, (s, Lf y ky dy) # R) # fs) (del_at i (zip ks ds)) ?t1"
      unfolding e1 by (simp add: replaced_frame)
    moreover have "underflow_leaf_rotate_next h i (length L) p t = Some ?t1"
      using nd mD(3,4,5,8) ly ky tl
      by (simp add: steps del: erase_at_Some) (use True in auto)
    ultimately show ?thesis by blast
  next
    case False
    then obtain L' X s0 where L: "L = L' @ [(X, s0)]" by (cases L rule: rev_cases) auto
    let ?p2 = "pair_node L' (addr X) (hd ?k1) h ((hd (tl ky), Lf y (tl ky) (tl dy)) # R) fs"
    let ?t2 = "t\<lparr>bt_heap := ?h1(p \<mapsto> ?p2)\<rparr>"
    have pn: "pair_node L h k y R fs = pair_node L' (addr X) s0 h ((k, Lf y ky' dy') # R) fs" for k ky' dy'
      by (simp add: pair_node_def L)
    have "repF ?t1 (pair_frames L (Lf h ?k1 ?d1) (hd (tl ky)) R p fs) [Lf y (tl ky) (tl dy)]"
      using r by (intro pair_update [OF r]) (simp_all add: repF_def state_ok_def)
    then have r1: "repF ?t1 ((p, L' @ [(X, s0)], (hd (tl ky), Lf y (tl ky) (tl dy)) # R) # fs) [Lf h ?k1 ?d1]"
      by (simp add: repF_shift L)
    have r2: "repF ?t2 ((p, L' @ [(X, hd ?k1)], (hd (tl ky), Lf y (tl ky) (tl dy)) # R) # fs) [Lf h ?k1 ?d1]"
      by (rule set_sep_repF [OF r1]) simp_all
    have "replaced t ((p, L' @ [(X, hd ?k1)], (hd (tl ky), Lf y (tl ky) (tl dy)) # R) # fs)
        (zip ?k1 ?d1) ?t2"
      by (rule replacedI [OF r2 pair_first [OF pair [unfolded L] seq lens]]) simp_all
    moreover have "zip ?k1 ?d1 @ zip (tl ky) (tl dy) @ us = del_at i (zip ks ds) @ zip ky dy @ us" for us
      using e1 lens(1) by (metis append.assoc zip_append)
    ultimately have "replaced t ((p, L, (s, Lf y ky dy) # R) # fs) (del_at i (zip ks ds)) ?t2"
      by (simp add: replaced_frame L)
    moreover have "underflow_leaf_rotate_next h i (length L) p t = Some ?t2"
    proof -
      have "(pair_node L h (hd (tl ky)) y R fs)\<lparr>key := (map snd L' @ hd ?k1 # hd (tl ky) # map fst R)\<rparr> = ?p2"
        by (simp add: pair_node_def L)
      moreover have "set_at (map snd L @ x # map fst R) (length L - 1) k =
          Some (map snd L' @ k # x # map fst R)" for x k
        by (simp add: L set_at_def list_update_append)
      moreover have "(L \<noteq> [] \<and> i = 0) = True" using False by simp
      ultimately show ?thesis
        using nd mD(3,4,5,8) ly ky tl by (simp add: steps del: erase_at_Some)
    qed
    ultimately show ?thesis by blast
  qed
qed

text \<open>Two leaves become one, \<open>a\<close>; the other, \<open>b\<close>, is freed.\<close>

lemma leaf_merge_repD:
  assumes r: "repF t (pair_frames L (Lf a ka da) s R p fs) [Lf b kb db]"
    and hp: "bt_heap t' = (set_prev ((bt_heap t)(a \<mapsto> leaf_node p ks ds (before_pair L fs) (after_pair R fs)))
      (after_pair R fs) a)(b := None)"
    and st: "bt_root t' = bt_root t" "bt_brk t' = bt_brk t" "bt_tmp_idx t' = bt_tmp_idx t"
  shows "repD t' fs p (map snd L @ s # map fst R) (map (addr \<circ> fst) L @ a # b # map (addr \<circ> snd) R)
    (length L) (ftrees L [Lf a ks ds] R)"
proof -
  let ?h = "bt_heap t"
  let ?xs = "path_leaves_left ((p, L, R) # fs)" and ?ys = "path_leaves_right ((p, L, R) # fs)"
  let ?K = "(p, pair_node L a s b R fs) # lefts_nodes p L @ rights_nodes p R @ path_nodes p fs"
  let ?fr = "pair_frames L (Lf a ka da) s R p fs"
  let ?np = "leaf_node p ks ds (before_pair L fs) (after_pair R fs)"
  from r have h0: "heap_is ?h (frame_nodes ?fr [Lf b kb db]) (frame_leaves ?fr [Lf b kb db])"
    and ok: "state_ok t" and root: "bt_root t = root_addr fs p" by (simp_all add: repF_def)
  have "mset (frame_nodes ?fr [Lf b kb db]) =
      mset ((b, leaf_node p kb db 0 0) # (a, leaf_node p ka da 0 0) # ?K)"
    by (simp add: frame_nodes_def pair_node_def fkeys_def)
  then have "heap_is ?h ((b, leaf_node p kb db 0 0) # (a, leaf_node p ka da 0 0) # ?K)
      (frame_leaves ?fr [Lf b kb db])" using h0 heap_is_perm by blast
  then have h: "heap_is ?h ((b, leaf_node p kb db 0 0) # (a, leaf_node p ka da 0 0) # ?K) (?xs @ a # b # ?ys)"
    by (simp add: frame_leaves_def)
  have d: "distinct (?xs @ a # b # ?ys)" using repF_leaves(1) [OF r] by (simp add: frame_leaves_def)
  have lf: "is_leaf n" if "y \<in> set ?ys" "?h y = Some n" for y n
    using repF_leaves(2) [OF r _ that(2)] that(1) by (auto simp: frame_leaves_def)
  have "heap_is (bt_heap t') ((a, core ?np) # ?K) (?xs @ a # ?ys)"
    unfolding hp by (rule heap_is_unlink [OF h d lf]) simp_all
  then have "heap_is (bt_heap t') ((p, inner_node (ptop fs) (map snd L @ s # map fst R)
        (map (addr \<circ> fst) L @ a # b # map (addr \<circ> snd) R)) #
      concat (map (nodes_of p) (ftrees L [Lf a ks ds] R)) @ path_nodes p fs) (?xs @ a # ?ys)"
    by (rule iffD1 [OF heap_is_perm, rotated])
      (simp add: pair_node_def ftrees_def lefts_nodes_def rights_nodes_def comp_def)
  moreover have "?xs @ a # ?ys = path_leaves_left fs @ concat (map leaves (ftrees L [Lf a ks ds] R)) @
      path_leaves_right fs" by (simp add: ftrees_def comp_def)
  moreover have "state_ok t'"
    using ok st pair_nodes(1) [OF r]
    by (auto simp: state_ok_def hp set_prev_def split: if_splits)
  ultimately show ?thesis
    using root st by (simp add: repD_def ftrees_def del_at_def comp_def)
qed

lemma pair_after:
  assumes r: "repF t (pair_frames L (Lf a ka da) s R p fs) [Lf b kb db]" and ne: "after_pair R fs \<noteq> 0"
  shows "\<exists>n. bt_heap t (after_pair R fs) = Some n" "after_pair R fs \<noteq> a" "after_pair R fs \<noteq> b"
proof -
  let ?ys = "path_leaves_right ((p, L, R) # fs)" and ?fr = "pair_frames L (Lf a ka da) s R p fs"
  have y: "after_pair R fs \<in> set ?ys"
    using first_of_in [of "?ys"] ne by simp
  have ls: "frame_leaves ?fr [Lf b kb db] = path_leaves_left ((p, L, R) # fs) @ a # b # ?ys"
    by (simp add: frame_leaves_def)
  have "distinct (path_leaves_left ((p, L, R) # fs) @ a # b # ?ys)"
    using repF_leaves(1) [OF r] unfolding ls .
  with y show "after_pair R fs \<noteq> a" "after_pair R fs \<noteq> b" by auto
  have "heap_is (bt_heap t) (frame_nodes ?fr [Lf b kb db]) (frame_leaves ?fr [Lf b kb db])"
    using r by (simp add: repF_def)
  from heap_isD(2,6) [OF this] y have "after_pair R fs \<in> dom (bt_heap t)" unfolding ls by auto
  then show "\<exists>n. bt_heap t (after_pair R fs) = Some n" by blast
qed

lemma leaf_pair_merged:
  assumes pair: "pair_ok L (Lf a ka da) s (Lf b kb db) R fs lo hi 0"
    and "leaf_seq lo hi ks ds" "2 \<le> length ks" "length ks \<le> 4" "L = [] \<or> hd ks = hd ka"
    and r: "repD t fs p (map snd L @ s # map fst R) cd (length L) (ftrees L [Lf a ks ds] R)"
  shows "\<exists>lo' hi'. dirty_ok t fs p (map snd L @ s # map fst R) cd (length L) (ftrees L [Lf a ks ds] R) lo' hi' 0"
proof -
  have "outer_ok L R fs lo hi 0" using pair by (auto simp: outer_ok_def pair_ok_def)
  moreover have "sep_left L (Lf a ks ds)"
    using pair_seq(8) [OF pair] assms(3,5) by (auto simp: sep_left_def)
  ultimately show ?thesis using outer_merged [OF _ _ _ r] assms(2-4) by (auto simp: leaf_ok_seq)
qed

lemma underflow_leaf_merge_prev_correct:
  assumes m: "min_leaf t (pair_frames L (Lf q kq dq) s R p fs) h ks ds lo hi i" and q: "length kq = 2"
  shows "\<exists>t' T cd' lo' hi'. underflow_leaf_merge_prev h i t = Some (q, t') \<and> bt_size t' = bt_size t \<and>
    addr T = q \<and> entries T = zip kq dq @ del_at i (zip ks ds) \<and>
    dirty_ok t' fs p (map snd L @ s # map fst R) cd' (length L) (ftrees L [T] R) lo' hi' 0"
proof -
  note mD = min_leafD [OF m]
  from mD(2) obtain lo0 where lo: "lo = Some s" and pair: "pair_ok L (Lf q kq dq) s (Lf h ks ds) R fs lo0 hi 0"
    by (auto simp: pair_right)
  note pD = pair_seq [OF pair]
  have lq: "length dq = 2" using pD(1) q by (simp add: leaf_seq_def)
  let ?ks = "kq @ del_at i ks" and ?ds = "dq @ del_at i ds"
  have ne: "kq \<noteq> []" "del_at i ks \<noteq> []" using q mD(8) by auto
  have seq: "leaf_seq lo0 hi ?ks ?ds"
    by (rule leaf_seq_append [OF pD(1) mD(7) [unfolded lo] ne])
  note nd = pair_nodes [OF mD(1)]
  let ?a = "before_pair L fs" and ?b = "after_pair R fs"
  let ?t' = "t\<lparr>bt_heap := (set_prev ((bt_heap t)(q \<mapsto> leaf_node p ?ks ?ds ?a ?b)) ?b q)(h := None)\<rparr>"
  have rep: "repD ?t' fs p (map snd L @ s # map fst R) (map (addr \<circ> fst) L @ q # h # map (addr \<circ> snd) R)
      (length L) (ftrees L [Lf q ?ks ?ds] R)"
    by (rule leaf_merge_repD [OF mD(1)]) simp_all
  have "\<exists>lo' hi'. dirty_ok ?t' fs p (map snd L @ s # map fst R) (map (addr \<circ> fst) L @ q # h # map (addr \<circ> snd) R)
      (length L) (ftrees L [Lf q ?ks ?ds] R) lo' hi' 0"
    using q mD(8) ne by (intro leaf_pair_merged [OF pair seq _ _ _ rep]) simp_all
  moreover have "underflow_leaf_merge_prev h i t = Some (q, ?t')"
  proof -
    obtain k0 k1 where ks: "ks = [k0, k1]" using mD(3) by (auto simp: length2)
    obtain d0 d1 where ds: "ds = [d0, d1]" using mD(4) by (auto simp: length2)
    obtain nb where b: "?b \<noteq> 0 \<Longrightarrow> bt_heap t ?b = Some nb" "?b \<noteq> 0 \<Longrightarrow> ?b \<noteq> q" "?b \<noteq> 0 \<Longrightarrow> ?b \<noteq> h"
      using pair_after [OF mD(1)] by blast
    note steps = underflow_leaf_merge_prev_def copy_entry_leaf_def exec_simps delete_node_def
      set_prev_def del_at_def
    have "i = 0 \<or> i = 1" using less2_cases [OF mD(5)] .
    then show ?thesis
    proof
      assume i: "i = 0"
      show ?thesis using nd mD(10) b
        by (cases "?b = 0") (simp_all add: steps ks ds i)
    next
      assume i: "i = 1"
      show ?thesis using nd mD(10) b
        by (cases "?b = 0") (simp_all add: steps ks ds i)
    qed
  qed
  moreover have "entries (Lf q ?ks ?ds) = zip kq dq @ del_at i (zip ks ds)"
    using q lq mD(3,4) by (simp add: zip_del_at)
  ultimately show ?thesis
    by (metis (no_types, lifting) addr.simps(1) btree.select_convs(1) btree.surjective btree.update_convs(4))
qed

lemma underflow_leaf_merge_next_correct:
  assumes m: "min_leaf t ((p, L, (s, Lf y ky dy) # R) # fs) h ks ds lo hi i" and y: "length ky = 2"
    and L: "L = []"
  shows "\<exists>t' T cd' lo' hi'. underflow_leaf_merge_next h i t = Some t' \<and> bt_size t' = bt_size t \<and>
    addr T = h \<and> entries T = del_at i (zip ks ds) @ zip ky dy \<and>
    dirty_ok t' fs p (map snd L @ s # map fst R) cd' (length L) (ftrees L [T] R) lo' hi' 0"
proof -
  note mD = min_leafD [OF m]
  from mD(2) obtain hi0 where hi: "hi = Some s" and pair: "pair_ok L (Lf h ks ds) s (Lf y ky dy) R fs lo hi0 0"
    by (auto simp: pair_left)
  note pD = pair_seq [OF pair]
  have ly: "length dy = 2" using pD(2) y by (simp add: leaf_seq_def)
  let ?ks = "del_at i ks @ ky" and ?ds = "del_at i ds @ dy"
  have ne: "ky \<noteq> []" "del_at i ks \<noteq> []" using y mD(8) by auto
  have seq: "leaf_seq lo hi0 ?ks ?ds"
    by (rule leaf_seq_append [OF mD(7) [unfolded hi] pD(2) ne(2,1)])
  note r = mD(1) [unfolded repF_shift]
  note nd = pair_nodes [OF r]
  let ?a = "before_pair L fs" and ?b = "after_pair R fs"
  let ?t' = "t\<lparr>bt_heap := (set_prev ((bt_heap t)(h \<mapsto> leaf_node p ?ks ?ds ?a ?b)) ?b h)(y := None)\<rparr>"
  have rep: "repD ?t' fs p (map snd L @ s # map fst R) (map (addr \<circ> fst) L @ h # y # map (addr \<circ> snd) R)
      (length L) (ftrees L [Lf h ?ks ?ds] R)"
    by (rule leaf_merge_repD [OF r]) simp_all
  have "\<exists>lo' hi'. dirty_ok ?t' fs p (map snd L @ s # map fst R) (map (addr \<circ> fst) L @ h # y # map (addr \<circ> snd) R)
      (length L) (ftrees L [Lf h ?ks ?ds] R) lo' hi' 0"
    by (rule leaf_pair_merged [OF pair seq _ _ disjI1 [OF L] rep]) (use y mD(8) in simp_all)
  moreover have "underflow_leaf_merge_next h i t = Some ?t'"
  proof -
    obtain k0 k1 where ky: "ky = [k0, k1]" using y by (auto simp: length2)
    obtain d0 d1 where dy: "dy = [d0, d1]" using ly by (auto simp: length2)
    obtain kd where kd: "del_at i ks = [kd]" using mD(8) by (auto simp: length_one)
    obtain dd where dd: "del_at i ds = [dd]" using mD(9) by (auto simp: length_one)
    have nf: "nul_free k1" using pD(2) by (simp add: leaf_seq_def ky)
    obtain nb where b: "?b \<noteq> 0 \<Longrightarrow> bt_heap t ?b = Some nb" "?b \<noteq> 0 \<Longrightarrow> ?b \<noteq> h" "?b \<noteq> 0 \<Longrightarrow> ?b \<noteq> y"
      using pair_after [OF r] by blast
    have grow: "(leaf_node p [kd, k0] [dd, d0] c e)\<lparr>key := [kd, k0, k1], data := [dd, d0, d1],
        child := [0, 0, 0, 0]\<rparr> = leaf_node p [kd, k0, k1] [dd, d0, d1] c e" for c e
      by (simp add: leaf_node_def)
    note steps = underflow_leaf_merge_next_def take_first_entry_of_next_def copy_entry_leaf_def exec_simps
      delete_node_def set_prev_def shift_left_append_node
    show ?thesis using nd mD(3,4,5) b nf
      by (cases "?b = 0") (simp_all add: steps ky dy kd dd grow)
  qed
  moreover have "entries (Lf h ?ks ?ds) = del_at i (zip ks ds) @ zip ky dy"
    using mD(3,4,8,9) by (simp add: zip_del_at)
  ultimately show ?thesis
    by (metis (no_types, lifting) addr.simps(1) btree.select_convs(1) btree.surjective btree.update_convs(4))
qed

text \<open>The guards, and the four branches.\<close>

lemma left_leaf_give:
  assumes "min_leaf t (pair_frames L (Lf q kq dq) s R p fs) h ks ds lo hi i"
  shows "\<exists>hn. bt_heap t h = Some hn \<and> parent hn = p \<and> leaf_can_give (prev hn) t = Some (3 \<le> length kq)"
  using pair_nodes [OF min_leafD(1) [OF assms]] by (simp add: leaf_can_give_def node_at_eq)

lemma right_leaf_give:
  assumes "min_leaf t ((p, L, (s, Lf y ky dy) # R) # fs) h ks ds lo hi i"
  shows "\<exists>hn. bt_heap t h = Some hn \<and> parent hn = p \<and> leaf_can_give (nxt hn) t = Some (3 \<le> length ky)"
  using pair_nodes [OF min_leafD(1) [OF assms, unfolded repF_shift]]
  by (simp add: leaf_can_give_def node_at_eq)

lemma leaf_siblings:
  assumes "focus_ok ((p, L, R) # fs) (Lf h ks ds) lo hi 0"
  shows "L = [] \<or> (\<exists>L' q kq dq s. L = L' @ [(Lf q kq dq, s)] \<and> 2 \<le> length kq)"
    "R = [] \<or> (\<exists>R' q kq dq s. R = (s, Lf q kq dq) # R' \<and> 2 \<le> length kq)"
    "L \<noteq> [] \<or> R \<noteq> []"
proof -
  show "L \<noteq> [] \<or> R \<noteq> []" using assms by (auto simp: focus_ok_def)
  show "L = [] \<or> (\<exists>L' q kq dq s. L = L' @ [(Lf q kq dq, s)] \<and> 2 \<le> length kq)"
  proof (cases L rule: rev_cases)
    case (snoc L' x)
    obtain X s where x: "x = (X, s)" by (cases x)
    with assms snoc obtain lo0 where p: "pair_ok L' X s (Lf h ks ds) R fs lo0 hi 0"
      by (auto simp: pair_right)
    then obtain q kq dq where "X = Lf q kq dq" by (rule pair_leaves) auto
    with p snoc x show ?thesis by (auto dest: pair_seq(3))
  qed simp
  show "R = [] \<or> (\<exists>R' q kq dq s. R = (s, Lf q kq dq) # R' \<and> 2 \<le> length kq)"
  proof (cases R)
    case (Cons x R')
    obtain s X where x: "x = (s, X)" by (cases x)
    with assms Cons obtain hi0 where p: "pair_ok L (Lf h ks ds) s X R' fs lo hi0 0"
      by (auto simp: pair_left)
    then obtain q kq dq where "X = Lf q kq dq" by (rule pair_leaves) auto
    with p Cons x show ?thesis by (auto dest: pair_seq(4))
  qed simp
qed

lemma solve_underflow_leaf_correct:
  assumes m: "min_leaf t ((p, L, R) # fs) h ks ds lo hi i"
  shows "\<exists>t'. solve_underflow_leaf h (path_idx ((p, L, R) # fs) @ [i]) t = Some t' \<and>
    replaced t ((p, L, R) # fs) (del_at i (zip ks ds)) t'"
proof -
  note mD = min_leafD [OF m]
  obtain hn where hn: "bt_heap t h = Some hn" "parent hn = p"
    using repF_node [OF mD(1)] by (metis addr.simps(1) ptop_simps(2))
  note pn = repF_parent(1) [OF mD(1)]
  note unf = solve_underflow_leaf_def node_at_eq hn pn
  have up: "\<exists>t'. solve_underflow_innode p (path_idx fs @ [j]) t1 = Some t' \<and>
      replaced t1 fs (concat (map entries us)) t'"
    if d: "dirty_ok t1 fs p kd1 cd1 j us l u n" and ne: "fs \<noteq> []" and two: "length kd1 = 2" for t1 kd1 cd1 j us l u n
  proof -
    obtain g fs' where "fs = g # fs'" using ne by (cases fs) auto
    with d two show ?thesis
      using solve_underflow_innode_correct [of t1 g fs' p kd1 cd1 j us l u n] by (simp add: under_ok_def)
  qed
  note sib = leaf_siblings [OF mD(2)]
  consider (rp) L' q kq dq s where "L = L' @ [(Lf q kq dq, s)]" "3 \<le> length kq" |
    (rn) R' q kq dq s where "L = [] \<or> (\<exists>L' q kq dq s. L = L' @ [(Lf q kq dq, s)] \<and> length kq = 2)"
      "R = (s, Lf q kq dq) # R'" "3 \<le> length kq" |
    (mp) L' q kq dq s where "L = L' @ [(Lf q kq dq, s)]" "length kq = 2"
      "R = [] \<or> (\<exists>R' q kq dq s. R = (s, Lf q kq dq) # R' \<and> length kq = 2)" |
    (mn) R' q kq dq s where "L = []" "R = (s, Lf q kq dq) # R'" "length kq = 2"
    using sib by (metis eval_nat_numeral(3) le_antisym not_less_eq_eq)
  then show ?thesis
  proof cases
    case rp
    note m' = m [unfolded rp(1)]
    from underflow_leaf_rotate_prev_correct [OF m' rp(2)] left_leaf_give [OF m'] rp(2) hn show ?thesis
      by (auto simp: solve_underflow_leaf_def node_at_eq rp(1))
  next
    case rn
    note m' = m [unfolded rn(2)]
    have "(if length L > 0 then leaf_can_give (prev hn) t else Some False) = Some False"
      using rn(1) left_leaf_give m hn by fastforce
    with underflow_leaf_rotate_next_correct [OF m' rn(3)] right_leaf_give [OF m'] rn(3) hn show ?thesis
      by (auto simp: unf rn(2))
  next
    case mp
    note m' = m [unfolded mp(1)]
    have right: "(if length L < length L + length R then leaf_can_give (nxt hn) t else Some False) = Some False"
      using mp(3) right_leaf_give m hn by fastforce
    from underflow_leaf_merge_prev_correct [OF m' mp(2)] obtain t1 T cd' lo' hi' where
      e: "underflow_leaf_merge_prev h i t = Some (q, t1)" "bt_size t1 = bt_size t" "addr T = q"
      "entries T = zip kq dq @ del_at i (zip ks ds)"
      "dirty_ok t1 fs p (map snd L' @ s # map fst R) cd' (length L') (ftrees L' [T] R) lo' hi' 0"
      by blast
    obtain t' again where st: "innode_underflows p t1 = Some again"
      "(if again then solve_underflow_innode p (path_idx fs @ [length L']) t1
        else drop_from_parent p (addr (ftrees L' [T] R ! length L')) (length L') t1) = Some t'"
      "replaced t1 fs (concat (map entries (ftrees L' [T] R))) t'"
      using merged_step [OF e(5) up [OF e(5)]] by metis
    from st(3) have "replaced t ((p, L, R) # fs) (del_at i (zip ks ds)) t'"
      by (simp add: mp(1) replaced_frame replaced_size [OF e(2)] e(4))
    moreover have "solve_underflow_leaf h (path_idx ((p, L, R) # fs) @ [i]) t = Some t'"
      using left_leaf_give [OF m'] mp(2) right e(1,3) st(1,2) hn
      by (auto simp: unf mp(1) split: if_splits)
    ultimately show ?thesis by blast
  next
    case mn
    note m' = m [unfolded mn(2)]
    from underflow_leaf_merge_next_correct [OF m' mn(3,1)] obtain t1 T cd' lo' hi' where
      e: "underflow_leaf_merge_next h i t = Some t1" "bt_size t1 = bt_size t" "addr T = h"
      "entries T = del_at i (zip ks ds) @ zip kq dq"
      "dirty_ok t1 fs p (map snd L @ s # map fst R') cd' (length L) (ftrees L [T] R') lo' hi' 0"
      by blast
    obtain t' again where st: "innode_underflows p t1 = Some again"
      "(if again then solve_underflow_innode p (path_idx fs @ [length L]) t1
        else drop_from_parent p (addr (ftrees L [T] R' ! length L)) (length L) t1) = Some t'"
      "replaced t1 fs (concat (map entries (ftrees L [T] R'))) t'"
      using merged_step [OF e(5) up [OF e(5)]] by metis
    from st(3) have "replaced t ((p, L, R) # fs) (del_at i (zip ks ds)) t'"
      by (simp add: mn(2) replaced_frame replaced_size [OF e(2)] e(4))
    moreover have "solve_underflow_leaf h (path_idx ((p, L, R) # fs) @ [i]) t = Some t'"
      using right_leaf_give [OF m'] mn e(1,3) st(1,2) [unfolded nth_ftrees] hn
      by (auto simp: unf split: if_splits)
    ultimately show ?thesis by blast
  qed
qed

section \<open>Removal\<close>

lemma leaf_is_root:
  assumes "repF t fs [Lf h ks ds]"
  shows "bt_root t = h \<longleftrightarrow> fs = []"
proof -
  have "h \<notin> fst ` set (path_nodes h fs)" "bt_root t = root_addr fs h"
    using assms by (auto simp: repF_def heap_is_def frame_nodes_def)
  then show ?thesis using not_root by simp
qed

lemma hd_del_at: "i \<noteq> 0 \<Longrightarrow> hd (del_at i xs) = hd xs"
  by (cases i; cases xs) (simp_all add: del_at_def)

text \<open>A leaf that keeps enough entries: the entry goes, and so does a separator equal to it.\<close>

lemma remove_in_leaf_correct:
  assumes r: "repF t fs [Lf h ks ds]" and f: "focus_ok fs (Lf h ks ds) lo hi 0"
    and i: "i < length ks" and big: "fs \<noteq> [] \<Longrightarrow> 3 \<le> length ks"
  shows "\<exists>t'. remove_in_leaf h (path_idx fs @ [i]) t = Some t' \<and> replaced t fs (del_at i (zip ks ds)) t'"
proof -
  have seq: "leaf_seq lo hi ks ds" "length ks \<le> 4" using f by (simp_all add: focus_ok_def leaf_ok_seq)
  then have len: "length ds = length ks" by (simp add: leaf_seq_def)
  note seq' = leaf_seq_del [OF seq(1) i]
  let ?n = "\<lambda>a b. leaf_node (ptop fs) (del_at i ks) (del_at i ds) a b"
  let ?t1 = "t\<lparr>bt_heap := (bt_heap t)(h \<mapsto> ?n (last_of 0 (path_leaves_left fs)) (first_of (path_leaves_right fs) 0))\<rparr>"
  note hn = repF_leaf(1) [OF r]
  note root = leaf_is_root [OF r]
  note steps = remove_in_leaf_def modify_node_eq node_at_eq erase_leaf_entry_node
  have keep: "replaced t fs (del_at i (zip ks ds)) ?t1" if ps: "path_sep fs (Lf h (del_at i ks) (del_at i ds))"
  proof -
    have "replaced t fs (zip (del_at i ks) (del_at i ds)) ?t1"
      using seq' seq(2) i big ps by (intro leaf_changed [OF r f]) (auto simp: min_keys_def)
    then show ?thesis using len by (simp add: zip_del_at)
  qed
  show ?thesis
  proof (cases fs)
    case Nil
    then show ?thesis
      using keep hn i len root by (simp add: steps)
  next
    case (Cons g fs')
    obtain p L R where g: "g = (p, L, R)" by (cases g)
    have "length (del_at i ks) \<noteq> 0" using i big Cons by simp
    then have ne: "del_at i ks \<noteq> []" by fastforce
    show ?thesis
    proof (cases "i \<noteq> 0 \<or> L = []")
      case True
      have "path_sep fs (Lf h (del_at i ks) (del_at i ds))"
        using f True ne hd_del_at [of i ks] by (auto simp: Cons g focus_ok_def sep_left_def)
      then show ?thesis
        using keep hn i len root True by (auto simp: steps Cons g)
    next
      case False
      then obtain L' X s where L: "L = L' @ [(X, s)]" by (cases L rule: rev_cases) auto
      from f obtain lo0 where pair: "pair_ok L' X s (Lf h ks ds) R fs' lo0 hi 0"
        by (auto simp: Cons g L pair_right)
      then obtain q kq dq where X: "X = Lf q kq dq" by (rule pair_leaves) auto
      note pair = pair [unfolded X]
      note r' = r [unfolded Cons g L X]
      note pD = pair_seq [OF pair] and nd = pair_nodes [OF r']
      have lo: "lo = Some s" using f by (auto simp: Cons g L focus_ok_def)
      have lq: "length dq = length kq" "kq \<noteq> []" using pD(1,3) by (auto simp: leaf_seq_def)
      let ?t2 = "t\<lparr>bt_heap := (bt_heap t)(q \<mapsto> leaf_node p kq dq (before_pair L' fs') h,
        h \<mapsto> leaf_node p (del_at i ks) (del_at i ds) q (after_pair R fs'),
        p \<mapsto> pair_node L' q (hd (del_at i ks)) h R fs')\<rparr>"
      have "replaced t fs' (concat (map (entries \<circ> fst) L') @ zip (kq @ del_at i ks) (dq @ del_at i ds) @
          concat (map (entries \<circ> snd) R)) ?t2"
        using pD lq i len big seq(2) Cons
        by (intro pair_divided [OF r' pair leaf_seq_append [OF pD(1) seq' [unfolded lo] lq(2) ne]]) auto
      then have "replaced t fs (del_at i (zip ks ds)) ?t2"
        using lq len by (simp add: Cons g L X replaced_frame zip_del_at)
      moreover have "remove_in_leaf h (path_idx fs @ [i]) t = Some ?t2"
        using nd i len root False ne
        by (simp add: steps Cons g L exec_simps pair_node_key map_upd_triv)
      ultimately show ?thesis by blast
    qed
  qed
qed

lemma remove_found:
  assumes r: "repF t fs [Lf h ks ds]" and f: "focus_ok fs (Lf h ks ds) lo hi 0"
    and i: "i < length ks" and s: "search_hot t k = Some (x, h, path_idx fs @ [i])" "x \<noteq> -1"
  shows "\<exists>t'. BTree_remove k t = Some (1, t') \<and>
    replaced (t\<lparr>bt_size := bt_size t - 1\<rparr>) fs (del_at i (zip ks ds)) t'"
proof -
  have fin: "replaced (t\<lparr>bt_size := bt_size t - 1\<rparr>) fs es (t'\<lparr>bt_size := bt_size t' - 1\<rparr>)"
    if "replaced t fs es t'" for es t'
    using that by (auto simp: replaced_def btree_rep_def repF_def state_ok_def)
  have root: "h = bt_root t \<longleftrightarrow> fs = []" using leaf_is_root [OF r] by auto
  note unf = BTree_remove_def s(1) node_at_eq repF_leaf(1) [OF r] root
  show ?thesis
  proof (cases "fs \<noteq> [] \<and> length ks \<le> 2")
    case True
    then obtain p L R fs' where fs: "fs = (p, L, R) # fs'" by (cases fs) auto
    have "2 \<le> length ks" using f by (simp add: focus_ok_def fs)
    then have "min_leaf t fs h ks ds lo hi i" using True r f i by (simp add: min_leaf_def)
    from solve_underflow_leaf_correct [OF this [unfolded fs]] obtain t' where
      "solve_underflow_leaf h (path_idx fs @ [i]) t = Some t'" "replaced t fs (del_at i (zip ks ds)) t'"
      unfolding fs by blast
    with fin True s(2) show ?thesis by (auto simp: unf)
  next
    case False
    then have "fs \<noteq> [] \<Longrightarrow> 3 \<le> length ks" by simp
    from remove_in_leaf_correct [OF r f i this] obtain t' where
      "remove_in_leaf h (path_idx fs @ [i]) t = Some t'" "replaced t fs (del_at i (zip ks ds)) t'" by blast
    with fin False s(2) show ?thesis by (auto simp: unf)
  qed
qed

text \<open>\<^verbatim>\<open>BTree::remove\<close> returns, and it deletes the key from the map.\<close>

lemma BTree_remove_map:
  assumes rep: "btree_rep t T"
  shows "\<exists>t' T'. BTree_remove k t = Some (if k \<in> set (keys_of T) then 1 else 0, t') \<and>
    btree_rep t' T' \<and> map_of (entries T') = (map_of (entries T))(k := None) \<and>
    bt_size t' = (if k \<in> set (keys_of T) then bt_size t - 1 else bt_size t) \<and>
    length (entries T') = (if k \<in> set (keys_of T) then length (entries T) - 1 else length (entries T))"
proof -
  from search_hot_correct [OF rep] obtain fs p ks ds lo hi where
    T: "T = plug fs (Lf p ks ds)" and r: "repF t fs [Lf p ks ds]" and
    f: "focus_ok fs (Lf p ks ds) lo hi 0" and b: "lbound lo k" "ubound hi k" and
    nf: "k \<notin> set ks \<Longrightarrow> search_hot t k = Some (-1, p, path_idx fs @ [upper_bound ks k])" and
    fd: "k \<in> set ks \<Longrightarrow> search_hot t k =
       Some (scast (ds ! (upper_bound ks k - 1)), p, path_idx fs @ [upper_bound ks k - 1])" by metis
  let ?xs = "path_entries_left fs" and ?ys = "path_entries_right fs" and ?z = "zip ks ds"
  have e: "entries T = ?xs @ ?z @ ?ys" by (simp add: T entries_plug)
  have ok: "leaf_ok lo hi ks ds" using f by (simp add: focus_ok_def)
  then have len: "length ds = length ks" by (simp add: leaf_ok_def)
  note fe = focus_entries [OF f b]
  show ?thesis
  proof (cases "k \<in> set ks")
    case False
    have "k \<notin> fst ` set (entries T)" unfolding e using fe(3) [OF False] .
    then have "k \<notin> set (keys_of T)" "map_of (entries T) k = None" by (simp_all add: map_of_eq_None_iff)
    moreover from this(2) have "map_of (entries T) = (map_of (entries T))(k := None)" by (simp add: fun_upd_idem)
    ultimately show ?thesis using rep nf [OF False] by (auto simp: BTree_remove_def)
  next
    case True
    let ?i = "upper_bound ks k - 1"
    have srt: "sorted_wrt (<) ks" using ok by (simp add: leaf_ok_def)
    have i: "?i < length ks" "ks ! ?i = k"
      using upper_bound_found [OF srt True] upper_bound_le [of ks k] by (simp_all, linarith)
    have "ds ! ?i \<in> set ds" "-1 \<notin> set ds" using i(1) len ok by (simp_all add: leaf_ok_def)
    then have "ds ! ?i \<noteq> -1" by metis
    then have ne: "scast (ds ! ?i) \<noteq> (-1 :: 64 word)" by simp
    from remove_found [OF r f i(1) fd [OF True] ne] obtain t' T' where
      t': "BTree_remove k t = Some (1, t')" "btree_rep t' T'" "bt_size t' = bt_size t - 1"
      "entries T' = (?xs @ take ?i ?z) @ (drop (Suc ?i) ?z @ ?ys)"
      by (auto simp: replaced_def del_at_def)
    note s = fe(4) [OF i]
    then have eT: "entries T = (?xs @ take ?i ?z) @ (k, ds ! ?i) # (drop (Suc ?i) ?z @ ?ys)"
      by (metis append.assoc append_Cons e)
    have "k \<in> set (keys_of T)" by (simp add: eT)
    moreover have "map_of (entries T') = (map_of (entries T))(k := None)"
      unfolding t'(4) eT
      by (rule map_of_delete [OF conjunct1 [OF conjunct2 [OF s]] conjunct2 [OF conjunct2 [OF s]]])
    moreover have "length (entries T') = length (entries T) - 1" unfolding t'(4) eT by simp
    ultimately show ?thesis using t' by auto
  qed
qed

end
