(* ===== verification/BTree_Index.thy ===== *)
theory BTree_Index
  imports BTree_Insert BTree_Delete
begin

text \<open>
  The B+ tree as an index: construction, search and destruction of a represented tree, the
  interface of an index as a locale with its clients, and the interpretation of that
  interface by the code of \<^verbatim>\<open>btree.cpp\<close>.
\<close>

section \<open>Construction and search\<close>

text \<open>
  \<open>btree_abs t m\<close>: the state \<open>t\<close> is a well-formed B+ tree in the heap, it stores the map
  \<open>m\<close>, and \<^verbatim>\<open>_size\<close> is the number of keys.
\<close>

definition btree_abs :: "btree \<Rightarrow> (string \<rightharpoonup> 32 word) \<Rightarrow> bool" where
  "btree_abs t m \<longleftrightarrow> (\<exists>T. btree_rep t T \<and> map_of (entries T) = m \<and>
     bt_size t = word_of_nat (length (entries T)))"

lemma ctor_rep: "btree_rep BTree_ctor (Lf 1 [] [])"
proof -
  have "(mk_bnode nullptr True)\<lparr>child := [nullptr]\<rparr> = leaf_node 0 [] [] 0 0"
    by (simp add: mk_bnode_def leaf_node_def)
  then have "repF BTree_ctor [] [Lf 1 [] []]"
    by (simp add: repF_def BTree_ctor_def frame_nodes_def frame_leaves_def heap_is_def state_ok_def
        has_def core_def link_def leaf_node_def)
  moreover have "root_inv (Lf 1 [] [])" by (auto simp: root_inv_def leaf_ok_def)
  ultimately show ?thesis by (simp add: btree_rep_def)
qed

lemma ctor_abs: "btree_abs BTree_ctor Map.empty"
  using ctor_rep by (auto simp: btree_abs_def BTree_ctor_def intro!: exI [of _ "Lf 1 [] []"])

lemma BTree_search_map:
  assumes "btree_rep t T"
  shows "BTree_search t k = Some (case map_of (entries T) k of None \<Rightarrow> -1 | Some d \<Rightarrow> scast d)"
proof -
  from search_hot_correct [OF assms] obtain fs p ks ds lo hi where
    T: "T = plug fs (Lf p ks ds)" and f: "focus_ok fs (Lf p ks ds) lo hi 0" and
    b: "lbound lo k" "ubound hi k" and
    nf: "k \<notin> set ks \<Longrightarrow> search_hot t k = Some (-1, p, path_idx fs @ [upper_bound ks k])" and
    fd: "k \<in> set ks \<Longrightarrow> search_hot t k =
       Some (scast (ds ! (upper_bound ks k - 1)), p, path_idx fs @ [upper_bound ks k - 1])" by metis
  let ?xs = "path_entries_left fs" and ?ys = "path_entries_right fs" and ?z = "zip ks ds"
  have e: "entries T = ?xs @ ?z @ ?ys" by (simp add: T entries_plug)
  note fe = focus_entries [OF f b]
  show ?thesis
  proof (cases "k \<in> set ks")
    case False
    have "k \<notin> fst ` set (entries T)" unfolding e using fe(3) [OF False] .
    then have "map_of (entries T) k = None" by (simp add: map_of_eq_None_iff)
    then show ?thesis using nf [OF False] by (simp add: BTree_search_def)
  next
    case True
    let ?i = "upper_bound ks k - 1"
    have "sorted_wrt (<) ks" using f by (simp add: focus_ok_def leaf_ok_def)
    then have i: "?i < length ks" "ks ! ?i = k"
      using upper_bound_found [OF _ True] upper_bound_le [of ks k] by (simp_all, linarith)
    note s = fe(4) [OF i]
    then have eT: "entries T = (?xs @ take ?i ?z) @ (k, ds ! ?i) # (drop (Suc ?i) ?z @ ?ys)"
      by (metis append.assoc append_Cons e)
    have "map_of (entries T) k = Some (ds ! ?i)"
      unfolding eT by (simp only: map_of_insert [OF conjunct1 [OF conjunct2 [OF s]]] fun_upd_same)
    then show ?thesis using fd [OF True] by (simp add: BTree_search_def)
  qed
qed

section \<open>Destruction\<close>

definition del_set :: "(ptr \<rightharpoonup> bnode) \<Rightarrow> ptr set \<Rightarrow> (ptr \<rightharpoonup> bnode)" where
  "del_set h A = (\<lambda>p. if p \<in> A then None else h p)"

lemma del_set_simps [simp]:
  "del_set h {} = h" "del_set (del_set h A) B = del_set h (A \<union> B)"
  "(del_set h A)(p := None) = del_set h (insert p A)"
  by (auto simp: del_set_def fun_eq_iff)

lemma holds_del_set: "A \<inter> fst ` set N = {} \<Longrightarrow> holds (del_set h A) N \<longleftrightarrow> holds h N"
  unfolding holds_def has_def del_set_def by (rule ball_cong) force+

definition free_tree :: "btree \<Rightarrow> ptr \<Rightarrow> btree option" where
  "free_tree t p = do { n \<leftarrow> node_at t p;
     t1 \<leftarrow> (if is_leaf n then Some t else delete_children (child n) t); delete_node t1 p }"

lemma delete_children_free:
  "delete_children [] t = Some t"
  "delete_children (c # cs) t = do { t \<leftarrow> free_tree t c; delete_children cs t }"
  by (simp_all add: delete_children.simps [of "[]"] delete_children.simps [of "c # cs"] free_tree_def)

lemma delete_children_trees:
  assumes "\<And>T t p. T \<in> set ts \<Longrightarrow> holds (bt_heap t) (nodes_of p T) \<Longrightarrow> distinct (addrs T) \<Longrightarrow>
      free_tree t (addr T) = Some (t\<lparr>bt_heap := del_set (bt_heap t) (set (addrs T))\<rparr>)"
    and "holds (bt_heap t) (concat (map (nodes_of p) ts))" "distinct (concat (map addrs ts))"
  shows "delete_children (map addr ts) t =
    Some (t\<lparr>bt_heap := del_set (bt_heap t) (set (concat (map addrs ts)))\<rparr>)"
  using assms
proof (induction ts arbitrary: t)
  case Nil
  then show ?case by (simp add: delete_children_free)
next
  case (Cons T ts)
  let ?t1 = "t\<lparr>bt_heap := del_set (bt_heap t) (set (addrs T))\<rparr>"
  have "free_tree t (addr T) = Some ?t1" using Cons.prems(1) [of T t p] Cons.prems(2,3) by simp
  moreover have "fst ` set (concat (map (nodes_of p) ts)) = set (concat (map addrs ts))"
    using fst_concat_nodes [of p id ts] by (metis comp_id set_map)
  then have "holds (bt_heap ?t1) (concat (map (nodes_of p) ts))"
    using Cons.prems by (simp add: holds_del_set)
  then have "delete_children (map addr ts) ?t1 =
      Some (?t1\<lparr>bt_heap := del_set (bt_heap ?t1) (set (concat (map addrs ts)))\<rparr>)"
    using Cons.prems by (intro Cons.IH) simp_all
  ultimately show ?case by (simp add: delete_children_free)
qed

lemma free_tree_correct:
  "holds (bt_heap t) (nodes_of p T) \<Longrightarrow> distinct (addrs T) \<Longrightarrow>
   free_tree t (addr T) = Some (t\<lparr>bt_heap := del_set (bt_heap t) (set (addrs T))\<rparr>)"
proof (induction T arbitrary: t p)
  case (Lf q ks ds)
  then obtain n where "bt_heap t q = Some n" "is_leaf n" by (auto simp: has_leaf)
  then show ?case by (auto simp: free_tree_def node_at_eq delete_node_def del_set_def fun_eq_iff)
next
  case (Nd q ks ts)
  then have q: "bt_heap t q = Some (inner_node p ks (map addr ts))" by (simp add: has_inner)
  have d: "q \<notin> set (concat (map addrs ts))" "distinct (concat (map addrs ts))" using Nd.prems(2) by simp_all
  have "delete_children (map addr ts) t =
      Some (t\<lparr>bt_heap := del_set (bt_heap t) (set (concat (map addrs ts)))\<rparr>)"
    using Nd.prems d by (intro delete_children_trees [where p = q, OF Nd.IH]) simp_all
  moreover have "del_set (bt_heap t) (set (concat (map addrs ts))) q = Some (inner_node p ks (map addr ts))"
    using q d(1) by (simp add: del_set_def)
  ultimately show ?case using q by (simp add: free_tree_def node_at_eq delete_node_def)
qed

lemma BTree_dtor_free: "BTree_dtor t = free_tree t (bt_root t)"
  by (simp add: BTree_dtor_def free_tree_def)

lemma dtor_frees:
  assumes "btree_rep t T"
  shows "\<exists>t'. BTree_dtor t = Some t' \<and> bt_heap t' = Map.empty"
proof -
  from assms have h: "heap_is (bt_heap t) (nodes_of 0 T) (leaves T)" and root: "bt_root t = addr T"
    by (simp_all add: btree_rep_def repF_def frame_nodes_def frame_leaves_def)
  have "free_tree t (addr T) = Some (t\<lparr>bt_heap := del_set (bt_heap t) (set (addrs T))\<rparr>)"
    using heap_isD(1,4) [OF h] by (intro free_tree_correct) simp_all
  moreover have "del_set (bt_heap t) (set (addrs T)) = Map.empty"
    using heap_isD(2) [OF h] by (auto simp: del_set_def fun_eq_iff)
  ultimately show ?thesis by (simp add: BTree_dtor_free root)
qed

section \<open>The interface of an index\<close>

text \<open>
  What the engine relies on: an index stores a map from keys to \<^verbatim>\<open>int\<close> data.  Keys are NUL
  free and the datum is not the \<open>-1\<close> that means "not found".  Every operation returns.
\<close>

locale map_index =
  fixes create :: 's
    and look :: "'s \<Rightarrow> string \<Rightarrow> 64 word option"
    and ins :: "string \<Rightarrow> 64 word \<Rightarrow> 's \<Rightarrow> (int \<times> 's) option"
    and del :: "string \<Rightarrow> 's \<Rightarrow> (int \<times> 's) option"
    and holds_map :: "'s \<Rightarrow> (string \<rightharpoonup> 32 word) \<Rightarrow> bool"
  assumes create_empty: "holds_map create Map.empty"
    and look_map: "holds_map s m \<Longrightarrow> look s k = Some (case m k of None \<Rightarrow> -1 | Some d \<Rightarrow> scast d)"
    and ins_map: "holds_map s m \<Longrightarrow> nul_free k \<Longrightarrow> ucast d \<noteq> (-1 :: 32 word) \<Longrightarrow>
      \<exists>s'. ins k d s = Some (if m k = None then 1 else 0, s') \<and> holds_map s' (m(k \<mapsto> ucast d))"
    and del_map: "holds_map s m \<Longrightarrow>
      \<exists>s'. del k s = Some (if m k = None then 0 else 1, s') \<and> holds_map s' (m(k := None))"

text \<open>A client: a sequence of calls, and what it computes on the map itself.\<close>

datatype index_call = Find string | Ins string "64 word" | Del string
datatype index_result = Found "64 word" | Ret int

fun run_calls :: "('s \<Rightarrow> string \<Rightarrow> 64 word option) \<Rightarrow> (string \<Rightarrow> 64 word \<Rightarrow> 's \<Rightarrow> (int \<times> 's) option) \<Rightarrow>
    (string \<Rightarrow> 's \<Rightarrow> (int \<times> 's) option) \<Rightarrow> index_call list \<Rightarrow> 's \<Rightarrow> (index_result list \<times> 's) option" where
  "run_calls look ins del [] s = Some ([], s)"
| "run_calls look ins del (c # cs) s = do {
     (r, s) \<leftarrow> (case c of Find k \<Rightarrow> do { d \<leftarrow> look s k; Some (Found d, s) }
       | Ins k d \<Rightarrow> do { (r, s) \<leftarrow> ins k d s; Some (Ret r, s) }
       | Del k \<Rightarrow> do { (r, s) \<leftarrow> del k s; Some (Ret r, s) });
     (rs, s) \<leftarrow> run_calls look ins del cs s;
     Some (r # rs, s) }"

fun map_calls :: "index_call list \<Rightarrow> (string \<rightharpoonup> 32 word) \<Rightarrow> index_result list \<times> (string \<rightharpoonup> 32 word)" where
  "map_calls [] m = ([], m)"
| "map_calls (c # cs) m = (let (r, m) = (case c of
       Find k \<Rightarrow> (Found (case m k of None \<Rightarrow> -1 | Some d \<Rightarrow> scast d), m)
     | Ins k d \<Rightarrow> (Ret (if m k = None then 1 else 0), m(k \<mapsto> ucast d))
     | Del k \<Rightarrow> (Ret (if m k = None then 0 else 1), m(k := None)));
     (rs, m) = map_calls cs m in (r # rs, m))"

definition call_ok :: "index_call \<Rightarrow> bool" where
  "call_ok c = (case c of Ins k d \<Rightarrow> nul_free k \<and> ucast d \<noteq> (-1 :: 32 word) | _ \<Rightarrow> True)"

lemma call_ok_simps [simp]:
  "call_ok (Find k)" "call_ok (Del k)"
  "call_ok (Ins k d) \<longleftrightarrow> nul_free k \<and> ucast d \<noteq> (-1 :: 32 word)"
  by (simp_all add: call_ok_def)

context map_index
begin

lemma run_calls_map:
  "holds_map s m \<Longrightarrow> list_all call_ok cs \<Longrightarrow>
   \<exists>s'. run_calls look ins del cs s = Some (fst (map_calls cs m), s') \<and> holds_map s' (snd (map_calls cs m))"
proof (induction cs arbitrary: s m)
  case (Cons c cs)
  show ?case
  proof (cases c)
    case (Find k)
    from Cons.IH [OF Cons.prems(1)] Cons.prems(2) look_map [OF Cons.prems(1), of k] Find show ?thesis
      by (auto simp: split_beta)
  next
    case (Ins k d)
    with Cons.prems ins_map [of s m k d] obtain s1 where
      s1: "ins k d s = Some (if m k = None then 1 else 0, s1)" "holds_map s1 (m(k \<mapsto> ucast d))" by auto
    from Cons.IH [OF s1(2)] Cons.prems(2) s1(1) Ins show ?thesis
      by (auto simp: split_beta simp del: fun_upd_apply)
  next
    case (Del k)
    with del_map [OF Cons.prems(1), of k] obtain s1 where
      s1: "del k s = Some (if m k = None then 0 else 1, s1)" "holds_map s1 (m(k := None))" by auto
    from Cons.IH [OF s1(2)] Cons.prems(2) s1(1) Del show ?thesis
      by (auto simp: split_beta simp del: fun_upd_apply)
  qed
qed simp

lemma run_from_empty:
  "list_all call_ok cs \<Longrightarrow>
   \<exists>s'. run_calls look ins del cs create = Some (fst (map_calls cs Map.empty), s') \<and>
     holds_map s' (snd (map_calls cs Map.empty))"
  by (rule run_calls_map [OF create_empty])

text \<open>What is inserted is found again, if it is an \<^verbatim>\<open>int\<close> that is not negative.\<close>

lemma look_after_ins:
  assumes "holds_map s m" "nul_free k" "d < 2 ^ 31"
  shows "\<exists>r s'. ins k d s = Some (r, s') \<and> look s' k = Some d"
proof -
  from ins_map [OF assms(1,2) small_not_minus1 [OF assms(3)]] obtain s' where
    s': "ins k d s = Some (if m k = None then 1 else 0, s')" "holds_map s' (m(k \<mapsto> ucast d))" by blast
  with look_map [OF s'(2), of k] scast_ucast_small [OF assms(3)] show ?thesis by auto
qed

text \<open>Deleting and inserting keys leaves the other keys alone.\<close>

lemma look_other:
  assumes "holds_map s m" "nul_free k" "ucast d \<noteq> (-1 :: 32 word)" "k' \<noteq> k"
  shows "\<exists>r s'. ins k d s = Some (r, s') \<and> look s' k' = look s k'"
  using ins_map [OF assms(1-3)] look_map [of _ _ k'] assms(1,4) by fastforce

end

section \<open>The B+ tree is an index\<close>

lemma BTree_insert_abs:
  assumes "btree_abs t m" "nul_free k" "ucast d \<noteq> (-1 :: 32 word)"
  shows "\<exists>t'. BTree_insert k d t = Some (if m k = None then 1 else 0, t') \<and> btree_abs t' (m(k \<mapsto> ucast d))"
proof -
  from assms(1) obtain T where T: "btree_rep t T" "map_of (entries T) = m"
    "bt_size t = word_of_nat (length (entries T))" by (auto simp: btree_abs_def)
  have k: "m k = None \<longleftrightarrow> k \<notin> set (keys_of T)" by (simp add: T(2) [symmetric] map_of_eq_None_iff)
  from BTree_insert_map [OF T(1) assms(2,3)] obtain t' T' where
    t': "BTree_insert k d t = Some (if k \<in> set (keys_of T) then 0 else 1, t')" "btree_rep t' T'"
    "map_of (entries T') = (map_of (entries T))(k \<mapsto> ucast d)"
    "bt_size t' = (if k \<in> set (keys_of T) then bt_size t else bt_size t + 1)"
    "length (entries T') = (if k \<in> set (keys_of T) then length (entries T) else Suc (length (entries T)))"
    by blast
  have "bt_size t' = word_of_nat (length (entries T'))" unfolding t'(4,5) T(3) by (simp add: ac_simps)
  with t'(2,3) T(2) have "btree_abs t' (m(k \<mapsto> ucast d))" unfolding btree_abs_def by blast
  with t'(1) k show ?thesis by auto
qed

lemma BTree_remove_abs:
  assumes "btree_abs t m"
  shows "\<exists>t'. BTree_remove k t = Some (if m k = None then 0 else 1, t') \<and> btree_abs t' (m(k := None))"
proof -
  from assms(1) obtain T where T: "btree_rep t T" "map_of (entries T) = m"
    "bt_size t = word_of_nat (length (entries T))" by (auto simp: btree_abs_def)
  have k: "m k = None \<longleftrightarrow> k \<notin> set (keys_of T)" by (simp add: T(2) [symmetric] map_of_eq_None_iff)
  from BTree_remove_map [OF T(1), of k] obtain t' T' where
    t': "BTree_remove k t = Some (if k \<in> set (keys_of T) then 1 else 0, t')" "btree_rep t' T'"
    "map_of (entries T') = (map_of (entries T))(k := None)"
    "bt_size t' = (if k \<in> set (keys_of T) then bt_size t - 1 else bt_size t)"
    "length (entries T') = (if k \<in> set (keys_of T) then length (entries T) - 1 else length (entries T))"
    by blast
  have "k \<in> set (keys_of T) \<Longrightarrow> 1 \<le> length (entries T)" by (cases "entries T") auto
  then have "bt_size t' = word_of_nat (length (entries T'))" unfolding t'(4,5) T(3)
    by (simp add: of_nat_diff)
  with t'(2,3) T(2) have "btree_abs t' (m(k := None))" unfolding btree_abs_def by blast
  with t'(1) k show ?thesis by auto
qed

interpretation bti: map_index BTree_ctor BTree_search BTree_insert BTree_remove btree_abs
proof
  show "btree_abs BTree_ctor Map.empty" by (rule ctor_abs)
  show "BTree_search s k = Some (case m k of None \<Rightarrow> -1 | Some d \<Rightarrow> scast d)" if "btree_abs s m" for s m k
    using that BTree_search_map by (auto simp: btree_abs_def)
  show "\<exists>s'. BTree_insert k d s = Some (if m k = None then 1 else 0, s') \<and> btree_abs s' (m(k \<mapsto> ucast d))"
    if "btree_abs s m" "nul_free k" "ucast d \<noteq> (-1 :: 32 word)" for s m k d
    using that by (rule BTree_insert_abs)
  show "\<exists>s'. BTree_remove k s = Some (if m k = None then 0 else 1, s') \<and> btree_abs s' (m(k := None))"
    if "btree_abs s m" for s m k
    using that by (rule BTree_remove_abs)
qed

end
