(* ===== verification/BTree_Props.thy ===== *)
theory BTree_Props
  imports BTree_Index
begin

text \<open>
  The properties of the B+ tree index, stated on the code's operations: what each does to
  the map, that no reachable state leaves the representation, the depth of the descent, that
  nothing leaks, and where the code's C-string copies and \<^verbatim>\<open>int\<close> data lose information.
\<close>

section \<open>Height and number of entries\<close>

lemma height_entries:
  "tinv m lo hi n T \<Longrightarrow> 2 \<le> m \<Longrightarrow> 2 * 3 ^ n \<le> length (entries T)"
  "tinvs lo hi n ks ts \<Longrightarrow> Suc (length ks) * (2 * 3 ^ n) \<le> length (concat (map entries ts))"
proof (induction m lo hi n T and lo hi n ks ts rule: tinv_tinvs.induct)
  case (1 m lo hi n p ks ds)
  then show ?case by (auto simp: leaf_ok_def)
next
  case (2 m lo hi n p ks ts)
  then have i: "Suc (length ks) * (2 * 3 ^ (n - 1)) \<le> length (entries (Nd p ks ts))"
    and "0 < n" "3 \<le> Suc (length ks)" by auto
  then have "3 * (2 * 3 ^ (n - 1)) \<le> Suc (length ks) * (2 * 3 ^ (n - 1))" by (intro mult_le_mono1)
  moreover have "3 * (2 * 3 ^ (n - 1)) = 2 * (3::nat) ^ n" using \<open>0 < n\<close> by (cases n) simp_all
  ultimately show ?case using i by linarith
next
  case (4 lo hi n t ts)
  then show ?case by simp
next
  case (6 lo hi n k ks t ts)
  then show ?case by simp
qed simp_all

lemma focus_height: "focus_ok fs T lo hi n \<Longrightarrow> tinv 0 None None (n + length fs) (plug fs T)"
proof (induction fs arbitrary: T lo hi n)
  case Nil
  then show ?case by (auto simp: focus_ok_def)
next
  case (Cons g fs)
  obtain p L R where g: "g = (p, L, R)" by (cases g)
  with Cons.prems obtain lo' hi' where
    "focus_ok fs (Nd p (fkeys L R) (ftrees L [T] R)) lo' hi' (Suc n)" by (auto simp: focus_ok_frame)
  from Cons.IH [OF this] show ?case by (simp add: g)
qed

lemma card_dom_map_of: "distinct (map fst xs) \<Longrightarrow> card (dom (map_of xs)) = length xs"
  by (metis distinct_card dom_map_of_conv_image_fst length_map set_map)

lemma search_depth_entries:
  assumes rep: "btree_rep t T" and s: "search_hot t k = Some (r, h, idx)" and l: "2 \<le> length idx"
  shows "4 * 3 ^ (length idx - 2) \<le> length (entries T)"
proof -
  from search_hot_correct [OF rep] obtain fs p ks ds lo hi where
    T: "T = plug fs (Lf p ks ds)" and f: "focus_ok fs (Lf p ks ds) lo hi 0" and
    nf: "k \<notin> set ks \<Longrightarrow> search_hot t k = Some (-1, p, path_idx fs @ [upper_bound ks k])" and
    fd: "k \<in> set ks \<Longrightarrow> search_hot t k =
       Some (scast (ds ! (upper_bound ks k - 1)), p, path_idx fs @ [upper_bound ks k - 1])" by metis
  have "length idx = Suc (length fs)"
    using s nf fd by (cases "k \<in> set ks") (auto simp: path_idx_def)
  then obtain n where n: "length fs = Suc n" "length idx - 2 = n" using l by (cases "length fs") auto
  then have "tinv 0 None None (Suc n) T" using focus_height [OF f] by (simp add: T)
  then obtain q kq tq where Tq: "T = Nd q kq tq" "1 \<le> length kq" "tinvs None None n kq tq"
    by (cases T) auto
  have "Suc (length kq) * (2 * 3 ^ n) \<le> length (entries T)"
    using height_entries(2) [OF Tq(3)] by (simp add: Tq(1))
  moreover have "2 * (2 * 3 ^ n) \<le> Suc (length kq) * (2 * (3::nat) ^ n)"
    using Tq(2) by (intro mult_le_mono1) simp
  ultimately have "2 * (2 * 3 ^ n) \<le> length (entries T)" by (rule order_trans [rotated])
  then show ?thesis unfolding n(2) by simp
qed

section \<open>Reachable states\<close>

text \<open>The states that a client that respects the preconditions can bring the tree into.\<close>

inductive bt_reach :: "btree \<Rightarrow> bool" where
  created: "bt_reach BTree_ctor"
| inserted: "bt_reach t \<Longrightarrow> nul_free k \<Longrightarrow> ucast d \<noteq> (-1 :: 32 word) \<Longrightarrow>
    BTree_insert k d t = Some (r, t') \<Longrightarrow> bt_reach t'"
| removed: "bt_reach t \<Longrightarrow> BTree_remove k t = Some (r, t') \<Longrightarrow> bt_reach t'"

inductive_cases bt_reachE: "bt_reach t"

lemma bt_reach_abs: "bt_reach t \<Longrightarrow> \<exists>m. btree_abs t m"
proof (induction rule: bt_reach.induct)
  case created
  then show ?case using ctor_abs by blast
next
  case (inserted t k d r t')
  then obtain m where m: "btree_abs t m" by blast
  from bti.ins_map [OF m inserted.hyps(2,3)] inserted.hyps(4) show ?case by auto
next
  case (removed t k r t')
  then obtain m where m: "btree_abs t m" by blast
  from bti.del_map [OF m, of k] removed.hyps(2) show ?case by auto
qed

section \<open>Properties\<close>

text \<open>
  C5. \<^verbatim>\<open>BTree::insert\<close>, all of its branches (room in the leaf, rotation to the left or right
  sibling, split of the leaf and of the inner nodes above, a new root, change of a present
  key).  For a key without NUL bytes and a datum that is not -1 as a 32-bit number it returns on a
  well-formed tree, without an invalid access; the result is 1 for
  a new key and 0 for a present one; the new state is a well-formed tree that stores the map
  updated at the key, and \<^verbatim>\<open>_size\<close> is its number of keys.
\<close>
theorem tree_insert_correct:
  assumes "btree_abs t m" "nul_free k" "ucast d \<noteq> (-1 :: 32 word)"
  shows "\<exists>t'. BTree_insert k d t = Some (if m k = None then 1 else 0, t') \<and>
    btree_abs t' (m(k \<mapsto> ucast d))"
  by (rule bti.ins_map [OF assms])

theorem tree_insert_correct_witness:
  "\<exists>t'. BTree_insert ''a'' 7 BTree_ctor = Some (1, t') \<and> btree_abs t' [''a'' \<mapsto> 7]"
  using tree_insert_correct [OF ctor_abs, of "''a''" 7] by (simp add: nul_free_def)

text \<open>
  C6. \<^verbatim>\<open>BTree::remove\<close>, all of its branches (leaf with entries to spare, an entry taken over
  from the left or right sibling, merges, rebalancing and merging of the inner nodes above,
  loss of the root): on a well-formed tree it returns, without an invalid access or a use of
  freed memory; the result is 1 for a present key and 0 otherwise; the new state is a
  well-formed tree that stores the map without the key.
\<close>
theorem tree_remove_correct:
  assumes "btree_abs t m"
  shows "\<exists>t'. BTree_remove k t = Some (if m k = None then 0 else 1, t') \<and>
    btree_abs t' (m(k := None))"
  by (rule bti.del_map [OF assms])

theorem tree_remove_correct_witness:
  "\<exists>t'. BTree_remove ''a'' BTree_ctor = Some (0, t') \<and> btree_abs t' Map.empty"
  using tree_remove_correct [OF ctor_abs, of "''a''"] by simp

text \<open>
  C16. \<^verbatim>\<open>BTree::search\<close> returns the datum stored for the key, sign-extended to \<^verbatim>\<open>size_t\<close>, and
  \<^verbatim>\<open>(size_t)-1\<close> exactly if the key is not stored.
\<close>
theorem tree_search_correct:
  assumes "btree_abs t m"
  shows "BTree_search t k = Some (case m k of None \<Rightarrow> -1 | Some d \<Rightarrow> scast d)"
  by (rule bti.look_map [OF assms])

theorem tree_search_correct_witness: "BTree_search BTree_ctor ''a'' = Some (-1)"
  using tree_search_correct [OF ctor_abs, of "''a''"] by simp

text \<open>
  C3. From the constructor on, any sequence of searches, insertions and removals in which every
  inserted key is free of NUL bytes and no inserted datum is -1 as a 32-bit number returns what the same
  sequence returns on a map.  (\<open>tree_nul_keys_lost\<close> and \<open>tree_large_data_change\<close> show that neither condition
  can be dropped.)
\<close>
theorem tree_calls_refine_map:
  assumes "list_all call_ok cs"
  shows "\<exists>t. run_calls BTree_search BTree_insert BTree_remove cs BTree_ctor =
      Some (fst (map_calls cs Map.empty), t) \<and> btree_abs t (snd (map_calls cs Map.empty))"
  by (rule bti.run_from_empty [OF assms])

theorem tree_calls_refine_map_witness:
  "\<exists>t. run_calls BTree_search BTree_insert BTree_remove
      [Ins ''b'' 1, Ins ''a'' 2, Del ''b'', Find ''a'', Find ''b''] BTree_ctor =
    Some ([Ret 1, Ret 1, Ret 1, Found 2, Found (-1)], t)"
proof -
  have "list_all call_ok [Ins ''b'' 1, Ins ''a'' 2, Del ''b'', Find ''a'', Find ''b'']"
    by (simp add: nul_free_def)
  from tree_calls_refine_map [OF this] show ?thesis by auto
qed

text \<open>
  C11. In every state a client reaches by inserting keys without NUL bytes with data that are not -1 as
  32-bit numbers, and by removing any keys, the heap is exactly one B+ tree: all nodes are
  reachable from the root and carry the right parent, all leaves are at the same depth and
  chained in key order, every node but the root has two to four keys, keys are sorted and
  separated.
\<close>
theorem tree_reachable_well_formed:
  assumes "bt_reach t"
  shows "\<exists>T. btree_rep t T \<and> sorted_wrt (<) (keys_of T)"
  using bt_reach_abs [OF assms] by (auto simp: btree_abs_def btree_rep_def intro: root_sorted)

theorem tree_reachable_well_formed_witness: "\<exists>T. btree_rep BTree_ctor T \<and> sorted_wrt (<) (keys_of T)"
  using tree_reachable_well_formed [OF bt_reach.created] .

text \<open>
  C32. The descent is logarithmic: a search that passes through two or more levels does so on a
  tree with at least \<open>4 * 3 ^ (levels - 2)\<close> keys.
\<close>
theorem tree_search_depth:
  assumes "btree_abs t m" "search_hot t k = Some (r, hot, hot_idx)" "2 \<le> length hot_idx"
  shows "4 * 3 ^ (length hot_idx - 2) \<le> card (dom m)"
proof -
  from assms(1) obtain T where T: "btree_rep t T" "map_of (entries T) = m"
    by (auto simp: btree_abs_def)
  have "card (dom m) = length (entries T)"
    unfolding T(2) [symmetric] using T(1) by (intro card_dom_map_of) (simp add: btree_rep_def root_distinct)
  then show ?thesis using search_depth_entries [OF T(1) assms(2,3)] by simp
qed

theorem tree_search_depth_witness: "4 * 3 ^ 0 \<le> card (dom (snd (map_calls
    [Ins ''a'' 1, Ins ''b'' 2, Ins ''c'' 3, Ins ''d'' 4, Ins ''e'' 5] Map.empty)))"
proof -
  let ?cs = "[Ins ''a'' 1, Ins ''b'' 2, Ins ''c'' 3, Ins ''d'' 4, Ins ''e'' 5]"
  have "list_all call_ok ?cs" by (simp add: nul_free_def)
  from bti.run_from_empty [OF this] obtain t where
    t: "run_calls BTree_search BTree_insert BTree_remove ?cs BTree_ctor =
      Some (fst (map_calls ?cs Map.empty), t)" "btree_abs t (snd (map_calls ?cs Map.empty))" by blast
  have "(do { (rs, t) \<leftarrow> run_calls BTree_search BTree_insert BTree_remove ?cs BTree_ctor;
      (r, h, i) \<leftarrow> search_hot t ''e''; Some i }) = Some [1, 2]" by code_simp
  then obtain r h where "search_hot t ''e'' = Some (r, h, [1, 2])"
    unfolding t(1) by (auto simp: bind_eq_Some_conv)
  from tree_search_depth [OF t(2) this] show ?thesis by (simp del: map_calls.simps)
qed

text \<open>
  C30. The destructor visits every node once and frees it: it returns, and nothing is left in
  the heap.
\<close>
theorem tree_dtor_frees_all:
  assumes "btree_abs t m"
  shows "\<exists>t'. BTree_dtor t = Some t' \<and> bt_heap t' = Map.empty"
  using assms dtor_frees by (auto simp: btree_abs_def)

theorem tree_dtor_frees_all_witness: "\<exists>t'. BTree_dtor BTree_ctor = Some t' \<and> bt_heap t' = Map.empty"
  by (rule tree_dtor_frees_all [OF ctor_abs])

text \<open>
  Data are kept as \<^verbatim>\<open>int\<close>: a \<^verbatim>\<open>size_t\<close> below \<open>2 ^ 31\<close> is found again as it was
  inserted.
\<close>
theorem tree_finds_small_data:
  assumes "btree_abs t m" "nul_free k" "d < 2 ^ 31"
  shows "\<exists>r t'. BTree_insert k d t = Some (r, t') \<and> BTree_search t' k = Some d"
  by (rule bti.look_after_ins [OF assms])

theorem tree_finds_small_data_witness:
  "\<exists>r t'. BTree_insert ''a'' 2147483647 BTree_ctor = Some (r, t') \<and> BTree_search t' ''a'' = Some 2147483647"
  using tree_finds_small_data [OF ctor_abs, of "''a''" 2147483647] by (simp add: nul_free_def)

text \<open>
  From \<open>2 ^ 31\<close> on the datum comes back sign-extended, and the datum \<open>2 ^ 32 - 1\<close> as "not
  found": offsets in a log of 2 GB or more are lost.
\<close>
theorem tree_large_data_change:
  "map_option fst (run_calls BTree_search BTree_insert BTree_remove
      [Ins ''a'' 2147483648, Find ''a'', Ins ''b'' 4294967295, Find ''b''] BTree_ctor) =
    Some [Ret 1, Found 18446744071562067968, Ret 1, Found (-1)]"
  by code_simp

text \<open>
  A key with a NUL byte is not kept: when the fifth key splits the leaf, the keys that
  move to the right half are copied through \<^verbatim>\<open>c_str()\<close>, end at the NUL byte, and are not
  found any more.
\<close>
theorem tree_nul_keys_lost:
  "map_option fst (run_calls BTree_search BTree_insert BTree_remove
      [Ins (CHR 0x01 # [CHR 0x00]) 1, Ins (CHR 0x02 # [CHR 0x00]) 2, Ins (CHR 0x03 # [CHR 0x00]) 3,
       Ins (CHR 0x04 # [CHR 0x00]) 4, Ins (CHR 0x05 # [CHR 0x00]) 5, Find (CHR 0x05 # [CHR 0x00])]
      BTree_ctor) = Some [Ret 1, Ret 1, Ret 1, Ret 1, Ret 1, Found (-1)]"
  by code_simp

end
