(* ===== verification/Stdio.thy ===== *)
theory Stdio
  imports KVS_Prelude
begin

text \<open>
  What the engine uses of \<^verbatim>\<open><stdio.h>\<close> and \<^verbatim>\<open><unistd.h>\<close>: files by name, an open \<^verbatim>\<open>FILE\<close>
  for reading with its position, an open \<^verbatim>\<open>FILE\<close> for appending with its buffer, and the calls
  \<^verbatim>\<open>fopen\<close>, \<^verbatim>\<open>fread\<close>, \<^verbatim>\<open>fwrite\<close>, \<^verbatim>\<open>fseek\<close>, \<^verbatim>\<open>fclose\<close>, \<^verbatim>\<open>fsync\<close>, \<^verbatim>\<open>access\<close>, \<^verbatim>\<open>remove\<close> and
  \<^verbatim>\<open>rename\<close> with their failures: a file that is missing or may not be opened for writing, a disk
  that is full, a device that does not sync, a machine that loses power.
\<close>

section \<open>Files\<close>

text \<open>
  The contents of the files and the free space are what the running programs see.  What a loss of
  power leaves of them is decided by \<open>fs_synced\<close>, the length of the part of a file that is on the
  disk, and by \<open>fs_named\<close>: whether the directory on the disk agrees about a name.  \<^verbatim>\<open>fsync\<close> of a file
  does the first and not the second, which needs an \<^verbatim>\<open>fsync\<close> of the directory.  \<open>fs_lost\<close> is only
  read by the specification: some stream was closed with bytes that the disk did not take.
\<close>

record fsys =
  fs_files :: "string \<rightharpoonup> string"
  fs_synced :: "string \<Rightarrow> nat"
  fs_named :: "string \<Rightarrow> bool"
  fs_free :: nat
  fs_writable :: bool
  fs_sync_ok :: bool
  fs_lost :: bool

record cfile =
  fp_name :: string
  fp_pos :: nat

record wfile =
  wf_name :: string
  wf_buf :: string

definition content :: "fsys \<Rightarrow> string \<Rightarrow> string" where
  "content fs name = (case fs_files fs name of None \<Rightarrow> [] | Some s \<Rightarrow> s)"

definition fs_access :: "string \<Rightarrow> fsys \<Rightarrow> bool" where
  "fs_access name fs = (fs_files fs name \<noteq> None)"

text \<open>\<^verbatim>\<open>fopen(name, "r")\<close>; \<open>None\<close> is the null pointer.\<close>

definition fopen_r :: "string \<Rightarrow> fsys \<Rightarrow> cfile option" where
  "fopen_r name fs = (if fs_access name fs then Some \<lparr>fp_name = name, fp_pos = 0\<rparr> else None)"

text \<open>
  \<^verbatim>\<open>fopen(name, "a+")\<close> and \<^verbatim>\<open>fopen(name, "a")\<close>: a missing file is created, with a directory entry
  that is not yet on the disk.
\<close>

definition opened :: "string \<Rightarrow> fsys \<Rightarrow> fsys" where
  "opened name fs = (if fs_access name fs then fs
     else fs\<lparr>fs_files := (fs_files fs)(name \<mapsto> []), fs_synced := (fs_synced fs)(name := 0),
       fs_named := (fs_named fs)(name := False)\<rparr>)"

definition fopen_a :: "string \<Rightarrow> fsys \<Rightarrow> (wfile \<times> fsys) option" where
  "fopen_a name fs = (if fs_writable fs then Some (\<lparr>wf_name = name, wf_buf = []\<rparr>, opened name fs) else None)"

definition fread :: "nat \<Rightarrow> cfile \<Rightarrow> fsys \<Rightarrow> string \<times> cfile" where
  "fread n fp fs = (let s = take n (drop (fp_pos fp) (content fs (fp_name fp)))
     in (s, fp\<lparr>fp_pos := fp_pos fp + length s\<rparr>))"

text \<open>
  The system call that appends to a file: as many bytes as the disk takes.
\<close>

definition grown :: "string \<Rightarrow> string \<Rightarrow> fsys \<Rightarrow> fsys" where
  "grown name s fs = fs\<lparr>fs_files := (fs_files fs)(name \<mapsto> content fs name @ s), fs_free := fs_free fs - length s\<rparr>"

definition fs_write :: "string \<Rightarrow> string \<Rightarrow> fsys \<Rightarrow> nat \<times> fsys" where
  "fs_write name s fs = (let n = min (length s) (fs_free fs) in (n, grown name (take n s) fs))"

text \<open>
  A stream is fully buffered: \<^verbatim>\<open>fwrite\<close> hands whole blocks to the system and keeps the rest, less
  than one block, in the buffer.  It returns the number of bytes it took, a short count when
  the disk did not take a block.  \<^verbatim>\<open>fclose\<close> writes what is left in the buffer and returns -1
  (\<^verbatim>\<open>EOF\<close>) when that fails; those bytes are lost.
\<close>

definition bufsiz :: nat where
  "bufsiz = 4096"

definition fwrite :: "string \<Rightarrow> wfile \<Rightarrow> fsys \<Rightarrow> nat \<times> wfile \<times> fsys" where
  "fwrite s fp fs = (
     let p = wf_buf fp @ s;
         b = length p - length p mod bufsiz;
         (n, fs) = fs_write (wf_name fp) (take b p) fs
     in if n = b then (length s, fp\<lparr>wf_buf := drop b p\<rparr>, fs)
        else (n - length (wf_buf fp), fp\<lparr>wf_buf := drop n (wf_buf fp)\<rparr>, fs))"

definition fclose :: "wfile \<Rightarrow> fsys \<Rightarrow> int \<times> fsys" where
  "fclose fp fs = (let (n, fs) = fs_write (wf_name fp) (wf_buf fp) fs in
     if n = length (wf_buf fp) then (0, fs) else (-1, fs\<lparr>fs_lost := True\<rparr>))"

text \<open>\<^verbatim>\<open>fseek(fp, off, SEEK_SET)\<close>: a negative offset is an error and leaves the position.\<close>

definition fseek :: "int \<Rightarrow> cfile \<Rightarrow> cfile" where
  "fseek off fp = (if off < 0 then fp else fp\<lparr>fp_pos := nat off\<rparr>)"

text \<open>\<^verbatim>\<open>fsync(fileno(fp))\<close>: the contents of the file, without what is still in the buffer.\<close>

definition fs_fsync :: "wfile \<Rightarrow> fsys \<Rightarrow> int \<times> fsys" where
  "fs_fsync fp fs =
     (if fs_sync_ok fs
      then (0, fs\<lparr>fs_synced := (fs_synced fs)(wf_name fp := length (content fs (wf_name fp)))\<rparr>)
      else (-1, fs))"

definition fs_remove :: "string \<Rightarrow> fsys \<Rightarrow> fsys" where
  "fs_remove name fs = (case fs_files fs name of
       None \<Rightarrow> fs
     | Some s \<Rightarrow> fs\<lparr>fs_files := (fs_files fs)(name := None), fs_named := (fs_named fs)(name := False),
         fs_free := fs_free fs + length s\<rparr>)"

definition fs_rename :: "string \<Rightarrow> string \<Rightarrow> fsys \<Rightarrow> fsys" where
  "fs_rename old new fs = (case fs_files fs old of
       None \<Rightarrow> fs
     | Some s \<Rightarrow> fs\<lparr>fs_files := (fs_files fs)(old := None, new \<mapsto> s),
         fs_synced := (fs_synced fs)(new := fs_synced fs old),
         fs_named := (fs_named fs)(old := False, new := False),
         fs_free := fs_free fs + (if old = new then 0 else length (content fs new))\<rparr>)"

text \<open>
  The machine loses power: \<open>power_loss fs fs'\<close> if a restart may find the files of \<open>fs'\<close>.  Where the
  directory on the disk agrees about a name, a missing file is missing and a file begins with
  its synced part and is not longer than it was; any other name may be gone, or have any contents.
\<close>

definition survives :: "nat \<Rightarrow> string \<Rightarrow> string \<Rightarrow> bool" where
  "survives n s s' \<longleftrightarrow> take n s' = take n s \<and> length s' \<le> length s"

definition power_loss :: "fsys \<Rightarrow> fsys \<Rightarrow> bool" where
  "power_loss fs fs' \<longleftrightarrow> (\<forall>name. fs_named fs name \<longrightarrow>
     (case fs_files fs name of None \<Rightarrow> fs_files fs' name = None
      | Some s \<Rightarrow> \<exists>s'. fs_files fs' name = Some s' \<and> survives (fs_synced fs name) s s'))"

section \<open>Facts\<close>

lemma content_upd [simp]:
  "content (fs\<lparr>fs_files := m(name \<mapsto> s)\<rparr>) name = s"
  "a \<noteq> name \<Longrightarrow> content (fs\<lparr>fs_files := (fs_files fs)(name := x)\<rparr>) a = content fs a"
  "content (fs\<lparr>fs_free := n\<rparr>) a = content fs a"
  "content (fs\<lparr>fs_synced := d\<rparr>) a = content fs a"
  "content (fs\<lparr>fs_named := q\<rparr>) a = content fs a"
  "content (fs\<lparr>fs_lost := l\<rparr>) a = content fs a"
  by (simp_all add: content_def)

lemma content_Some: "fs_files fs name = Some s \<Longrightarrow> content fs name = s"
  by (simp add: content_def)

lemma fopen_r_Some [exec_simps]:
  "fs_files fs name = Some s \<Longrightarrow> fopen_r name fs = Some \<lparr>fp_name = name, fp_pos = 0\<rparr>"
  by (simp add: fopen_r_def fs_access_def)

lemma fread_at:
  assumes "content fs (fp_name fp) = pre @ s @ post" "fp_pos fp = length pre" "length s = n"
  shows "fread n fp fs = (s, fp\<lparr>fp_pos := length (pre @ s)\<rparr>)"
  using assms by (simp add: fread_def)

lemma fread_length: "length (fst (fread n fp fs)) \<le> n"
  by (simp add: fread_def Let_def)

lemma fseek_pos [simp]: "0 \<le> off \<Longrightarrow> fseek off fp = fp\<lparr>fp_pos := nat off\<rparr>"
  by (simp add: fseek_def)

lemma fseek_neg [simp]: "off < 0 \<Longrightarrow> fseek off fp = fp"
  by (simp add: fseek_def)

section \<open>Writing through a buffer\<close>

lemma opened_simps [simp]:
  "content (opened name fs) a = content fs a" "fs_access name (opened name fs)"
  "fs_free (opened name fs) = fs_free fs" "fs_writable (opened name fs) = fs_writable fs"
  "fs_sync_ok (opened name fs) = fs_sync_ok fs" "fs_lost (opened name fs) = fs_lost fs"
  by (auto simp: opened_def content_def fs_access_def)

lemma opened_present: "fs_access name fs \<Longrightarrow> opened name fs = fs"
  by (simp add: opened_def)

lemma grown_simps [simp]:
  "content (grown name s fs) name = content fs name @ s"
  "a \<noteq> name \<Longrightarrow> content (grown name s fs) a = content fs a"
  "fs_free (grown name s fs) = fs_free fs - length s" "fs_writable (grown name s fs) = fs_writable fs"
  "fs_sync_ok (grown name s fs) = fs_sync_ok fs" "fs_lost (grown name s fs) = fs_lost fs"
  "fs_access name (grown name s fs)"
  "grown name b (grown name a fs) = grown name (a @ b) fs"
  by (simp_all add: grown_def content_def fs_access_def)

lemma grown_Nil [simp]: "fs_access name fs \<Longrightarrow> grown name [] fs = fs"
  by (cases fs) (auto simp: grown_def content_def fs_access_def)

text \<open>
  \<open>wrote p w fs w' fs'\<close>: the stream took the bytes \<open>p\<close>; what was in the buffer and what came in is
  what went out and what is in the buffer now.
\<close>

definition wrote :: "string \<Rightarrow> wfile \<Rightarrow> fsys \<Rightarrow> wfile \<Rightarrow> fsys \<Rightarrow> bool" where
  "wrote p w fs w' fs' \<longleftrightarrow> wf_name w' = wf_name w \<and>
     (\<exists>a. wf_buf w @ p = a @ wf_buf w' \<and> length a \<le> fs_free fs \<and> fs' = grown (wf_name w) a fs)"

lemma wrote_Nil: "fs_access (wf_name w) fs \<Longrightarrow> wrote [] w fs w fs"
  by (auto simp: wrote_def intro: exI [of _ "[]"])

lemma wrote_access: "wrote p w fs w' fs' \<Longrightarrow> fs_access (wf_name w') fs'"
  by (auto simp: wrote_def)

lemma wrote_append: "wrote p w fs w' fs' \<Longrightarrow> wrote q w' fs' w'' fs'' \<Longrightarrow> wrote (p @ q) w fs w'' fs''"
proof -
  assume "wrote p w fs w' fs'" "wrote q w' fs' w'' fs''"
  then obtain a b where "wf_buf w @ p = a @ wf_buf w'" "wf_buf w' @ q = b @ wf_buf w''"
    "length a \<le> fs_free fs" "length b \<le> fs_free fs - length a" "fs'' = grown (wf_name w) (a @ b) fs"
    "wf_name w' = wf_name w" "wf_name w'' = wf_name w" by (auto simp: wrote_def)
  then show ?thesis unfolding wrote_def by (intro conjI exI [of _ "a @ b"]) (simp_all, metis append.assoc)
qed

lemma wrote_total:
  "wrote p w fs w' fs' \<Longrightarrow> fs_free fs' + length (wf_buf w) + length p = fs_free fs + length (wf_buf w')"
  unfolding wrote_def by (auto dest: arg_cong [of _ _ length])

lemma fwrite_wrote:
  assumes "fwrite s w fs = (n, w', fs')"
  shows "n \<le> length s" "wrote (take n s) w fs w' fs'"
    "length (wf_buf w) + length s \<le> fs_free fs \<Longrightarrow> n = length s"
proof -
  define p where "p = wf_buf w @ s"
  define b where "b = length p - length p mod bufsiz"
  have b: "b \<le> length p" "take (length s) s = s" by (simp_all add: b_def)
  have f: "fwrite s w fs = (if b \<le> fs_free fs then (length s, w\<lparr>wf_buf := drop b p\<rparr>, grown (wf_name w) (take b p) fs)
      else (fs_free fs - length (wf_buf w), w\<lparr>wf_buf := drop (fs_free fs) (wf_buf w)\<rparr>, grown (wf_name w) (take (fs_free fs) p) fs))"
    using b by (simp add: fwrite_def fs_write_def Let_def p_def [symmetric] b_def [symmetric] min_def)
  have "wrote s w fs w' fs' \<and> n = length s" if "b \<le> fs_free fs"
    using assms f that b by (auto simp: wrote_def p_def [symmetric] intro!: exI [of _ "take b p"])
  moreover have "wrote (take n s) w fs w' fs' \<and> n \<le> length s" if "fs_free fs < b"
  proof -
    have "n = fs_free fs - length (wf_buf w)" "w' = w\<lparr>wf_buf := drop (fs_free fs) (wf_buf w)\<rparr>"
      "fs' = grown (wf_name w) (take (fs_free fs) p) fs" using assms f that by auto
    with that b(1) show ?thesis
      by (cases "fs_free fs \<le> length (wf_buf w)") (auto simp: wrote_def p_def intro!: exI [of _ "take (fs_free fs) p"])
  qed
  ultimately show "n \<le> length s" "wrote (take n s) w fs w' fs'"
    "length (wf_buf w) + length s \<le> fs_free fs \<Longrightarrow> n = length s"
    using b by (cases "b \<le> fs_free fs"; simp add: p_def)+
qed

lemma fclose_room:
  "length (wf_buf w) \<le> fs_free fs \<Longrightarrow> fclose w fs = (0, grown (wf_name w) (wf_buf w) fs)"
  by (simp add: fclose_def fs_write_def Let_def)

lemma fclose_full:
  "fs_free fs < length (wf_buf w) \<Longrightarrow>
   fclose w fs = (-1, (grown (wf_name w) (take (fs_free fs) (wf_buf w)) fs)\<lparr>fs_lost := True\<rparr>)"
  by (simp add: fclose_def fs_write_def Let_def)

lemma fclose_lost: "\<not> fs_lost (snd (fclose w fs)) \<longleftrightarrow> \<not> fs_lost fs \<and> length (wf_buf w) \<le> fs_free fs"
  by (auto simp: fclose_def fs_write_def Let_def min_def)

text \<open>The file system after the bytes of \<open>line\<close> have been appended to a file and the file closed.\<close>

definition appended :: "string \<Rightarrow> string \<Rightarrow> fsys \<Rightarrow> fsys" where
  "appended name line fs = grown name line (opened name fs)"

lemma appended_simps [simp]:
  "content (appended name line fs) name = content fs name @ line"
  "a \<noteq> name \<Longrightarrow> content (appended name line fs) a = content fs a"
  "fs_free (appended name line fs) = fs_free fs - length line"
  "fs_writable (appended name line fs) = fs_writable fs"
  "fs_sync_ok (appended name line fs) = fs_sync_ok fs" "fs_lost (appended name line fs) = fs_lost fs"
  by (simp_all add: appended_def)

lemma appended_files [simp]:
  "fs_files (appended name line fs) name = Some (content fs name @ line)"
  "a \<noteq> name \<Longrightarrow> fs_files (appended name line fs) a = fs_files fs a"
  by (auto simp: appended_def grown_def opened_def content_def fs_access_def)

lemma removed_simps [simp]:
  "content (fs_remove name fs) name = []" "fs_files (fs_remove name fs) name = None"
  by (auto simp: fs_remove_def content_def split: option.splits)

lemma appended_twice: "appended name b (appended name a fs) = appended name (a @ b) fs"
  by (simp add: appended_def opened_present)

lemma wrote_closed:
  assumes "wrote p w (opened name fs) w' fs'" "w = \<lparr>wf_name = name, wf_buf = []\<rparr>"
  shows "length p \<le> fs_free fs \<Longrightarrow> fclose w' fs' = (0, appended name p fs)"
    "\<not> fs_lost (snd (fclose w' fs')) \<Longrightarrow> length p \<le> fs_free fs \<and> \<not> fs_lost fs"
proof -
  from assms obtain a where a: "p = a @ wf_buf w'" "length a \<le> fs_free fs"
    "fs' = grown name a (opened name fs)" "wf_name w' = name" by (auto simp: wrote_def)
  show "length p \<le> fs_free fs \<Longrightarrow> fclose w' fs' = (0, appended name p fs)"
    using a by (simp add: fclose_room appended_def)
  show "\<not> fs_lost (snd (fclose w' fs')) \<Longrightarrow> length p \<le> fs_free fs \<and> \<not> fs_lost fs"
    using a by (auto simp: fclose_lost)
qed

end
