(* ===== verification/Log_Format.thy ===== *)
theory Log_Format
  imports Stdio
begin

text \<open>
  The log of \<^verbatim>\<open>engine.cpp\<close>: a record is the size of the key and the size of the value as
  \<^verbatim>\<open>size_t\<close> in memory (eight bytes, least significant first), the key and the value; the
  value size \<^verbatim>\<open>(size_t)-1\<close> marks a removal.  \<open>log_line\<close> writes a record, \<open>read_key_value\<close> and
  \<open>read_line\<close> read one, both through \<open>read_num\<close>, which reads in chunks of 8092 bytes.
\<close>

section \<open>\<^verbatim>\<open>size_t\<close> in memory\<close>

fun le_bytes :: "nat \<Rightarrow> nat \<Rightarrow> string" where
  "le_bytes 0 n = []"
| "le_bytes (Suc k) n = char_of (n mod 256) # le_bytes k (n div 256)"

fun of_le_bytes :: "string \<Rightarrow> nat" where
  "of_le_bytes [] = 0"
| "of_le_bytes (c # cs) = of_char c + 256 * of_le_bytes cs"

definition size_bytes :: "64 word \<Rightarrow> string" where
  "size_bytes w = le_bytes 8 (unat w)"

definition bytes_size :: "string \<Rightarrow> 64 word" where
  "bytes_size s = word_of_nat (of_le_bytes s)"

lemma length_le_bytes [simp]: "length (le_bytes k n) = k"
  by (induction k arbitrary: n) simp_all

lemma of_le_bytes_le_bytes: "n < 256 ^ k \<Longrightarrow> of_le_bytes (le_bytes k n) = n"
proof (induction k arbitrary: n)
  case (Suc k)
  then have "n div 256 < 256 ^ k" by (simp add: less_mult_imp_div_less mult.commute)
  from Suc.IH [OF this] show ?case by simp
qed simp

lemma le_bytes_of_le_bytes: "le_bytes (length s) (of_le_bytes s) = s"
proof (induction s)
  case (Cons c s)
  have "of_char c < (256::nat)" by (rule nat_of_char_less_256)
  then show ?case using Cons by simp
qed simp

lemma length_size_bytes [simp]: "length (size_bytes w) = 8"
  by (simp add: size_bytes_def)

lemma bytes_size_size_bytes [simp]: "bytes_size (size_bytes w) = w"
proof -
  have "unat w < 256 ^ 8" using unsigned_less [of w] by simp
  then show ?thesis by (simp add: bytes_size_def size_bytes_def of_le_bytes_le_bytes)
qed

section \<open>Reading\<close>

text \<open>The size of the next chunk, \<^verbatim>\<open>len\<close>, when \<open>n\<close> bytes are left.\<close>

definition chunk :: "nat \<Rightarrow> nat" where
  "chunk n = (if n < 8092 then n else 8092)"

lemma chunk_le: "chunk n \<le> n" "0 < n \<Longrightarrow> 0 < chunk n"
  by (simp_all add: chunk_def)

text \<open>\<^verbatim>\<open>Engine::read_num\<close>: the chunks are appended to \<open>line\<close>; a short read ends it.\<close>

function read_num_loop :: "nat \<Rightarrow> nat \<Rightarrow> string \<Rightarrow> cfile \<Rightarrow> fsys \<Rightarrow> bool \<times> string \<times> cfile" where
  "read_num_loop s num line fp fs =
     (if s < num then
        (let len = chunk (num - s);
             (buf, fp) = fread len fp fs
         in if length buf < len then (False, line, fp)
            else read_num_loop (s + length buf) num (line @ buf) fp fs)
      else (True, line, fp))"
  by pat_completeness auto
termination
  by (relation "measure (\<lambda>(s, num, line, fp, fs). num - s)")
    (simp_all add: not_less, metis add_gr_0 chunk_le(2) diff_less_mono2 le_eq_less_or_eq less_add_same_cancel1 less_trans zero_less_diff)

declare read_num_loop.simps [simp del]

definition read_num :: "64 word \<Rightarrow> string \<Rightarrow> cfile \<Rightarrow> fsys \<Rightarrow> bool \<times> string \<times> cfile" where
  "read_num num line fp fs = read_num_loop 0 (unat num) line fp fs"

text \<open>
  \<^verbatim>\<open>Engine::read_key_value\<close>: 1 for an insertion, 0 for a removal, -1 for a record that is not
  complete; the key and the value are appended to the strings it is given.
\<close>

definition read_key_value ::
    "string \<Rightarrow> string \<Rightarrow> cfile \<Rightarrow> fsys \<Rightarrow> int \<times> string \<times> string \<times> cfile" where
  "read_key_value key val fp fs = (
     let (buf, fp) = fread 8 fp fs in
     if length buf \<noteq> 8 then (-1, key, val, fp) else
     let k_size = bytes_size buf; (buf, fp) = fread 8 fp fs in
     if length buf \<noteq> 8 then (-1, key, val, fp) else
     let v_size = bytes_size buf in
     if v_size \<noteq> -1 then
       (let (ok, key, fp) = read_num k_size key fp fs in
        if \<not> ok then (-1, key, val, fp) else
        let (ok, val, fp) = read_num v_size val fp fs in
        if \<not> ok then (-1, key, val, fp) else (1, key, val, fp))
     else
       (let (ok, key, fp) = read_num k_size key fp fs in
        if \<not> ok then (-1, key, val, fp) else (0, key, val, fp)))"

text \<open>
  \<^verbatim>\<open>Engine::read_line\<close>: a whole record as it is in the file, or what there is of it.
\<close>

definition read_line :: "string \<Rightarrow> cfile \<Rightarrow> fsys \<Rightarrow> string \<times> cfile" where
  "read_line line fp fs = (
     let (buf, fp) = fread 8 fp fs in
     if length buf \<noteq> 8 then (line, fp) else
     let k_size = bytes_size buf; line = line @ buf; (buf, fp) = fread 8 fp fs in
     if length buf \<noteq> 8 then (line, fp) else
     let v_size = bytes_size buf; line = line @ buf;
         total = (if v_size \<noteq> -1 then k_size + v_size else k_size);
         (ok, line, fp) = read_num total line fp fs
     in (line, fp))"

section \<open>Writing\<close>

text \<open>
  \<^verbatim>\<open>Engine::log_line\<close>: it calls \<^verbatim>\<open>fwrite\<close> until the stream has taken everything; where the disk is
  full and a block has to be written it does not return (\<open>None\<close>).  \<open>None\<close> is also its \<^verbatim>\<open>LOG(FATAL)\<close>.
\<close>

partial_function (option) log_line_loop :: "nat \<Rightarrow> string \<Rightarrow> wfile \<Rightarrow> fsys \<Rightarrow> (nat \<times> wfile \<times> fsys) option" where
  "log_line_loop s line fp fs =
     (if s < length line then
        (let len = chunk (length line - s);
             (n, fp, fs) = fwrite (take len (drop s line)) fp fs
         in log_line_loop (s + n) line fp fs)
      else Some (s, fp, fs))"

declare log_line_loop.simps [code]

definition log_line :: "string \<Rightarrow> wfile \<Rightarrow> fsys \<Rightarrow> (wfile \<times> fsys) option" where
  "log_line line fp fs = do {
     (s, fp, fs) \<leftarrow> log_line_loop 0 line fp fs;
     if s > length line then None else Some (fp, fs) }"

text \<open>The record that \<^verbatim>\<open>Engine::put\<close> and the one that \<^verbatim>\<open>Engine::remove\<close> builds.\<close>

definition put_line :: "string \<Rightarrow> string \<Rightarrow> string" where
  "put_line key val =
     size_bytes (word_of_nat (length key)) @ size_bytes (word_of_nat (length val)) @ key @ val"

definition remove_line :: "string \<Rightarrow> string" where
  "remove_line key = size_bytes (word_of_nat (length key)) @ size_bytes (-1) @ key"

section \<open>What reading returns\<close>

text \<open>The bytes in front of the position, and the position moved on by \<open>m\<close>.\<close>

definition rest_of :: "cfile \<Rightarrow> fsys \<Rightarrow> string" where
  "rest_of fp fs = drop (fp_pos fp) (content fs (fp_name fp))"

definition adv :: "nat \<Rightarrow> cfile \<Rightarrow> cfile" where
  "adv m fp = fp\<lparr>fp_pos := fp_pos fp + m\<rparr>"

lemma adv_simps [simp]:
  "adv 0 fp = fp" "adv a (adv b fp) = adv (b + a) fp"
  "fp_name (adv m fp) = fp_name fp" "fp_pos (adv m fp) = fp_pos fp + m"
  by (simp_all add: adv_def ac_simps)

lemma rest_of_adv [simp]: "rest_of (adv m fp) fs = drop m (rest_of fp fs)"
  by (simp add: rest_of_def add.commute)

lemma fread_rest: "fread n fp fs = (take n (rest_of fp fs), adv (min n (length (rest_of fp fs))) fp)"
  by (simp add: fread_def rest_of_def adv_def min.commute)

lemma read_num_loop_round:
  assumes "0 < n"
  shows "read_num_loop s (s + n) line fp fs =
    (if length (rest_of fp fs) < chunk n then (False, line, adv (length (rest_of fp fs)) fp)
     else read_num_loop (s + chunk n) (s + n) (line @ take (chunk n) (rest_of fp fs)) (adv (chunk n) fp) fs)"
  using assms chunk_le [of n]
  by (subst read_num_loop.simps) (auto simp: fread_rest min_def Let_def)

lemma read_num_loop_enough:
  "n \<le> length (rest_of fp fs) \<Longrightarrow>
   read_num_loop s (s + n) line fp fs = (True, line @ take n (rest_of fp fs), adv n fp)"
proof (induction n arbitrary: s line fp rule: less_induct)
  case (less n)
  show ?case
  proof (cases "n = 0")
    case False
    let ?l = "chunk n" and ?r = "rest_of fp fs"
    have l: "?l \<le> n" "0 < ?l" using False by (simp_all add: chunk_le)
    have "take n ?r = take ?l ?r @ take (n - ?l) (drop ?l ?r)"
      using l(1) by (metis le_add_diff_inverse take_add)
    moreover have "read_num_loop (s + ?l) (s + ?l + (n - ?l)) (line @ take ?l ?r) (adv ?l fp) fs =
        (True, (line @ take ?l ?r) @ take (n - ?l) (rest_of (adv ?l fp) fs), adv (n - ?l) (adv ?l fp))"
      using l less.prems by (intro less.IH) simp_all
    ultimately show ?thesis using l less.prems by (simp add: read_num_loop_round)
  qed (simp add: read_num_loop.simps)
qed

lemma read_num_loop_short:
  "length (rest_of fp fs) < n \<Longrightarrow> fst (read_num_loop s (s + n) line fp fs) = False"
proof (induction n arbitrary: s line fp rule: less_induct)
  case (less n)
  let ?l = "chunk n" and ?r = "rest_of fp fs"
  have l: "?l \<le> n" "0 < ?l" using less.prems by (simp_all add: chunk_le)
  show ?case
  proof (cases "length ?r < ?l")
    case True
    then show ?thesis using less.prems by (simp add: read_num_loop_round)
  next
    case False
    then have "fst (read_num_loop (s + ?l) (s + ?l + (n - ?l)) (line @ take ?l ?r) (adv ?l fp) fs) = False"
      using l less.prems by (intro less.IH) auto
    then show ?thesis using False l by (simp add: read_num_loop_round)
  qed
qed

lemma read_num_enough:
  "unat n \<le> length (rest_of fp fs) \<Longrightarrow>
   read_num n line fp fs = (True, line @ take (unat n) (rest_of fp fs), adv (unat n) fp)"
  using read_num_loop_enough [of "unat n" fp fs 0] by (simp add: read_num_def)

lemma read_num_short:
  "length (rest_of fp fs) < unat n \<Longrightarrow> \<exists>line' fp'. read_num n line fp fs = (False, line', fp')"
  using read_num_loop_short [of fp fs "unat n" 0 line]
  by (cases "read_num_loop 0 (unat n) line fp fs") (simp add: read_num_def)

lemma unat_of_length: "n < 2 ^ 64 \<Longrightarrow> unat (word_of_nat n :: 64 word) = n"
  by (simp add: unat_of_nat take_bit_nat_eq_self)

lemma word_length_neq_minus1:
  assumes "n < 2 ^ 64 - 1"
  shows "word_of_nat n \<noteq> (-1 :: 64 word)"
proof
  assume "word_of_nat n = (-1 :: 64 word)"
  then have "unat (word_of_nat n :: 64 word) = unat (-1 :: 64 word)" by simp
  moreover have "unat (-1 :: 64 word) = 2 ^ 64 - 1" by (simp add: unsigned_minus_1_eq_mask mask_eq_exp_minus_1)
  ultimately show False using assms by (simp add: unat_of_length)
qed

section \<open>Records\<close>

datatype log_rec = Put string string | Rm string

primrec enc :: "log_rec \<Rightarrow> string" where
  "enc (Put k v) = put_line k v"
| "enc (Rm k) = remove_line k"

definition encs :: "log_rec list \<Rightarrow> string" where
  "encs rs = concat (map enc rs)"

primrec rec_ok :: "log_rec \<Rightarrow> bool" where
  "rec_ok (Put k v) = (length k + length v < 2 ^ 64 - 1)"
| "rec_ok (Rm k) = (length k < 2 ^ 64)"

lemma encs_simps [simp]: "encs [] = []" "encs (r # rs) = enc r @ encs rs"
  "encs (rs @ qs) = encs rs @ encs qs"
  by (simp_all add: encs_def)

lemma length_enc:
  "length (put_line k v) = 16 + length k + length v" "length (remove_line k) = 16 + length k"
  by (simp_all add: put_line_def remove_line_def)

lemma length_enc_ge: "16 \<le> length (enc r)"
  by (cases r) (simp_all add: length_enc)

text \<open>Reading back what was written.\<close>

lemma read_put_line:
  assumes "length k + length v < 2 ^ 64 - 1" "rest_of fp fs = put_line k v @ post"
  shows "read_key_value key val fp fs = (1, key @ k, val @ v, adv (length (put_line k v)) fp)"
  using assms word_length_neq_minus1 [of "length v"]
  by (simp add: read_key_value_def fread_rest put_line_def read_num_enough unat_of_length)

lemma read_remove_line:
  assumes "length k < 2 ^ 64" "rest_of fp fs = remove_line k @ post"
  shows "read_key_value key val fp fs = (0, key @ k, val, adv (length (remove_line k)) fp)"
  using assms by (simp add: read_key_value_def fread_rest remove_line_def read_num_enough unat_of_length)

lemma read_line_put:
  assumes "length k + length v < 2 ^ 64 - 1" "rest_of fp fs = put_line k v @ post"
  shows "read_line line fp fs = (line @ put_line k v, adv (length (put_line k v)) fp)"
proof -
  have "word_of_nat (length k) + word_of_nat (length v) = (word_of_nat (length k + length v) :: 64 word)"
    by simp
  with assms word_length_neq_minus1 [of "length v"] show ?thesis
    by (simp add: read_line_def fread_rest put_line_def read_num_enough unat_of_length del: of_nat_add)
qed

text \<open>A record that is cut off anywhere is not read.\<close>

lemma read_short_header:
  "length (rest_of fp fs) < 16 \<Longrightarrow> fst (read_key_value key val fp fs) = -1"
  by (auto simp: read_key_value_def fread_rest min_def)

lemma read_after_header:
  assumes "rest_of fp fs = size_bytes a @ size_bytes b @ xs"
  shows "b \<noteq> -1 \<Longrightarrow> length xs < unat a \<Longrightarrow> fst (read_key_value key val fp fs) = -1"
    and "b \<noteq> -1 \<Longrightarrow> unat a \<le> length xs \<Longrightarrow> length xs < unat a + unat b \<Longrightarrow>
      fst (read_key_value key val fp fs) = -1"
    and "b = -1 \<Longrightarrow> length xs < unat a \<Longrightarrow> fst (read_key_value key val fp fs) = -1"
proof -
  have r: "rest_of (adv 16 fp) fs = xs" using assms by simp
  note s = assms read_key_value_def fread_rest
  { assume "b \<noteq> -1" "length xs < unat a"
    with read_num_short [of "adv 16 fp" fs a key] r show "fst (read_key_value key val fp fs) = -1"
      by (auto simp: s) }
  { assume "b = -1" "length xs < unat a"
    with read_num_short [of "adv 16 fp" fs a key] r show "fst (read_key_value key val fp fs) = -1"
      by (auto simp: s) }
  { assume a: "b \<noteq> -1" "unat a \<le> length xs" "length xs < unat a + unat b"
    then have "length (rest_of (adv (unat a) (adv 16 fp)) fs) < unat b" unfolding rest_of_adv [of "unat a"] r by simp
    from read_num_short [OF this, of val] a r show "fst (read_key_value key val fp fs) = -1"
      by (auto simp: s read_num_enough) }
qed

lemma read_whole:
  assumes "rest_of fp fs = size_bytes a @ size_bytes b @ xs" "b \<noteq> -1" "unat a + unat b \<le> length xs"
  shows "read_key_value [] [] fp fs = (1, take (unat a) xs, take (unat b) (drop (unat a) xs), adv (16 + unat a + unat b) fp)"
  using assms by (simp add: read_key_value_def fread_rest read_num_enough)

lemma read_torn:
  assumes "rec_ok r" "rest_of fp fs = take n (enc r)" "n < length (enc r)"
  shows "fst (read_key_value key val fp fs) = -1"
proof (cases "n < 16")
  case True
  then show ?thesis using assms(2) by (intro read_short_header) simp
next
  case False
  show ?thesis
  proof (cases r)
    case (Put k v)
    let ?xs = "take (n - 16) (k @ v)"
    have r: "rest_of fp fs = size_bytes (word_of_nat (length k)) @ size_bytes (word_of_nat (length v)) @ ?xs"
      using False assms(2) by (simp add: Put put_line_def)
    have "length ?xs < length k + length v" using assms(3) False by (simp add: Put length_enc)
    then show ?thesis
      using read_after_header(1,2) [OF r, of key val] word_length_neq_minus1 [of "length v"] assms(1)
      by (cases "length ?xs < length k") (simp_all add: Put unat_of_length)
  next
    case (Rm k)
    let ?xs = "take (n - 16) k"
    have r: "rest_of fp fs = size_bytes (word_of_nat (length k)) @ size_bytes (-1) @ ?xs"
      using False assms(2) by (simp add: Rm remove_line_def)
    have "length ?xs < length k" using assms(3) False by (simp add: Rm length_enc)
    then show ?thesis using read_after_header(3) [OF r] assms(1) by (simp add: Rm unat_of_length)
  qed
qed

text \<open>A successful read moves the position forward, within the file.\<close>

lemma read_num_forward:
  assumes "read_num n line fp fs = (True, line', fp')"
  shows "fp' = adv (unat n) fp \<and> unat n \<le> length (rest_of fp fs)"
proof (cases "unat n \<le> length (rest_of fp fs)")
  case True
  then show ?thesis using assms by (simp add: read_num_enough)
next
  case False
  then show ?thesis using read_num_short [of fp fs n line] assms by auto
qed

lemma read_key_value_forward:
  assumes "read_key_value key val fp fs = (ret, key', val', fp')" "ret \<noteq> -1"
  shows "\<exists>m \<ge> 16. m \<le> length (rest_of fp fs) \<and> fp' = adv m fp"
proof -
  have l: "16 \<le> length (rest_of fp fs)"
    using read_short_header [of fp fs key val] assms by (cases "16 \<le> length (rest_of fp fs)") simp_all
  let ?k = "bytes_size (take 8 (rest_of fp fs))" and ?v = "bytes_size (take 8 (drop 8 (rest_of fp fs)))"
  obtain ok1 key1 fp1 where k: "read_num ?k key (adv 16 fp) fs = (ok1, key1, fp1)" by (metis prod_cases3)
  obtain ok2 val2 fp2 where v: "read_num ?v val fp1 fs = (ok2, val2, fp2)" by (metis prod_cases3)
  have ok1: "ok1" using assms l k by (auto simp: read_key_value_def fread_rest Let_def split: if_splits)
  then have fp1: "fp1 = adv (16 + unat ?k) fp" "16 + unat ?k \<le> length (rest_of fp fs)"
    using read_num_forward [of ?k key "adv 16 fp" fs] k l unfolding rest_of_adv length_drop by auto
  show ?thesis
  proof (cases "?v = -1")
    case True
    then have "fp' = fp1" using assms l k ok1 by (simp add: read_key_value_def fread_rest Let_def)
    then show ?thesis using fp1 by (intro exI [of _ "16 + unat ?k"]) simp
  next
    case False
    then have "ok2" "fp' = fp2" using assms l k v ok1
      by (auto simp: read_key_value_def fread_rest Let_def split: if_splits)
    then have "fp' = adv (16 + unat ?k + unat ?v) fp" "16 + unat ?k + unat ?v \<le> length (rest_of fp fs)"
      using read_num_forward [of ?v val fp1 fs] v fp1 by auto
    then show ?thesis by (intro exI [of _ "16 + unat ?k + unat ?v"]) simp
  qed
qed

section \<open>Writing\<close>

text \<open>When it returns, the stream has taken the whole line.\<close>

lemma log_line_loop_wrote:
  assumes "log_line_loop s line fp fs = Some (s', fp', fs')" "s \<le> length line" "fs_access (wf_name fp) fs"
  shows "s' = length line \<and> wrote (drop s line) fp fs fp' fs'"
proof -
  have "s \<le> length line \<longrightarrow> fs_access (wf_name fp) fs \<longrightarrow>
    (case (s', fp', fs') of (s', fp', fs') \<Rightarrow> s' = length line \<and> wrote (drop s line) fp fs fp' fs')"
    using _ assms(1)
  proof (rule log_line_loop.raw_induct [where P = "\<lambda>s line fp fs r. s \<le> length line \<longrightarrow> fs_access (wf_name fp) fs \<longrightarrow>
      (case r of (s', fp', fs') \<Rightarrow> s' = length line \<and> wrote (drop s line) fp fs fp' fs')"], goal_cases)
    case (1 loop s line fp fs r)
    show ?case
    proof (cases "s < length line")
      case True
      let ?c = "take (chunk (length line - s)) (drop s line)"
      obtain n w1 fs1 where w: "fwrite ?c fp fs = (n, w1, fs1)" by (metis prod.exhaust)
      from fwrite_wrote [OF w] have n: "n \<le> length ?c" "wrote (take n ?c) fp fs w1 fs1" by simp_all
      then have t: "take n ?c = take n (drop s line)" "s + n \<le> length line" using True by auto
      from 1(2) True w have "loop (s + n) line w1 fs1 = Some r" by (simp add: Let_def)
      from 1(1) [OF this] t(2) wrote_access [OF n(2)] obtain w2 fs2 where
        r: "r = (length line, w2, fs2)" "wrote (drop (s + n) line) w1 fs1 w2 fs2" by auto
      have "take n (drop s line) @ drop (s + n) line = drop s line" by (metis add.commute append_take_drop_id drop_drop)
      with wrote_append [OF n(2) r(2)] t(1) r(1) show ?thesis by simp
    next
      case False
      with 1(2) wrote_Nil show ?thesis by auto
    qed
  qed
  with assms(2,3) show ?thesis by simp
qed

lemma log_line_wrote:
  assumes "log_line line fp fs = Some (fp', fs')" "fs_access (wf_name fp) fs"
  shows "wrote line fp fs fp' fs'"
  using assms log_line_loop_wrote [of 0 line fp fs] by (auto simp: log_line_def bind_eq_Some_conv split: if_splits)

text \<open>With room for it, it returns.\<close>

lemma log_line_loop_room:
  assumes "s \<le> length line" "fs_access (wf_name fp) fs" "length (wf_buf fp) + (length line - s) \<le> fs_free fs"
  shows "\<exists>fp' fs'. log_line_loop s line fp fs = Some (length line, fp', fs')"
  using assms
proof (induction "length line - s" arbitrary: s fp fs rule: less_induct)
  case less
  show ?case
  proof (cases "s < length line")
    case True
    let ?l = "chunk (length line - s)"
    have l: "?l \<le> length line - s" "0 < ?l" using True by (simp_all add: chunk_le)
    obtain n w1 fs1 where w: "fwrite (take ?l (drop s line)) fp fs = (n, w1, fs1)" by (metis prod.exhaust)
    from fwrite_wrote [OF w] l less.prems(3) have n: "n = ?l" "wrote (take n (take ?l (drop s line))) fp fs w1 fs1" by simp_all
    from wrote_total [OF n(2)] l less.prems(3) n(1) have "length (wf_buf w1) + (length line - (s + ?l)) \<le> fs_free fs1" by simp
    from less.hyps [OF _ _ wrote_access [OF n(2)] this] l True show ?thesis
      by (subst log_line_loop.simps) (simp add: w n(1) Let_def)
  next
    case False
    then show ?thesis using less.prems by (subst log_line_loop.simps) simp
  qed
qed

lemma log_line_room:
  assumes "fs_access (wf_name fp) fs" "length (wf_buf fp) + length line \<le> fs_free fs"
  shows "\<exists>fp' fs'. log_line line fp fs = Some (fp', fs')"
  using log_line_loop_room [of 0 line fp fs] assms by (auto simp: log_line_def)

text \<open>
  On a full disk: less than a block stays in the buffer, and \<open>log_line\<close> returns; a line of a
  block or more is never written, and it does not return.
\<close>

lemma fwrite_small: "length (wf_buf w @ s) < bufsiz \<Longrightarrow> fs_access (wf_name w) fs \<Longrightarrow>
    fwrite s w fs = (length s, w\<lparr>wf_buf := wf_buf w @ s\<rparr>, fs)"
  by (simp add: fwrite_def fs_write_def Let_def)

lemma fwrite_full: "fs_free fs = 0 \<Longrightarrow> wf_buf w = [] \<Longrightarrow> fs_access (wf_name w) fs \<Longrightarrow> bufsiz \<le> length s \<Longrightarrow>
    fwrite s w fs = (0, w, fs)"
  by (cases w) (auto simp: fwrite_def fs_write_def Let_def bufsiz_def)

lemma log_line_small:
  assumes "length line < bufsiz" "wf_buf w = []" "fs_access (wf_name w) fs"
  shows "log_line line w fs = Some (w\<lparr>wf_buf := line\<rparr>, fs)"
proof -
  have c: "chunk (length line) = length line" using assms(1) by (simp add: chunk_def bufsiz_def)
  have "log_line_loop 0 line w fs = Some (length line, w\<lparr>wf_buf := line\<rparr>, fs)"
  proof (cases "line = []")
    case True
    with assms show ?thesis by (cases w) (simp add: log_line_loop.simps)
  next
    case False
    with c assms fwrite_small [of w line fs] show ?thesis
      by (subst log_line_loop.simps) (simp add: log_line_loop.simps [of "length line"])
  qed
  then show ?thesis by (simp add: log_line_def)
qed

lemma log_line_loop_stuck:
  assumes "log_line_loop s line w fs = Some r"
  shows "s = 0 \<longrightarrow> bufsiz \<le> length line \<longrightarrow> fs_free fs = 0 \<longrightarrow> wf_buf w = [] \<longrightarrow> fs_access (wf_name w) fs \<longrightarrow> False"
  using _ assms
proof (rule log_line_loop.raw_induct [where P = "\<lambda>s line w fs r. s = 0 \<longrightarrow> bufsiz \<le> length line \<longrightarrow> fs_free fs = 0 \<longrightarrow>
    wf_buf w = [] \<longrightarrow> fs_access (wf_name w) fs \<longrightarrow> False"], goal_cases)
  case (1 loop s line w fs r)
  show ?case
  proof (intro impI)
    assume a: "s = 0" "bufsiz \<le> length line" "fs_free fs = 0" "wf_buf w = []" "fs_access (wf_name w) fs"
    then have "bufsiz \<le> length (take (chunk (length line)) line)" by (simp add: chunk_def bufsiz_def)
    from fwrite_full [OF a(3-5) this] a(1,2) 1(2) have "loop 0 line w fs = Some r" by (auto simp: bufsiz_def split: if_splits)
    from 1(1) [OF this] a show False by simp
  qed
qed

lemma log_line_full:
  assumes "bufsiz \<le> length line" "fs_free fs = 0" "wf_buf w = []" "fs_access (wf_name w) fs"
  shows "log_line line w fs = None"
  using log_line_loop_stuck [of 0 line w fs] assms by (cases "log_line_loop 0 line w fs") (auto simp: log_line_def)

end
