(* ===== verification/Engine_Code.thy ===== *)
theory Engine_Code
  imports BTree_Code Log_Format
begin

text \<open>
  The engine of \<^verbatim>\<open>include/engine.h\<close> and \<^verbatim>\<open>src/engine.cpp\<close>: a log file, the B+ tree that maps
  a key to the offset of its record, and the offset of the end of the log.  Every operation
  takes the engine and the file system and returns them changed; \<open>None\<close> is \<^verbatim>\<open>LOG(FATAL)\<close>,
  the use of a null \<^verbatim>\<open>FILE\<close> pointer, or a loop that does not end.  The member \<^verbatim>\<open>log_fp\<close> is set
  and closed within each operation and is a local value here; as in the code, nothing looks at
  the result of \<^verbatim>\<open>fclose\<close>.  The locks are the subject of the theory of the lock protocol.
\<close>

section \<open>State\<close>

datatype RetCode = kSucc | kNotFound | kCorruption | kNotSupported | kInvalidArgument
  | kIOError | kIncomplete | kTimedOut | kFull | kOutOfMemory

record engine =
  log_filename :: string
  eng_btree :: btree
  log_offset :: "32 word"

section \<open>Construction\<close>

text \<open>
  The loop of \<^verbatim>\<open>Engine::rebuild_btree\<close>: read a record and apply it to the index, until a read
  fails.  The \<^verbatim>\<open>int\<close> member \<^verbatim>\<open>log_offset\<close> is sign-extended to \<^verbatim>\<open>size_t\<close> for \<^verbatim>\<open>insert\<close>, and
  \<^verbatim>\<open>log_offset += n\<close> keeps the low 32 bits of the sum.
\<close>

function rebuild_loop :: "cfile \<Rightarrow> fsys \<Rightarrow> engine \<Rightarrow> engine option" where
  "rebuild_loop fp fs e = (
     let (ret, k, v, fp') = read_key_value [] [] fp fs in
     if ret = -1 then Some e
     else if ret = 0 then do {
       (r, bt) \<leftarrow> BTree_remove k (eng_btree e);
       rebuild_loop fp' fs (e\<lparr>eng_btree := bt,
         log_offset := log_offset e + word_of_nat (16 + length k)\<rparr>) }
     else do {
       (r, bt) \<leftarrow> BTree_insert k (scast (log_offset e)) (eng_btree e);
       rebuild_loop fp' fs (e\<lparr>eng_btree := bt,
         log_offset := log_offset e + word_of_nat (16 + length k + length v)\<rparr>) })"
  by pat_completeness auto
termination
  by (relation "measure (\<lambda>(fp, fs, e). length (rest_of fp fs))")
    (auto dest!: read_key_value_forward [OF sym])

declare rebuild_loop.simps [simp del]

definition rebuild_btree :: "string \<Rightarrow> engine \<Rightarrow> fsys \<Rightarrow> engine option" where
  "rebuild_btree name e fs = do {
     fp \<leftarrow> fopen_r name fs;
     rebuild_loop (fseek 0 fp) fs e }"

definition Engine_ctor :: "string \<Rightarrow> fsys \<Rightarrow> engine option" where
  "Engine_ctor path fs = (
     let e = \<lparr>log_filename = path @ ''/log'', eng_btree = BTree_ctor, log_offset = 0\<rparr> in
     if fs_access (log_filename e) fs then rebuild_btree (log_filename e) e fs else Some e)"

section \<open>Point operations\<close>

definition Engine_put :: "string \<Rightarrow> string \<Rightarrow> engine \<Rightarrow> fsys \<Rightarrow> (RetCode \<times> engine \<times> fsys) option" where
  "Engine_put k v e fs = do {
     let line = put_line k v;
     (fp, fs) \<leftarrow> fopen_a (log_filename e) fs;
     (fp, fs) \<leftarrow> log_line line fp fs;
     let (c, fs) = fclose fp fs;
     (r, bt) \<leftarrow> BTree_insert k (scast (log_offset e)) (eng_btree e);
     Some (kSucc, e\<lparr>eng_btree := bt, log_offset := log_offset e + word_of_nat (length line)\<rparr>, fs) }"

definition Engine_remove :: "string \<Rightarrow> engine \<Rightarrow> fsys \<Rightarrow> (RetCode \<times> engine \<times> fsys) option" where
  "Engine_remove k e fs = do {
     let line = remove_line k;
     (r, bt) \<leftarrow> BTree_remove k (eng_btree e);
     let e = e\<lparr>eng_btree := bt\<rparr>;
     if r = 0 then Some (kNotFound, e, fs)
     else do {
       (fp, fs) \<leftarrow> fopen_a (log_filename e) fs;
       (fp, fs) \<leftarrow> log_line line fp fs;
       let (c, fs) = fclose fp fs;
       Some (kSucc, e\<lparr>log_offset := log_offset e + word_of_nat (length line)\<rparr>, fs) } }"

text \<open>\<open>v\<close> is the string the caller passes for the value; it is only changed when the key is found.\<close>

definition Engine_get :: "string \<Rightarrow> string \<Rightarrow> engine \<Rightarrow> fsys \<Rightarrow> (RetCode \<times> string) option" where
  "Engine_get k v e fs = do {
     index \<leftarrow> BTree_search (eng_btree e) k;
     if index = -1 then Some (kNotFound, v)
     else do {
       fp \<leftarrow> fopen_r (log_filename e) fs;
       let fp = fseek (sint index) fp;
       let (ret, k', v', fp) = read_key_value [] [] fp fs;
       if ret \<noteq> 1 then None else Some (kSucc, v') } }"

definition Engine_sync :: "engine \<Rightarrow> fsys \<Rightarrow> (RetCode \<times> engine \<times> fsys) option" where
  "Engine_sync e fs = do {
     (fp, fs) \<leftarrow> fopen_a (log_filename e) fs;
     let (r, fs) = fs_fsync fp fs;
     let (c, fs) = fclose fp fs;
     if r = 0 then Some (kSucc, e, fs) else Some (kIOError, e, fs) }"

section \<open>Visiting a range\<close>

text \<open>
  The inner loop of \<^verbatim>\<open>Engine::visit\<close> over the keys of the leaf \<open>n\<close>; the flag is \<^verbatim>\<open>end\<close>.  The
  state \<open>u\<close> is what the caller's \<^verbatim>\<open>visitor\<close> works on.
\<close>

function visit_keys :: "string \<Rightarrow> (string \<Rightarrow> string \<Rightarrow> 'u \<Rightarrow> 'u) \<Rightarrow> fsys \<Rightarrow> bnode \<Rightarrow>
    nat \<Rightarrow> cfile \<Rightarrow> 'u \<Rightarrow> (bool \<times> cfile \<times> 'u) option" where
  "visit_keys upper visitor fs n idx fp u =
     (if idx < length (key n) then
        (if upper < key n ! idx then Some (True, fp, u)
         else do {
           d \<leftarrow> at (data n) idx;
           let (ret, k, v, fp) = read_key_value [] [] (fseek (sint d) fp) fs;
           if ret \<noteq> 1 then None
           else visit_keys upper visitor fs n (idx + 1) fp (visitor k v u) })
      else Some (False, fp, u))"
  by pat_completeness auto
termination
  by (relation "measure (\<lambda>(upper, visitor, fs, n, idx, fp, u). length (key n) - idx)") auto

declare visit_keys.simps [simp del]

partial_function (option) visit_leaves :: "btree \<Rightarrow> string \<Rightarrow> (string \<Rightarrow> string \<Rightarrow> 'u \<Rightarrow> 'u) \<Rightarrow> fsys \<Rightarrow>
    ptr \<Rightarrow> nat \<Rightarrow> cfile \<Rightarrow> 'u \<Rightarrow> (cfile \<times> 'u) option" where
  "visit_leaves t upper visitor fs v idx fp u =
     (if v = nullptr then Some (fp, u)
      else do {
        n \<leftarrow> node_at t v;
        (end_flag, fp, u) \<leftarrow> visit_keys upper visitor fs n idx fp u;
        if end_flag then Some (fp, u)
        else visit_leaves t upper visitor fs (nxt n) 0 fp u })"

declare visit_leaves.simps [code]

text \<open>
  A log that does not exist gives a null \<^verbatim>\<open>r_fp\<close>, which \<^verbatim>\<open>fseek\<close> or at the latest \<^verbatim>\<open>fclose\<close>
  uses: \<open>None\<close>.
\<close>

definition Engine_visit :: "string \<Rightarrow> string \<Rightarrow> (string \<Rightarrow> string \<Rightarrow> 'u \<Rightarrow> 'u) \<Rightarrow> 'u \<Rightarrow>
    engine \<Rightarrow> fsys \<Rightarrow> (RetCode \<times> 'u) option" where
  "Engine_visit lower upper visitor u e fs = do {
     (r, hot, hot_idx) \<leftarrow> search_hot (eng_btree e) lower;
     idx \<leftarrow> vback hot_idx;
     fp \<leftarrow> fopen_r (log_filename e) fs;
     (fp, u) \<leftarrow> visit_leaves (eng_btree e) upper visitor fs hot idx fp u;
     Some (kSucc, u) }"

section \<open>Garbage collection\<close>

partial_function (option) leftmost_leaf :: "btree \<Rightarrow> ptr \<Rightarrow> ptr option" where
  "leftmost_leaf t v = do {
     n \<leftarrow> node_at t v;
     if is_leaf n then Some v else do { c \<leftarrow> at (child n) 0; leftmost_leaf t c } }"

declare leftmost_leaf.simps [code]

text \<open>
  The body of the copying loop: the record of key \<open>i\<close> of the leaf is appended to the new log
  by the stream \<open>w\<close>; \<open>r\<close> reads the old log, \<open>offs\<close> is the vector \<^verbatim>\<open>_offset\<close> and \<open>off\<close> the end of the new log.
\<close>

type_synonym gc_state = "cfile \<times> wfile \<times> fsys \<times> 64 word list \<times> 64 word"

definition gc_copy_entry :: "bnode \<Rightarrow> nat \<Rightarrow> gc_state \<Rightarrow> gc_state option" where
  "gc_copy_entry n i s = do {
     let (r, w, fs, offs, off) = s;
     d \<leftarrow> at (data n) i;
     let (line, r) = read_line [] (fseek (sint d) r) fs;
     (w, fs) \<leftarrow> log_line line w fs;
     Some (r, w, fs, offs @ [off], off + word_of_nat (length line)) }"

partial_function (option) gc_copy_leaves :: "btree \<Rightarrow> ptr \<Rightarrow> gc_state \<Rightarrow> gc_state option" where
  "gc_copy_leaves t v s =
     (if v = nullptr then Some s
      else do {
        n \<leftarrow> node_at t v;
        s \<leftarrow> for_up 0 (length (key n)) (gc_copy_entry n) s;
        gc_copy_leaves t (nxt n) s })"

declare gc_copy_leaves.simps [code]

text \<open>The loop that stores the new offsets in the leaves; \<open>j\<close> is \<^verbatim>\<open>_off_idx\<close>.\<close>

definition gc_update_entry :: "64 word list \<Rightarrow> ptr \<Rightarrow> nat \<Rightarrow> btree \<times> nat \<Rightarrow> (btree \<times> nat) option" where
  "gc_update_entry offs v i s = do {
     let (t, j) = s;
     o' \<leftarrow> at offs j;
     t \<leftarrow> modify_node t v (\<lambda>n. do { ds \<leftarrow> set_at (data n) i (ucast o'); Some (n\<lparr>data := ds\<rparr>) });
     Some (t, j + 1) }"

partial_function (option) gc_update_leaves :: "64 word list \<Rightarrow> ptr \<Rightarrow> btree \<times> nat \<Rightarrow> (btree \<times> nat) option" where
  "gc_update_leaves offs v s =
     (if v = nullptr then Some s
      else do {
        n \<leftarrow> node_at (fst s) v;
        s \<leftarrow> for_up 0 (length (key n)) (gc_update_entry offs v) s;
        gc_update_leaves offs (nxt n) s })"

declare gc_update_leaves.simps [code]

text \<open>
  The three parts of \<^verbatim>\<open>_gc\<close>: copying the records to a new log, moving the index to their new
  offsets, and switching the logs.
\<close>

definition gc_copy :: "engine \<Rightarrow> fsys \<Rightarrow> (ptr \<times> 64 word list \<times> fsys) option" where
  "gc_copy e fs = do {
     let t = eng_btree e;
     first_c \<leftarrow> leftmost_leaf t (bt_root t);
     r \<leftarrow> fopen_r (log_filename e) fs;
     (w, fs) \<leftarrow> fopen_a (log_filename e @ ''(1)'') fs;
     (r, w, fs, offs, off) \<leftarrow> gc_copy_leaves t first_c (r, w, fs, [], 0);
     let (c, fs) = fclose w fs;
     Some (first_c, offs @ [off], fs) }"

definition gc_move :: "ptr \<Rightarrow> 64 word list \<Rightarrow> engine \<Rightarrow> engine option" where
  "gc_move first_c offs e = do {
     (t, j) \<leftarrow> gc_update_leaves offs first_c (eng_btree e, 0);
     Some (e\<lparr>eng_btree := t\<rparr>) }"

definition gc_switch :: "64 word list \<Rightarrow> engine \<Rightarrow> fsys \<Rightarrow> (engine \<times> fsys) option" where
  "gc_switch offs e fs = do {
     let fs = fs_rename (log_filename e @ ''(1)'') (log_filename e) (fs_remove (log_filename e) fs);
     last_off \<leftarrow> vback offs;
     Some (e\<lparr>log_offset := ucast last_off\<rparr>, fs) }"

definition Engine_gc :: "engine \<Rightarrow> fsys \<Rightarrow> (engine \<times> fsys) option" where
  "Engine_gc e fs = do {
     (first_c, offs, fs) \<leftarrow> gc_copy e fs;
     e \<leftarrow> gc_move first_c offs e;
     gc_switch offs e fs }"

text \<open>
  \<^verbatim>\<open>Engine::garbage_collect\<close>: the future of \<^verbatim>\<open>std::async\<close> is destroyed at the end of the
  function, which waits for \<^verbatim>\<open>_gc\<close> to finish.
\<close>

definition Engine_garbage_collect :: "engine \<Rightarrow> fsys \<Rightarrow> (RetCode \<times> engine \<times> fsys) option" where
  "Engine_garbage_collect e fs = do { (e, fs) \<leftarrow> Engine_gc e fs; Some (kSucc, e, fs) }"

definition Engine_snapshot :: "engine \<Rightarrow> ptr" where
  "Engine_snapshot e = nullptr"

end
