(* ===== verification/BTree_Chain.thy ===== *)
theory BTree_Chain
  imports BTree_Index
begin

text \<open>
  The leaves of the B+ tree as a chain: what a client sees that walks \<^verbatim>\<open>next\<close> pointers from a
  leaf, where a search enters the chain, and the tree after the data of all leaves were
  replaced.
\<close>

section \<open>The chain\<close>

type_synonym leaf = "ptr \<times> string list \<times> 32 word list"

primrec leaf_list :: "tree \<Rightarrow> leaf list" where
  "leaf_list (Lf p ks ds) = [(p, ks, ds)]"
| "leaf_list (Nd p ks ts) = concat (map leaf_list ts)"

definition start :: "leaf list \<Rightarrow> ptr" where
  "start ls = (case ls of [] \<Rightarrow> 0 | (p, ks, ds) # _ \<Rightarrow> p)"

fun chain :: "(ptr \<rightharpoonup> bnode) \<Rightarrow> leaf list \<Rightarrow> bool" where
  "chain h [] = True"
| "chain h ((p, ks, ds) # ls) = (p \<noteq> 0 \<and>
     (\<exists>par a. h p = Some (leaf_node par ks ds a (start ls))) \<and> chain h ls)"

definition pairs :: "leaf list \<Rightarrow> (string \<times> 32 word) list" where
  "pairs ls = concat (map (\<lambda>(p, ks, ds). zip ks ds) ls)"

lemma start_simps [simp]: "start [] = 0" "start ((p, ks, ds) # ls) = p"
  by (simp_all add: start_def)

lemma pairs_simps [simp]:
  "pairs [] = []" "pairs ((p, ks, ds) # ls) = zip ks ds @ pairs ls" "pairs (ls @ ms) = pairs ls @ pairs ms"
  by (simp_all add: pairs_def)

lemma leaves_leaf_list: "leaves T = map fst (leaf_list T)"
  by (induction T) (simp_all add: map_concat comp_def cong: map_cong)

lemma pairs_leaf_list: "pairs (leaf_list T) = entries T"
proof (induction T)
  case (Nd p ks ts)
  then show ?case by (induction ts) simp_all
qed simp

lemma chain_append: "chain h (ls @ ms) \<Longrightarrow> chain h ms"
  by (induction ls) auto

lemma leaf_in_nodes: "(p, ks, ds) \<in> set (leaf_list T) \<Longrightarrow> \<exists>q. (p, leaf_node q ks ds 0 0) \<in> set (nodes_of par T)"
  by (induction T arbitrary: par) fastforce+

lemma linked_chain:
  "linked h a (map fst ls) 0 \<Longrightarrow> \<forall>(p, ks, ds)\<in>set ls. p \<noteq> 0 \<and> (\<exists>q. has h p (leaf_node q ks ds 0 0)) \<Longrightarrow> chain h ls"
proof (induction ls arbitrary: a)
  case (Cons l ls)
  obtain p ks ds where l: "l = (p, ks, ds)" by (cases l)
  have f: "first_of (map fst ls) 0 = start ls" by (cases ls) auto
  from Cons l obtain q c d where n: "h p = Some (leaf_node q ks ds c d)" by (auto simp: has_leaf)
  then have "d = start ls" using Cons.prems(1) l f by (simp add: link_leaf [where p = p])
  with n Cons l show ?case by auto
qed simp

lemma set_leaves: "set (leaves T) \<subseteq> set (addrs T)"
  by (induction T) auto

lemma distinct_leaves: "distinct (addrs T) \<Longrightarrow> distinct (leaves T)"
proof (induction T)
  case (Nd p ks ts)
  then have "distinct (concat (map addrs ts))" "\<forall>T\<in>set ts. distinct (addrs T) \<longrightarrow> distinct (leaves T)" by auto
  then show ?case
  proof (induction ts)
    case (Cons T ts)
    have "set (concat (map leaves ts)) \<subseteq> set (concat (map addrs ts))" using set_leaves by fastforce
    moreover have "set (leaves T) \<inter> set (concat (map leaves ts)) \<subseteq> set (addrs T) \<inter> set (concat (map addrs ts))"
      using \<open>set (concat (map leaves ts)) \<subseteq> set (concat (map addrs ts))\<close> set_leaves [of T] by blast
    ultimately show ?case using Cons by (simp only: list.map concat.simps distinct_append) simp
  qed simp
qed simp

lemma btree_rep_chain:
  assumes "btree_rep t T"
  shows "chain (bt_heap t) (leaf_list T)" "distinct (map fst (leaf_list T))"
proof -
  from assms have h: "heap_is (bt_heap t) (nodes_of 0 T) (leaves T)"
    by (simp_all add: btree_rep_def repF_def frame_nodes_def frame_leaves_def)
  note d = heap_isD [OF h]
  show "chain (bt_heap t) (leaf_list T)"
  proof (rule linked_chain)
    show "linked (bt_heap t) 0 (map fst (leaf_list T)) 0" using d(5) by (simp add: leaves_leaf_list)
    show "\<forall>(p, ks, ds)\<in>set (leaf_list T). p \<noteq> 0 \<and> (\<exists>q. has (bt_heap t) p (leaf_node q ks ds 0 0))"
    proof (clarify)
      fix p ks ds assume "(p, ks, ds) \<in> set (leaf_list T)"
      then obtain q where "(p, leaf_node q ks ds 0 0) \<in> set (nodes_of 0 T)" by (metis leaf_in_nodes)
      then show "p \<noteq> 0 \<and> (\<exists>q. has (bt_heap t) p (leaf_node q ks ds 0 0))"
        using d(3) bspec [OF d(4) [unfolded holds_def]] by (metis fst_conv image_eqI split_conv)
    qed
  qed
  show "distinct (map fst (leaf_list T))"
    using d(1) distinct_leaves [of T] by (simp add: leaves_leaf_list)
qed

lemma leaf_lengths:
  "tinv m lo hi n T \<Longrightarrow> \<forall>(p, ks, ds)\<in>set (leaf_list T). length ds = length ks"
  "tinvs lo hi n ks ts \<Longrightarrow> \<forall>T\<in>set ts. \<forall>(p, ks, ds)\<in>set (leaf_list T). length ds = length ks"
  by (induction m lo hi n T and lo hi n ks ts rule: tinv_tinvs.induct) (auto simp: leaf_ok_def)

lemma rep_leaf_lengths: "btree_rep t T \<Longrightarrow> (p, ks, ds) \<in> set (leaf_list T) \<Longrightarrow> length ds = length ks"
  using leaf_lengths(1) by (fastforce simp: btree_rep_def root_inv_def)

text \<open>Where a search enters the chain: everything before the place is smaller than the key.\<close>

lemma plug_leaf_list:
  "\<exists>ls ms. leaf_list (plug fs T) = ls @ leaf_list T @ ms \<and>
     pairs ls = path_entries_left fs \<and> pairs ms = path_entries_right fs"
proof (induction fs T rule: plug.induct)
  case (1 T)
  show ?case by (rule exI [of _ "[]"], rule exI [of _ "[]"]) simp
next
  case (2 p L R fs T)
  then obtain ls ms where lm: "leaf_list (plug ((p, L, R) # fs) T) =
      ls @ leaf_list (Nd p (fkeys L R) (ftrees L [T] R)) @ ms"
    "pairs ls = path_entries_left fs" "pairs ms = path_entries_right fs" by auto
  let ?l = "concat (map (leaf_list \<circ> fst) L)" and ?r = "concat (map (leaf_list \<circ> snd) R)"
  have c: "pairs (concat xs) = concat (map pairs xs)" for xs by (induction xs) simp_all
  have "pairs ?l = concat (map (entries \<circ> fst) L)" "pairs ?r = concat (map (entries \<circ> snd) R)"
    by (simp_all add: c comp_def pairs_leaf_list)
  then have "leaf_list (plug ((p, L, R) # fs) T) = (ls @ ?l) @ leaf_list T @ (?r @ ms) \<and>
      pairs (ls @ ?l) = path_entries_left ((p, L, R) # fs) \<and> pairs (?r @ ms) = path_entries_right ((p, L, R) # fs)"
    using lm by (simp add: ftrees_def)
  then show ?case by blast
qed

lemma search_enters_chain:
  assumes "btree_rep t T"
  obtains r p ks ds ms i idx where
    "search_hot t k = Some (r, p, idx @ [i])" "i \<le> length ks" "length ds = length ks"
    "chain (bt_heap t) ((p, ks, ds) # ms)" "set ((p, ks, ds) # ms) \<subseteq> set (leaf_list T)"
    "drop i (zip ks ds) @ pairs ms = filter (\<lambda>(x, d). k \<le> x) (entries T)"
proof -
  from search_hot_correct [OF assms] obtain fs p ks ds lo hi where
    T: "T = plug fs (Lf p ks ds)" and f: "focus_ok fs (Lf p ks ds) lo hi 0" and
    b: "lbound lo k" "ubound hi k" and
    nf: "k \<notin> set ks \<Longrightarrow> search_hot t k = Some (-1, p, path_idx fs @ [upper_bound ks k])" and
    fd: "k \<in> set ks \<Longrightarrow> search_hot t k =
       Some (scast (ds ! (upper_bound ks k - 1)), p, path_idx fs @ [upper_bound ks k - 1])" by metis
  from f have ok: "leaf_ok lo hi ks ds" and pi: "path_inv lo hi 0 fs" by (simp_all add: focus_ok_def)
  then have len: "length ds = length ks" and srt: "sorted_wrt (<) ks" by (simp_all add: leaf_ok_def)
  obtain ls ms where lm: "leaf_list T = ls @ (p, ks, ds) # ms" "pairs ls = path_entries_left fs"
    "pairs ms = path_entries_right fs" using plug_leaf_list [of fs "Lf p ks ds"] unfolding T by auto
  have c: "chain (bt_heap t) ((p, ks, ds) # ms)"
    using btree_rep_chain(1) [OF assms] unfolding lm(1) by (rule chain_append)
  define i where "i = (if k \<in> set ks then upper_bound ks k - 1 else upper_bound ks k)"
  have below: "ks ! j < k" if "j < i" for j
  proof (cases "k \<in> set ks")
    case True
    then have "upper_bound ks k - 1 < length ks" "ks ! (upper_bound ks k - 1) = k"
      using upper_bound_found [OF srt True] upper_bound_le [of ks k] by (simp_all, linarith)
    moreover have "j < upper_bound ks k - 1" using that True by (simp add: i_def)
    ultimately show ?thesis using sorted_wrt_nth_less [OF srt, of j "upper_bound ks k - 1"] by simp
  next
    case False
    then have "j < upper_bound ks k" using that by (simp add: i_def)
    moreover from this have "ks ! j \<in> set ks" using upper_bound_le [of ks k] by (intro nth_mem) linarith
    ultimately show ?thesis using upper_bound_below [of j ks k] False by (metis order_le_imp_less_or_eq)
  qed
  have above: "k \<le> ks ! j" if "i \<le> j" "j < length ks" for j
  proof -
    define j0 where "j0 = i"
    have j0: "j0 < length ks" using that by (simp add: j0_def)
    have "k \<le> ks ! j0"
      using upper_bound_found [OF srt] upper_bound_above [of ks k] j0 by (auto simp: j0_def i_def split: if_splits)
    moreover have "ks ! j0 \<le> ks ! j"
      using that sorted_wrt_nth_less [OF srt, of j0 j] by (cases "j = i") (auto simp: j0_def)
    ultimately show ?thesis by (rule order_trans)
  qed
  have i: "i \<le> length ks" unfolding i_def by (cases "k \<in> set ks") (simp_all add: le_diff_conv le_trans [OF upper_bound_le])
  have e: "entries T = (pairs ls @ take i (zip ks ds)) @ (drop i (zip ks ds) @ pairs ms)"
    by (metis append.assoc append_take_drop_id lm(1) pairs_leaf_list pairs_simps(2,3))
  have "fst x < k" if "x \<in> set (take i (zip ks ds))" for x
    using that below by (auto simp: in_set_conv_nth)
  moreover have "k \<le> fst x" if "x \<in> set (drop i (zip ks ds))" for x
    using that above by (auto simp: in_set_conv_nth len)
  moreover note path_keys [OF pi b]
  ultimately have lo: "\<forall>x\<in>set (pairs ls @ take i (zip ks ds)). \<not> k \<le> fst x" and
    hi: "\<forall>x\<in>set (drop i (zip ks ds) @ pairs ms). k \<le> fst x" by (auto simp: lm(2,3) not_le less_imp_le)
  have "filter (\<lambda>(x, d). k \<le> x) (entries T) = drop i (zip ks ds) @ pairs ms"
    unfolding e filter_append [of _ "pairs ls @ take i (zip ks ds)"]
    using lo hi by (simp add: filter_id_conv filter_empty_conv split_beta)
  then have z: "drop i (zip ks ds) @ pairs ms = filter (\<lambda>(x, d). k \<le> x) (entries T)" by (rule sym)
  obtain r where r: "search_hot t k = Some (r, p, path_idx fs @ [i])"
    using nf fd by (cases "k \<in> set ks") (simp_all add: i_def)
  have "set ((p, ks, ds) # ms) \<subseteq> set (leaf_list T)" by (auto simp: lm(1))
  from that [OF r i len c this z] show thesis .
qed

section \<open>New data for all keys\<close>

primrec redata :: "(string \<Rightarrow> 32 word) \<Rightarrow> tree \<Rightarrow> tree" where
  "redata g (Lf p ks ds) = Lf p ks (map g ks)"
| "redata g (Nd p ks ts) = Nd p ks (map (redata g) ts)"

lemma redata_simps [simp]: "addr (redata g T) = addr T" "addrs (redata g T) = addrs T"
  "leaves (redata g T) = leaves T" "sep_of k (redata g T) = sep_of k T"
proof -
  show "addrs (redata g T) = addrs T" "leaves (redata g T) = leaves T"
    by (induction T) (simp_all add: comp_def cong: map_cong)
qed (cases T; simp)+

lemma redata_inv:
  "tinv m lo hi n T \<Longrightarrow> (\<And>k. k \<in> set (keys_of T) \<Longrightarrow> g k \<noteq> -1) \<Longrightarrow> tinv m lo hi n (redata g T)"
  "tinvs lo hi n ks ts \<Longrightarrow> (\<And>k. k \<in> set (concat (map keys_of ts)) \<Longrightarrow> g k \<noteq> -1) \<Longrightarrow>
     tinvs lo hi n ks (map (redata g) ts)"
proof (induction m lo hi n T and lo hi n ks ts rule: tinv_tinvs.induct)
  case (1 m lo hi n p ks ds)
  then show ?case by (auto simp: leaf_ok_def) metis
next
  case (2 m lo hi n p ks ts)
  then show ?case by (auto simp: map_concat comp_def)
next
  case (6 lo hi n k ks t ts)
  then show ?case by (cases ts) auto
qed auto

lemma redata_entries:
  "tinv m lo hi n T \<Longrightarrow> entries (redata g T) = map (\<lambda>(k, d). (k, g k)) (entries T)"
  "tinvs lo hi n ks ts \<Longrightarrow>
     concat (map (\<lambda>T. entries (redata g T)) ts) = map (\<lambda>(k, d). (k, g k)) (concat (map entries ts))"
proof (induction m lo hi n T and lo hi n ks ts rule: tinv_tinvs.induct)
  case (1 m lo hi n p ks ds)
  then show ?case by (auto simp: leaf_ok_def zip_map2 intro!: nth_equalityI)
next
  case (2 m lo hi n p ks ts)
  then show ?case by (simp add: comp_def)
qed auto

text \<open>The heap after the data of the leaves at \<open>A\<close> were replaced.\<close>

definition redata_heap :: "(string \<Rightarrow> 32 word) \<Rightarrow> ptr set \<Rightarrow> (ptr \<rightharpoonup> bnode) \<Rightarrow> (ptr \<rightharpoonup> bnode)" where
  "redata_heap g A h = (\<lambda>p. if p \<in> A then map_option (\<lambda>n. n\<lparr>data := map g (key n)\<rparr>) (h p) else h p)"

lemma redata_heap_simps [simp]: "redata_heap g {} h = h" "dom (redata_heap g A h) = dom h"
  by (auto simp: redata_heap_def fun_eq_iff dom_def split: if_splits)

lemma redata_heap_union: "A \<inter> B = {} \<Longrightarrow> redata_heap g B (redata_heap g A h) = redata_heap g (A \<union> B) h"
  by (auto simp: redata_heap_def fun_eq_iff)

lemma redata_linked: "linked (redata_heap g A h) a ps b \<longleftrightarrow> linked h a ps b"
  by (induction h a ps b rule: linked.induct) (auto simp: link_def redata_heap_def)

lemma redata_nodes:
  "(p, c) \<in> set (nodes_of par (redata g T)) \<Longrightarrow> holds h (nodes_of par T) \<Longrightarrow>
   \<forall>(q, n)\<in>set (nodes_of par T). q \<in> A \<longleftrightarrow> is_leaf n \<Longrightarrow> has (redata_heap g A h) p c"
proof (induction T arbitrary: par)
  case (Lf q ks ds)
  then obtain a b where "h q = Some (leaf_node par ks ds a b)" by (auto simp: has_leaf)
  with Lf show ?case by (auto simp: has_def redata_heap_def leaf_node_def core_def)
next
  case (Nd q ks ts)
  show ?case
  proof (cases "(p, c) = (q, inner_node par ks (map addr ts))")
    case True
    with Nd.prems show ?thesis by (simp add: has_inner) (simp add: redata_heap_def)
  next
    case False
    then obtain T where T: "T \<in> set ts" "(p, c) \<in> set (nodes_of q (redata g T))"
      using Nd.prems(1) by (auto simp: comp_def)
    then have "holds h (nodes_of q T)" "\<forall>(q, n)\<in>set (nodes_of q T). q \<in> A \<longleftrightarrow> is_leaf n"
      using Nd.prems(2,3) by (auto simp: holds_def)
    with Nd.IH T show ?thesis by blast
  qed
qed

lemma leaves_nodes: "set (leaves T) = fst ` {x \<in> set (nodes_of par T). is_leaf (snd x)}"
proof (induction T arbitrary: par)
  case (Nd p ks ts)
  show ?case using Nd.IH [of _ p] by (auto simp: image_iff)
qed force

lemma leaf_iff:
  assumes "distinct (addrs T)" "(q, n) \<in> set (nodes_of par T)"
  shows "q \<in> set (leaves T) \<longleftrightarrow> is_leaf n"
proof
  assume "q \<in> set (leaves T)"
  then obtain n' where "(q, n') \<in> set (nodes_of par T)" "is_leaf n'"
    unfolding leaves_nodes [of T par] by force
  moreover from this have "n' = n"
    using assms eq_key_imp_eq_value [of "nodes_of par T" q n n'] by (simp only: fst_nodes_of)
  ultimately show "is_leaf n" by simp
next
  assume "is_leaf n"
  then show "q \<in> set (leaves T)" unfolding leaves_nodes [of T par] using assms(2) by force
qed

lemma redata_rep:
  assumes "btree_rep t T" "\<And>k. k \<in> set (keys_of T) \<Longrightarrow> g k \<noteq> -1"
  shows "btree_rep (t\<lparr>bt_heap := redata_heap g (set (leaves T)) (bt_heap t)\<rparr>) (redata g T)"
proof -
  from assms(1) have h: "heap_is (bt_heap t) (nodes_of 0 T) (leaves T)" and s: "state_ok t" and
    r: "bt_root t = addr T" and i: "root_inv T"
    by (simp_all add: btree_rep_def repF_def frame_nodes_def frame_leaves_def)
  note d = heap_isD [OF h]
  have a: "map fst (nodes_of 0 (redata g T)) = map fst (nodes_of 0 T)" by simp
  then have a': "fst ` set (nodes_of 0 (redata g T)) = fst ` set (nodes_of 0 T)" by (metis set_map)
  have "\<forall>(q, n)\<in>set (nodes_of 0 T). q \<in> set (leaves T) \<longleftrightarrow> is_leaf n"
    using leaf_iff [of T _ _ 0] d(1) by auto
  then have "holds (redata_heap g (set (leaves T)) (bt_heap t)) (nodes_of 0 (redata g T))"
    using redata_nodes [of _ _ 0 g T "bt_heap t" "set (leaves T)"] d(4) unfolding holds_def by blast
  then have "heap_is (redata_heap g (set (leaves T)) (bt_heap t)) (nodes_of 0 (redata g T)) (leaves T)"
    unfolding heap_is_def a a' using d(1,2,3,5) by (simp add: redata_linked)
  moreover have "root_inv (redata g T)" using i redata_inv(1) [where g = g and T = T] assms(2) unfolding root_inv_def by blast
  ultimately show ?thesis
    using s r by (simp add: btree_rep_def repF_def frame_nodes_def frame_leaves_def state_ok_def)
qed

end
