(* ===== verification/Engine_Log.thy ===== *)
theory Engine_Log
  imports Engine_Code BTree_Chain
begin

text \<open>
  What a log means: the map it replays to, the index of its records, and what reading at an
  indexed offset returns; then the relation between an engine with its log and a map.
\<close>

section \<open>Replaying a log\<close>

primrec rec_key :: "log_rec \<Rightarrow> string" where
  "rec_key (Put k v) = k"
| "rec_key (Rm k) = k"

primrec apply_rec :: "log_rec \<Rightarrow> (string \<rightharpoonup> string) \<Rightarrow> (string \<rightharpoonup> string)" where
  "apply_rec (Put k v) m = m(k \<mapsto> v)"
| "apply_rec (Rm k) m = m(k := None)"

definition replay :: "log_rec list \<Rightarrow> (string \<rightharpoonup> string)" where
  "replay rs = fold apply_rec rs Map.empty"

lemma replay_simps [simp]: "replay [] = Map.empty" "replay (rs @ [r]) = apply_rec r (replay rs)"
  by (simp_all add: replay_def)

text \<open>Keys are NUL free, because the index copies them as C strings.\<close>

definition recs_ok :: "log_rec list \<Rightarrow> bool" where
  "recs_ok rs \<longleftrightarrow> (\<forall>r\<in>set rs. rec_ok r \<and> nul_free (rec_key r))"

lemma recs_ok_simps [simp]:
  "recs_ok []" "recs_ok (r # rs) \<longleftrightarrow> rec_ok r \<and> nul_free (rec_key r) \<and> recs_ok rs"
  "recs_ok (rs @ qs) \<longleftrightarrow> recs_ok rs \<and> recs_ok qs"
  by (auto simp: recs_ok_def)

text \<open>
  \<open>index_ok rs idx m\<close>: the index has the keys of the map, and for each the offset of a record
  of the log that puts the value it has in the map.
\<close>

definition offset :: "log_rec list \<Rightarrow> 32 word" where
  "offset rs = word_of_nat (length (encs rs))"

definition index_ok :: "log_rec list \<Rightarrow> (string \<rightharpoonup> 32 word) \<Rightarrow> (string \<rightharpoonup> string) \<Rightarrow> bool" where
  "index_ok rs idx m \<longleftrightarrow> dom idx = dom m \<and>
     (\<forall>k v. m k = Some v \<longrightarrow> (\<exists>pre post. rs = pre @ Put k v # post \<and> idx k = Some (offset pre)))"

lemma index_ok_empty [simp]: "index_ok [] Map.empty Map.empty"
  by (simp add: index_ok_def)

lemma index_ok_put: "index_ok rs idx m \<Longrightarrow> index_ok (rs @ [Put k v]) (idx(k \<mapsto> offset rs)) (m(k \<mapsto> v))"
  unfolding index_ok_def by (auto split: if_splits) (metis append.assoc append_Cons)+

lemma index_ok_rm: "index_ok rs idx m \<Longrightarrow> index_ok (rs @ [Rm k]) (idx(k := None)) (m(k := None))"
  unfolding index_ok_def by (auto split: if_splits) (metis append.assoc append_Cons)+

lemma index_ok_None: "index_ok rs idx m \<Longrightarrow> idx k = None \<longleftrightarrow> m k = None"
  by (auto simp: index_ok_def)

text \<open>The live part of a log is not longer than the log.\<close>

definition rec_size :: "string \<Rightarrow> string \<Rightarrow> nat" where
  "rec_size k v = 16 + length k + length v"

definition live_size :: "(string \<rightharpoonup> string) \<Rightarrow> nat" where
  "live_size m = (\<Sum>k\<in>dom m. rec_size k (the (m k)))"

lemma length_put_line: "length (put_line k v) = rec_size k v"
  by (simp add: length_enc rec_size_def)

lemma finite_replay: "finite (dom (replay rs))"
proof (induction rs rule: rev_induct)
  case (snoc r rs)
  then show ?case by (cases r) (simp_all del: fun_upd_apply)
qed simp

lemma live_size_del: "finite (dom m) \<Longrightarrow> live_size (m(k := None)) \<le> live_size m"
  unfolding live_size_def by (rule order_trans [OF eq_refl [OF sum.cong] sum_mono2]) auto

lemma live_size_upd: "finite (dom m) \<Longrightarrow> live_size (m(k \<mapsto> v)) \<le> live_size m + rec_size k v"
proof -
  assume f: "finite (dom m)"
  have "live_size (m(k \<mapsto> v)) = rec_size k v + live_size (m(k := None))"
    using f by (simp add: live_size_def sum.insert_remove del: fun_upd_apply) simp
  then show ?thesis using live_size_del [OF f, of k] by simp
qed

lemma live_size_replay: "live_size (replay rs) \<le> length (encs rs)"
proof (induction rs rule: rev_induct)
  case (snoc r rs)
  show ?case
  proof (cases r)
    case (Put k v)
    then show ?thesis using live_size_upd [OF finite_replay, of rs k v] snoc by (simp add: length_put_line del: fun_upd_apply)
  next
    case (Rm k)
    then show ?thesis using live_size_del [OF finite_replay, of rs k] snoc by (simp del: fun_upd_apply)
  qed
qed (simp add: live_size_def)

section \<open>Offsets as machine integers\<close>

lemma scast_back [simp]: "ucast (scast (w :: 32 word) :: 64 word) = w"
  by (rule bit_word_eqI) (simp add: bit_simps)

lemma sint_small: "n < 2 ^ 31 \<Longrightarrow> sint (word_of_nat n :: 32 word) = int n"
  by (simp add: sint_uint unsigned_of_nat take_bit_nat_eq_self signed_take_bit_int_eq_self)

lemma sint_scast_small: "n < 2 ^ 31 \<Longrightarrow> sint (scast (word_of_nat n :: 32 word) :: 64 word) = int n"
  by (simp add: scast_eq sint_small) (simp add: sint_uint unsigned_of_nat take_bit_nat_eq_self signed_take_bit_int_eq_self)

lemma word_small_neq: "n < 2 ^ 31 \<Longrightarrow> word_of_nat n \<noteq> (-1 :: 32 word)"
  using sint_small [of n] by auto

lemma scast_small_neq: "n < 2 ^ 31 \<Longrightarrow> scast (word_of_nat n :: 32 word) \<noteq> (-1 :: 64 word)"
  using sint_scast_small [of n] by auto

section \<open>An engine and the map it stores\<close>

text \<open>
  \<open>engine_view e fs tail m\<close>: the log is a sequence of records that replays to \<open>m\<close>, followed by
  \<open>tail\<close>; the offset of the engine is the end of these records, and its index finds the
  record of every key.
\<close>

definition engine_view :: "engine \<Rightarrow> fsys \<Rightarrow> string \<Rightarrow> (string \<rightharpoonup> string) \<Rightarrow> bool" where
  "engine_view e fs tail m \<longleftrightarrow> (\<exists>rs idx. content fs (log_filename e) = encs rs @ tail \<and>
     length (encs rs) < 2 ^ 31 \<and> recs_ok rs \<and> replay rs = m \<and> index_ok rs idx m \<and>
     log_offset e = offset rs \<and> btree_abs (eng_btree e) idx)"

abbreviation engine_abs :: "engine \<Rightarrow> fsys \<Rightarrow> (string \<rightharpoonup> string) \<Rightarrow> bool" where
  "engine_abs e fs m \<equiv> engine_view e fs [] m"

lemma read_indexed:
  assumes "content fs name = encs rs @ tail" "length (encs rs) < 2 ^ 31" "recs_ok rs"
    "index_ok rs idx m" "m k = Some v"
  obtains pre post where "idx k = Some (offset pre)" "length (encs pre) < 2 ^ 31"
    "\<And>fp. fp_name fp = name \<Longrightarrow> rest_of (fseek (int (length (encs pre))) fp) fs = put_line k v @ post"
    "rec_ok (Put k v)"
proof -
  from assms obtain pre post where p: "rs = pre @ Put k v # post" "idx k = Some (offset pre)"
    unfolding index_ok_def by metis
  then have "length (encs pre) < 2 ^ 31" "rec_ok (Put k v)" using assms(2,3) by simp_all
  moreover have "rest_of (fseek (int (length (encs pre))) fp) fs = put_line k v @ (encs post @ tail)"
    if "fp_name fp = name" for fp
    using that assms(1) p by (simp add: rest_of_def)
  ultimately show thesis using that p(2) by blast
qed

lemma view_file: "engine_view e fs tail m \<Longrightarrow> m \<noteq> Map.empty \<Longrightarrow> \<exists>s. fs_files fs (log_filename e) = Some s"
proof -
  assume v: "engine_view e fs tail m" "m \<noteq> Map.empty"
  then obtain rs where rs: "content fs (log_filename e) = encs rs @ tail" "replay rs = m"
    by (auto simp: engine_view_def)
  then have "rs \<noteq> []" using v(2) by auto
  then have "encs rs \<noteq> []" using length_enc_ge [of "hd rs"] by (cases rs) auto
  then show ?thesis using rs(1) by (cases "fs_files fs (log_filename e)") (auto simp: content_def)
qed

end
