(* ===== verification/Engine_Correct.thy ===== *)
theory Engine_Correct
  imports Engine_Log
begin

text \<open>
  Every operation of the engine against the map it stores: construction from a log (clean or
  torn), \<^verbatim>\<open>put\<close>, \<^verbatim>\<open>remove\<close>, \<^verbatim>\<open>get\<close> and \<^verbatim>\<open>sync\<close>.
\<close>

section \<open>Construction\<close>

definition engine_at :: "engine \<Rightarrow> log_rec list \<Rightarrow> bool" where
  "engine_at e rs \<longleftrightarrow> (\<exists>idx. length (encs rs) < 2 ^ 31 \<and> index_ok rs idx (replay rs) \<and>
     log_offset e = offset rs \<and> btree_abs (eng_btree e) idx)"

lemma offset_snoc: "offset (rs @ [r]) = offset rs + word_of_nat (length (enc r))"
  by (simp add: offset_def)

lemma offset_small: "length (encs rs) < 2 ^ 31 \<Longrightarrow> ucast (scast (offset rs) :: 64 word) \<noteq> (-1 :: 32 word)"
  by (simp add: offset_def word_small_neq)

lemma index_insert:
  assumes "index_ok rs idx (replay rs)" "btree_abs t idx" "nul_free k" "length (encs rs) < 2 ^ 31"
  shows "\<exists>r t' idx'. BTree_insert k (scast (offset rs)) t = Some (r, t') \<and>
    index_ok (rs @ [Put k v]) idx' (replay (rs @ [Put k v])) \<and> btree_abs t' idx'"
proof -
  from bti.ins_map [OF assms(2,3) offset_small [OF assms(4)]] obtain t' where
    "BTree_insert k (scast (offset rs)) t = Some (if idx k = None then 1 else 0, t')"
    "btree_abs t' (idx(k \<mapsto> offset rs))" by auto
  with index_ok_put [OF assms(1), of k v] show ?thesis by auto
qed

lemma index_remove:
  assumes "index_ok rs idx (replay rs)" "btree_abs t idx"
  shows "\<exists>t' idx'. BTree_remove k t = Some (if replay rs k = None then 0 else 1, t') \<and>
    index_ok (rs @ [Rm k]) idx' (replay (rs @ [Rm k])) \<and> btree_abs t' idx' \<and> idx' = idx(k := None)"
proof -
  from bti.del_map [OF assms(2)] obtain t' where
    "BTree_remove k t = Some (if idx k = None then 0 else 1, t')" "btree_abs t' (idx(k := None))" by blast
  with index_ok_rm [OF assms(1), of k] index_ok_None [OF assms(1), of k] show ?thesis by auto
qed

lemma read_enc:
  assumes "rec_ok r" "rest_of fp fs = enc r @ post"
  shows "read_key_value [] [] fp fs = (case r of Put k v \<Rightarrow> (1, k, v, adv (length (enc r)) fp)
    | Rm k \<Rightarrow> (0, k, [], adv (length (enc r)) fp))"
  using assms read_put_line [of _ _ fp fs post "[]" "[]"] read_remove_line [of _ fp fs post "[]" "[]"]
  by (cases r) simp_all

lemma rebuild_loop_correct:
  assumes "engine_at e rs" "recs_ok qs" "length (encs (rs @ qs)) < 2 ^ 31" "rest_of fp fs = encs qs @ tail"
    and "\<And>fp. rest_of fp fs = tail \<Longrightarrow> fst (read_key_value [] [] fp fs) = -1"
  shows "\<exists>e'. rebuild_loop fp fs e = Some e' \<and> engine_at e' (rs @ qs) \<and> log_filename e' = log_filename e"
  using assms(1-4)
proof (induction qs arbitrary: fp e rs)
  case Nil
  then have "fst (read_key_value [] [] fp fs) = -1" using assms(5) by simp
  then show ?case using Nil.prems(1)
    by (cases "read_key_value [] [] fp fs") (simp add: rebuild_loop.simps [of fp])
next
  case (Cons q qs)
  then obtain idx where i: "length (encs rs) < 2 ^ 31" "index_ok rs idx (replay rs)"
    "log_offset e = offset rs" "btree_abs (eng_btree e) idx" by (auto simp: engine_at_def)
  have q: "rec_ok q" "nul_free (rec_key q)" "recs_ok qs" using Cons.prems(2) by simp_all
  have r: "rest_of fp fs = enc q @ (encs qs @ tail)" using Cons.prems(4) by simp
  let ?fp = "adv (length (enc q)) fp"
  have r': "rest_of ?fp fs = encs qs @ tail" using r by simp
  have l: "length (encs (rs @ [q])) < 2 ^ 31" "length (encs ((rs @ [q]) @ qs)) < 2 ^ 31" using Cons.prems(3) by simp_all
  note step = Cons.IH [OF _ q(3) l(2) r']
  show ?case
  proof (cases q)
    case (Put k v)
    from index_insert [OF i(2,4), of k v] q(2) i(1) Put obtain x t' idx' where
      t': "BTree_insert k (scast (offset rs)) (eng_btree e) = Some (x, t')"
      "index_ok (rs @ [q]) idx' (replay (rs @ [q]))" "btree_abs t' idx'" by auto
    let ?e = "e\<lparr>eng_btree := t', log_offset := log_offset e + word_of_nat (16 + length k + length v)\<rparr>"
    have "engine_at ?e (rs @ [q])"
      using t'(2,3) l(1) i(3) unfolding engine_at_def
      by (intro exI [of _ idx']) (simp add: offset_snoc Put length_enc)
    from step [OF this] t'(1) i(3) show ?thesis
      using read_enc [OF q(1) r] by (subst rebuild_loop.simps) (simp add: Put)
  next
    case (Rm k)
    from index_remove [OF i(2,4), of k] Rm obtain x t' idx' where
      t': "BTree_remove k (eng_btree e) = Some (x, t')"
      "index_ok (rs @ [q]) idx' (replay (rs @ [q]))" "btree_abs t' idx'" by auto
    let ?e = "e\<lparr>eng_btree := t', log_offset := log_offset e + word_of_nat (16 + length k)\<rparr>"
    have "engine_at ?e (rs @ [q])"
      using t'(2,3) l(1) i(3) unfolding engine_at_def
      by (intro exI [of _ idx']) (simp add: offset_snoc Rm length_enc)
    from step [OF this] t'(1) i(3) show ?thesis
      using read_enc [OF q(1) r] by (subst rebuild_loop.simps) (simp add: Rm)
  qed
qed

lemma engine_at_view:
  "engine_at e rs \<Longrightarrow> recs_ok rs \<Longrightarrow> content fs (log_filename e) = encs rs @ tail \<Longrightarrow>
   engine_view e fs tail (replay rs)"
  unfolding engine_at_def engine_view_def by blast

lemma Engine_ctor_correct:
  assumes "content fs (path @ ''/log'') = encs rs @ tail" "recs_ok rs" "length (encs rs) < 2 ^ 31"
    and "\<And>fp. rest_of fp fs = tail \<Longrightarrow> fst (read_key_value [] [] fp fs) = -1"
  shows "\<exists>e. Engine_ctor path fs = Some e \<and> log_filename e = path @ ''/log'' \<and>
    engine_view e fs tail (replay rs)"
proof -
  let ?e = "\<lparr>log_filename = path @ ''/log'', eng_btree = BTree_ctor, log_offset = 0\<rparr>"
  have at: "engine_at ?e []" using ctor_abs by (auto simp: engine_at_def offset_def intro!: exI [of _ Map.empty])
  show ?thesis
  proof (cases "fs_files fs (path @ ''/log'')")
    case None
    then have "encs rs @ tail = []" using assms(1) by (simp add: content_def)
    moreover from this have "rs = []" using length_enc_ge [of "hd rs"] by (cases rs) auto
    ultimately show ?thesis using None at engine_at_view [OF at, of fs tail] assms(1)
      by (auto simp: Engine_ctor_def fs_access_def)
  next
    case (Some s)
    let ?fp = "\<lparr>fp_name = path @ ''/log'', fp_pos = 0\<rparr>"
    have "rest_of ?fp fs = encs rs @ tail" using assms(1) by (simp add: rest_of_def)
    from rebuild_loop_correct [OF at assms(2) _ this assms(4)] assms(3) obtain e where
      e: "rebuild_loop ?fp fs ?e = Some e" "engine_at e rs" "log_filename e = path @ ''/log''" by auto
    with engine_at_view [OF e(2) assms(2), of fs tail] assms(1) Some show ?thesis
      by (simp add: Engine_ctor_def rebuild_btree_def fs_access_def fopen_r_def)
  qed
qed

section \<open>Appending a record\<close>

definition room :: "engine \<Rightarrow> fsys \<Rightarrow> nat \<Rightarrow> bool" where
  "room e fs n \<longleftrightarrow> fs_writable fs \<and> n \<le> fs_free fs \<and> length (content fs (log_filename e)) + n < 2 ^ 31"

lemma append_line:
  assumes "fs_writable fs" "length line \<le> fs_free fs"
  obtains w w' fs' where "fopen_a name fs = Some (w, opened name fs)"
    "log_line line w (opened name fs) = Some (w', fs')" "fclose w' fs' = (0, appended name line fs)"
proof -
  let ?w = "\<lparr>wf_name = name, wf_buf = []\<rparr>"
  from log_line_room [of ?w "opened name fs" line] assms(2) obtain w' fs' where
    l: "log_line line ?w (opened name fs) = Some (w', fs')" by auto
  have "fs_access (wf_name ?w) (opened name fs)" by simp
  from wrote_closed(1) [OF log_line_wrote [OF l this] refl assms(2)] that l assms(1)
  show thesis by (simp add: fopen_a_def)
qed

text \<open>If the stream is closed without losing a byte, the whole line was appended.\<close>

lemma append_line_kept:
  assumes "fopen_a name fs = Some (w, fs1)" "log_line line w fs1 = Some (w', fs2)"
    and "\<not> fs_lost (snd (fclose w' fs2))"
  shows "snd (fclose w' fs2) = appended name line fs" "length line \<le> fs_free fs" "fs_writable fs" "\<not> fs_lost fs"
proof -
  from assms(1) have w: "w = \<lparr>wf_name = name, wf_buf = []\<rparr>" "fs1 = opened name fs" and "fs_writable fs"
    by (auto simp: fopen_a_def split: if_splits)
  then show "fs_writable fs" by simp
  have "fs_access (wf_name w) fs1" using w by simp
  from log_line_wrote [OF assms(2) this] w(2) have wr: "wrote line w (opened name fs) w' fs2" by simp
  from wrote_closed(2) [OF wr w(1) assms(3)] show l: "length line \<le> fs_free fs" "\<not> fs_lost fs" by simp_all
  from wrote_closed(1) [OF wr w(1) l(1)] show "snd (fclose w' fs2) = appended name line fs" by simp
qed

lemma Engine_put_correct:
  assumes "engine_abs e fs m" "nul_free k" "room e fs (rec_size k v)"
  shows "\<exists>e'. Engine_put k v e fs = Some (kSucc, e', appended (log_filename e) (put_line k v) fs) \<and>
    log_filename e' = log_filename e \<and>
    engine_abs e' (appended (log_filename e) (put_line k v) fs) (m(k \<mapsto> v))"
proof -
  let ?fs = "appended (log_filename e) (put_line k v) fs"
  from assms(1) obtain rs idx where i: "content fs (log_filename e) = encs rs" "length (encs rs) < 2 ^ 31"
    "recs_ok rs" "replay rs = m" "index_ok rs idx m" "log_offset e = offset rs" "btree_abs (eng_btree e) idx"
    by (auto simp: engine_view_def)
  have ok: "rec_ok (Put k v)" and l: "length (encs (rs @ [Put k v])) < 2 ^ 31"
    using assms(3) i(1) by (simp_all add: room_def rec_size_def length_put_line)
  obtain x t' idx' where t': "BTree_insert k (scast (offset rs)) (eng_btree e) = Some (x, t')"
    "index_ok (rs @ [Put k v]) idx' (replay (rs @ [Put k v]))" "btree_abs t' idx'"
    using index_insert [of rs idx "eng_btree e" k v] i assms(2) by auto
  let ?e = "e\<lparr>eng_btree := t', log_offset := log_offset e + word_of_nat (length (put_line k v))\<rparr>"
  have "fs_writable fs" "length (put_line k v) \<le> fs_free fs"
    using assms(3) by (simp_all add: room_def length_put_line)
  from append_line [OF this, of "log_filename e"] obtain w w' fs' where
    "fopen_a (log_filename e) fs = Some (w, opened (log_filename e) fs)"
    "log_line (put_line k v) w (opened (log_filename e) fs) = Some (w', fs')" "fclose w' fs' = (0, ?fs)" by metis
  then have "Engine_put k v e fs = Some (kSucc, ?e, ?fs)"
    using t'(1) i(6) by (simp add: Engine_put_def Let_def)
  moreover have "engine_at ?e (rs @ [Put k v])"
    using t'(2,3) l i(6) unfolding engine_at_def by (intro exI [of _ idx']) (simp add: offset_snoc)
  then have "engine_abs ?e ?fs (replay (rs @ [Put k v]))"
    using i(1,3) ok assms(2) by (intro engine_at_view) simp_all
  ultimately show ?thesis using i(4) by auto
qed

lemma Engine_remove_correct:
  assumes "engine_abs e fs m"
  shows "m k = None \<Longrightarrow> \<exists>e'. Engine_remove k e fs = Some (kNotFound, e', fs) \<and>
      log_filename e' = log_filename e \<and> engine_abs e' fs m"
    and "m k \<noteq> None \<Longrightarrow> nul_free k \<Longrightarrow> room e fs (rec_size k []) \<Longrightarrow>
      \<exists>e'. Engine_remove k e fs = Some (kSucc, e', appended (log_filename e) (remove_line k) fs) \<and>
        log_filename e' = log_filename e \<and>
        engine_abs e' (appended (log_filename e) (remove_line k) fs) (m(k := None))"
proof -
  from assms obtain rs idx where i: "content fs (log_filename e) = encs rs" "length (encs rs) < 2 ^ 31"
    "recs_ok rs" "replay rs = m" "index_ok rs idx m" "log_offset e = offset rs" "btree_abs (eng_btree e) idx"
    by (auto simp: engine_view_def)
  obtain t' idx' where t': "BTree_remove k (eng_btree e) = Some (if m k = None then 0 else 1, t')"
    "index_ok (rs @ [Rm k]) idx' (replay (rs @ [Rm k]))" "btree_abs t' idx'" "idx' = idx(k := None)"
    using index_remove [of rs idx "eng_btree e" k] i by auto
  { assume n: "m k = None"
    then have "idx' = idx" using t'(4) index_ok_None [OF i(5), of k] by (simp add: fun_upd_idem)
    then have "engine_abs (e\<lparr>eng_btree := t'\<rparr>) fs m" using i t'(3) unfolding engine_view_def by auto
    then show "\<exists>e'. Engine_remove k e fs = Some (kNotFound, e', fs) \<and> log_filename e' = log_filename e \<and>
        engine_abs e' fs m"
      using t'(1) n by (auto simp: Engine_remove_def) }
  assume n: "m k \<noteq> None" and k: "nul_free k" and r: "room e fs (rec_size k [])"
  let ?fs = "appended (log_filename e) (remove_line k) fs"
  let ?e = "e\<lparr>eng_btree := t', log_offset := log_offset e + word_of_nat (length (remove_line k))\<rparr>"
  have ok: "rec_ok (Rm k)" and l: "length (encs (rs @ [Rm k])) < 2 ^ 31"
    using r i(1) by (simp_all add: room_def rec_size_def length_enc)
  have "fs_writable fs" "length (remove_line k) \<le> fs_free fs"
    using r by (simp_all add: room_def length_enc rec_size_def)
  from append_line [OF this, of "log_filename e"] obtain w w' fs' where
    "fopen_a (log_filename e) fs = Some (w, opened (log_filename e) fs)"
    "log_line (remove_line k) w (opened (log_filename e) fs) = Some (w', fs')" "fclose w' fs' = (0, ?fs)" by metis
  then have "Engine_remove k e fs = Some (kSucc, ?e, ?fs)"
    using t'(1) n i(6) by (simp add: Engine_remove_def Let_def)
  moreover have "engine_at ?e (rs @ [Rm k])"
    using t'(2,3) l i(6) unfolding engine_at_def by (intro exI [of _ idx']) (simp add: offset_snoc)
  then have "engine_abs ?e ?fs (replay (rs @ [Rm k]))"
    using i(1,3) ok k by (intro engine_at_view) simp_all
  ultimately show "\<exists>e'. Engine_remove k e fs = Some (kSucc, e', ?fs) \<and> log_filename e' = log_filename e \<and>
      engine_abs e' ?fs (m(k := None))" using i(4) by auto
qed

section \<open>Reading\<close>

lemma Engine_get_correct:
  assumes "engine_view e fs tail m"
  shows "Engine_get k v0 e fs = Some (case m k of None \<Rightarrow> (kNotFound, v0) | Some v \<Rightarrow> (kSucc, v))"
proof -
  from assms obtain rs idx where i: "content fs (log_filename e) = encs rs @ tail" "length (encs rs) < 2 ^ 31"
    "recs_ok rs" "index_ok rs idx m" "btree_abs (eng_btree e) idx" by (auto simp: engine_view_def)
  have s: "BTree_search (eng_btree e) k = Some (case idx k of None \<Rightarrow> -1 | Some d \<Rightarrow> scast d)"
    by (rule bti.look_map [OF i(5)])
  show ?thesis
  proof (cases "m k")
    case None
    then show ?thesis using s index_ok_None [OF i(4), of k] by (simp add: Engine_get_def)
  next
    case (Some v)
    from read_indexed [OF i(1-4) Some] obtain pre post where p: "idx k = Some (offset pre)"
      "length (encs pre) < 2 ^ 31"
      "\<And>fp. fp_name fp = log_filename e \<Longrightarrow> rest_of (fseek (int (length (encs pre))) fp) fs = put_line k v @ post"
      "rec_ok (Put k v)" by blast
    from view_file [OF assms] Some obtain str where f: "fs_files fs (log_filename e) = Some str" by fastforce
    let ?fp = "fseek (int (length (encs pre))) \<lparr>fp_name = log_filename e, fp_pos = 0\<rparr>"
    have "read_key_value [] [] ?fp fs = (1, [] @ k, [] @ v, adv (length (put_line k v)) ?fp)"
      using p(3,4) by (intro read_put_line) (simp_all del: fseek_pos)
    then show ?thesis
      using s p(1,2) Some f scast_small_neq [OF p(2)]
      by (simp add: Engine_get_def fopen_r_Some offset_def sint_scast_small del: fseek_pos)
  qed
qed

text \<open>
  Whatever follows the records of the log, a \<^verbatim>\<open>put\<close> indexes the end of these records, and \<^verbatim>\<open>get\<close> reads
  there.
\<close>

lemma put_indexed:
  assumes "engine_view e fs tail m" "nul_free k"
  obtains r t pre where "BTree_insert k (scast (log_offset e)) (eng_btree e) = Some (r, t)"
    "content fs (log_filename e) = pre @ tail" "length pre < 2 ^ 31"
    "BTree_search t k = Some (scast (word_of_nat (length pre) :: 32 word))"
proof -
  from assms(1) obtain rs idx where i: "content fs (log_filename e) = encs rs @ tail" "length (encs rs) < 2 ^ 31"
    "log_offset e = offset rs" "btree_abs (eng_btree e) idx" by (auto simp: engine_view_def)
  from bti.ins_map [OF i(4) assms(2) offset_small [OF i(2)]] i(3) obtain r t where
    t: "BTree_insert k (scast (log_offset e)) (eng_btree e) = Some (r, t)" "btree_abs t (idx(k \<mapsto> offset rs))" by auto
  have "BTree_search t k = Some (scast (offset rs))" using bti.look_map [OF t(2), of k] by simp
  with that [OF t(1) i(1,2)] show thesis by (simp add: offset_def)
qed

lemma get_reads_at:
  assumes "BTree_search (eng_btree e) k = Some (scast (word_of_nat n :: 32 word))" "n < 2 ^ 31"
    "fs_access (log_filename e) fs"
  shows "Engine_get k u e fs = (let (ret, k', v', fp) = read_key_value [] [] \<lparr>fp_name = log_filename e, fp_pos = n\<rparr> fs in
    if ret \<noteq> 1 then None else Some (kSucc, v'))"
  using assms scast_small_neq [OF assms(2)] by (simp add: Engine_get_def fopen_r_def sint_scast_small Let_def)

section \<open>A full disk\<close>

text \<open>
  A record of less than a block stays in the buffer of the stream, and \<^verbatim>\<open>fclose\<close> loses it; a longer
  one is never taken.
\<close>

lemma append_line_full:
  assumes "fs_writable fs" "fs_free fs = 0" "line \<noteq> []"
  obtains w where "fopen_a name fs = Some (w, opened name fs)"
    "length line < bufsiz \<Longrightarrow> log_line line w (opened name fs) = Some (w\<lparr>wf_buf := line\<rparr>, opened name fs)"
    "fclose (w\<lparr>wf_buf := line\<rparr>) (opened name fs) = (-1, (opened name fs)\<lparr>fs_lost := True\<rparr>)"
    "bufsiz \<le> length line \<Longrightarrow> log_line line w (opened name fs) = None"
proof -
  let ?w = "\<lparr>wf_name = name, wf_buf = []\<rparr>"
  have "fopen_a name fs = Some (?w, opened name fs)" using assms(1) by (simp add: fopen_a_def)
  moreover have "fclose (?w\<lparr>wf_buf := line\<rparr>) (opened name fs) = (-1, (opened name fs)\<lparr>fs_lost := True\<rparr>)"
    using assms(2,3) by (simp add: fclose_full)
  ultimately show thesis using that log_line_small [of line ?w "opened name fs"] log_line_full [of line "opened name fs" ?w] assms(2)
    by simp
qed

section \<open>Durability\<close>

text \<open>\<^verbatim>\<open>sync\<close> makes the contents of the log durable, and not its name.\<close>

lemma Engine_sync_correct:
  assumes "engine_abs e fs m" "fs_writable fs"
  shows "\<exists>fs'. Engine_sync e fs = Some (if fs_sync_ok fs then kSucc else kIOError, e, fs') \<and> engine_abs e fs' m \<and>
    fs_access (log_filename e) fs' \<and>
    (fs_sync_ok fs \<longrightarrow> fs_synced fs' (log_filename e) = length (content fs' (log_filename e))) \<and>
    fs_named fs' (log_filename e) = (fs_access (log_filename e) fs \<and> fs_named fs (log_filename e)) \<and>
    fs_free fs' = fs_free fs \<and> fs_writable fs' \<and> fs_sync_ok fs' = fs_sync_ok fs \<and> fs_lost fs' = fs_lost fs \<and>
    (\<forall>a. content fs' a = content fs a)"
proof -
  let ?name = "log_filename e" and ?w = "\<lparr>wf_name = log_filename e, wf_buf = []\<rparr>"
  let ?fs = "opened ?name fs"
  let ?fs' = "snd (fs_fsync ?w ?fs)"
  have f: "fs_files ?fs' = fs_files ?fs" "fs_named ?fs' = fs_named ?fs" "fs_free ?fs' = fs_free fs" "fs_writable ?fs'"
    "fs_sync_ok ?fs' = fs_sync_ok fs" "fs_lost ?fs' = fs_lost fs"
    "fs_sync_ok fs \<Longrightarrow> fs_synced ?fs' ?name = length (content fs ?name)"
    using assms(2) by (simp_all add: fs_fsync_def)
  have c: "\<forall>a. content ?fs' a = content fs a" using opened_simps(1) [of ?name fs] f(1) by (simp add: content_def)
  have acc: "fs_access ?name ?fs'" using opened_simps(2) [of ?name fs] f(1) by (simp add: fs_access_def)
  have n: "fs_named ?fs' ?name = (fs_access ?name fs \<and> fs_named fs ?name)" unfolding f(2) by (simp add: opened_def)
  have "fclose ?w ?fs' = (0, ?fs')" using acc by (simp add: fclose_room)
  then have "Engine_sync e fs = Some (if fs_sync_ok fs then kSucc else kIOError, e, ?fs')"
    using assms(2) by (auto simp: Engine_sync_def fopen_a_def fs_fsync_def)
  moreover have "engine_abs e ?fs' m" using assms(1) c unfolding engine_view_def by simp
  ultimately show ?thesis using c f acc n by auto
qed

text \<open>What is on the disk is read by the next start.\<close>

lemma survives_all: "survives (length s) s s' \<longleftrightarrow> s' = s"
  by (auto simp: survives_def)

end
