(* ===== verification/Engine_Walk.thy ===== *)
theory Engine_Walk
  imports Engine_Correct
begin

text \<open>
  The operations that walk the chain of leaves and read the record of every key: \<^verbatim>\<open>visit\<close>
  calls the visitor on exactly the keys of the range in ascending order, and the garbage
  collection writes the live records to a new log and moves the index there.
\<close>

section \<open>Reading through the index\<close>

definition reads_put :: "fsys \<Rightarrow> string \<Rightarrow> (string \<Rightarrow> string) \<Rightarrow> string \<times> 32 word \<Rightarrow> bool" where
  "reads_put fs name val e \<longleftrightarrow> rec_ok (Put (fst e) (val (fst e))) \<and>
     (\<forall>fp. fp_name fp = name \<longrightarrow>
       (\<exists>post. rest_of (fseek (sint (snd e)) fp) fs = put_line (fst e) (val (fst e)) @ post))"

lemma fseek_name [simp]: "fp_name (fseek d fp) = fp_name fp"
  by (simp add: fseek_def)

lemma reads_put_content:
  "reads_put fs name val e \<Longrightarrow> content fs' name = content fs name \<Longrightarrow> reads_put fs' name val e"
  by (simp add: reads_put_def rest_of_def)

lemma reads_put_read:
  assumes "reads_put fs name val (k, d)" "fp_name fp = name"
  shows "\<exists>fp'. read_key_value [] [] (fseek (sint d) fp) fs = (1, k, val k, fp') \<and> fp_name fp' = name"
    and "\<exists>fp'. read_line [] (fseek (sint d) fp) fs = (put_line k (val k), fp') \<and> fp_name fp' = name"
proof -
  from assms obtain post where "rest_of (fseek (sint d) fp) fs = put_line k (val k) @ post"
    and l: "length k + length (val k) < 2 ^ 64 - 1" by (auto simp: reads_put_def)
  note r = l this(1)
  show "\<exists>fp'. read_key_value [] [] (fseek (sint d) fp) fs = (1, k, val k, fp') \<and> fp_name fp' = name"
    using read_put_line [OF r, of "[]" "[]"] assms(2) by simp
  show "\<exists>fp'. read_line [] (fseek (sint d) fp) fs = (put_line k (val k), fp') \<and> fp_name fp' = name"
    using read_line_put [OF r, of "[]"] assms(2) by simp
qed

lemma view_reads:
  assumes "engine_view e fs tail m"
  obtains T where "btree_rep (eng_btree e) T" "dom m = set (keys_of T)" "\<forall>k\<in>dom m. nul_free k"
    "live_size m < 2 ^ 31" "bt_size (eng_btree e) = word_of_nat (length (entries T))"
    "\<forall>x\<in>set (entries T). reads_put fs (log_filename e) (\<lambda>k. the (m k)) x"
proof -
  from assms obtain rs idx where i: "content fs (log_filename e) = encs rs @ tail" "length (encs rs) < 2 ^ 31"
    "recs_ok rs" "index_ok rs idx m" "btree_abs (eng_btree e) idx" "replay rs = m"
    by (auto simp: engine_view_def)
  then obtain T where T: "btree_rep (eng_btree e) T" "map_of (entries T) = idx"
    "bt_size (eng_btree e) = word_of_nat (length (entries T))" by (auto simp: btree_abs_def)
  have d: "distinct (keys_of T)" using T(1) by (simp add: btree_rep_def root_distinct)
  have r: "reads_put fs (log_filename e) (\<lambda>k. the (m k)) (k, d)" if "(k, d) \<in> set (entries T)" for k d
  proof -
    have k: "idx k = Some d" using that d T(2) by auto
    then obtain v where v: "m k = Some v" using index_ok_None [OF i(4), of k] by auto
    from read_indexed [OF i(1-4) v] obtain pre post where p: "idx k = Some (offset pre)"
      "length (encs pre) < 2 ^ 31"
      "\<And>fp. fp_name fp = log_filename e \<Longrightarrow> rest_of (fseek (int (length (encs pre))) fp) fs = put_line k v @ post"
      "rec_ok (Put k v)" by blast
    then have "sint d = int (length (encs pre))" using k by (simp add: offset_def sint_small)
    with p(3,4) v show ?thesis by (auto simp: reads_put_def simp del: fseek_pos)
  qed
  have dm: "dom m = set (keys_of T)"
    using i(4) T(2) by (metis dom_map_of_conv_image_fst index_ok_def set_map)
  have nf: "nul_free k" if "m k = Some v" for k v
  proof -
    from i(4) that obtain pre post where "rs = pre @ Put k v # post" unfolding index_ok_def by blast
    then show ?thesis using i(3) by simp
  qed
  have lv: "live_size m < 2 ^ 31" using live_size_replay [of rs] i(2,6) by simp
  show thesis by (rule that [OF T(1) dm _ lv T(3)]) (use r nf in auto)
qed

section \<open>Visiting\<close>

definition visit_all :: "(string \<Rightarrow> string \<Rightarrow> 'u \<Rightarrow> 'u) \<Rightarrow> (string \<Rightarrow> string) \<Rightarrow>
    (string \<times> 32 word) list \<Rightarrow> 'u \<Rightarrow> 'u" where
  "visit_all visitor val es u = fold (\<lambda>(k, d). visitor k (val k)) es u"

lemma visit_all_simps [simp]:
  "visit_all visitor val [] u = u"
  "visit_all visitor val ((k, d) # es) u = visit_all visitor val es (visitor k (val k) u)"
  "visit_all visitor val (es @ es') u = visit_all visitor val es' (visit_all visitor val es u)"
  by (simp_all add: visit_all_def)

lemma visit_keys_correct:
  assumes "key n = ks" "data n = ds" "length ds = length ks"
    and "\<forall>x\<in>set (drop i (zip ks ds)). reads_put fs name val x" "fp_name fp = name"
  shows "\<exists>fp'. visit_keys upper visitor fs n i fp u =
      Some (\<exists>x\<in>set (drop i (zip ks ds)). upper < fst x, fp',
        visit_all visitor val (takeWhile (\<lambda>x. fst x \<le> upper) (drop i (zip ks ds))) u) \<and> fp_name fp' = name"
  using assms(4,5)
proof (induction "length ks - i" arbitrary: i fp u)
  case 0
  then show ?case using assms(1-3) by (subst visit_keys.simps) simp
next
  case (Suc j)
  then have i: "i < length ks" by simp
  then have d: "drop i (zip ks ds) = (ks ! i, ds ! i) # drop (Suc i) (zip ks ds)"
    using assms(3) by (metis Cons_nth_drop_Suc length_zip min.idem nth_zip)
  show ?case
  proof (cases "upper < ks ! i")
    case True
    then have "\<not> ks ! i \<le> upper" by (simp add: not_le)
    with True show ?thesis using i assms(1) Suc.prems(2) d by (subst visit_keys.simps) simp
  next
    case False
    then have le: "ks ! i \<le> upper" by simp
    from Suc.prems(1) d have "reads_put fs name val (ks ! i, ds ! i)" by simp
    from reads_put_read(1) [OF this Suc.prems(2)] obtain fp1 where
      fp1: "read_key_value [] [] (fseek (sint (ds ! i)) fp) fs = (1, ks ! i, val (ks ! i), fp1)" "fp_name fp1 = name"
      by blast
    have "j = length ks - Suc i" "\<forall>x\<in>set (drop (Suc i) (zip ks ds)). reads_put fs name val x"
      using Suc.hyps(2) Suc.prems(1) d by simp_all
    from Suc.hyps(1) [OF this fp1(2), of "visitor (ks ! i) (val (ks ! i)) u"] False le i assms(1-3) fp1(1) d
    show ?thesis by (subst visit_keys.simps) (simp add: at_Some)
  qed
qed

lemma visit_leaves_correct:
  assumes "chain (bt_heap t) ((p, ks, ds) # ls)" "\<forall>(p, ks, ds)\<in>set ((p, ks, ds) # ls). length ds = length ks"
    and "\<forall>x\<in>set (drop i (zip ks ds) @ pairs ls). reads_put fs name val x" "fp_name fp = name"
  shows "\<exists>fp'. visit_leaves t upper visitor fs p i fp u =
    Some (fp', visit_all visitor val (takeWhile (\<lambda>x. fst x \<le> upper) (drop i (zip ks ds) @ pairs ls)) u)"
  using assms
proof (induction ls arbitrary: p ks ds i fp u)
  case (Cons l ls)
  obtain q kq dq where l: "l = (q, kq, dq)" by (cases l)
  from Cons.prems(1) obtain par a where n: "p \<noteq> 0" "bt_heap t p = Some (leaf_node par ks ds a q)"
    and c: "chain (bt_heap t) (l # ls)" by (auto simp: l)
  let ?n = "leaf_node par ks ds a q" and ?z = "drop i (zip ks ds)"
  from visit_keys_correct [of ?n ks ds i fs name val fp upper visitor u] Cons.prems(2-4) obtain fp' where
    v: "visit_keys upper visitor fs ?n i fp u = Some (\<exists>x\<in>set ?z. upper < fst x, fp',
      visit_all visitor val (takeWhile (\<lambda>x. fst x \<le> upper) ?z) u)" "fp_name fp' = name" by auto
  show ?case
  proof (cases "\<exists>x\<in>set ?z. upper < fst x")
    case True
    then have "takeWhile (\<lambda>x. fst x \<le> upper) (?z @ pairs (l # ls)) = takeWhile (\<lambda>x. fst x \<le> upper) ?z"
      by (metis not_le takeWhile_append1)
    with True n v show ?thesis by (subst visit_leaves.simps) (simp add: node_at_def)
  next
    case False
    then have z: "takeWhile (\<lambda>x. fst x \<le> upper) ?z = ?z" by (auto simp: takeWhile_eq_all_conv not_less)
    then have "takeWhile (\<lambda>x. fst x \<le> upper) (?z @ pairs (l # ls)) =
        ?z @ takeWhile (\<lambda>x. fst x \<le> upper) (pairs (l # ls))" by (simp add: takeWhile_append2 takeWhile_eq_all_conv)
    moreover from Cons.IH [of q kq dq 0 fp' "visit_all visitor val ?z u"] c v(2) Cons.prems(2,3) obtain fp'' where
      "visit_leaves t upper visitor fs q 0 fp' (visit_all visitor val ?z u) =
        Some (fp'', visit_all visitor val (takeWhile (\<lambda>x. fst x \<le> upper) (pairs (l # ls))) (visit_all visitor val ?z u))"
      by (auto simp: l)
    moreover have "(\<exists>x\<in>set ?z. upper < fst x) = False" using False by blast
    ultimately show ?thesis using n v(1) z by (subst visit_leaves.simps) (simp add: node_at_def)
  qed
next
  case Nil
  from Nil.prems(1) obtain par a where n: "p \<noteq> 0" "bt_heap t p = Some (leaf_node par ks ds a 0)" by auto
  from visit_keys_correct [of "leaf_node par ks ds a 0" ks ds i fs name val fp upper visitor u] Nil.prems(2-4) n
  show ?case
    by (subst visit_leaves.simps) (auto simp: node_at_def visit_leaves.simps [of t upper visitor fs 0])
qed

text \<open>The keys of the map within both bounds, in ascending order.\<close>

definition keys_in :: "(string \<rightharpoonup> string) \<Rightarrow> string \<Rightarrow> string \<Rightarrow> string list" where
  "keys_in m lower upper = sorted_list_of_set {k \<in> dom m. lower \<le> k \<and> k \<le> upper}"

lemma takeWhile_filter_sorted:
  "sorted_wrt (<) (map fst xs) \<Longrightarrow>
   takeWhile (\<lambda>x. fst x \<le> b) xs = filter (\<lambda>x. fst x \<le> (b :: 'a::linorder)) xs"
proof (induction xs)
  case (Cons x xs)
  then have "filter (\<lambda>x. fst x \<le> b) xs = []" if "\<not> fst x \<le> b"
    using that by (fastforce simp: filter_empty_conv)
  with Cons show ?case by simp
qed simp

lemma keys_in_entries:
  assumes "sorted_wrt (<) (map fst xs)" "dom m = set (map fst xs)"
  shows "keys_in m lower upper = map fst (filter (\<lambda>x. lower \<le> fst x \<and> fst x \<le> upper) xs)"
proof (rule strict_sorted_equal)
  show "sorted_wrt (<) (map fst (filter (\<lambda>x. lower \<le> fst x \<and> fst x \<le> upper) xs))"
    using assms(1) by (simp add: sorted_wrt_map sorted_wrt_filter)
  show "set (keys_in m lower upper) = set (map fst (filter (\<lambda>x. lower \<le> fst x \<and> fst x \<le> upper) xs))"
    unfolding keys_in_def assms(2) by auto
qed (simp add: keys_in_def)

lemma Engine_visit_correct:
  assumes "engine_view e fs tail m" "fs_files fs (log_filename e) = Some s"
  shows "Engine_visit lower upper visitor u e fs =
    Some (kSucc, fold (\<lambda>k. visitor k (the (m k))) (keys_in m lower upper) u)"
proof -
  from view_reads [OF assms(1)] obtain T where T: "btree_rep (eng_btree e) T" "dom m = set (keys_of T)"
    "\<forall>x\<in>set (entries T). reads_put fs (log_filename e) (\<lambda>k. the (m k)) x" by metis
  from search_enters_chain [OF T(1), of lower] obtain r p ks ds ms i idx where
    s: "search_hot (eng_btree e) lower = Some (r, p, idx @ [i])" and
    c: "chain (bt_heap (eng_btree e)) ((p, ks, ds) # ms)" "set ((p, ks, ds) # ms) \<subseteq> set (leaf_list T)" and
    z: "drop i (zip ks ds) @ pairs ms = filter (\<lambda>(x, d). lower \<le> x) (entries T)" by metis
  let ?es = "filter (\<lambda>(x, d). lower \<le> x) (entries T)" and ?val = "\<lambda>k. the (m k)"
  let ?xs = "takeWhile (\<lambda>x. fst x \<le> upper) ?es"
  have srt: "sorted_wrt (<) (keys_of T)" using T(1) by (simp add: btree_rep_def root_sorted)
  have f: "?xs = filter (\<lambda>x. lower \<le> fst x \<and> fst x \<le> upper) (entries T)"
    using srt by (subst takeWhile_filter_sorted)
      (simp_all add: sorted_wrt_filter sorted_wrt_map split_beta conj_commute)
  have "keys_in m lower upper = map fst ?xs" unfolding f by (rule keys_in_entries [OF srt T(2)])
  then have u: "fold (\<lambda>k. visitor k (?val k)) (keys_in m lower upper) u = visit_all visitor ?val ?xs u"
    by (simp add: visit_all_def fold_map comp_def case_prod_unfold)
  have "\<forall>(p, ks, ds)\<in>set ((p, ks, ds) # ms). length ds = length ks"
    using c(2) rep_leaf_lengths [OF T(1)] by blast
  moreover have "\<forall>x\<in>set (drop i (zip ks ds) @ pairs ms). reads_put fs (log_filename e) ?val x"
    unfolding z using T(3) by simp
  ultimately obtain fp' where "visit_leaves (eng_btree e) upper visitor fs p i
      \<lparr>fp_name = log_filename e, fp_pos = 0\<rparr> u = Some (fp', visit_all visitor ?val ?xs u)"
    using visit_leaves_correct [OF c(1), of i fs "log_filename e" ?val "\<lparr>fp_name = log_filename e, fp_pos = 0\<rparr>"
        upper visitor u] unfolding z by auto
  then show ?thesis using s assms(2) by (simp add: Engine_visit_def fopen_r_Some u)
qed

section \<open>Garbage collection\<close>

text \<open>The live records in the order of the leaves, and the new offset of every key.\<close>

definition puts :: "(string \<Rightarrow> string) \<Rightarrow> (string \<times> 32 word) list \<Rightarrow> log_rec list" where
  "puts val es = map (\<lambda>(k, d). Put k (val k)) es"

definition offs_of :: "(string \<Rightarrow> string) \<Rightarrow> (string \<times> 32 word) list \<Rightarrow> 64 word list" where
  "offs_of val es = map (\<lambda>i. word_of_nat (length (encs (puts val (take i es))))) [0..<length es]"

definition new_offset :: "(string \<Rightarrow> string) \<Rightarrow> (string \<times> 32 word) list \<Rightarrow> string \<Rightarrow> 32 word" where
  "new_offset val es k = offset (puts val (takeWhile (\<lambda>x. fst x \<noteq> k) es))"

lemma puts_simps [simp]:
  "puts val [] = []" "puts val ((k, d) # es) = Put k (val k) # puts val es"
  "puts val (es @ es') = puts val es @ puts val es'"
  by (simp_all add: puts_def)

lemma offs_of_snoc: "offs_of val (es @ [x]) = offs_of val es @ [word_of_nat (length (encs (puts val es)))]"
  by (auto simp: offs_of_def)

lemma length_offs_of [simp]: "length (offs_of val es) = length es"
  by (simp add: offs_of_def)

lemma ucast_word_of_nat: "(ucast (word_of_nat n :: 64 word) :: 32 word) = word_of_nat n"
  by (rule bit_word_eqI) (simp add: bit_simps)

lemma offs_of_nth:
  assumes "distinct (map fst es)" "i < length es"
  shows "ucast (offs_of val es ! i) = new_offset val es (fst (es ! i))"
proof -
  have "takeWhile (\<lambda>x. fst x \<noteq> fst (es ! i)) es = take i es"
    using assms nth_eq_iff_index_eq [OF assms(1)] by (intro takeWhile_eq_take_P_nth) (auto simp: less_imp_neq)
  then show ?thesis using assms(2) by (simp add: offs_of_def new_offset_def ucast_word_of_nat offset_def)
qed

text \<open>
  The copying loops.  \<open>gc_rel val name name1 fs es s\<close>: since the new log \<open>name1\<close> was opened in \<open>fs\<close>, its
  stream has taken the records of \<open>es\<close>, some of them may still be in its buffer.
\<close>

definition gc_rel :: "(string \<Rightarrow> string) \<Rightarrow> string \<Rightarrow> string \<Rightarrow> fsys \<Rightarrow> (string \<times> 32 word) list \<Rightarrow> gc_state \<Rightarrow> bool" where
  "gc_rel val name name1 fs es s \<longleftrightarrow> (case s of (r, w, fs', offs, off) \<Rightarrow> fp_name r = name \<and>
     wrote (encs (puts val es)) \<lparr>wf_name = name1, wf_buf = []\<rparr> (opened name1 fs) w fs' \<and>
     offs = offs_of val es \<and> off = word_of_nat (length (encs (puts val es))))"

lemma wrote_content: "wrote p w fs w' fs' \<Longrightarrow> a \<noteq> wf_name w \<Longrightarrow> content fs' a = content fs a"
  by (auto simp: wrote_def)

lemma gc_copy_entry_step:
  assumes "name \<noteq> name1" "gc_rel val name name1 fs es s" "reads_put fs name val (k, d)" "at (data n) i = Some d"
  shows "gc_copy_entry n i s = Some s' \<Longrightarrow> gc_rel val name name1 fs (es @ [(k, d)]) s'"
    and "length (encs (puts val (es @ [(k, d)]))) \<le> fs_free fs \<Longrightarrow> \<exists>s'. gc_copy_entry n i s = Some s'"
proof -
  let ?w0 = "\<lparr>wf_name = name1, wf_buf = []\<rparr>" and ?fs0 = "opened name1 fs" and ?l = "put_line k (val k)"
  obtain r w fs1 offs off where s: "s = (r, w, fs1, offs, off)" by (cases s)
  with assms(2) have r: "fp_name r = name" and w: "wrote (encs (puts val es)) ?w0 ?fs0 w fs1"
    and o: "offs = offs_of val es" "off = word_of_nat (length (encs (puts val es)))" by (simp_all add: gc_rel_def)
  have name: "wf_name w = name1" using w by (simp add: wrote_def)
  have acc: "fs_access (wf_name w) fs1" by (rule wrote_access [OF w])
  have "reads_put fs1 name val (k, d)"
    using assms(1,3) wrote_content [OF w, of name] by (auto intro: reads_put_content)
  from reads_put_read(2) [OF this r] obtain r' where
    r': "read_line [] (fseek (sint d) r) fs1 = (?l, r')" "fp_name r' = name" by blast
  show "gc_rel val name name1 fs (es @ [(k, d)]) s'" if e: "gc_copy_entry n i s = Some s'"
  proof -
    from e r' assms(4) obtain w' fs2 where l: "log_line ?l w fs1 = Some (w', fs2)"
      "s' = (r', w', fs2, offs @ [off], off + word_of_nat (length ?l))"
      by (auto simp: gc_copy_entry_def s bind_eq_Some_conv)
    from wrote_append [OF w log_line_wrote [OF l(1) acc]] l(2) r'(2) o show ?thesis by (simp add: gc_rel_def offs_of_snoc)
  qed
  assume "length (encs (puts val (es @ [(k, d)]))) \<le> fs_free fs"
  then have "length (wf_buf w) + length ?l \<le> fs_free fs1" using wrote_total [OF w] by simp
  from log_line_room [OF acc this] r' assms(4) show "\<exists>s'. gc_copy_entry n i s = Some s'"
    by (auto simp: gc_copy_entry_def s)
qed

lemma gc_copy_leaf:
  assumes "name \<noteq> name1" "gc_rel val name name1 fs es s" "key n = ks" "data n = ds" "length ds = length ks"
    and "\<forall>x\<in>set (zip ks ds). reads_put fs name val x"
  shows "for_up 0 (length ks) (gc_copy_entry n) s = Some s' \<Longrightarrow> gc_rel val name name1 fs (es @ zip ks ds) s'"
    and "length (encs (puts val (es @ zip ks ds))) \<le> fs_free fs \<Longrightarrow> \<exists>s'. for_up 0 (length ks) (gc_copy_entry n) s = Some s'"
proof -
  let ?P = "\<lambda>i. gc_rel val name name1 fs (es @ take i (zip ks ds))"
  have t: "take (Suc i) (zip ks ds) = take i (zip ks ds) @ [(ks ! i, ds ! i)]" if "i < length ks" for i
    using that assms(5) by (simp add: take_Suc_conv_app_nth)
  have rd: "reads_put fs name val (ks ! i, ds ! i)" "at (data n) i = Some (ds ! i)" if "i < length ks" for i
    using that assms(4-6) nth_mem [of i "zip ks ds"] by (simp_all add: at_Some)
  have step: "?P (Suc i) s2" if "i < length ks" "?P i s1" "gc_copy_entry n i s1 = Some s2" for i s1 s2
    using gc_copy_entry_step(1) [OF assms(1) that(2) rd [OF that(1)] that(3)] t [OF that(1)] by simp
  show "gc_rel val name name1 fs (es @ zip ks ds) s'" if "for_up 0 (length ks) (gc_copy_entry n) s = Some s'"
    using for_up_returned [where P = ?P, OF that] assms(2,5) step by simp
  assume room: "length (encs (puts val (es @ zip ks ds))) \<le> fs_free fs"
  have fits: "length (encs (puts val (es @ take i (zip ks ds)))) \<le> fs_free fs" for i
  proof -
    have "encs (puts val (zip ks ds)) = encs (puts val (take i (zip ks ds))) @ encs (puts val (drop i (zip ks ds)))"
      by (metis append_take_drop_id encs_simps(3) puts_simps(3))
    with room show ?thesis by simp
  qed
  have "\<exists>s2. gc_copy_entry n i s1 = Some s2 \<and> ?P (Suc i) s2" if "i < length ks" "?P i s1" for i s1
    using gc_copy_entry_step(2) [OF assms(1) that(2) rd [OF that(1)]] fits [of "Suc i"] t [OF that(1)] step [OF that]
    by auto
  with for_up_inv [where P = ?P, of 0 "length ks" "gc_copy_entry n" s] assms(2)
  show "\<exists>s'. for_up 0 (length ks) (gc_copy_entry n) s = Some s'" by auto
qed

lemma gc_copy_leaves_correct:
  assumes "name \<noteq> name1" "chain (bt_heap t) ls" "\<forall>(p, ks, ds)\<in>set ls. length ds = length ks"
    and "\<forall>x\<in>set (pairs ls). reads_put fs name val x" "gc_rel val name name1 fs es s"
  shows "(\<forall>s'. gc_copy_leaves t (start ls) s = Some s' \<longrightarrow> gc_rel val name name1 fs (es @ pairs ls) s') \<and>
    (length (encs (puts val (es @ pairs ls))) \<le> fs_free fs \<longrightarrow> (\<exists>s'. gc_copy_leaves t (start ls) s = Some s'))"
  using assms(2-5)
proof (induction ls arbitrary: es s)
  case Nil
  then show ?case by (cases s) (simp add: gc_copy_leaves.simps [of t 0])
next
  case (Cons l ls)
  obtain p ks ds where l: "l = (p, ks, ds)" by (cases l)
  from Cons.prems(1) l obtain par a where n: "p \<noteq> 0" "bt_heap t p = Some (leaf_node par ks ds a (start ls))"
    and c: "chain (bt_heap t) ls" by auto
  let ?n = "leaf_node par ks ds a (start ls)" and ?loop = "for_up 0 (length ks) (gc_copy_entry (leaf_node par ks ds a (start ls))) s"
  have len: "length ds = length ks" using Cons.prems(2) l by simp
  have rd: "\<forall>x\<in>set (zip ks ds). reads_put fs name val x" using Cons.prems(3) l by simp
  note leaf = gc_copy_leaf [OF assms(1) Cons.prems(4) _ _ len rd, of ?n]
  have e: "gc_copy_leaves t (start (l # ls)) s = do { s' \<leftarrow> ?loop; gc_copy_leaves t (start ls) s' }"
    using n by (subst gc_copy_leaves.simps) (simp add: l node_at_def)
  have IH: "(\<forall>s'. gc_copy_leaves t (start ls) s1 = Some s' \<longrightarrow> gc_rel val name name1 fs ((es @ zip ks ds) @ pairs ls) s') \<and>
    (length (encs (puts val ((es @ zip ks ds) @ pairs ls))) \<le> fs_free fs \<longrightarrow> (\<exists>s'. gc_copy_leaves t (start ls) s1 = Some s'))"
    if "?loop = Some s1" for s1
    using Cons.IH [OF c, of "es @ zip ks ds" s1] Cons.prems(2,3) l leaf(1) that by simp
  show ?case
  proof (cases ?loop)
    case None
    then have "\<not> length (encs (puts val (es @ zip ks ds))) \<le> fs_free fs" using leaf(2) by auto
    with None show ?thesis unfolding e by (simp add: l)
  next
    case (Some s1)
    with IH [OF Some] show ?thesis unfolding e by (simp add: l)
  qed
qed

text \<open>The loops that move the index to the new offsets.\<close>

lemma gc_update_leaf:
  assumes "i \<le> length ks" "length ds = length ks" "bt_heap t p = Some (leaf_node par ks ds a b)"
    and "\<And>j'. i \<le> j' \<Longrightarrow> j' < length ks \<Longrightarrow> j + (j' - i) < length offs \<and> ucast (offs ! (j + (j' - i))) = g (ks ! j')"
    and "take i ds = map g (take i ks)"
  shows "for_up i (length ks) (gc_update_entry offs p) (t, j) =
    Some (t\<lparr>bt_heap := (bt_heap t)(p \<mapsto> leaf_node par ks (map g ks) a b)\<rparr>, j + (length ks - i))"
  using assms
proof (induction "length ks - i" arbitrary: i j ds t)
  case 0
  then have "i = length ks" by simp
  with 0 have "ds = map g ks" "for_up i (length ks) (gc_update_entry offs p) (t, j) = Some (t, j)" by simp_all
  with 0 show ?case by (simp add: fun_upd_idem)
next
  case (Suc n)
  then have i: "i < length ks" by simp
  let ?ds = "ds[i := g (ks ! i)]"
  let ?t = "t\<lparr>bt_heap := (bt_heap t)(p \<mapsto> leaf_node par ks ?ds a b)\<rparr>"
  have o: "j < length offs" "ucast (offs ! j) = g (ks ! i)" using Suc.prems(4) [of i] i by simp_all
  have e: "gc_update_entry offs p i (t, j) = Some (?t, j + 1)"
    using o i Suc.prems(2,3)
    by (simp add: gc_update_entry_def at_Some set_at_Some modify_node_def node_at_def put_node_def)
       (simp add: leaf_node_def)
  have "for_up (Suc i) (length ks) (gc_update_entry offs p) (?t, j + 1) =
      Some (?t\<lparr>bt_heap := (bt_heap ?t)(p \<mapsto> leaf_node par ks (map g ks) a b)\<rparr>, j + 1 + (length ks - Suc i))"
  proof (rule Suc.hyps(1))
    show "j + 1 + (j' - Suc i) < length offs \<and> ucast (offs ! (j + 1 + (j' - Suc i))) = g (ks ! j')"
      if "Suc i \<le> j'" "j' < length ks" for j' proof -
      have "j + 1 + (j' - Suc i) = j + (j' - i)" using that by simp
      then show ?thesis using Suc.prems(4) [of j'] that by simp
    qed
    show "take (Suc i) ?ds = map g (take (Suc i) ks)"
      using Suc.prems(2,5) i by (simp add: take_Suc_conv_app_nth)
  qed (use Suc i in auto)
  then show ?case using e i by (simp add: for_up_step)
qed

lemma redata_heap_leaf:
  "h p = Some (leaf_node par ks ds a b) \<Longrightarrow>
   redata_heap g {p} h = h(p \<mapsto> leaf_node par ks (map g ks) a b)"
  by (auto simp: redata_heap_def fun_eq_iff leaf_node_def)

lemma chain_other: "p \<notin> fst ` set ls \<Longrightarrow> chain (h(p := x)) ls \<longleftrightarrow> chain h ls"
  by (induction ls) auto

lemma gc_update_leaves_correct:
  assumes "chain (bt_heap t) ls" "distinct (map fst ls)" "\<forall>(p, ks, ds)\<in>set ls. length ds = length ks"
    and "j + length (pairs ls) \<le> length offs"
    and "\<And>i. i < length (pairs ls) \<Longrightarrow> ucast (offs ! (j + i)) = g (fst (pairs ls ! i))"
  shows "\<exists>j'. gc_update_leaves offs (start ls) (t, j) =
    Some (t\<lparr>bt_heap := redata_heap g (fst ` set ls) (bt_heap t)\<rparr>, j')"
  using assms
proof (induction ls arbitrary: t j)
  case Nil
  then show ?case by (subst gc_update_leaves.simps) simp
next
  case (Cons l ls)
  obtain p ks ds where l: "l = (p, ks, ds)" by (cases l)
  from Cons.prems(1) l obtain par a where n: "p \<noteq> 0" "bt_heap t p = Some (leaf_node par ks ds a (start ls))"
    and c: "chain (bt_heap t) ls" by auto
  have len: "length ds = length ks" and p: "p \<notin> fst ` set ls" using Cons.prems(2,3) l by auto
  let ?h = "(bt_heap t)(p \<mapsto> leaf_node par ks (map g ks) a (start ls))"
  have "for_up 0 (length ks) (gc_update_entry offs p) (t, j) = Some (t\<lparr>bt_heap := ?h\<rparr>, j + (length ks - 0))"
  proof (rule gc_update_leaf [OF _ len n(2)])
    show "j + (i - 0) < length offs \<and> ucast (offs ! (j + (i - 0))) = g (ks ! i)"
      if "0 \<le> i" "i < length ks" for i
      using that Cons.prems(4) Cons.prems(5) [of i] len by (simp add: l nth_append)
  qed simp_all
  moreover have "\<exists>j'. gc_update_leaves offs (start ls) (t\<lparr>bt_heap := ?h\<rparr>, j + length ks) =
      Some (t\<lparr>bt_heap := ?h\<rparr>\<lparr>bt_heap := redata_heap g (fst ` set ls) (bt_heap (t\<lparr>bt_heap := ?h\<rparr>))\<rparr>, j')"
  proof (rule Cons.IH)
    show "chain (bt_heap (t\<lparr>bt_heap := ?h\<rparr>)) ls" using c p by (simp add: chain_other)
    show "ucast (offs ! (j + length ks + i)) = g (fst (pairs ls ! i))" if "i < length (pairs ls)" for i
      using that Cons.prems(5) [of "length ks + i"] len by (simp add: l nth_append add.assoc)
  qed (use Cons.prems len l in auto)
  moreover have "redata_heap g (fst ` set ls) ?h = redata_heap g (fst ` set (l # ls)) (bt_heap t)"
    using p unfolding redata_heap_leaf [where p = p and h = "bt_heap t", OF n(2), symmetric] by (subst redata_heap_union) (auto simp: l)
  ultimately show ?case using n by (subst gc_update_leaves.simps) (simp add: l node_at_def)
qed

text \<open>The descent to the first leaf.\<close>

lemma leaf_list_ne:
  "tinv m lo hi n T \<Longrightarrow> leaf_list T \<noteq> []"
  "tinvs lo hi n ks ts \<Longrightarrow> concat (map leaf_list ts) \<noteq> []"
  by (induction m lo hi n T and lo hi n ks ts rule: tinv_tinvs.induct) auto

lemma leftmost_leaf_correct:
  "holds (bt_heap t) (nodes_of par T) \<Longrightarrow> tinv m lo hi n T \<Longrightarrow>
   leftmost_leaf t (addr T) = Some (start (leaf_list T))"
proof (induction T arbitrary: par m lo hi n)
  case (Lf p ks ds)
  then obtain a b where "bt_heap t p = Some (leaf_node par ks ds a b)" by (auto simp: has_leaf)
  then show ?case by (subst leftmost_leaf.simps) (simp add: node_at_def)
next
  case (Nd p ks ts)
  then have h: "bt_heap t p = Some (inner_node par ks (map addr ts))" by (simp add: has_inner)
  from Nd.prems(2) have i: "tinvs lo hi (n - 1) ks ts" by simp
  then obtain T ts' where ts: "ts = T # ts'" using invs_length [OF i] by (cases ts) auto
  obtain hi' where T: "tinv 2 lo hi' (n - 1) T" using i unfolding ts by (cases ks) auto
  have "leftmost_leaf t (addr T) = Some (start (leaf_list T))"
    using Nd.prems(1) ts by (intro Nd.IH [OF _ _ T]) auto
  moreover have "leaf_list T \<noteq> []" by (rule leaf_list_ne(1) [OF T])
  then have "start (leaf_list (Nd p ks ts)) = start (leaf_list T)" by (cases "leaf_list T") (auto simp: ts)
  ultimately show ?case using h by (subst leftmost_leaf.simps) (simp add: node_at_def ts at_Some)
qed

section \<open>The state after a garbage collection\<close>

lemma replay_puts: "replay (puts val es) k = (if k \<in> fst ` set es then Some (val k) else None)"
proof (induction es rule: rev_induct)
  case (snoc x es)
  then show ?case by (cases x) (auto simp: replay_def)
qed simp

lemma length_puts:
  assumes "distinct (map fst es)" "set (map fst es) = dom m"
  shows "length (encs (puts (\<lambda>k. the (m k)) es)) = live_size m"
proof -
  have "length (encs (puts (\<lambda>k. the (m k)) es)) = (\<Sum>k\<leftarrow>map fst es. rec_size k (the (m k)))"
    by (induction es) (auto simp: length_put_line)
  also have "\<dots> = live_size m"
    unfolding live_size_def assms(2) [symmetric] by (rule sum_list_distinct_conv_sum_set [OF assms(1)])
  finally show ?thesis .
qed

lemma map_of_keys: "map_of (map (\<lambda>(k, d). (k, f k)) es) k = (if k \<in> fst ` set es then Some (f k) else None)"
  by (induction es) auto

lemma puts_index_ok:
  assumes "distinct (map fst es)" "set (map fst es) = dom m"
  shows "index_ok (puts (\<lambda>k. the (m k)) es)
    (map_of (map (\<lambda>(k, d). (k, new_offset (\<lambda>k. the (m k)) es k)) es)) m"
proof -
  let ?val = "\<lambda>k. the (m k)" and ?idx = "map_of (map (\<lambda>(k, d). (k, new_offset (\<lambda>k. the (m k)) es k)) es)"
  have "\<exists>pre post. puts ?val es = pre @ Put k v # post \<and> ?idx k = Some (offset pre)" if "m k = Some v" for k v
  proof -
    have "k \<in> set (map fst es)" using assms(2) that by auto
    then obtain xs d ys where es: "es = xs @ (k, d) # ys" by (auto simp: in_set_conv_decomp)
    then have k: "k \<notin> fst ` set xs" using assms(1) by auto
    then have "takeWhile (\<lambda>x. fst x \<noteq> k) es = xs" unfolding es by (subst takeWhile_append2) auto
    then have "new_offset ?val es k = offset (puts ?val xs)" by (simp add: new_offset_def)
    then have "?idx k = Some (offset (puts ?val xs))" by (subst map_of_keys) (simp add: es)
    moreover have "puts ?val es = puts ?val xs @ Put k v # puts ?val ys" using that by (simp add: es)
    ultimately show ?thesis by blast
  qed
  moreover have "dom ?idx = set (map fst es)" by (force simp: dom_map_of_conv_image_fst)
  ultimately show ?thesis using assms(2) by (simp add: index_ok_def)
qed

lemma new_offset_small:
  assumes "length (encs (puts val es)) < 2 ^ 31"
  shows "new_offset val es k \<noteq> -1"
proof -
  let ?xs = "takeWhile (\<lambda>x. fst x \<noteq> k) es"
  have "encs (puts val es) = encs (puts val ?xs) @ encs (puts val (dropWhile (\<lambda>x. fst x \<noteq> k) es))"
    by (metis encs_simps(3) puts_simps(3) takeWhile_dropWhile_id)
  then have "length (encs (puts val ?xs)) < 2 ^ 31" using assms by simp
  then show ?thesis by (simp add: new_offset_def offset_def word_small_neq)
qed

text \<open>
  Copying: what the new log holds, and that it fits.  The entries of the tree are \<open>es\<close>, in the order
  of the leaf chain that begins at \<open>c\<close>.  The records go behind what the new log holds before.
\<close>

lemma gc_copy_correct:
  assumes v: "engine_view e fs tail m" and T: "btree_rep (eng_btree e) T" and es: "es = entries T"
    and k: "dom m = set (map fst es)"
    and r: "\<forall>x\<in>set es. reads_put fs (log_filename e) (\<lambda>k. the (m k)) x"
  defines "copied \<equiv> (start (leaf_list T), offs_of (\<lambda>k. the (m k)) es @ [word_of_nat (live_size m)],
        appended (log_filename e @ ''(1)'') (encs (puts (\<lambda>k. the (m k)) es)) fs)"
  shows "fs_files fs (log_filename e) = Some s \<Longrightarrow> fs_writable fs \<Longrightarrow> live_size m \<le> fs_free fs \<Longrightarrow> gc_copy e fs = Some copied"
    and "gc_copy e fs = Some (c, offs, fs') \<Longrightarrow> \<not> fs_lost fs' \<Longrightarrow>
      (c, offs, fs') = copied \<and> live_size m \<le> fs_free fs \<and> \<not> fs_lost fs"
proof -
  let ?val = "\<lambda>k. the (m k)" and ?name = "log_filename e" and ?t = "eng_btree e"
  let ?name1 = "?name @ ''(1)''" and ?r = "\<lparr>fp_name = log_filename e, fp_pos = 0\<rparr>"
  let ?w = "\<lparr>wf_name = ?name1, wf_buf = []\<rparr>" and ?ls = "leaf_list T"
  have d: "distinct (map fst es)" using T by (simp add: es btree_rep_def root_distinct)
  have len: "length (encs (puts ?val es)) = live_size m" by (rule length_puts [OF d k [symmetric]])
  have lens: "\<forall>(p, ks, ds)\<in>set ?ls. length ds = length ks" using rep_leaf_lengths [OF T] by blast
  have lm: "leftmost_leaf ?t (bt_root ?t) = Some (start ?ls)"
  proof -
    from T have h: "heap_is (bt_heap ?t) (nodes_of 0 T) (leaves T)" and r: "bt_root ?t = addr T"
      and i: "\<exists>n. tinv 0 None None n T"
      by (simp_all add: btree_rep_def repF_def frame_nodes_def frame_leaves_def root_inv_def)
    with leftmost_leaf_correct [OF heap_isD(4) [OF h]] show ?thesis by auto
  qed
  have rd: "\<forall>x\<in>set (pairs ?ls). reads_put fs ?name ?val x" using r by (simp add: pairs_leaf_list es)
  have w: "wrote [] ?w (opened ?name1 fs) ?w (opened ?name1 fs)" by (rule wrote_Nil) simp
  then have "gc_rel ?val ?name ?name1 fs [] (?r, ?w, opened ?name1 fs, [], 0)" by (simp add: gc_rel_def offs_of_def)
  note loop = gc_copy_leaves_correct [OF _ btree_rep_chain(1) [OF T] lens rd this]
  have rel: "gc_rel ?val ?name ?name1 fs es z"
    if "gc_copy_leaves ?t (start ?ls) (?r, ?w, opened ?name1 fs, [], 0) = Some z" for z
    using loop that by (simp add: pairs_leaf_list es [symmetric])
  have run: "gc_copy e fs = (if fs_files fs ?name \<noteq> None \<and> fs_writable fs then
      do { (r, w, fs, offs, off) \<leftarrow> gc_copy_leaves ?t (start ?ls) (?r, ?w, opened ?name1 fs, [], 0);
           let (c, fs) = fclose w fs; Some (start ?ls, offs @ [off], fs) } else None)"
    using lm by (auto simp: gc_copy_def fopen_r_def fopen_a_def fs_access_def)
  { assume f: "fs_files fs ?name = Some s" and w: "fs_writable fs" "live_size m \<le> fs_free fs"
    from loop w(2) obtain r' w' fs' offs off where
      z: "gc_copy_leaves ?t (start ?ls) (?r, ?w, opened ?name1 fs, [], 0) = Some (r', w', fs', offs, off)"
      by (auto simp: pairs_leaf_list es [symmetric] len)
    from rel [OF z] have wr: "wrote (encs (puts ?val es)) ?w (opened ?name1 fs) w' fs'"
      and o: "offs = offs_of ?val es" "off = word_of_nat (live_size m)" by (simp_all add: gc_rel_def len)
    from wrote_closed(1) [OF wr refl] w(2) o f w(1) z show "gc_copy e fs = Some copied"
      unfolding run by (simp add: copied_def len) }
  assume g: "gc_copy e fs = Some (c, offs, fs')" "\<not> fs_lost fs'"
  then obtain r' w' fs1 offs' off where
    z: "gc_copy_leaves ?t (start ?ls) (?r, ?w, opened ?name1 fs, [], 0) = Some (r', w', fs1, offs', off)"
      "c = start ?ls" "offs = offs' @ [off]" "fs' = snd (fclose w' fs1)"
    unfolding run by (auto simp: bind_eq_Some_conv split_beta split: if_splits)
  from rel [OF z(1)] have wr: "wrote (encs (puts ?val es)) ?w (opened ?name1 fs) w' fs1"
    and o: "offs' = offs_of ?val es" "off = word_of_nat (live_size m)" by (simp_all add: gc_rel_def len)
  from wrote_closed(2) [OF wr refl] g(2) z(4) have l: "live_size m \<le> fs_free fs" "\<not> fs_lost fs" by (simp_all add: len)
  with wrote_closed(1) [OF wr refl] z(2-4) o show "(c, offs, fs') = copied \<and> live_size m \<le> fs_free fs \<and> \<not> fs_lost fs"
    by (simp add: copied_def len)
qed

text \<open>The whole collection, also behind what an earlier one left in the new log.\<close>

lemma Engine_gc_run:
  assumes v: "engine_view e fs tail m" and f: "fs_files fs (log_filename e) = Some s"
    and w: "fs_writable fs" "live_size m \<le> fs_free fs"
  obtains e' fs' es where "Engine_gc e fs = Some (e', fs')" "log_filename e' = log_filename e"
    "sorted_wrt (<) (map fst es)" "set (map fst es) = dom m"
    "content fs' (log_filename e) = content fs (log_filename e @ ''(1)'') @ encs (puts (\<lambda>k. the (m k)) es)"
    "content fs' (log_filename e @ ''(1)'') = []" "fs_free fs' = fs_free fs - live_size m + length s"
    "fs_writable fs'" "fs_sync_ok fs' = fs_sync_ok fs" "fs_lost fs' = fs_lost fs" "\<not> fs_named fs' (log_filename e)"
    "fs_access (log_filename e) fs'" "recs_ok (puts (\<lambda>k. the (m k)) es)" "replay (puts (\<lambda>k. the (m k)) es) = m"
    "log_offset e' = offset (puts (\<lambda>k. the (m k)) es)" "length (encs (puts (\<lambda>k. the (m k)) es)) = live_size m"
    "btree_abs (eng_btree e') (map_of (map (\<lambda>(k, d). (k, new_offset (\<lambda>k. the (m k)) es k)) es))" "live_size m < 2 ^ 31"
proof -
  let ?val = "\<lambda>k. the (m k)" and ?name = "log_filename e" and ?t = "eng_btree e"
  let ?name1 = "?name @ ''(1)''"
  from view_reads [OF v] obtain T where T: "btree_rep ?t T" "dom m = set (keys_of T)" "\<forall>k\<in>dom m. nul_free k"
    "live_size m < 2 ^ 31" "bt_size ?t = word_of_nat (length (entries T))"
    "\<forall>x\<in>set (entries T). reads_put fs ?name ?val x" by blast
  define es where "es = entries T"
  have srt: "sorted_wrt (<) (map fst es)" using T(1) by (simp add: es_def btree_rep_def root_sorted)
  have d: "distinct (map fst es)" using T(1) by (simp add: es_def btree_rep_def root_distinct)
  have k: "set (map fst es) = dom m" using T(2) by (simp add: es_def)
  let ?rs = "puts ?val es" and ?g = "new_offset ?val es"
  have len: "length (encs ?rs) = live_size m" by (rule length_puts [OF d k])
  define fs2 where "fs2 = appended ?name1 (encs ?rs) fs"
  have copy: "gc_copy e fs = Some (start (leaf_list T), offs_of ?val es @ [word_of_nat (live_size m)], fs2)"
    using gc_copy_correct(1) [OF v T(1) es_def k [symmetric] _ f w] T(6) by (simp add: es_def fs2_def)
  have lens: "\<forall>(p, ks, ds)\<in>set (leaf_list T). length ds = length ks" using rep_leaf_lengths [OF T(1)] by blast
  let ?offs = "offs_of ?val es @ [word_of_nat (live_size m)]"
  let ?t' = "?t\<lparr>bt_heap := redata_heap ?g (set (leaves T)) (bt_heap ?t)\<rparr>"
  have "\<exists>j'. gc_update_leaves ?offs (start (leaf_list T)) (?t, 0) =
      Some (?t\<lparr>bt_heap := redata_heap ?g (fst ` set (leaf_list T)) (bt_heap ?t)\<rparr>, j')"
    using btree_rep_chain [OF T(1)] lens offs_of_nth [OF d, of _ ?val]
    by (intro gc_update_leaves_correct) (auto simp: pairs_leaf_list es_def [symmetric] nth_append)
  then obtain j' where upd: "gc_update_leaves ?offs (start (leaf_list T)) (?t, 0) = Some (?t', j')"
    by (auto simp: leaves_leaf_list)
  let ?fs' = "fs_rename ?name1 ?name (fs_remove ?name fs2)"
  let ?e' = "e\<lparr>eng_btree := ?t', log_offset := offset ?rs\<rparr>"
  have run: "Engine_gc e fs = Some (?e', ?fs')"
    using copy upd by (simp add: Engine_gc_def gc_move_def gc_switch_def ucast_word_of_nat offset_def len Let_def)
  have fs2: "fs_files fs2 ?name1 = Some (content fs ?name1 @ encs ?rs)" "fs_files fs2 ?name = Some s"
    "fs_free fs2 = fs_free fs - live_size m" using f len by (simp_all add: fs2_def)
  then have c: "content ?fs' ?name = content fs ?name1 @ encs ?rs" "content ?fs' ?name1 = []"
    "fs_free ?fs' = fs_free fs - live_size m + length s" "fs_writable ?fs'" "fs_sync_ok ?fs' = fs_sync_ok fs"
    "fs_lost ?fs' = fs_lost fs" "\<not> fs_named ?fs' ?name" "fs_access ?name ?fs'"
    using w(1) by (simp_all add: fs_rename_def fs_remove_def fs_access_def content_def fs2_def)
  have "btree_rep ?t' (redata ?g T)"
    using new_offset_small [of ?val es] len T(4) by (intro redata_rep [OF T(1)]) simp
  moreover have e': "entries (redata ?g T) = map (\<lambda>(k, d). (k, ?g k)) es"
    using T(1) redata_entries(1) by (auto simp: btree_rep_def root_inv_def es_def)
  ultimately have bt: "btree_abs ?t' (map_of (map (\<lambda>(k, d). (k, ?g k)) es))"
    using T(5) unfolding btree_abs_def by (intro exI [of _ "redata ?g T"]) (simp add: es_def)
  have ok: "recs_ok ?rs"
  proof -
    have "rec_ok (Put x (?val x)) \<and> nul_free x" if "(x, d) \<in> set es" for x d
      using that T(6) T(3) k unfolding es_def by (metis fst_conv image_eqI reads_put_def set_map)
    then show ?thesis by (auto simp: recs_ok_def puts_def)
  qed
  have rp: "replay ?rs = m" using k by (fastforce simp: replay_puts)
  show thesis by (rule that [OF run _ srt k c ok rp _ len _ T(4)]) (simp_all add: bt)
qed

lemma Engine_gc_correct:
  assumes v: "engine_view e fs tail m" and f: "fs_files fs (log_filename e) = Some s"
    and stale: "content fs (log_filename e @ ''(1)'') = []"
    and w: "fs_writable fs" "live_size m \<le> fs_free fs"
  shows "\<exists>e' fs'. Engine_gc e fs = Some (e', fs') \<and> log_filename e' = log_filename e \<and> engine_abs e' fs' m \<and>
    length (content fs' (log_filename e)) = live_size m \<and> content fs' (log_filename e @ ''(1)'') = [] \<and>
    fs_free fs' = fs_free fs - live_size m + length s \<and> fs_writable fs' \<and> fs_sync_ok fs' = fs_sync_ok fs \<and>
    fs_lost fs' = fs_lost fs \<and> fs_access (log_filename e) fs'"
proof -
  let ?val = "\<lambda>k. the (m k)"
  obtain e' fs' es where g: "Engine_gc e fs = Some (e', fs')" "log_filename e' = log_filename e"
    "sorted_wrt (<) (map fst es)" "set (map fst es) = dom m"
    "content fs' (log_filename e) = encs (puts ?val es)"
    "content fs' (log_filename e @ ''(1)'') = []" "fs_free fs' = fs_free fs - live_size m + length s"
    "fs_writable fs'" "fs_sync_ok fs' = fs_sync_ok fs" "fs_lost fs' = fs_lost fs" "fs_access (log_filename e) fs'"
    "recs_ok (puts ?val es)" "replay (puts ?val es) = m"
    "log_offset e' = offset (puts ?val es)" "length (encs (puts ?val es)) = live_size m"
    "btree_abs (eng_btree e') (map_of (map (\<lambda>(k, d). (k, new_offset ?val es k)) es))" "live_size m < 2 ^ 31"
    by (rule Engine_gc_run [OF v f w]) (simp add: stale)
  have d: "distinct (map fst es)" using g(3) strict_sorted_iff by blast
  have "engine_abs e' fs' m"
    using g puts_index_ok [OF d g(4)] unfolding engine_view_def by (intro exI [of _ "puts ?val es"]) auto
  then show ?thesis using g(1,2,5-11,15) by auto
qed

text \<open>A record another collection left at the beginning of the new log is read for the first key.\<close>

lemma Engine_gc_stale:
  assumes v: "engine_view e fs tail m" and f: "fs_files fs (log_filename e) = Some s"
    and stale: "content fs (log_filename e @ ''(1)'') = put_line k0 v0 @ rest" "length k0 + length v0 < 2 ^ 64 - 1"
    and w: "fs_writable fs" "live_size m \<le> fs_free fs" and m: "m \<noteq> Map.empty"
  shows "\<exists>e' fs'. Engine_gc e fs = Some (e', fs') \<and> Engine_get (Min (dom m)) u e' fs' = Some (kSucc, v0)"
proof -
  let ?val = "\<lambda>k. the (m k)"
  obtain e' fs' es where g: "Engine_gc e fs = Some (e', fs')" "log_filename e' = log_filename e"
    "sorted_wrt (<) (map fst es)" "set (map fst es) = dom m"
    "content fs' (log_filename e) = put_line k0 v0 @ rest @ encs (puts ?val es)"
    "btree_abs (eng_btree e') (map_of (map (\<lambda>(k, d). (k, new_offset ?val es k)) es))"
    by (rule Engine_gc_run [OF v f w]) (simp add: stale)
  from g(4) m have "es \<noteq> []" by (metis dom_eq_empty_conv empty_set list.simps(8))
  then obtain k d es' where es: "es = (k, d) # es'" by (cases es) auto
  have "Min (dom m) = k" using g(3,4) by (intro Min_eqI) (auto simp: es g(4) [symmetric])
  moreover have "new_offset ?val es k = 0" by (simp add: new_offset_def es offset_def)
  moreover have "BTree_search (eng_btree e') k = Some (scast (0 :: 32 word))"
    using bti.look_map [OF g(6), of k] by (simp add: es calculation(2) [unfolded es])
  moreover have "\<exists>str. fs_files fs' (log_filename e') = Some str"
    using g(2,5) length_enc(1) [of k0 v0] by (cases "fs_files fs' (log_filename e)") (auto simp: content_def)
  moreover have "rest_of \<lparr>fp_name = log_filename e', fp_pos = 0\<rparr> fs' = put_line k0 v0 @ rest @ encs (puts ?val es)"
    using g(2,5) by (simp add: rest_of_def)
  ultimately show ?thesis using g(1) read_put_line [OF stale(2), of _ fs' _ "[]" "[]"]
    by (auto simp: Engine_get_def fopen_r_Some)
qed

end
