(* ===== verification/Engine_Store.thy ===== *)
theory Engine_Store
  imports Engine_Walk
begin

text \<open>
  The contract of a key-value store as a locale, with sequences of calls as its client, and
  the engine with its file system as the store that meets it.
\<close>

section \<open>Calls and what they mean on a map\<close>

datatype kv_call = CPut string string | CRemove string | CGet string | CScan string string
  | CCollect | CReopen

datatype kv_result = RCode RetCode | RValue RetCode string | RScan RetCode "(string \<times> string) list" | RDone

text \<open>
  The meaning of a call on the map itself.  A call that finds nothing leaves the string for
  the value, here the empty one, as it is.
\<close>

primrec map_call :: "kv_call \<Rightarrow> (string \<rightharpoonup> string) \<Rightarrow> kv_result \<times> (string \<rightharpoonup> string)" where
  "map_call (CPut k v) m = (RCode kSucc, m(k \<mapsto> v))"
| "map_call (CRemove k) m = (RCode (if m k = None then kNotFound else kSucc), m(k := None))"
| "map_call (CGet k) m = ((case m k of None \<Rightarrow> RValue kNotFound [] | Some v \<Rightarrow> RValue kSucc v), m)"
| "map_call (CScan lower upper) m = (RScan kSucc (map (\<lambda>k. (k, the (m k))) (keys_in m lower upper)), m)"
| "map_call CCollect m = (RCode kSucc, m)"
| "map_call CReopen m = (RDone, m)"

text \<open>
  The bytes a call adds to the log, and what it asks for: \<open>n\<close> is the room that is left.
\<close>

primrec call_size :: "kv_call \<Rightarrow> (string \<rightharpoonup> string) \<Rightarrow> nat" where
  "call_size (CPut k v) m = rec_size k v"
| "call_size (CRemove k) m = (if m k = None then 0 else rec_size k [])"
| "call_size (CGet k) m = 0"
| "call_size (CScan lower upper) m = 0"
| "call_size CCollect m = 0"
| "call_size CReopen m = 0"

text \<open>
  Reading the log for a visit or a collection needs a log; \<open>b\<close> says whether there is one.  The first
  \<^verbatim>\<open>put\<close> creates it, and nothing but an interrupted collection takes it away.
\<close>

primrec call_fits :: "kv_call \<Rightarrow> (string \<rightharpoonup> string) \<Rightarrow> nat \<Rightarrow> bool \<Rightarrow> bool" where
  "call_fits (CPut k v) m n b = (nul_free k \<and> rec_size k v \<le> n)"
| "call_fits (CRemove k) m n b = (call_size (CRemove k) m \<le> n)"
| "call_fits (CGet k) m n b = True"
| "call_fits (CScan lower upper) m n b = b"
| "call_fits CCollect m n b = (b \<and> live_size m \<le> n)"
| "call_fits CReopen m n b = True"

primrec logs :: "kv_call \<Rightarrow> bool" where
  "logs (CPut k v) = True"
| "logs (CRemove k) = False"
| "logs (CGet k) = False"
| "logs (CScan lower upper) = False"
| "logs CCollect = False"
| "logs CReopen = False"

text \<open>Without looking at the files: a map that is not empty has a log.\<close>

primrec call_pre :: "kv_call \<Rightarrow> (string \<rightharpoonup> string) \<Rightarrow> nat \<Rightarrow> bool" where
  "call_pre (CPut k v) m n = (nul_free k \<and> rec_size k v \<le> n)"
| "call_pre (CRemove k) m n = (call_size (CRemove k) m \<le> n)"
| "call_pre (CGet k) m n = True"
| "call_pre (CScan lower upper) m n = (m \<noteq> Map.empty)"
| "call_pre CCollect m n = (m \<noteq> Map.empty \<and> live_size m \<le> n)"
| "call_pre CReopen m n = True"

fun map_run :: "kv_call list \<Rightarrow> (string \<rightharpoonup> string) \<Rightarrow> kv_result list \<times> (string \<rightharpoonup> string)" where
  "map_run [] m = ([], m)"
| "map_run (c # cs) m = (let (r, m) = map_call c m; (rs, m) = map_run cs m in (r # rs, m))"

fun calls_pre :: "kv_call list \<Rightarrow> (string \<rightharpoonup> string) \<Rightarrow> nat \<Rightarrow> bool" where
  "calls_pre [] m n = True"
| "calls_pre (c # cs) m n = (call_pre c m n \<and> calls_pre cs (snd (map_call c m)) (n - call_size c m))"

fun calls_fit :: "kv_call list \<Rightarrow> (string \<rightharpoonup> string) \<Rightarrow> nat \<Rightarrow> bool \<Rightarrow> bool" where
  "calls_fit [] m n b = True"
| "calls_fit (c # cs) m n b = (call_fits c m n b \<and> calls_fit cs (snd (map_call c m)) (n - call_size c m) (b \<or> logs c))"

fun run_all :: "(kv_call \<Rightarrow> 's \<Rightarrow> (kv_result \<times> 's) option) \<Rightarrow> kv_call list \<Rightarrow> 's \<Rightarrow>
    (kv_result list \<times> 's) option" where
  "run_all step [] s = Some ([], s)"
| "run_all step (c # cs) s = do { (r, s) \<leftarrow> step c s; (rs, s) \<leftarrow> run_all step cs s; Some (r # rs, s) }"

section \<open>The contract\<close>

locale kv_store =
  fixes step :: "kv_call \<Rightarrow> 's \<Rightarrow> (kv_result \<times> 's) option"
    and holds_kv :: "'s \<Rightarrow> (string \<rightharpoonup> string) \<Rightarrow> nat \<Rightarrow> bool"
  assumes step_map: "holds_kv s m n \<Longrightarrow> call_pre c m n \<Longrightarrow>
    \<exists>s'. step c s = Some (fst (map_call c m), s') \<and> holds_kv s' (snd (map_call c m)) (n - call_size c m)"
begin

lemma run_all_map:
  "holds_kv s m n \<Longrightarrow> calls_pre cs m n \<Longrightarrow>
   \<exists>s' n'. run_all step cs s = Some (fst (map_run cs m), s') \<and> holds_kv s' (snd (map_run cs m)) n'"
proof (induction cs arbitrary: s m n)
  case (Cons c cs)
  then obtain s1 where s1: "step c s = Some (fst (map_call c m), s1)"
    "holds_kv s1 (snd (map_call c m)) (n - call_size c m)" using step_map [of s m n c] by auto
  from Cons.IH [OF s1(2)] Cons.prems(2) obtain s' n' where
    "run_all step cs s1 = Some (fst (map_run cs (snd (map_call c m))), s')"
    "holds_kv s' (snd (map_run cs (snd (map_call c m)))) n'" by auto
  with s1(1) show ?case by (auto simp: split_beta)
qed auto

text \<open>What is put is read back, also after a garbage collection and a restart.\<close>

lemma put_survives:
  assumes "holds_kv s m n" "nul_free k" "rec_size k v + live_size (m(k \<mapsto> v)) \<le> n"
  shows "\<exists>s'. run_all step [CPut k v, CCollect, CReopen, CGet k] s =
    Some ([RCode kSucc, RCode kSucc, RDone, RValue kSucc v], s')"
proof -
  have "calls_pre [CPut k v, CCollect, CReopen, CGet k] m n" using assms(2,3) by auto
  from run_all_map [OF assms(1) this] show ?thesis by auto
qed

end

text \<open>A store that keeps a log: the calls that read the log work as soon as it is there.\<close>

locale kv_log_store =
  fixes step :: "kv_call \<Rightarrow> 's \<Rightarrow> (kv_result \<times> 's) option"
    and holds_kv :: "'s \<Rightarrow> (string \<rightharpoonup> string) \<Rightarrow> nat \<Rightarrow> bool"
    and has_log :: "'s \<Rightarrow> bool"
  assumes log_step: "holds_kv s m n \<Longrightarrow> call_fits c m n (has_log s) \<Longrightarrow>
    \<exists>s'. step c s = Some (fst (map_call c m), s') \<and> holds_kv s' (snd (map_call c m)) (n - call_size c m) \<and>
      (has_log s \<or> logs c \<longrightarrow> has_log s')"
    and live_logged: "holds_kv s m n \<Longrightarrow> m \<noteq> Map.empty \<Longrightarrow> has_log s"
begin

lemma pre_ok: "holds_kv s m n \<Longrightarrow> call_pre c m n \<Longrightarrow> call_fits c m n (has_log s)"
  by (cases c) (auto intro: live_logged)

lemma run_logged:
  "holds_kv s m n \<Longrightarrow> calls_fit cs m n (has_log s) \<Longrightarrow>
   \<exists>s' n'. run_all step cs s = Some (fst (map_run cs m), s') \<and> holds_kv s' (snd (map_run cs m)) n'"
proof (induction cs arbitrary: s m n)
  case (Cons c cs)
  then obtain s1 where s1: "step c s = Some (fst (map_call c m), s1)"
    "holds_kv s1 (snd (map_call c m)) (n - call_size c m)" "has_log s \<or> logs c \<longrightarrow> has_log s1"
    using log_step [of s m n c] by auto
  have mono: "calls_fit cs m n b \<Longrightarrow> calls_fit cs m n True" for cs m n b
  proof (induction cs arbitrary: m n b)
    case (Cons c cs)
    then have "call_fits c m n True" by (cases c) auto
    with Cons show ?case by auto
  qed simp
  have "calls_fit cs (snd (map_call c m)) (n - call_size c m) (has_log s1)"
    using Cons.prems(2) s1(3) mono by (cases "has_log s1") auto
  from Cons.IH [OF s1(2) this] s1(1) show ?case by (auto simp: split_beta)
qed auto

end

sublocale kv_log_store \<subseteq> kv_store
proof
  show "\<exists>s'. step c s = Some (fst (map_call c m), s') \<and> holds_kv s' (snd (map_call c m)) (n - call_size c m)"
    if "holds_kv s m n" "call_pre c m n" for s m n c
    using log_step [OF that(1) pre_ok [OF that]] by blast
qed

section \<open>The engine as a store\<close>

type_synonym store = "engine \<times> fsys"

primrec engine_call :: "string \<Rightarrow> kv_call \<Rightarrow> store \<Rightarrow> (kv_result \<times> store) option" where
  "engine_call path (CPut k v) s = do {
     (r, e, fs) \<leftarrow> Engine_put k v (fst s) (snd s); Some (RCode r, e, fs) }"
| "engine_call path (CRemove k) s = do {
     (r, e, fs) \<leftarrow> Engine_remove k (fst s) (snd s); Some (RCode r, e, fs) }"
| "engine_call path (CGet k) s = do {
     (r, v) \<leftarrow> Engine_get k [] (fst s) (snd s); Some (RValue r v, s) }"
| "engine_call path (CScan lower upper) s = do {
     (r, kvs) \<leftarrow> Engine_visit lower upper (\<lambda>k v u. u @ [(k, v)]) [] (fst s) (snd s);
     Some (RScan r kvs, s) }"
| "engine_call path CCollect s = do {
     (r, e, fs) \<leftarrow> Engine_garbage_collect (fst s) (snd s); Some (RCode r, e, fs) }"
| "engine_call path CReopen s = do { e \<leftarrow> Engine_ctor path (snd s); Some (RDone, e, snd s) }"

text \<open>
  \<open>store_holds path s m n\<close>: the store has the map \<open>m\<close> and room for \<open>n\<close> bytes of log, on the
  disk and below \<open>2 ^ 31\<close>; no new log of an interrupted collection is there.
\<close>

definition store_holds :: "string \<Rightarrow> store \<Rightarrow> (string \<rightharpoonup> string) \<Rightarrow> nat \<Rightarrow> bool" where
  "store_holds path s m n \<longleftrightarrow> (let e = fst s; fs = snd s in log_filename e = path @ ''/log'' \<and>
     engine_abs e fs m \<and> room e fs n \<and> content fs (log_filename e @ ''(1)'') = [])"

definition store_logged :: "string \<Rightarrow> store \<Rightarrow> bool" where
  "store_logged path s = fs_access (path @ ''/log'') (snd s)"

lemma append_self_neq [simp]: "xs @ [a, b, c] \<noteq> xs" "xs \<noteq> xs @ [a, b, c]"
  by simp_all

lemma view_nul_free: "engine_view e fs tail m \<Longrightarrow> m k = Some v \<Longrightarrow> nul_free k"
  by (metis domI view_reads)

lemma ctor_view:
  assumes "engine_abs e fs m" "log_filename e = path @ ''/log''"
  shows "\<exists>e'. Engine_ctor path fs = Some e' \<and> log_filename e' = path @ ''/log'' \<and> engine_abs e' fs m"
proof -
  from assms obtain rs where rs: "content fs (path @ ''/log'') = encs rs @ []" "recs_ok rs"
    "length (encs rs) < 2 ^ 31" "replay rs = m" by (auto simp: engine_view_def)
  have "\<And>fp. rest_of fp fs = [] \<Longrightarrow> fst (read_key_value [] [] fp fs) = -1" by (simp add: read_short_header)
  from Engine_ctor_correct [OF rs(1-3) this] rs(4) show ?thesis by auto
qed

text \<open>The start after a kill: the log ends with a part of a record.\<close>

lemma ctor_torn:
  assumes "engine_abs e fs m" "log_filename e = path @ ''/log''" "rec_ok r" "n < length (enc r)"
  shows "\<exists>e'. Engine_ctor path (appended (path @ ''/log'') (take n (enc r)) fs) = Some e' \<and>
    engine_view e' (appended (path @ ''/log'') (take n (enc r)) fs) (take n (enc r)) m \<and> log_filename e' = path @ ''/log''"
proof -
  let ?fs = "appended (path @ ''/log'') (take n (enc r)) fs"
  from assms(1,2) obtain rs where rs: "content fs (path @ ''/log'') = encs rs" "recs_ok rs"
    "length (encs rs) < 2 ^ 31" "replay rs = m" by (auto simp: engine_view_def)
  have "content ?fs (path @ ''/log'') = encs rs @ take n (enc r)" using rs(1) by simp
  from Engine_ctor_correct [OF this rs(2,3)] read_torn [OF assms(3) _ assms(4)] show ?thesis using rs(4) by auto
qed

lemma engine_call_map:
  assumes "store_holds path s m n" "call_fits c m n (store_logged path s)"
  shows "\<exists>s'. engine_call path c s = Some (fst (map_call c m), s') \<and>
    store_holds path s' (snd (map_call c m)) (n - call_size c m) \<and>
    (store_logged path s \<or> logs c \<longrightarrow> store_logged path s')"
proof -
  obtain e fs where s: "s = (e, fs)" by (cases s)
  with assms(1) have v: "engine_abs e fs m" and r: "room e fs n" and name: "log_filename e = path @ ''/log''"
    and st: "content fs (log_filename e @ ''(1)'') = []"
    unfolding store_holds_def Let_def by auto
  note lg = store_logged_def fs_access_def
  have room: "room e fs l" if "l \<le> n" for l using r that by (simp add: room_def)
  have room': "room e' (appended (log_filename e) line fs) (n - length line)"
    if "length line \<le> n" "log_filename e' = log_filename e" for e' line
    using r that by (auto simp: room_def)
  show ?thesis
  proof (cases c)
    case (CPut k val)
    with assms(2) have p: "nul_free k" "rec_size k val \<le> n" by simp_all
    from Engine_put_correct [OF v p(1) room [OF p(2)]] room' [of "put_line k val"] p(2) show ?thesis
      using name st by (auto simp: s CPut store_holds_def lg length_put_line)
  next
    case (CRemove k)
    show ?thesis
    proof (cases "m k = None")
      case True
      with Engine_remove_correct(1) [OF v True] room show ?thesis
        using name st r by (auto simp: s CRemove store_holds_def lg fun_upd_idem room_def)
    next
      case False
      then have p: "rec_size k [] \<le> n" "nul_free k" using assms(2) CRemove view_nul_free [OF v] by auto
      from Engine_remove_correct(2) [OF v False p(2) room [OF p(1)]] room' [of "remove_line k"] p(1) False
      show ?thesis using name st by (auto simp: s CRemove store_holds_def lg length_enc rec_size_def)
    qed
  next
    case (CGet k)
    then show ?thesis using Engine_get_correct [OF v, of k "[]"] assms(1) by (simp add: s split: option.splits)
  next
    case (CScan lower upper)
    then obtain str where f: "fs_files fs (log_filename e) = Some str" using assms(2) name by (auto simp: s lg)
    have "fold (\<lambda>k u. u @ [(k, the (m k))]) ks u = u @ map (\<lambda>k. (k, the (m k))) ks" for ks u
      by (induction ks arbitrary: u) simp_all
    with Engine_visit_correct [OF v f, of lower upper "\<lambda>k v u. u @ [(k, v)]" "[]"] show ?thesis using assms(1) CScan by (simp add: s)
  next
    case CCollect
    then have p: "live_size m \<le> n" using assms(2) by simp
    obtain str where f: "fs_files fs (log_filename e) = Some str" using CCollect assms(2) name by (auto simp: s lg)
    have l: "live_size m \<le> length str"
      using v live_size_replay f by (auto simp: engine_view_def content_Some)
    have "fs_writable fs" "live_size m \<le> fs_free fs" using r p by (simp_all add: room_def)
    from Engine_gc_correct [OF v f st this] obtain e' fs' where
      g: "Engine_gc e fs = Some (e', fs')" "log_filename e' = log_filename e" "engine_abs e' fs' m"
      "length (content fs' (log_filename e)) = live_size m" "content fs' (log_filename e @ ''(1)'') = []"
      "fs_free fs' = fs_free fs - live_size m + length str" "fs_writable fs'" "fs_access (log_filename e) fs'" by blast
    have "room e' fs' n"
      using r g(2,4,6,7) l f \<open>live_size m \<le> fs_free fs\<close> by (auto simp: room_def content_Some)
    then show ?thesis using g name by (simp add: s CCollect Engine_garbage_collect_def store_holds_def store_logged_def)
  next
    case CReopen
    from ctor_view [OF v name] obtain e' where e': "Engine_ctor path fs = Some e'"
      "log_filename e' = path @ ''/log''" "engine_abs e' fs m" by blast
    then have "room e' fs n" using r name by (simp add: room_def)
    with e' show ?thesis using st name by (simp add: s CReopen store_holds_def store_logged_def)
  qed
qed

interpretation ekv: kv_log_store "engine_call path" "store_holds path" "store_logged path" for path
proof unfold_locales
  show "store_logged path s" if "store_holds path s m n" "m \<noteq> Map.empty" for s m n
    using that view_file [of "fst s" "snd s" "[]" m]
    by (auto simp: store_holds_def store_logged_def fs_access_def Let_def)
qed (rule engine_call_map)

text \<open>A new store: a directory without a log.\<close>

definition new_fs :: "nat \<Rightarrow> fsys" where
  "new_fs n = \<lparr>fs_files = Map.empty, fs_synced = (\<lambda>_. 0), fs_named = (\<lambda>_. True),
    fs_free = n, fs_writable = True, fs_sync_ok = True, fs_lost = False\<rparr>"

lemma new_fs_kept [simp]: "\<not> fs_lost (new_fs n)"
  by (simp add: new_fs_def)

lemma new_store:
  assumes "n < 2 ^ 31"
  shows "\<exists>e. Engine_ctor path (new_fs n) = Some e \<and> store_holds path (e, new_fs n) Map.empty n"
proof -
  have "content (new_fs n) (path @ ''/log'') = encs [] @ []" by (simp add: content_def new_fs_def)
  from Engine_ctor_correct [OF this] read_short_header obtain e where
    "Engine_ctor path (new_fs n) = Some e" "log_filename e = path @ ''/log''" "engine_abs e (new_fs n) Map.empty"
    by auto
  with assms show ?thesis by (auto simp: store_holds_def room_def content_def new_fs_def)
qed

end
