(* ===== verification/Engine_Props.thy ===== *)
theory Engine_Props
  imports Engine_Store
begin

text \<open>
  The properties of the log format and of the engine, each stated on the code's operations
  and applied at a concrete store.
\<close>

section \<open>A store to apply the properties to\<close>

lemma sample_store:
  obtains e fs where "store_holds ''d'' (e, fs) [''a'' \<mapsto> ''1''] 900" "log_filename e = ''d/log''"
    "engine_abs e fs [''a'' \<mapsto> ''1'']" "room e fs 900" "fs_writable fs" "fs_sync_ok fs" "900 \<le> fs_free fs"
    "content fs (log_filename e @ ''(1)'') = []" "\<exists>s. fs_files fs (log_filename e) = Some s"
proof -
  from new_store [of 1000 "''d''"] obtain e where e: "store_holds ''d'' (e, new_fs 1000) Map.empty 1000" by auto
  then have a: "engine_abs e (new_fs 1000) Map.empty" "log_filename e = ''d/log''" "room e (new_fs 1000) 1000"
    "content (new_fs 1000) (log_filename e @ ''(1)'') = []"
    unfolding store_holds_def Let_def by auto
  let ?fs = "appended (log_filename e) (put_line ''a'' ''1'') (new_fs 1000)"
  have "room e (new_fs 1000) (rec_size ''a'' ''1'')" using a(3) by (simp add: room_def rec_size_def)
  from Engine_put_correct [OF a(1) _ this] obtain e' where
    e': "engine_abs e' ?fs [''a'' \<mapsto> ''1'']" "log_filename e' = log_filename e" by (auto simp: nul_free_def)
  have r: "room e' ?fs 900" "fs_writable ?fs" "fs_sync_ok ?fs" "900 \<le> fs_free ?fs"
    "content ?fs (log_filename e @ ''(1)'') = []" "\<exists>s. fs_files ?fs (log_filename e) = Some s"
    using a(2-4) e'(2) by (simp_all add: room_def length_put_line rec_size_def new_fs_def content_def)
  then have "store_holds ''d'' (e', ?fs) [''a'' \<mapsto> ''1''] 900"
    using e' a(2) unfolding store_holds_def Let_def by auto
  with that r e' a(2) show thesis by metis
qed

section \<open>Records\<close>

text \<open>
  C25. What \<^verbatim>\<open>put\<close> and \<^verbatim>\<open>remove\<close> write, \<^verbatim>\<open>read_key_value\<close> reads back, at any place of the log:
  the kind of the record, the key and the value, and the position moves just behind it.
\<close>
theorem record_read_back:
  assumes "rec_ok r" "rest_of fp fs = enc r @ post"
  shows "read_key_value [] [] fp fs = (case r of Put k v \<Rightarrow> (1, k, v, adv (length (enc r)) fp)
    | Rm k \<Rightarrow> (0, k, [], adv (length (enc r)) fp))"
  using assms by (rule read_enc)

definition sample_fs :: "string \<Rightarrow> fsys" where
  "sample_fs s = (new_fs 0)\<lparr>fs_files := [''l'' \<mapsto> s]\<rparr>"

lemma sample_rest: "rest_of \<lparr>fp_name = ''l'', fp_pos = n\<rparr> (sample_fs s) = drop n s"
  by (simp add: rest_of_def sample_fs_def content_def)

theorem record_read_back_witness:
  "read_key_value [] [] \<lparr>fp_name = ''l'', fp_pos = 0\<rparr> (sample_fs (enc (Put ''k'' ''v'') @ ''x'')) =
    (1, ''k'', ''v'', adv 18 \<lparr>fp_name = ''l'', fp_pos = 0\<rparr>)"
  using record_read_back [of "Put ''k'' ''v''" "\<lparr>fp_name = ''l'', fp_pos = 0\<rparr>" "sample_fs (enc (Put ''k'' ''v'') @ ''x'')" "''x''"]
  by (simp add: sample_rest length_enc)

text \<open>
  A record that is cut off anywhere, in a size, in the key or in the value, is not read:
  \<^verbatim>\<open>read_key_value\<close> returns -1.
\<close>
theorem torn_record_rejected:
  assumes "rec_ok r" "rest_of fp fs = take n (enc r)" "n < length (enc r)"
  shows "fst (read_key_value k0 v0 fp fs) = -1"
  using assms by (rule read_torn)

theorem torn_record_rejected_witness:
  "fst (read_key_value [] [] \<lparr>fp_name = ''l'', fp_pos = 0\<rparr> (sample_fs (take 17 (enc (Put ''k'' ''v''))))) = -1"
  using torn_record_rejected [of "Put ''k'' ''v''" "\<lparr>fp_name = ''l'', fp_pos = 0\<rparr>" "sample_fs (take 17 (enc (Put ''k'' ''v'')))" 17]
  by (simp add: sample_rest length_enc)

section \<open>The engine as a map\<close>

text \<open>
  C1. Refinement: a sequence of \<^verbatim>\<open>put\<close>, \<^verbatim>\<open>remove\<close>, \<^verbatim>\<open>get\<close>, \<^verbatim>\<open>visit\<close>, garbage collection and restart,
  begun in a directory without a log, returns exactly what the same calls compute on a map.  The
  calls have to be \<open>calls_fit\<close>: the keys that are put are free of NUL bytes, there is room on the disk and
  below 2 GB for every record and for the new log of a collection, and before the first \<^verbatim>\<open>visit\<close> or
  collection there was a \<^verbatim>\<open>put\<close> (without a log both crash on the null \<^verbatim>\<open>FILE\<close> pointer, as
  \<open>no_log_no_walk\<close> shows); a store that was emptied again is covered.  The range of \<^verbatim>\<open>visit\<close> on the map is the
  closed one of the code, which is not the one \<^verbatim>\<open>engine.h\<close> promises.
\<close>
theorem engine_refines_map:
  assumes "n < 2 ^ 31" "calls_fit cs Map.empty n False"
  shows "\<exists>e s. Engine_ctor path (new_fs n) = Some e \<and>
    run_all (engine_call path) cs (e, new_fs n) = Some (fst (map_run cs Map.empty), s)"
proof -
  from new_store [OF assms(1), of path] obtain e where
    e: "Engine_ctor path (new_fs n) = Some e" "store_holds path (e, new_fs n) Map.empty n" by blast
  have "store_logged path (e, new_fs n) = False" by (simp add: store_logged_def fs_access_def new_fs_def)
  with ekv.run_logged [OF e(2), of cs] assms(2) obtain s where
    "run_all (engine_call path) cs (e, new_fs n) = Some (fst (map_run cs Map.empty), s)" by auto
  with e(1) show ?thesis by blast
qed

theorem engine_refines_map_witness:
  "\<exists>e s. Engine_ctor ''d'' (new_fs 1000) = Some e \<and>
    run_all (engine_call ''d'') [CPut ''a'' ''1'', CRemove ''a'', CScan [] ''z'', CCollect, CReopen, CGet ''a'']
      (e, new_fs 1000) = Some ([RCode kSucc, RCode kSucc, RScan kSucc [], RCode kSucc, RDone, RValue kNotFound []], s)"
proof -
  let ?cs = "[CPut ''a'' ''1'', CRemove ''a'', CScan [] ''z'', CCollect, CReopen, CGet ''a'']"
  have m: "[''a'' \<mapsto> ''1''](''a'' := None) = Map.empty" by auto
  have "calls_fit ?cs Map.empty 1000 False"
    by (simp add: m nul_free_def rec_size_def live_size_def del: fun_upd_apply)
  moreover have "fst (map_run ?cs Map.empty) = [RCode kSucc, RCode kSucc, RScan kSucc [], RCode kSucc, RDone, RValue kNotFound []]"
    by (simp add: m keys_in_def del: fun_upd_apply) simp
  ultimately show ?thesis using engine_refines_map [of 1000 ?cs "''d''"] by simp
qed





text \<open>
  C13. \<^verbatim>\<open>Engine::get\<close> returns the value of a present key, and \<^verbatim>\<open>kNotFound\<close> with the caller's string
  unchanged for an absent one, also when the log ends in a torn record.
\<close>
theorem engine_get_correct:
  assumes "engine_view e fs tail m"
  shows "Engine_get k v0 e fs = Some (case m k of None \<Rightarrow> (kNotFound, v0) | Some v \<Rightarrow> (kSucc, v))"
  using assms by (rule Engine_get_correct)

theorem engine_get_correct_witness:
  "\<exists>e fs. Engine_get ''a'' ''old'' e fs = Some (kSucc, ''1'') \<and> Engine_get ''b'' ''old'' e fs = Some (kNotFound, ''old'')"
proof -
  obtain e fs where s: "engine_abs e fs [''a'' \<mapsto> ''1'']" by (metis sample_store)
  from engine_get_correct [OF this] show ?thesis by (intro exI [of _ e] exI [of _ fs]) simp
qed

text \<open>
  What \<^verbatim>\<open>engine.h\<close> promises of \<^verbatim>\<open>visit\<close>: the keys of \<open>[lower, upper)\<close>, where an empty \<open>upper\<close> stands for
  the end of all keys.
\<close>

definition promised_keys :: "(string \<rightharpoonup> string) \<Rightarrow> string \<Rightarrow> string \<Rightarrow> string list" where
  "promised_keys m lower upper = sorted_list_of_set {k \<in> dom m. lower \<le> k \<and> (upper = [] \<or> k < upper)}"

lemma keys_in_promised:
  assumes "finite (dom m)"
  shows "keys_in m lower upper = (if upper = [] then (if lower = [] \<and> m [] \<noteq> None then [[]] else [])
    else if lower \<le> upper \<and> m upper \<noteq> None then promised_keys m lower upper @ [upper] else promised_keys m lower upper)"
proof (cases "upper = []")
  case True
  have "{k \<in> dom m. lower \<le> k \<and> k \<le> []} = (if lower = [] \<and> m [] \<noteq> None then {[]} else {})" by auto
  with True show ?thesis by (simp add: keys_in_def)
next
  case False
  let ?P = "{k \<in> dom m. lower \<le> k \<and> k < upper}"
  have p: "promised_keys m lower upper = sorted_list_of_set ?P" using False by (simp add: promised_keys_def)
  show ?thesis
  proof (cases "lower \<le> upper \<and> m upper \<noteq> None")
    case True
    have "keys_in m lower upper = sorted_list_of_set ?P @ [upper]"
    proof (rule strict_sorted_equal)
      show "sorted_wrt (<) (sorted_list_of_set ?P @ [upper])" using assms by (simp add: sorted_wrt_append)
      show "set (keys_in m lower upper) = set (sorted_list_of_set ?P @ [upper])" using True assms by (auto simp: keys_in_def)
    qed (simp add: keys_in_def)
    with True False p show ?thesis by simp
  next
    case no: False
    have "{k \<in> dom m. lower \<le> k \<and> k \<le> upper} = ?P" using no by (auto simp: less_le)
    with no False p show ?thesis by (auto simp: keys_in_def)
  qed
qed

text \<open>
  C14. \<^verbatim>\<open>Engine::visit\<close> against its documented contract, over an engine with a log: it calls the visitor
  once for every promised key in ascending order with the value of the key, but then also for \<open>upper\<close>
  itself when that key is stored; and for an empty \<open>upper\<close>, which is promised to stand for the end of
  all keys, it visits at most the empty key.  The code breaks the contract of \<^verbatim>\<open>engine.h\<close> in these two
  cases and in no other.
\<close>
theorem visit_against_contract:
  assumes "engine_view e fs tail m" "fs_files fs (log_filename e) = Some s"
  shows "Engine_visit lower upper visitor u e fs = Some (kSucc, fold (\<lambda>k. visitor k (the (m k)))
    (if upper = [] then (if lower = [] \<and> m [] \<noteq> None then [[]] else [])
     else if lower \<le> upper \<and> m upper \<noteq> None then promised_keys m lower upper @ [upper]
     else promised_keys m lower upper) u)"
proof -
  have fin: "finite (dom m)" using assms(1) finite_replay by (auto simp: engine_view_def)
  show ?thesis unfolding keys_in_promised [OF fin, symmetric] by (rule Engine_visit_correct [OF assms])
qed

theorem visit_against_contract_witness:
  "\<exists>e fs. Engine_visit ''A'' ''a'' (\<lambda>k v u. (k, v) # u) [] e fs = Some (kSucc, [(''a'', ''1'')]) \<and>
    promised_keys [''a'' \<mapsto> ''1''] ''A'' ''a'' = [] \<and>
    Engine_visit [] [] (\<lambda>k v u. (k, v) # u) [] e fs = Some (kSucc, []) \<and> promised_keys [''a'' \<mapsto> ''1''] [] [] = [''a'']"
proof -
  obtain e fs where s: "engine_abs e fs [''a'' \<mapsto> ''1'']" "\<exists>s. fs_files fs (log_filename e) = Some s"
    by (metis sample_store)
  then obtain str where f: "fs_files fs (log_filename e) = Some str" by blast
  have "{k \<in> dom [''a'' \<mapsto> ''1'']. ''A'' \<le> k \<and> (''a'' = [] \<or> k < ''a'')} = {}" by auto
  then have p: "promised_keys [''a'' \<mapsto> ''1''] ''A'' ''a'' = []" by (simp add: promised_keys_def)
  have "{k \<in> dom [''a'' \<mapsto> ''1'']. [] \<le> k \<and> ([] = [] \<or> k < [])} = {''a''}" by auto
  then have q: "promised_keys [''a'' \<mapsto> ''1''] [] [] = [''a'']" by (simp add: promised_keys_def)
  have l: "''A'' \<le> ''a''" by (simp add: less_eq_char_def)
  show ?thesis
    using visit_against_contract [OF s(1) f, of "''A''" "''a''" "\<lambda>k v u. (k, v) # u" "[]"]
      visit_against_contract [OF s(1) f, of "[]" "[]" "\<lambda>k v u. (k, v) # u" "[]"] p q l
    by (intro exI [of _ e] exI [of _ fs]) simp
qed

text \<open>
  C7. Garbage collection keeps the map: if there is a log, the directory is writable, the disk has room
  for the new log beside the old one, and no new log of an interrupted collection is there (\<open>C35\<close> is
  about the case that one is), then \<^verbatim>\<open>_gc\<close> leaves a log of exactly the live records, an index that
  points into it, the offset of its end, and no second log; a torn record at the end of the old log
  is dropped.
\<close>
theorem engine_gc_correct:
  assumes "engine_view e fs tail m" "fs_files fs (log_filename e) = Some s"
    and "content fs (log_filename e @ ''(1)'') = []" "fs_writable fs" "live_size m \<le> fs_free fs"
  shows "\<exists>e' fs'. Engine_gc e fs = Some (e', fs') \<and> engine_abs e' fs' m \<and>
    length (content fs' (log_filename e')) = live_size m \<and> content fs' (log_filename e' @ ''(1)'') = [] \<and>
    fs_free fs' = fs_free fs - live_size m + length s"
  using Engine_gc_correct [OF assms] by (elim exE conjE) auto

theorem engine_gc_correct_witness:
  "\<exists>e fs e' fs'. Engine_gc e fs = Some (e', fs') \<and> engine_abs e' fs' [''a'' \<mapsto> ''1''] \<and>
    length (content fs' (log_filename e')) = 18"
proof -
  obtain e fs where s: "engine_abs e fs [''a'' \<mapsto> ''1'']" "content fs (log_filename e @ ''(1)'') = []"
    "fs_writable fs" "900 \<le> fs_free fs" "\<exists>s. fs_files fs (log_filename e) = Some s" by (metis sample_store)
  then obtain str where f: "fs_files fs (log_filename e) = Some str" by blast
  have l: "live_size [''a'' \<mapsto> ''1''] = 18" by (simp add: live_size_def rec_size_def)
  with s(4) have "live_size [''a'' \<mapsto> ''1''] \<le> fs_free fs" by simp
  from engine_gc_correct [OF s(1) f s(2,3) this] l show ?thesis by metis
qed

section \<open>Restart and loss of power\<close>



lemma engine_abs_files:
  "engine_abs e fs m \<Longrightarrow> content fs' (log_filename e) = content fs (log_filename e) \<Longrightarrow> engine_abs e fs' m"
  by (simp add: engine_view_def)

lemma ctor_no_log: "content fs (path @ ''/log'') = [] \<Longrightarrow> \<exists>e. Engine_ctor path fs = Some e \<and> engine_abs e fs Map.empty"
proof -
  assume "content fs (path @ ''/log'') = []"
  then have "content fs (path @ ''/log'') = encs [] @ []" by simp
  from Engine_ctor_correct [OF this] read_short_header show ?thesis by auto
qed

text \<open>
  C8. Durability of \<^verbatim>\<open>sync\<close>: when it has returned \<^verbatim>\<open>kSucc\<close> and the machine loses power, every state the disk
  can be in gives the same map at the next start, provided that the directory entry of the log was on
  the disk already; \<^verbatim>\<open>sync\<close> does not put it there, and if it is not, the next start may find no key at
  all.  (The entry is not on the disk after the first \<^verbatim>\<open>put\<close> in a new directory and after a garbage
  collection, until the system writes the directory back: \<open>log_entry_not_synced\<close>.)
\<close>
theorem sync_survives_power_loss:
  assumes "engine_abs e fs m" "log_filename e = path @ ''/log''" "Engine_sync e fs = Some (kSucc, e', fs')"
  shows "(fs_named fs' (path @ ''/log'') \<longrightarrow> (\<forall>fs2. power_loss fs' fs2 \<longrightarrow>
      (\<exists>e2. Engine_ctor path fs2 = Some e2 \<and> engine_abs e2 fs2 m))) \<and>
    (\<not> fs_named fs' (path @ ''/log'') \<longrightarrow> (\<exists>fs2 e2. power_loss fs' fs2 \<and>
      Engine_ctor path fs2 = Some e2 \<and> engine_abs e2 fs2 Map.empty))"
proof -
  from assms(3) have w: "fs_writable fs"
    by (auto simp: Engine_sync_def fopen_a_def bind_eq_Some_conv split: if_splits)
  from Engine_sync_correct [OF assms(1) w] assms(3) have s: "engine_abs e fs' m" "fs_access (log_filename e) fs'"
    "fs_synced fs' (log_filename e) = length (content fs' (log_filename e))" by (auto split: if_splits)
  have "\<exists>e2. Engine_ctor path fs2 = Some e2 \<and> engine_abs e2 fs2 m"
    if "fs_named fs' (path @ ''/log'')" "power_loss fs' fs2" for fs2
  proof -
    from s(2) assms(2) obtain str where str: "fs_files fs' (path @ ''/log'') = Some str" by (auto simp: fs_access_def)
    with that obtain str' where "fs_files fs2 (path @ ''/log'') = Some str'"
      "survives (fs_synced fs' (path @ ''/log'')) str str'" unfolding power_loss_def by fastforce
    with s(3) assms(2) str have "content fs2 (log_filename e) = content fs' (log_filename e)"
      by (simp add: content_def survives_all)
    from ctor_view [OF engine_abs_files [OF s(1) this] assms(2)] show ?thesis by blast
  qed
  moreover have "\<exists>fs2 e2. power_loss fs' fs2 \<and> Engine_ctor path fs2 = Some e2 \<and> engine_abs e2 fs2 Map.empty"
    if n: "\<not> fs_named fs' (path @ ''/log'')"
  proof -
    let ?fs2 = "fs'\<lparr>fs_files := (fs_files fs')(path @ ''/log'' := None)\<rparr>"
    have "power_loss fs' ?fs2" using n by (auto simp: power_loss_def survives_def split: option.splits)
    moreover have "content ?fs2 (path @ ''/log'') = []" by (simp add: content_def)
    ultimately show ?thesis using ctor_no_log by blast
  qed
  ultimately show ?thesis by blast
qed

theorem sync_survives_power_loss_witness:
  "\<exists>e fs e' fs'. Engine_sync e fs = Some (kSucc, e', fs') \<and> power_loss fs' fs' \<and>
    (\<exists>e2. Engine_ctor ''d'' fs' = Some e2 \<and> engine_abs e2 fs' [''a'' \<mapsto> ''1''])"
proof -
  obtain e fs where s: "engine_abs e fs [''a'' \<mapsto> ''1'']" "log_filename e = ''d/log''" "fs_writable fs" "fs_sync_ok fs"
    "\<exists>s. fs_files fs (log_filename e) = Some s" by (metis sample_store)
  let ?fs = "fs\<lparr>fs_synced := (\<lambda>_. 0), fs_named := (\<lambda>_. True)\<rparr>"
  have a: "engine_abs e ?fs [''a'' \<mapsto> ''1'']" using engine_abs_files [OF s(1), of ?fs] by simp
  have w: "fs_writable ?fs" using s(3) by simp
  from Engine_sync_correct [OF a w] s(2,4,5) obtain fs' where f: "Engine_sync e ?fs = Some (kSucc, e, fs')"
    "fs_named fs' ''d/log''" by (auto simp: fs_access_def)
  have f': "fs' = (opened (log_filename e) ?fs)\<lparr>fs_synced := (\<lambda>_. 0)(log_filename e := length (content ?fs (log_filename e)))\<rparr>"
  proof -
    have "fs_access (log_filename e) ?fs" using s(5) by (auto simp: fs_access_def)
    then show ?thesis using f(1) s(3,4)
      by (auto simp: Engine_sync_def fopen_a_def opened_present fs_fsync_def fclose_room fs_access_def split_beta)
  qed
  have p: "power_loss fs' fs'"
    unfolding f' power_loss_def survives_def by (auto simp: opened_def content_def split: option.splits)
  from sync_survives_power_loss [OF a _ f(1), of "''d''"] s(2) f p show ?thesis by fastforce
qed

text \<open>Where the code leaves the log without a directory entry on the disk.\<close>

theorem log_entry_not_synced:
  assumes "engine_abs e fs m"
  shows "fs_files fs (log_filename e) = None \<Longrightarrow> nul_free k \<Longrightarrow> room e fs (rec_size k v) \<Longrightarrow>
      \<exists>e' fs'. Engine_put k v e fs = Some (kSucc, e', fs') \<and> \<not> fs_named fs' (log_filename e')"
    and "fs_files fs (log_filename e) = Some s \<Longrightarrow> fs_writable fs \<Longrightarrow> live_size m \<le> fs_free fs \<Longrightarrow>
      \<exists>e' fs'. Engine_garbage_collect e fs = Some (kSucc, e', fs') \<and> \<not> fs_named fs' (log_filename e')"
proof -
  assume "fs_files fs (log_filename e) = None" "nul_free k" "room e fs (rec_size k v)"
  with Engine_put_correct [OF assms this(2,3)]
  show "\<exists>e' fs'. Engine_put k v e fs = Some (kSucc, e', fs') \<and> \<not> fs_named fs' (log_filename e')"
    by (auto simp: appended_def grown_def opened_def fs_access_def)
next
  assume "fs_files fs (log_filename e) = Some s" "fs_writable fs" "live_size m \<le> fs_free fs"
  from Engine_gc_run [OF assms this] obtain e' fs' where "Engine_gc e fs = Some (e', fs')" "log_filename e' = log_filename e"
    "\<not> fs_named fs' (log_filename e)" by metis
  then show "\<exists>e' fs'. Engine_garbage_collect e fs = Some (kSucc, e', fs') \<and> \<not> fs_named fs' (log_filename e')"
    by (auto simp: Engine_garbage_collect_def)
qed

text \<open>
  \<^verbatim>\<open>sync\<close> reports the failure of \<^verbatim>\<open>fsync\<close> as \<^verbatim>\<open>kIOError\<close>, and in both cases the store is as
  before.
\<close>
theorem sync_result:
  assumes "engine_abs e fs m" "fs_writable fs"
  shows "\<exists>fs'. Engine_sync e fs = Some (if fs_sync_ok fs then kSucc else kIOError, e, fs') \<and> engine_abs e fs' m"
  using Engine_sync_correct [OF assms] by blast

theorem sync_result_witness:
  "\<exists>e fs fs'. Engine_sync e fs = Some (kSucc, e, fs') \<and> engine_abs e fs' [''a'' \<mapsto> ''1'']"
proof -
  obtain e fs where s: "engine_abs e fs [''a'' \<mapsto> ''1'']" "fs_writable fs" "fs_sync_ok fs" by (metis sample_store)
  from sync_result [OF s(1,2)] s(3) show ?thesis by auto
qed

section \<open>Where the engine fails\<close>

text \<open>
  Before the first \<^verbatim>\<open>put\<close> there is no log: \<^verbatim>\<open>visit\<close> and \<^verbatim>\<open>garbage_collect\<close> then use the null
  pointer \<^verbatim>\<open>fopen\<close> returned and do not complete.
\<close>
theorem no_log_no_walk:
  assumes "fs_files fs (log_filename e) = None"
  shows "Engine_visit lower upper visitor u e fs = None \<and> Engine_garbage_collect e fs = None"
  using assms by (auto simp: Engine_visit_def Engine_garbage_collect_def Engine_gc_def gc_copy_def Let_def fopen_r_def fs_access_def
      bind_eq_None_conv Let_def split: option.splits)

theorem no_log_no_walk_witness:
  "\<exists>e. Engine_ctor ''d'' (new_fs 1000) = Some e \<and>
    Engine_visit [] [] (\<lambda>k v u. u) () e (new_fs 1000) = None \<and> Engine_garbage_collect e (new_fs 1000) = None"
proof -
  have "Engine_ctor ''d'' (new_fs 1000) =
      Some \<lparr>log_filename = ''d/log'', eng_btree = BTree_ctor, log_offset = 0\<rparr>"
    by (simp add: Engine_ctor_def fs_access_def new_fs_def)
  moreover have "fs_files (new_fs 1000) ''d/log'' = None" by (simp add: new_fs_def)
  ultimately show ?thesis
    using no_log_no_walk [of "new_fs 1000" "\<lparr>log_filename = ''d/log'', eng_btree = BTree_ctor, log_offset = 0\<rparr>"] by simp
qed

text \<open>
  C31. A full disk: \<^verbatim>\<open>put\<close> and \<^verbatim>\<open>remove\<close> do not notice it.  A record of less than a block stays in the buffer
  of the stream and is lost when \<^verbatim>\<open>fclose\<close> fails; \<^verbatim>\<open>put\<close> and \<^verbatim>\<open>remove\<close> return \<^verbatim>\<open>kSucc\<close> with the log unchanged,
  a \<^verbatim>\<open>get\<close> of the key that was put then fails, and the next start has the map from before, with the
  removed key.  With a record of a block or more \<^verbatim>\<open>put\<close> repeats \<^verbatim>\<open>fwrite\<close> for ever.
\<close>
theorem full_disk_loses_writes:
  assumes "engine_abs e fs m" "log_filename e = path @ ''/log''" "fs_writable fs" "fs_free fs = 0" "nul_free k"
  shows "(rec_size k v < bufsiz \<longrightarrow> (\<exists>e' fs' e2. Engine_put k v e fs = Some (kSucc, e', fs') \<and>
      content fs' (path @ ''/log'') = content fs (path @ ''/log'') \<and> Engine_get k u e' fs' = None \<and>
      Engine_ctor path fs' = Some e2 \<and> engine_abs e2 fs' m)) \<and>
    (bufsiz \<le> rec_size k v \<longrightarrow> Engine_put k v e fs = None) \<and>
    (rec_size k [] < bufsiz \<longrightarrow> m k \<noteq> None \<longrightarrow> (\<exists>e' fs' e2. Engine_remove k e fs = Some (kSucc, e', fs') \<and>
      Engine_ctor path fs' = Some e2 \<and> engine_abs e2 fs' m))"
proof -
  let ?name = "log_filename e"
  let ?fs = "opened (log_filename e) fs" and ?fs' = "(opened (log_filename e) fs)\<lparr>fs_lost := True\<rparr>"
  obtain r t pre where t: "BTree_insert k (scast (log_offset e)) (eng_btree e) = Some (r, t)"
    "content fs ?name = pre @ []" "length pre < 2 ^ 31" "BTree_search t k = Some (scast (word_of_nat (length pre) :: 32 word))"
    by (rule put_indexed [OF assms(1,5)])
  have c: "content ?fs' ?name = content fs ?name" by simp
  from ctor_view [OF engine_abs_files [OF assms(1) c] assms(2)] obtain e2 where
    e2: "Engine_ctor path ?fs' = Some e2" "engine_abs e2 ?fs' m" by blast
  have ne: "put_line k v \<noteq> []" "remove_line k \<noteq> []" using length_enc(1) [of k v] length_enc(2) [of k] by auto
  from append_line_full [OF assms(3,4) ne(1), of ?name] obtain w where w: "fopen_a ?name fs = Some (w, ?fs)"
    "rec_size k v < bufsiz \<Longrightarrow> log_line (put_line k v) w ?fs = Some (w\<lparr>wf_buf := put_line k v\<rparr>, ?fs)"
    "fclose (w\<lparr>wf_buf := put_line k v\<rparr>) ?fs = (-1, ?fs')" "bufsiz \<le> rec_size k v \<Longrightarrow> log_line (put_line k v) w ?fs = None"
    unfolding length_put_line by metis
  have len: "length (remove_line k) = rec_size k []" by (simp add: length_enc rec_size_def)
  from append_line_full [OF assms(3,4) ne(2), of ?name] obtain w' where w': "fopen_a ?name fs = Some (w', ?fs)"
    "rec_size k [] < bufsiz \<Longrightarrow> log_line (remove_line k) w' ?fs = Some (w'\<lparr>wf_buf := remove_line k\<rparr>, ?fs)"
    "fclose (w'\<lparr>wf_buf := remove_line k\<rparr>) ?fs = (-1, ?fs')"
    unfolding len by metis
  have "\<exists>e' fs' e2. Engine_put k v e fs = Some (kSucc, e', fs') \<and> content fs' (path @ ''/log'') = content fs (path @ ''/log'') \<and>
    Engine_get k u e' fs' = None \<and> Engine_ctor path fs' = Some e2 \<and> engine_abs e2 fs' m" if l: "rec_size k v < bufsiz"
  proof -
    let ?e = "e\<lparr>eng_btree := t, log_offset := log_offset e + word_of_nat (rec_size k v)\<rparr>"
    have "Engine_put k v e fs = Some (kSucc, ?e, ?fs')"
      using w(1) w(2) [OF l] w(3) t(1) by (simp add: Engine_put_def Let_def length_put_line)
    moreover have "fs_access (log_filename ?e) ?fs'" using opened_simps(2) [of ?name fs] by (simp add: fs_access_def)
    then have "Engine_get k u ?e ?fs' = None"
      using get_reads_at [of ?e k "length pre" ?fs' u] t(2-4)
        read_short_header [of "\<lparr>fp_name = ?name, fp_pos = length pre\<rparr>" ?fs' "[]" "[]"]
      by (simp add: rest_of_def split_beta)
    ultimately show ?thesis using e2 c assms(2) by auto
  qed
  moreover have "Engine_put k v e fs = None" if "bufsiz \<le> rec_size k v"
    using w(1) w(4) [OF that] by (simp add: Engine_put_def Let_def)
  moreover have "\<exists>e' fs' e2. Engine_remove k e fs = Some (kSucc, e', fs') \<and> Engine_ctor path fs' = Some e2 \<and> engine_abs e2 fs' m"
    if l: "rec_size k [] < bufsiz" "m k \<noteq> None"
  proof -
    from assms(1) obtain rs idx where "index_ok rs idx m" "btree_abs (eng_btree e) idx" "replay rs = m" by (auto simp: engine_view_def)
    with index_remove [of rs idx "eng_btree e" k] l(2) obtain t' where "BTree_remove k (eng_btree e) = Some (1, t')" by auto
    then show ?thesis using w'(1) w'(2) [OF l(1)] w'(3) e2 by (auto simp: Engine_remove_def Let_def)
  qed
  ultimately show ?thesis by blast
qed

theorem full_disk_loses_writes_witness:
  "\<exists>e fs e' fs' e2. engine_abs e fs [''a'' \<mapsto> ''1''] \<and> Engine_put ''b'' ''2'' e fs = Some (kSucc, e', fs') \<and>
    Engine_get ''b'' [] e' fs' = None \<and> Engine_ctor ''d'' fs' = Some e2 \<and> engine_abs e2 fs' [''a'' \<mapsto> ''1'']"
proof -
  obtain e fs where s: "engine_abs e fs [''a'' \<mapsto> ''1'']" "log_filename e = ''d/log''" "fs_writable fs" by (metis sample_store)
  let ?fs = "fs\<lparr>fs_free := 0\<rparr>"
  have a: "engine_abs e ?fs [''a'' \<mapsto> ''1'']" using engine_abs_files [OF s(1), of ?fs] by simp
  have k: "nul_free ''b''" "rec_size ''b'' ''2'' < bufsiz" by (simp_all add: nul_free_def rec_size_def bufsiz_def)
  from full_disk_loses_writes [OF a, of "''d''" "''b''" "''2''" "[]"] s(2,3) k a show ?thesis by fastforce
qed

text \<open>
  C34. A \<^verbatim>\<open>put\<close> on an engine whose log ends in a torn record of which at least the sizes are there, as
  after every start from such a log: it returns \<^verbatim>\<open>kSucc\<close>, but it appends behind the torn record
  and indexes the end of the complete ones.  The next \<^verbatim>\<open>get\<close> of the key parses the torn record: it returns,
  as the value, as many bytes as the value of the torn record had, whatever they are, or it fails
  when there are not enough.
\<close>
theorem put_after_torn_log_lost:
  assumes "engine_view e fs (take n (put_line k1 v1)) m" "rec_ok (Put k1 v1)" "16 \<le> n" "n < length (put_line k1 v1)"
    and "nul_free k" "room e fs (rec_size k v)"
  defines "body \<equiv> take (n - 16) (k1 @ v1) @ put_line k v"
  shows "\<exists>e' fs'. Engine_put k v e fs = Some (kSucc, e', fs') \<and>
    Engine_get k u e' fs' = (if length k1 + length v1 \<le> length body
      then Some (kSucc, take (length v1) (drop (length k1) body)) else None)"
proof -
  let ?name = "log_filename e" and ?tail = "take n (put_line k1 v1)"
  let ?fs = "appended (log_filename e) (put_line k v) fs" and ?l = "word_of_nat :: nat \<Rightarrow> 64 word"
  obtain r t pre where t: "BTree_insert k (scast (log_offset e)) (eng_btree e) = Some (r, t)"
    "content fs ?name = pre @ ?tail" "length pre < 2 ^ 31" "BTree_search t k = Some (scast (word_of_nat (length pre) :: 32 word))"
    by (rule put_indexed [OF assms(1,5)])
  let ?e = "e\<lparr>eng_btree := t, log_offset := log_offset e + word_of_nat (rec_size k v)\<rparr>"
  from append_line [of fs "put_line k v" ?name] assms(6) obtain w w' fs' where
    "fopen_a ?name fs = Some (w, opened ?name fs)" "log_line (put_line k v) w (opened ?name fs) = Some (w', fs')"
    "fclose w' fs' = (0, ?fs)" by (auto simp: room_def length_put_line)
  with t(1) have put: "Engine_put k v e fs = Some (kSucc, ?e, ?fs)" by (simp add: Engine_put_def Let_def length_put_line)
  let ?fp = "\<lparr>fp_name = ?name, fp_pos = length pre\<rparr>"
  have rest: "rest_of ?fp ?fs = size_bytes (?l (length k1)) @ size_bytes (?l (length v1)) @ body"
    using t(2) assms(3) by (simp add: rest_of_def body_def put_line_def [of k1 v1])
  have u: "unat (?l (length k1)) = length k1" "unat (?l (length v1)) = length v1" "?l (length v1) \<noteq> -1"
    using assms(2) by (simp_all add: unat_of_length word_length_neq_minus1)
  have g: "Engine_get k u ?e ?fs = (let (ret, k', v', fp) = read_key_value [] [] ?fp ?fs in if ret \<noteq> 1 then None else Some (kSucc, v'))"
    using get_reads_at [of ?e k "length pre" ?fs u] t(3,4) by (simp add: fs_access_def)
  have "Engine_get k u ?e ?fs = (if length k1 + length v1 \<le> length body
      then Some (kSucc, take (length v1) (drop (length k1) body)) else None)"
  proof (cases "length k1 + length v1 \<le> length body")
    case True
    with read_whole [OF rest u(3)] show ?thesis unfolding g by (simp add: u)
  next
    case False
    with read_after_header(1,2) [OF rest u(3), of "[]" "[]"] have "fst (read_key_value [] [] ?fp ?fs) = -1"
      by (cases "length body < length k1") (simp_all add: u)
    with False show ?thesis unfolding g by (simp add: split_beta)
  qed
  with put show ?thesis by blast
qed

theorem put_after_torn_log_lost_witness:
  "\<exists>fs e e' fs'. Engine_ctor ''d'' (appended ''d/log'' (take 17 (put_line ''b'' ''2'')) fs) = Some e \<and>
    Engine_put ''c'' ''3'' e (appended ''d/log'' (take 17 (put_line ''b'' ''2'')) fs) = Some (kSucc, e', fs') \<and>
    Engine_get ''c'' [] e' fs' = Some (kSucc, [CHR 0x01])"
proof -
  let ?t = "take 17 (put_line ''b'' ''2'')"
  obtain e0 fs where s: "engine_abs e0 fs [''a'' \<mapsto> ''1'']" "log_filename e0 = ''d/log''" "room e0 fs 900" by (metis sample_store)
  have r: "rec_ok (Put ''b'' ''2'')" "17 < length (enc (Put ''b'' ''2''))" by (simp_all add: length_enc)
  from ctor_torn [OF s(1) _ r, of "''d''"] s(2) obtain e where
    e: "Engine_ctor ''d'' (appended ''d/log'' ?t fs) = Some e" "engine_view e (appended ''d/log'' ?t fs) ?t [''a'' \<mapsto> ''1'']"
    and name: "log_filename e = ''d/log''" by auto
  have "room e (appended ''d/log'' ?t fs) (rec_size ''c'' ''3'')"
    using s(2,3) by (auto simp: room_def name rec_size_def length_put_line)
  moreover have "nul_free ''c''" by (simp add: nul_free_def)
  moreover have "take 1 (drop 1 (take (17 - 16) (''b'' @ ''2'') @ put_line ''c'' ''3'')) = [CHR 0x01]" by code_simp
  ultimately show ?thesis using put_after_torn_log_lost [OF e(2) r(1), of "''c''" "''3''" "[]"] r(2) e(1)
    by (auto simp: length_put_line rec_size_def)
qed

text \<open>
  C35. A new log left by an interrupted collection is not truncated: if there is one that begins
  with a complete record, the next collection, of a map that is not empty and with room on the disk,
  succeeds and appends to it; its offsets, counted from 0, point to the old records, and \<^verbatim>\<open>get\<close> returns
  for the least key of the map the value of that old record, whatever its key.
\<close>
theorem stale_new_log_wrong_values:
  assumes "engine_view e fs tail m" "m \<noteq> Map.empty" "fs_writable fs" "live_size m \<le> fs_free fs"
    and "content fs (log_filename e @ ''(1)'') = put_line k0 v0 @ rest" "length k0 + length v0 < 2 ^ 64 - 1"
  shows "\<exists>e' fs'. Engine_garbage_collect e fs = Some (kSucc, e', fs') \<and>
    Engine_get (Min (dom m)) u e' fs' = Some (kSucc, v0)"
proof -
  from view_file [OF assms(1,2)] obtain s where "fs_files fs (log_filename e) = Some s" by blast
  from Engine_gc_stale [OF assms(1) this assms(5,6,3,4,2), of u] show ?thesis by (auto simp: Engine_garbage_collect_def)
qed

theorem stale_new_log_wrong_values_witness:
  "\<exists>e fs e' fs'. engine_abs e fs [''a'' \<mapsto> ''1''] \<and> Engine_garbage_collect e fs = Some (kSucc, e', fs') \<and>
    Engine_get ''a'' [] e' fs' = Some (kSucc, ''0'')"
proof -
  obtain e fs where s: "engine_abs e fs [''a'' \<mapsto> ''1'']" "content fs (log_filename e @ ''(1)'') = []"
    "fs_writable fs" "900 \<le> fs_free fs" by (metis sample_store)
  let ?fs = "appended (log_filename e @ ''(1)'') (put_line ''a'' ''0'') fs"
  have a: "engine_abs e ?fs [''a'' \<mapsto> ''1'']" using engine_abs_files [OF s(1), of ?fs] by simp
  have "live_size [''a'' \<mapsto> ''1''] \<le> fs_free ?fs" using s(4) by (simp add: live_size_def rec_size_def length_put_line)
  from stale_new_log_wrong_values [OF a _ _ this, of "''a''" "''0''" "[]" "[]"] a s(2,3) show ?thesis by fastforce
qed

text \<open>
  A crash between \<^verbatim>\<open>std::remove\<close> and \<^verbatim>\<open>std::rename\<close> of a collection loses everything: the
  next start finds no log and no key.
\<close>
theorem crash_before_rename_loses_all:
  "\<exists>e. Engine_ctor path (fs_remove (path @ ''/log'') fs) = Some e \<and>
    Engine_get k v0 e (fs_remove (path @ ''/log'') fs) = Some (kNotFound, v0)"
proof -
  let ?fs = "fs_remove (path @ ''/log'') fs"
  have "content ?fs (path @ ''/log'') = encs [] @ []" by simp
  from Engine_ctor_correct [OF this] read_short_header obtain e where
    "Engine_ctor path ?fs = Some e" "engine_abs e ?fs Map.empty" by auto
  with Engine_get_correct [of e ?fs "[]" Map.empty k v0] show ?thesis by auto
qed

text \<open>
  An index entry of \<open>2 ^ 31\<close> or more becomes a negative offset, \<^verbatim>\<open>fseek\<close> fails unnoticed, and
  \<^verbatim>\<open>get\<close> returns the value of the first record of the log, whatever its key.
\<close>
theorem negative_offset_reads_first:
  assumes "BTree_search (eng_btree e) k = Some index" "index \<noteq> -1" "sint index < 0"
    and "fs_files fs (log_filename e) = Some (put_line k1 v1 @ post)" "length k1 + length v1 < 2 ^ 64 - 1"
  shows "Engine_get k v0 e fs = Some (kSucc, v1)"
proof -
  let ?fp = "\<lparr>fp_name = log_filename e, fp_pos = 0\<rparr>"
  have "rest_of ?fp fs = put_line k1 v1 @ post" using assms(4) by (simp add: rest_of_def content_def)
  from read_put_line [OF assms(5) this, of "[]" "[]"] show ?thesis
    using assms(1-4) by (simp add: Engine_get_def fopen_r_Some)
qed

theorem negative_offset_reads_first_witness:
  "\<exists>r t. BTree_insert ''z'' 2147483648 BTree_ctor = Some (r, t) \<and>
    Engine_get ''z'' [] \<lparr>log_filename = ''l'', eng_btree = t, log_offset = 0\<rparr> (sample_fs (put_line ''a'' ''1'')) =
      Some (kSucc, ''1'')"
proof -
  from bti.ins_map [OF ctor_abs, of "''z''" 2147483648] obtain t where
    t: "BTree_insert ''z'' 2147483648 BTree_ctor = Some (1, t)" "btree_abs t [''z'' \<mapsto> 2147483648]"
    by (auto simp: nul_free_def)
  from bti.look_map [OF t(2), of "''z''"] have s: "BTree_search t ''z'' = Some 18446744071562067968" by simp
  from negative_offset_reads_first [of "\<lparr>log_filename = ''l'', eng_btree = t, log_offset = 0\<rparr>" "''z''"
      18446744071562067968 "sample_fs (put_line ''a'' ''1'')" "''a''" "''1''" "[]" "[]"] s t(1)
  show ?thesis by (simp add: sample_fs_def)
qed

end
