(* ===== verification/Engine_Locks.thy ===== *)
theory Engine_Locks
  imports KVS_Prelude
begin

text \<open>
  The locks of \<^verbatim>\<open>engine.cpp\<close>: \<^verbatim>\<open>_mutex\<close> and \<^verbatim>\<open>_mutex2\<close> are shared mutexes, \<^verbatim>\<open>_mutex_gc\<close> is a plain
  one.  Each operation is the sequence of its lock acquisitions and of its accesses to what
  the threads share; its locks are released, the last one first, when it ends.  Any number
  of threads run operations with every interleaving.
\<close>

section \<open>Operations as sequences of actions\<close>

datatype lock = LGc | LMutex | LMutex2
datatype mode = Shared | Excl
datatype var = VTree | VData | VLog | VNewLog | VOffset | VLogFp
datatype act = Acq lock mode | Rd var | Wr var

text \<open>
  \<^verbatim>\<open>Engine::put\<close>; \<open>VTree\<close> are the nodes of the index with their keys, \<open>VData\<close> the offsets in its
  leaves, \<open>VLog\<close> the log file, \<open>VNewLog\<close> the file a collection writes, \<open>VOffset\<close> the member
  \<^verbatim>\<open>log_offset\<close> and \<open>VLogFp\<close> the member \<^verbatim>\<open>log_fp\<close>, the stream \<^verbatim>\<open>put\<close>, \<^verbatim>\<open>remove\<close> and \<^verbatim>\<open>sync\<close> write by.
\<close>

definition put_acts :: "act list" where
  "put_acts = [Acq LMutex Excl, Wr VLogFp, Rd VLogFp, Wr VLog, Rd VOffset, Wr VTree, Wr VData, Wr VOffset]"

definition remove_acts :: "bool \<Rightarrow> act list" where
  "remove_acts found = Acq LMutex Excl # Rd VTree #
     (if found then [Wr VTree, Wr VData, Wr VLogFp, Rd VLogFp, Wr VLog, Wr VOffset] else [])"

definition get_acts :: "bool \<Rightarrow> act list" where
  "get_acts found = [Acq LMutex Shared, Acq LMutex2 Shared, Rd VTree] @
     (if found then [Rd VData, Rd VLog] else [])"

definition sync_acts :: "act list" where
  "sync_acts = [Acq LMutex Excl, Wr VLogFp, Rd VLogFp, Wr VLog]"

text \<open>\<^verbatim>\<open>visit\<close> and \<^verbatim>\<open>_gc\<close> loop over the keys; \<open>n\<close> is the number of rounds.\<close>

definition visit_acts :: "nat \<Rightarrow> act list" where
  "visit_acts n = [Acq LMutex Shared, Acq LMutex2 Shared, Rd VTree] @
     concat (replicate n [Rd VTree, Rd VData, Rd VLog])"

definition gc_acts :: "nat \<Rightarrow> act list" where
  "gc_acts n = [Acq LGc Excl, Acq LMutex Shared, Rd VTree] @
     concat (replicate n [Rd VTree, Rd VData, Rd VLog, Wr VNewLog]) @ [Acq LMutex2 Excl] @
     concat (replicate n [Rd VTree, Wr VData]) @ [Wr VLog, Wr VNewLog, Wr VOffset]"

datatype engine_op = OpPut | OpRemove bool | OpGet bool | OpSync | OpVisit nat | OpGc nat

primrec acts :: "engine_op \<Rightarrow> act list" where
  "acts OpPut = put_acts"
| "acts (OpRemove found) = remove_acts found"
| "acts (OpGet found) = get_acts found"
| "acts OpSync = sync_acts"
| "acts (OpVisit n) = visit_acts n"
| "acts (OpGc n) = gc_acts n"

section \<open>Threads\<close>

record thread =
  todo :: "act list"
  held :: "(lock \<times> mode) list"

definition idle :: thread where
  "idle = \<lparr>todo = [], held = []\<rparr>"

type_synonym threads = "nat \<Rightarrow> thread"

text \<open>A lock is free for a thread if nobody else holds it, or all, and the thread, share it.\<close>

definition compatible :: "lock \<Rightarrow> mode \<Rightarrow> (lock \<times> mode) list \<Rightarrow> bool" where
  "compatible l m hs = (\<forall>(l', m')\<in>set hs. l' = l \<longrightarrow> m = Shared \<and> m' = Shared)"

inductive lstep :: "threads \<Rightarrow> nat \<Rightarrow> threads \<Rightarrow> bool" where
  begin_op: "s i = idle \<Longrightarrow> lstep s i (s(i := \<lparr>todo = acts oper, held = []\<rparr>))"
| acquire: "todo (s i) = Acq l m # as \<Longrightarrow> \<forall>j. j \<noteq> i \<longrightarrow> compatible l m (held (s j)) \<Longrightarrow>
    lstep s i (s(i := \<lparr>todo = as, held = (l, m) # held (s i)\<rparr>))"
| read: "todo (s i) = Rd v # as \<Longrightarrow> lstep s i (s(i := (s i)\<lparr>todo := as\<rparr>))"
| wrote: "todo (s i) = Wr v # as \<Longrightarrow> lstep s i (s(i := (s i)\<lparr>todo := as\<rparr>))"
| release: "todo (s i) = [] \<Longrightarrow> held (s i) = h # hs \<Longrightarrow> lstep s i (s(i := (s i)\<lparr>held := hs\<rparr>))"

inductive_cases lstepE: "lstep s i s'"

inductive lreach :: "threads \<Rightarrow> bool" where
  initial: "lreach (\<lambda>i. idle)"
| step: "lreach s \<Longrightarrow> lstep s i s' \<Longrightarrow> lreach s'"

section \<open>The discipline\<close>

text \<open>
  Which locks protect what: everything is written under an exclusive \<^verbatim>\<open>_mutex\<close>; a collection
  writes the offsets and the logs under a shared \<^verbatim>\<open>_mutex\<close> with the two other locks exclusive,
  and the new log under \<^verbatim>\<open>_mutex_gc\<close>; a reader shares \<^verbatim>\<open>_mutex\<close> and also \<^verbatim>\<open>_mutex2\<close>, unless it is
  a collection.
\<close>

definition may_write :: "var \<Rightarrow> (lock \<times> mode) set \<Rightarrow> bool" where
  "may_write v h \<longleftrightarrow> (if v = VNewLog then (LGc, Excl) \<in> h
     else (LMutex, Excl) \<in> h \<or> (v \<noteq> VTree \<and> {(LGc, Excl), (LMutex, Shared), (LMutex2, Excl)} \<subseteq> h))"

definition may_read :: "var \<Rightarrow> (lock \<times> mode) set \<Rightarrow> bool" where
  "may_read v h \<longleftrightarrow> v \<noteq> VNewLog \<and> ((LMutex, Excl) \<in> h \<or>
     (LMutex, Shared) \<in> h \<and> ((LMutex2, Shared) \<in> h \<or> (LGc, Excl) \<in> h))"

primrec rank :: "lock \<Rightarrow> nat" where
  "rank LGc = 0"
| "rank LMutex = 1"
| "rank LMutex2 = 2"

instantiation lock :: linorder
begin

definition less_eq_lock :: "lock \<Rightarrow> lock \<Rightarrow> bool" where
  "less_eq_lock l l' \<longleftrightarrow> rank l \<le> rank l'"

definition less_lock :: "lock \<Rightarrow> lock \<Rightarrow> bool" where
  less_lock_iff [simp]: "less_lock l l' \<longleftrightarrow> rank l < rank l'"

instance
proof
  fix x y :: lock
  show "x \<le> y \<Longrightarrow> y \<le> x \<Longrightarrow> x = y" by (cases x; cases y; simp add: less_eq_lock_def)
qed (auto simp: less_eq_lock_def)

end

fun disciplined :: "act list \<Rightarrow> (lock \<times> mode) set \<Rightarrow> bool" where
  "disciplined [] h = True"
| "disciplined (Acq l m # as) h \<longleftrightarrow> (\<forall>(l', m')\<in>h. l' < l) \<and> disciplined as (insert (l, m) h)"
| "disciplined (Rd v # as) h \<longleftrightarrow> may_read v h \<and> disciplined as h"
| "disciplined (Wr v # as) h \<longleftrightarrow> may_write v h \<and> disciplined as h"

lemma disciplined_loop:
  "disciplined (concat (replicate n [Rd VTree, Rd VData, Rd VLog]) @ as) h \<longleftrightarrow> disciplined as h"
  if "may_read VTree h" for h
  using that by (induction n) (auto simp: may_read_def)

lemma disciplined_copy:
  "disciplined (concat (replicate n [Rd VTree, Rd VData, Rd VLog, Wr VNewLog]) @ as) h \<longleftrightarrow> disciplined as h"
  if "may_read VTree h" "may_write VNewLog h" for h
  using that by (induction n) (auto simp: may_read_def)

lemma disciplined_update:
  "disciplined (concat (replicate n [Rd VTree, Wr VData]) @ as) h \<longleftrightarrow> disciplined as h"
  if "may_read VTree h" "may_write VData h" for h
  using that by (induction n) auto

lemma acts_disciplined: "disciplined (acts oper) {}"
proof (cases oper)
  case (OpVisit n)
  then show ?thesis using disciplined_loop [of "{(LMutex2, Shared), (LMutex, Shared)}" n "[]"]
    by (simp add: visit_acts_def may_read_def)
next
  case (OpGc n)
  then show ?thesis by (simp add: gc_acts_def disciplined_copy disciplined_update may_read_def may_write_def)
qed (auto simp: put_acts_def remove_acts_def get_acts_def sync_acts_def may_read_def may_write_def)

text \<open>Two threads hold the same lock only if both share it.\<close>

definition locks_ok :: "threads \<Rightarrow> bool" where
  "locks_ok s \<longleftrightarrow> (\<forall>i j l m m'. i \<noteq> j \<longrightarrow> (l, m) \<in> set (held (s i)) \<longrightarrow> (l, m') \<in> set (held (s j)) \<longrightarrow>
     m = Shared \<and> m' = Shared)"

lemma locks_ok_less: "locks_ok s \<Longrightarrow> \<forall>j. set (held (s' j)) \<subseteq> set (held (s j)) \<Longrightarrow> locks_ok s'"
  unfolding locks_ok_def by (meson subsetD)

lemma lreach_inv: "lreach s \<Longrightarrow> (\<forall>i. disciplined (todo (s i)) (set (held (s i)))) \<and> locks_ok s"
proof (induction rule: lreach.induct)
  case initial
  then show ?case by (simp add: idle_def locks_ok_def)
next
  case (step s i s')
  then have d: "disciplined (todo (s j)) (set (held (s j)))" for j by blast
  have less: ?case if "\<forall>j. set (held (s' j)) \<subseteq> set (held (s j))"
    "\<forall>j. disciplined (todo (s' j)) (set (held (s' j)))"
    using locks_ok_less [OF _ that(1)] that(2) step.IH by blast
  from step.hyps(2) show ?case
  proof cases
    case (begin_op oper)
    with d show ?thesis by (intro less) (simp_all add: acts_disciplined)
  next
    case (acquire l m as)
    have "locks_ok s'"
      using step.IH acquire(3) unfolding acquire(1) locks_ok_def compatible_def by (auto split: if_splits)
    moreover have "disciplined as (insert (l, m) (set (held (s i))))"
      using d [of i] acquire(2) by simp
    then have "\<forall>j. disciplined (todo (s' j)) (set (held (s' j)))" using d by (simp add: acquire(1))
    ultimately show ?thesis by blast
  next
    case (read v as)
    with d d [of i] show ?thesis by (intro less) simp_all
  next
    case (wrote v as)
    with d d [of i] show ?thesis by (intro less) simp_all
  next
    case (release h hs)
    with d show ?thesis by (intro less) auto
  qed
qed

section \<open>No races, no deadlock\<close>

definition conflict :: "act \<Rightarrow> act \<Rightarrow> bool" where
  "conflict a b \<longleftrightarrow> (\<exists>v. a = Wr v \<and> (b = Wr v \<or> b = Rd v) \<or> a = Rd v \<and> b = Wr v)"

lemma write_excludes:
  assumes "locks_ok s" "i \<noteq> j" "may_write v (set (held (s i)))"
  shows "\<not> may_write v (set (held (s j)))" "\<not> may_read v (set (held (s j)))"
  using assms unfolding may_write_def may_read_def locks_ok_def
  by (auto split: if_splits) (metis mode.distinct(1))+

text \<open>A thread that waits for a lock waits for a greater one than those it holds.\<close>

lemma waiting_rank:
  assumes "disciplined (Acq l m # as) (set (held t))" "(l', m') \<in> set (held t)"
  shows "l' < l"
  using assms by auto

lemma rank_le: "rank l \<le> 2"
  by (cases l) simp_all

text \<open>If a thread waits for a lock, some thread that is busy can go on.\<close>

lemma holder_can_step:
  assumes "lreach s" "(l, m) \<in> set (held (s i))"
  shows "\<exists>j s'. s j \<noteq> idle \<and> lstep s j s'"
  using assms(2)
proof (induction "2 - rank l" arbitrary: l m i rule: less_induct)
  case less
  have busy: "s i \<noteq> idle" using less.prems by (auto simp: idle_def)
  show ?case
  proof (cases "todo (s i)")
    case Nil
    with less.prems obtain h hs where "held (s i) = h # hs" by (cases "held (s i)") auto
    with Nil busy release show ?thesis by blast
  next
    case (Cons a as)
    show ?thesis
    proof (cases a)
      case (Acq l' m')
      show ?thesis
      proof (cases "\<forall>j. j \<noteq> i \<longrightarrow> compatible l' m' (held (s j))")
        case True
        with acquire [OF _ True] Cons Acq busy show ?thesis by blast
      next
        case False
        then obtain j m2 where "(l', m2) \<in> set (held (s j))" by (auto simp: compatible_def)
        moreover have "disciplined (todo (s i)) (set (held (s i)))" using lreach_inv [OF assms(1)] by blast
        then have "rank l < rank l'" using waiting_rank [OF _ less.prems] Cons Acq by auto
        then have "2 - rank l' < 2 - rank l" using rank_le [of l'] by simp
        ultimately show ?thesis using less.hyps by blast
      qed
    qed (use Cons busy read wrote in blast)+
  qed
qed

section \<open>Some reachable states\<close>

definition reading :: thread where
  "reading = \<lparr>todo = [Rd VTree, Rd VData, Rd VLog], held = [(LMutex2, Shared), (LMutex, Shared)]\<rparr>"

definition collecting :: thread where
  "collecting = \<lparr>todo = tl (tl (gc_acts 1)), held = [(LMutex, Shared), (LGc, Excl)]\<rparr>"

lemma acquire_to:
  assumes "lreach (s(i := t))" "todo t = Acq l m # as" "\<forall>j. j \<noteq> i \<longrightarrow> compatible l m (held (s j))"
    "t' = \<lparr>todo = as, held = (l, m) # held t\<rparr>"
  shows "lreach (s(i := t'))"
  using lreach.step [OF assms(1) acquire [of "s(i := t)" i l m as]] assms(2-4) by simp

lemma begin_to:
  assumes "lreach s" "s i = idle" shows "lreach (s(i := \<lparr>todo = acts oper, held = []\<rparr>))"
  by (rule lreach.step [OF assms(1)]) (rule begin_op, rule assms(2))

lemma reader_enters:
  assumes "lreach s" "s i = idle" "\<forall>j. j \<noteq> i \<longrightarrow> (\<forall>(l, m)\<in>set (held (s j)). m = Shared)"
  shows "lreach (s(i := reading))"
proof -
  have c: "\<forall>j. j \<noteq> i \<longrightarrow> compatible l Shared (held (s j))" for l using assms(3) by (auto simp: compatible_def)
  from acquire_to [OF begin_to [OF assms(1,2), of "OpGet True"] _ c refl]
  have "lreach (s(i := \<lparr>todo = tl (get_acts True), held = [(LMutex, Shared)]\<rparr>))" by (simp add: get_acts_def)
  from acquire_to [OF this _ c refl] show ?thesis by (simp add: get_acts_def reading_def)
qed

lemma two_readers: "lreach ((\<lambda>i. idle)(0 := reading, 1 := reading))"
  by (intro reader_enters initial) (auto simp: idle_def reading_def)

lemma collector_and_writer:
  "lreach ((\<lambda>i. idle)(0 := collecting, 1 := \<lparr>todo = put_acts, held = []\<rparr>))"
proof -
  have c: "\<forall>j. j \<noteq> 0 \<longrightarrow> compatible l m (held ((\<lambda>i. idle) j))" for l m by (simp add: compatible_def idle_def)
  from acquire_to [OF begin_to [OF initial, of 0 "OpGc 1"] _ c refl]
  have "lreach ((\<lambda>i. idle)(0 := \<lparr>todo = tl (gc_acts 1), held = [(LGc, Excl)]\<rparr>))" by (simp add: gc_acts_def)
  from acquire_to [OF this _ c refl] have "lreach ((\<lambda>i. idle)(0 := collecting))"
    by (simp add: gc_acts_def collecting_def)
  from begin_to [OF this, of 1 OpPut] show ?thesis by simp
qed

section \<open>Properties\<close>

text \<open>
  C23. No data races: in every reachable state of any number of threads, no two threads are
  both about to access the index, its offsets, the log, the new log or \<^verbatim>\<open>log_offset\<close> with one of
  them writing.
\<close>
theorem engine_race_free:
  assumes "lreach s" "i \<noteq> j" "todo (s i) = a # as" "todo (s j) = b # bs"
  shows "\<not> conflict a b"
proof
  assume "conflict a b"
  then obtain v where v: "a = Wr v \<and> (b = Wr v \<or> b = Rd v) \<or> a = Rd v \<and> b = Wr v" by (auto simp: conflict_def)
  have d: "disciplined (a # as) (set (held (s i)))" "disciplined (b # bs) (set (held (s j)))" "locks_ok s"
    using lreach_inv [OF assms(1)] assms(3,4) by metis+
  from v d(1,2) write_excludes [OF d(3) assms(2)] write_excludes [OF d(3) not_sym [OF assms(2)]] show False
    by auto
qed

theorem engine_race_free_witness: "\<not> conflict (Rd VTree) (Rd VTree)"
  using engine_race_free [OF two_readers, of 0 1 "Rd VTree" "[Rd VData, Rd VLog]" "Rd VTree" "[Rd VData, Rd VLog]"]
  by (simp add: reading_def)

text \<open>
  No deadlock: in every reachable state in which some thread is inside an operation, a
  thread that is inside an operation can take a step; collections, readers and writers never
  wait for each other in a circle.
\<close>
theorem engine_deadlock_free:
  assumes "lreach s" "s i \<noteq> idle"
  shows "\<exists>j s'. s j \<noteq> idle \<and> lstep s j s'"
proof (cases "todo (s i)")
  case Nil
  then obtain h hs where "held (s i) = h # hs" using assms(2) by (cases "held (s i)") (auto simp: idle_def)
  then show ?thesis using holder_can_step [OF assms(1), of "fst h" "snd h" i] by simp
next
  case (Cons a as)
  show ?thesis
  proof (cases a)
    case (Acq l m)
    show ?thesis
    proof (cases "\<forall>j. j \<noteq> i \<longrightarrow> compatible l m (held (s j))")
      case True
      then show ?thesis using acquire [OF _ True] Cons Acq assms(2) by blast
    next
      case False
      then obtain j l' m' where "(l', m') \<in> set (held (s j))" by (auto simp: compatible_def)
      then show ?thesis by (rule holder_can_step [OF assms(1)])
    qed
  qed (use Cons assms(2) read wrote in blast)+
qed

theorem engine_deadlock_free_witness:
  "\<exists>j s'. ((\<lambda>i. idle)(0 := collecting, 1 := \<lparr>todo = put_acts, held = []\<rparr>)) j \<noteq> idle \<and>
    lstep ((\<lambda>i. idle)(0 := collecting, 1 := \<lparr>todo = put_acts, held = []\<rparr>)) j s'"
  by (rule engine_deadlock_free [OF collector_and_writer, of 1]) (simp add: idle_def put_acts_def)

text \<open>
  A collection is not disturbed between copying the records and moving the index: as long
  as it holds \<^verbatim>\<open>_mutex_gc\<close> and shares \<^verbatim>\<open>_mutex\<close>, no other thread is about to write anything.
\<close>
theorem collection_undisturbed:
  assumes "lreach s" "i \<noteq> j" "(LGc, Excl) \<in> set (held (s i))" "(LMutex, Shared) \<in> set (held (s i))"
  shows "todo (s j) \<noteq> Wr v # bs"
proof
  assume "todo (s j) = Wr v # bs"
  then have d: "disciplined (Wr v # bs) (set (held (s j)))" "locks_ok s"
    using lreach_inv [OF assms(1)] by metis+
  then have "may_write v (set (held (s j)))" by simp
  with d(2) assms(2-4) show False unfolding may_write_def locks_ok_def
    by (auto split: if_splits) (metis mode.distinct(1))+
qed

theorem collection_undisturbed_witness:
  "todo (((\<lambda>i. idle)(0 := collecting, 1 := \<lparr>todo = put_acts, held = []\<rparr>)) 1) \<noteq> Wr VTree # []"
  using collection_undisturbed [OF collector_and_writer, of 0 1 VTree "[]"] by (simp add: collecting_def)

end
