(* ===== verification/Engine_Conc.thy ===== *)
theory Engine_Conc
  imports Engine_Store Engine_Locks
begin

text \<open>
  The engine used by any number of threads at once: the operations of \<^verbatim>\<open>engine.cpp\<close> cut into the
  steps between which other threads may run, with the locks they take in the order of the source.
  The contract is an object that runs each call atomically on a map, at some moment between the
  call and its return.
\<close>

section \<open>The steps of an operation\<close>

text \<open>
  Where a thread is: outside the engine, called but without a lock, with its first or its two
  locks, and within an operation.  \<open>PutLogged\<close>: the record is in the log and not in the index.
  \<open>RemIndexed\<close>: the key is gone from the index, the record is not in the log.  \<open>GetFound\<close> and
  \<open>ScanFound\<close>: the index was searched, the log not yet read.  \<open>GcCopied\<close>: the new log is written;
  \<open>GcReady\<close>: with \<^verbatim>\<open>_mutex2\<close>; \<open>GcMoved\<close>: the index is moved and the logs are not switched.
  \<open>Finished\<close>: the result is there, locks are being released.
\<close>

datatype phase = Idle | Called kv_call | Has1 kv_call | Has2 kv_call
  | PutLogged string string | RemIndexed string | GetFound string "64 word"
  | ScanFound string string ptr nat | GcCopied ptr "64 word list" | GcReady ptr "64 word list"
  | GcMoved "64 word list" | Finished kv_result

text \<open>The lock a thread takes next, and where it is then.\<close>

fun next_lock :: "phase \<Rightarrow> ((lock \<times> mode) \<times> phase) option" where
  "next_lock (Called (CPut k v)) = Some ((LMutex, Excl), Has1 (CPut k v))"
| "next_lock (Called (CRemove k)) = Some ((LMutex, Excl), Has1 (CRemove k))"
| "next_lock (Called (CGet k)) = Some ((LMutex, Shared), Has1 (CGet k))"
| "next_lock (Called (CScan lower upper)) = Some ((LMutex, Shared), Has1 (CScan lower upper))"
| "next_lock (Called CCollect) = Some ((LGc, Excl), Has1 CCollect)"
| "next_lock (Has1 (CGet k)) = Some ((LMutex2, Shared), Has2 (CGet k))"
| "next_lock (Has1 (CScan lower upper)) = Some ((LMutex2, Shared), Has2 (CScan lower upper))"
| "next_lock (Has1 CCollect) = Some ((LMutex, Shared), Has2 CCollect)"
| "next_lock (GcCopied c offs) = Some ((LMutex2, Excl), GcReady c offs)"
| "next_lock _ = None"

text \<open>
  The next step of a thread that does not wait for a lock; \<open>None\<close> is an operation that does not
  return.
\<close>

fun body :: "phase \<Rightarrow> engine \<Rightarrow> fsys \<Rightarrow> (phase \<times> engine \<times> fsys) option" where
  "body (Has1 (CPut k v)) e fs = do {
     (fp, fs) \<leftarrow> fopen_a (log_filename e) fs;
     (fp, fs) \<leftarrow> log_line (put_line k v) fp fs;
     let (c, fs) = fclose fp fs;
     Some (PutLogged k v, e, fs) }"
| "body (PutLogged k v) e fs = do {
     (r, bt) \<leftarrow> BTree_insert k (scast (log_offset e)) (eng_btree e);
     Some (Finished (RCode kSucc),
       e\<lparr>eng_btree := bt, log_offset := log_offset e + word_of_nat (length (put_line k v))\<rparr>, fs) }"
| "body (Has1 (CRemove k)) e fs = do {
     (r, bt) \<leftarrow> BTree_remove k (eng_btree e);
     Some (if r = 0 then Finished (RCode kNotFound) else RemIndexed k, e\<lparr>eng_btree := bt\<rparr>, fs) }"
| "body (RemIndexed k) e fs = do {
     (fp, fs) \<leftarrow> fopen_a (log_filename e) fs;
     (fp, fs) \<leftarrow> log_line (remove_line k) fp fs;
     let (c, fs) = fclose fp fs;
     Some (Finished (RCode kSucc),
       e\<lparr>log_offset := log_offset e + word_of_nat (length (remove_line k))\<rparr>, fs) }"
| "body (Has2 (CGet k)) e fs = do {
     index \<leftarrow> BTree_search (eng_btree e) k;
     Some (if index = -1 then Finished (RValue kNotFound []) else GetFound k index, e, fs) }"
| "body (GetFound k index) e fs = do {
     fp \<leftarrow> fopen_r (log_filename e) fs;
     let fp = fseek (sint index) fp;
     let (ret, k', v', fp) = read_key_value [] [] fp fs;
     if ret \<noteq> 1 then None else Some (Finished (RValue kSucc v'), e, fs) }"
| "body (Has2 (CScan lower upper)) e fs = do {
     (r, hot, hot_idx) \<leftarrow> search_hot (eng_btree e) lower;
     idx \<leftarrow> vback hot_idx;
     Some (ScanFound lower upper hot idx, e, fs) }"
| "body (ScanFound lower upper hot idx) e fs = do {
     fp \<leftarrow> fopen_r (log_filename e) fs;
     (fp, kvs) \<leftarrow> visit_leaves (eng_btree e) upper (\<lambda>k v u. u @ [(k, v)]) fs hot idx fp [];
     Some (Finished (RScan kSucc kvs), e, fs) }"
| "body (Has2 CCollect) e fs = do {
     (c, offs, fs) \<leftarrow> gc_copy e fs;
     Some (GcCopied c offs, e, fs) }"
| "body (GcReady c offs) e fs = do {
     e \<leftarrow> gc_move c offs e;
     Some (GcMoved offs, e, fs) }"
| "body (GcMoved offs) e fs = do {
     (e, fs) \<leftarrow> gc_switch offs e fs;
     Some (Finished (RCode kSucc), e, fs) }"
| "body _ e fs = None"

text \<open>Run without other threads, the steps are the operations of the engine.\<close>

lemma body_put:
  "do { (p, e, fs) \<leftarrow> body (Has1 (CPut k v)) e fs; body p e fs } =
   do { (r, e, fs) \<leftarrow> Engine_put k v e fs; Some (Finished (RCode r), e, fs) }"
  by (simp add: Engine_put_def Let_def bind_assoc case_prod_unfold)

lemma body_remove:
  "do { (p, e, fs) \<leftarrow> body (Has1 (CRemove k)) e fs; if p = Finished (RCode kNotFound) then Some (p, e, fs) else body p e fs } =
   do { (r, e, fs) \<leftarrow> Engine_remove k e fs; Some (Finished (RCode r), e, fs) }"
  by (cases "BTree_remove k (eng_btree e)") (auto simp: Engine_remove_def Let_def bind_assoc case_prod_unfold)

lemma body_get:
  "do { (p, e, fs) \<leftarrow> body (Has2 (CGet k)) e fs; if p = Finished (RValue kNotFound []) then Some (p, e, fs) else body p e fs } =
   do { (r, v) \<leftarrow> Engine_get k [] e fs; Some (Finished (RValue r v), e, fs) }"
  by (cases "BTree_search (eng_btree e) k"; cases "fopen_r (log_filename e) fs")
    (auto simp: Engine_get_def Let_def bind_assoc case_prod_unfold)

lemma body_scan:
  "do { (p, e, fs) \<leftarrow> body (Has2 (CScan lower upper)) e fs; body p e fs } =
   do { (r, kvs) \<leftarrow> Engine_visit lower upper (\<lambda>k v u. u @ [(k, v)]) [] e fs; Some (Finished (RScan r kvs), e, fs) }"
  by (simp add: Engine_visit_def bind_assoc case_prod_unfold)

lemma body_gc:
  "do { (p, e, fs) \<leftarrow> body (Has2 CCollect) e fs; (p, l) \<leftarrow> Some (case p of GcCopied c offs \<Rightarrow> (GcReady c offs, ()) | p \<Rightarrow> (p, ()));
        (p, e, fs) \<leftarrow> body p e fs; body p e fs } =
   do { (r, e, fs) \<leftarrow> Engine_garbage_collect e fs; Some (Finished (RCode r), e, fs) }"
  by (simp add: Engine_garbage_collect_def Engine_gc_def bind_assoc case_prod_unfold)

declare body.simps [simp del]

section \<open>Threads\<close>

record cstate =
  c_eng :: engine
  c_fs :: fsys
  c_ph :: "nat \<Rightarrow> phase"
  c_held :: "nat \<Rightarrow> (lock \<times> mode) list"

text \<open>
  A step after which bytes are lost, because \<^verbatim>\<open>fclose\<close> found the disk full and nobody looks at its
  result, is not a step of the relation: its executions are those in which no write fails.  What a
  \<^verbatim>\<open>put\<close> and a \<^verbatim>\<open>remove\<close> do on a full disk is proved of the operations themselves.
\<close>

datatype event = Call nat kv_call | Ret nat kv_result | Tau

inductive cstep :: "cstate \<Rightarrow> event \<Rightarrow> cstate \<Rightarrow> bool" where
  call: "c_ph s i = Idle \<Longrightarrow> c \<noteq> CReopen \<Longrightarrow> cstep s (Call i c) (s\<lparr>c_ph := (c_ph s)(i := Called c)\<rparr>)"
| lock: "next_lock (c_ph s i) = Some ((l, m), p) \<Longrightarrow> \<forall>j. j \<noteq> i \<longrightarrow> compatible l m (c_held s j) \<Longrightarrow>
    cstep s Tau (s\<lparr>c_ph := (c_ph s)(i := p), c_held := (c_held s)(i := (l, m) # c_held s i)\<rparr>)"
| work: "body (c_ph s i) (c_eng s) (c_fs s) = Some (p, e, fs) \<Longrightarrow> \<not> fs_lost fs \<Longrightarrow>
    cstep s Tau (s\<lparr>c_eng := e, c_fs := fs, c_ph := (c_ph s)(i := p)\<rparr>)"
| unlock: "c_ph s i = Finished r \<Longrightarrow> c_held s i = h # hs \<Longrightarrow>
    cstep s Tau (s\<lparr>c_held := (c_held s)(i := hs)\<rparr>)"
| return: "c_ph s i = Finished r \<Longrightarrow> c_held s i = [] \<Longrightarrow>
    cstep s (Ret i r) (s\<lparr>c_ph := (c_ph s)(i := Idle)\<rparr>)"

text \<open>The traces of calls and returns, beginning in a directory without a log on a disk of \<open>n\<close> bytes.\<close>

inductive cexec :: "string \<Rightarrow> nat \<Rightarrow> event list \<Rightarrow> cstate \<Rightarrow> bool" for path n where
  start: "Engine_ctor path (new_fs n) = Some e \<Longrightarrow>
    cexec path n [] \<lparr>c_eng = e, c_fs = new_fs n, c_ph = (\<lambda>i. Idle), c_held = (\<lambda>i. [])\<rparr>"
| hidden: "cexec path n tr s \<Longrightarrow> cstep s Tau s' \<Longrightarrow> cexec path n tr s'"
| visible: "cexec path n tr s \<Longrightarrow> cstep s ev s' \<Longrightarrow> ev \<noteq> Tau \<Longrightarrow> cexec path n (tr @ [ev]) s'"

definition keys_ok :: "event list \<Rightarrow> bool" where
  "keys_ok tr \<longleftrightarrow> (\<forall>i k v. Call i (CPut k v) \<in> set tr \<longrightarrow> nul_free k)"

section \<open>The atomic object\<close>

datatype status = Outside | Pending kv_call | Answered kv_result

inductive aexec :: "event list \<Rightarrow> (string \<rightharpoonup> string) \<Rightarrow> (nat \<Rightarrow> status) \<Rightarrow> bool" where
  astart: "aexec [] Map.empty (\<lambda>i. Outside)"
| acall: "aexec tr m st \<Longrightarrow> st i = Outside \<Longrightarrow> aexec (tr @ [Call i c]) m (st(i := Pending c))"
| atomic: "aexec tr m st \<Longrightarrow> st i = Pending c \<Longrightarrow>
    aexec tr (snd (map_call c m)) (st(i := Answered (fst (map_call c m))))"
| areturn: "aexec tr m st \<Longrightarrow> st i = Answered r \<Longrightarrow> aexec (tr @ [Ret i r]) m (st(i := Outside))"

section \<open>The invariant\<close>

text \<open>
  The engine at rest: it stores \<open>m\<close>, and the two logs and the free space are within a disk of \<open>n\<close>
  bytes.
\<close>

definition at_rest :: "string \<Rightarrow> nat \<Rightarrow> engine \<Rightarrow> fsys \<Rightarrow> (string \<rightharpoonup> string) \<Rightarrow> bool" where
  "at_rest path n e fs m \<longleftrightarrow> engine_abs e fs m \<and> log_filename e = path @ ''/log'' \<and>
     fs_writable fs \<and> fs_free fs + length (content fs (path @ ''/log'')) + length (content fs (path @ ''/log(1)'')) \<le> n"

text \<open>The locks a thread holds, unless it is releasing them.\<close>

fun locks_of :: "phase \<Rightarrow> (lock \<times> mode) list" where
  "locks_of (Has1 (CPut k v)) = [(LMutex, Excl)]"
| "locks_of (Has1 (CRemove k)) = [(LMutex, Excl)]"
| "locks_of (PutLogged k v) = [(LMutex, Excl)]"
| "locks_of (RemIndexed k) = [(LMutex, Excl)]"
| "locks_of (Has1 (CGet k)) = [(LMutex, Shared)]"
| "locks_of (Has1 (CScan lower upper)) = [(LMutex, Shared)]"
| "locks_of (Has2 (CGet k)) = [(LMutex2, Shared), (LMutex, Shared)]"
| "locks_of (Has2 (CScan lower upper)) = [(LMutex2, Shared), (LMutex, Shared)]"
| "locks_of (GetFound k index) = [(LMutex2, Shared), (LMutex, Shared)]"
| "locks_of (ScanFound lower upper hot idx) = [(LMutex2, Shared), (LMutex, Shared)]"
| "locks_of (Has1 CCollect) = [(LGc, Excl)]"
| "locks_of (Has2 CCollect) = [(LMutex, Shared), (LGc, Excl)]"
| "locks_of (GcCopied c offs) = [(LMutex, Shared), (LGc, Excl)]"
| "locks_of (GcReady c offs) = [(LMutex2, Excl), (LMutex, Shared), (LGc, Excl)]"
| "locks_of (GcMoved offs) = [(LMutex2, Excl), (LMutex, Shared), (LGc, Excl)]"
| "locks_of _ = []"

text \<open>
  The call of a thread, and what is true of where it is: an operation in progress has begun from an
  engine at rest.
\<close>

fun op_of :: "phase \<Rightarrow> kv_call" where
  "op_of (Called c) = c"
| "op_of (Has1 c) = c"
| "op_of (Has2 c) = c"
| "op_of (PutLogged k v) = CPut k v"
| "op_of (RemIndexed k) = CRemove k"
| "op_of (GetFound k index) = CGet k"
| "op_of (ScanFound lower upper hot idx) = CScan lower upper"
| "op_of _ = CCollect"

fun phase_ok :: "string \<Rightarrow> nat \<Rightarrow> engine \<Rightarrow> fsys \<Rightarrow> (string \<rightharpoonup> string) \<Rightarrow> phase \<Rightarrow> bool" where
  "phase_ok path n e fs m (Called (CPut k v)) = nul_free k"
| "phase_ok path n e fs m (Has1 (CPut k v)) = nul_free k"
| "phase_ok path n e fs m (PutLogged k v) = (nul_free k \<and> (\<exists>fs0. at_rest path n e fs0 m \<and>
     content fs0 (path @ ''/log(1)'') = [] \<and> body (Has1 (CPut k v)) e fs0 = Some (PutLogged k v, e, fs)))"
| "phase_ok path n e fs m (RemIndexed k) = (\<exists>e0. at_rest path n e0 fs m \<and>
     content fs (path @ ''/log(1)'') = [] \<and> body (Has1 (CRemove k)) e0 fs = Some (RemIndexed k, e, fs))"
| "phase_ok path n e fs m (GetFound k index) = (BTree_search (eng_btree e) k = Some index \<and> index \<noteq> -1)"
| "phase_ok path n e fs m (ScanFound lower upper hot idx) =
     (body (Has2 (CScan lower upper)) e fs = Some (ScanFound lower upper hot idx, e, fs))"
| "phase_ok path n e fs m (GcCopied c offs) = (\<exists>fs0. at_rest path n e fs0 m \<and>
     content fs0 (path @ ''/log(1)'') = [] \<and> gc_copy e fs0 = Some (c, offs, fs))"
| "phase_ok path n e fs m (GcReady c offs) = (\<exists>fs0. at_rest path n e fs0 m \<and>
     content fs0 (path @ ''/log(1)'') = [] \<and> gc_copy e fs0 = Some (c, offs, fs))"
| "phase_ok path n e fs m (GcMoved offs) = (\<exists>e0 fs0 c. at_rest path n e0 fs0 m \<and>
     content fs0 (path @ ''/log(1)'') = [] \<and> gc_copy e0 fs0 = Some (c, offs, fs) \<and> gc_move c offs e0 = Some e)"
| "phase_ok path n e fs m (Called CReopen) = False"
| "phase_ok path n e fs m (Has1 CReopen) = False"
| "phase_ok path n e fs m (Has2 c) = (c = CCollect \<or> (\<exists>k. c = CGet k) \<or> (\<exists>lower upper. c = CScan lower upper))"
| "phase_ok path n e fs m _ = True"

text \<open>Phases in which the engine is not at rest, and those with a second log.\<close>

fun calm :: "phase \<Rightarrow> bool" where
  "calm (PutLogged k v) = False"
| "calm (RemIndexed k) = False"
| "calm (GcMoved offs) = False"
| "calm _ = True"

fun one_log :: "phase \<Rightarrow> bool" where
  "one_log (GcCopied c offs) = False"
| "one_log (GcReady c offs) = False"
| "one_log (GcMoved offs) = False"
| "one_log _ = True"

definition conc_inv :: "string \<Rightarrow> nat \<Rightarrow> cstate \<Rightarrow> (string \<rightharpoonup> string) \<Rightarrow> bool" where
  "conc_inv path n s m \<longleftrightarrow>
     (\<forall>i. c_held s i = locks_of (c_ph s i) \<or> (\<exists>r. c_ph s i = Finished r)) \<and>
     (\<forall>i j l a b. i \<noteq> j \<longrightarrow> (l, a) \<in> set (c_held s i) \<longrightarrow> (l, b) \<in> set (c_held s j) \<longrightarrow> a = Shared \<and> b = Shared) \<and>
     (\<forall>i. phase_ok path n (c_eng s) (c_fs s) m (c_ph s i)) \<and>
     ((\<forall>i. calm (c_ph s i)) \<longrightarrow> at_rest path n (c_eng s) (c_fs s) m) \<and>
     ((\<forall>i. one_log (c_ph s i)) \<longrightarrow> content (c_fs s) (path @ ''/log(1)'') = []) \<and> \<not> fs_lost (c_fs s)"

definition status_of :: "phase \<Rightarrow> status" where
  "status_of p = (case p of Idle \<Rightarrow> Outside | Finished r \<Rightarrow> Answered r | p \<Rightarrow> Pending (op_of p))"

section \<open>What the locks exclude\<close>

text \<open>Who holds none of the locks that protect what a step changes does not see the change.\<close>

lemma phase_ok_excl:
  "LMutex \<notin> fst ` set (locks_of p) \<Longrightarrow> phase_ok path n e fs m p = phase_ok path n e' fs' m' p"
  "(LMutex, Excl) \<notin> set (locks_of p) \<Longrightarrow> LGc \<notin> fst ` set (locks_of p) \<Longrightarrow>
     LMutex2 \<notin> fst ` set (locks_of p) \<Longrightarrow> phase_ok path n e fs m p = phase_ok path n e' fs' m' p"
  by (induction path n e fs m p rule: phase_ok.induct; simp)+

lemma phase_ok_log:
  "(LMutex, Excl) \<notin> set (locks_of p) \<Longrightarrow> LGc \<notin> fst ` set (locks_of p) \<Longrightarrow>
     phase_ok path n e fs m p \<Longrightarrow> phase_ok path n e fs' m' p"
  by (induction path n e fs m p rule: phase_ok.induct) (auto simp: body.simps bind_eq_Some_conv)

lemma calm_locks:
  "LMutex \<notin> fst ` set (locks_of p) \<Longrightarrow> calm p \<and> one_log p"
  "(LMutex, Excl) \<notin> set (locks_of p) \<Longrightarrow> (LMutex2, Excl) \<notin> set (locks_of p) \<Longrightarrow> calm p"
  "(LMutex, Excl) \<notin> set (locks_of p) \<Longrightarrow> LGc \<notin> fst ` set (locks_of p) \<Longrightarrow> calm p \<and> one_log p"
  "LGc \<notin> fst ` set (locks_of p) \<Longrightarrow> one_log p"
  by (cases p; simp)+

section \<open>What the steps do\<close>

lemma at_rest_view: "at_rest path n e fs m \<Longrightarrow> engine_abs e fs m"
  by (simp add: at_rest_def)

lemma room_returned:
  assumes "at_rest path n e fs m" "n < 2 ^ 31" "l \<le> fs_free fs"
  shows "room e fs l"
  using assms by (auto simp: at_rest_def room_def)

lemma put_logs:
  assumes "at_rest path n e fs m" "body (Has1 (CPut k v)) e fs = Some (p, e', fs')" "\<not> fs_lost fs'"
  shows "p = PutLogged k v" "e' = e" "content fs' (path @ ''/log(1)'') = content fs (path @ ''/log(1)'')"
    "fs' = appended (path @ ''/log'') (put_line k v) fs" "fs_writable fs" "rec_size k v \<le> fs_free fs"
proof -
  from assms(2,3) obtain fp fs1 fp' fs2 where f: "fopen_a (log_filename e) fs = Some (fp, fs1)"
    "log_line (put_line k v) fp fs1 = Some (fp', fs2)" "\<not> fs_lost (snd (fclose fp' fs2))"
    and eqs: "p = PutLogged k v" "e' = e" "fs' = snd (fclose fp' fs2)"
    by (auto simp: body.simps bind_eq_Some_conv split_beta)
  note r = append_line_kept [OF f]
  from eqs show "p = PutLogged k v" "e' = e" by simp_all
  from r eqs assms(1) show fs': "fs' = appended (path @ ''/log'') (put_line k v) fs" "fs_writable fs"
    "rec_size k v \<le> fs_free fs" by (simp_all add: at_rest_def length_put_line)
  show "content fs' (path @ ''/log(1)'') = content fs (path @ ''/log(1)'')" by (simp add: fs')
qed

lemma put_ends:
  assumes "phase_ok path n e fs m (PutLogged k v)" "body (PutLogged k v) e fs = Some (p, e', fs')" "n < 2 ^ 31"
    "\<not> fs_lost fs"
  shows "p = Finished (RCode kSucc)" "at_rest path n e' fs' (m(k \<mapsto> v))" "content fs' (path @ ''/log(1)'') = []"
proof -
  from assms(1) obtain fs0 where f: "nul_free k" "at_rest path n e fs0 m" "content fs0 (path @ ''/log(1)'') = []"
    "body (Has1 (CPut k v)) e fs0 = Some (PutLogged k v, e, fs)" by auto
  note l = put_logs [OF f(2,4) assms(4)]
  have name: "log_filename e = path @ ''/log''" using f(2) by (simp add: at_rest_def)
  from Engine_put_correct [OF at_rest_view [OF f(2)] f(1) room_returned [OF f(2) assms(3) l(6)]] obtain e2 where
    e2: "Engine_put k v e fs0 = Some (kSucc, e2, fs)" "log_filename e2 = log_filename e" "engine_abs e2 fs (m(k \<mapsto> v))"
    unfolding l(4) name by blast
  from body_put [of k v e fs0] e2(1) f(4) assms(2) have eq: "p = Finished (RCode kSucc)" "e' = e2" "fs' = fs" by auto
  show "p = Finished (RCode kSucc)" by (rule eq)
  have c: "length (content fs (path @ ''/log'')) = length (content fs0 (path @ ''/log'')) + rec_size k v"
    "fs_free fs = fs_free fs0 - rec_size k v" "content fs (path @ ''/log(1)'') = []" "fs_writable fs = fs_writable fs0"
    using f(3) by (simp_all add: l(4) length_put_line)
  then show "content fs' (path @ ''/log(1)'') = []" by (simp add: eq)
  show "at_rest path n e' fs' (m(k \<mapsto> v))" using e2(2,3) f(2) c l(6) by (simp add: at_rest_def eq name)
qed

lemma remove_begins:
  assumes "at_rest path n e fs m" "body (Has1 (CRemove k)) e fs = Some (p, e', fs')"
  shows "fs' = fs" "m k = None \<Longrightarrow> p = Finished (RCode kNotFound) \<and> at_rest path n e' fs m"
    "m k \<noteq> None \<Longrightarrow> p = RemIndexed k"
proof -
  from assms(2) show fs': "fs' = fs" by (auto simp: body.simps bind_eq_Some_conv)
  from at_rest_view [OF assms(1)] obtain rs idx where i: "replay rs = m" "index_ok rs idx m" "btree_abs (eng_btree e) idx"
    by (auto simp: engine_view_def)
  with index_remove [of rs idx "eng_btree e" k] obtain t' where
    t': "BTree_remove k (eng_btree e) = Some (if m k = None then 0 else 1, t')" by auto
  with assms(2) have p: "p = (if m k = None then Finished (RCode kNotFound) else RemIndexed k)" by (auto simp: body.simps)
  from p show "m k \<noteq> None \<Longrightarrow> p = RemIndexed k" by simp
  assume none: "m k = None"
  from Engine_remove_correct(1) [OF at_rest_view [OF assms(1)] none] obtain e2 where
    e2: "Engine_remove k e fs = Some (kNotFound, e2, fs)" "log_filename e2 = log_filename e" "engine_abs e2 fs m" by blast
  with body_remove [of k e fs] assms(2) p none have "e' = e2" by auto
  with e2 assms(1) p none show "p = Finished (RCode kNotFound) \<and> at_rest path n e' fs m" by (simp add: at_rest_def)
qed

lemma remove_ends:
  assumes "phase_ok path n e fs m (RemIndexed k)" "body (RemIndexed k) e fs = Some (p, e', fs')" "n < 2 ^ 31"
    "\<not> fs_lost fs'"
  shows "p = Finished (RCode kSucc)" "at_rest path n e' fs' (m(k := None))" "content fs' (path @ ''/log(1)'') = []"
    "m k \<noteq> None"
proof -
  from assms(1) obtain e0 where f: "at_rest path n e0 fs m" "content fs (path @ ''/log(1)'') = []"
    "body (Has1 (CRemove k)) e0 fs = Some (RemIndexed k, e, fs)" by auto
  have some: "m k \<noteq> None" using remove_begins(2) [OF f(1,3)] by auto
  then show "m k \<noteq> None" .
  have name: "log_filename e0 = path @ ''/log''" using f(1) by (simp add: at_rest_def)
  have name': "log_filename e = path @ ''/log''" using f(3) name by (auto simp: body.simps bind_eq_Some_conv)
  from assms(2,4) obtain fp fs1 fp' fs2 where w: "fopen_a (log_filename e) fs = Some (fp, fs1)"
    "log_line (remove_line k) fp fs1 = Some (fp', fs2)" "\<not> fs_lost (snd (fclose fp' fs2))"
    and fs': "fs' = snd (fclose fp' fs2)" by (auto simp: body.simps bind_eq_Some_conv split_beta)
  have r: "fs_writable fs" "length (remove_line k) \<le> fs_free fs" "fs' = appended (path @ ''/log'') (remove_line k) fs"
    using append_line_kept [OF w] fs' name' by simp_all
  have size: "length (remove_line k) = rec_size k []" by (simp add: length_enc rec_size_def)
  have "room e0 fs (rec_size k [])" using room_returned [OF f(1) assms(3)] r(2) size by simp
  from Engine_remove_correct(2) [OF at_rest_view [OF f(1)] some view_nul_free this] at_rest_view [OF f(1)] some
  obtain e2 where e2: "Engine_remove k e0 fs = Some (kSucc, e2, fs')" "log_filename e2 = log_filename e0"
    "engine_abs e2 fs' (m(k := None))" unfolding name r(3) by blast
  from body_remove [of k e0 fs] e2(1) f(3) assms(2) have eq: "p = Finished (RCode kSucc)" "e' = e2" by auto
  show "p = Finished (RCode kSucc)" by (rule eq)
  show "content fs' (path @ ''/log(1)'') = []" using f(2) by (simp add: r(3))
  show "at_rest path n e' fs' (m(k := None))"
    using e2(2,3) f(1,2) r(2) by (simp add: at_rest_def eq name r(3))
qed

lemma get_searches:
  assumes "at_rest path n e fs m" "body (Has2 (CGet k)) e fs = Some (p, e', fs')"
  shows "e' = e" "fs' = fs" "p = Finished (RValue kNotFound []) \<and> m k = None \<or>
    (\<exists>index. p = GetFound k index \<and> phase_ok path n e fs m p)"
proof -
  from assms(2) obtain index where i: "BTree_search (eng_btree e) k = Some index"
    "p = (if index = -1 then Finished (RValue kNotFound []) else GetFound k index)" "e' = e" "fs' = fs"
    by (auto simp: body.simps bind_eq_Some_conv)
  then show "e' = e" "fs' = fs" by simp_all
  have "m k = None" if "index = -1"
    using Engine_get_correct [OF at_rest_view [OF assms(1)], of k "[]"] i(1) that
    by (simp add: Engine_get_def split: option.splits)
  with i(1,2) show "p = Finished (RValue kNotFound []) \<and> m k = None \<or> (\<exists>index. p = GetFound k index \<and> phase_ok path n e fs m p)"
    by simp
qed

lemma get_reads:
  assumes "body (GetFound k index) e fs = Some (p, e', fs')"
  shows "e' = e \<and> fs' = fs \<and> (\<exists>v. p = Finished (RValue kSucc v))"
proof -
  from assms obtain fp where f: "fopen_r (log_filename e) fs = Some fp" by (auto simp: body.simps bind_eq_Some_conv)
  from assms show ?thesis
    by (cases "read_key_value [] [] (fseek (sint index) fp) fs")
      (clarsimp simp: body.simps f Let_def split_beta split: if_splits)
qed

lemma get_ends:
  assumes "at_rest path n e fs m" "phase_ok path n e fs m (GetFound k index)"
    "body (GetFound k index) e fs = Some (p, e', fs')"
  shows "e' = e" "fs' = fs" "\<exists>v. m k = Some v \<and> p = Finished (RValue kSucc v)"
proof -
  from get_reads [OF assms(3)] show eqs: "e' = e" "fs' = fs" by simp_all
  from assms(2) have b: "body (Has2 (CGet k)) e fs = Some (GetFound k index, e, fs)" by (simp add: body.simps)
  have "do { (p, e, fs) \<leftarrow> body (Has2 (CGet k)) e fs; if p = Finished (RValue kNotFound []) then Some (p, e, fs) else body p e fs } =
    Some (p, e', fs')" unfolding b using assms(3) by simp
  then have "do { (r, v) \<leftarrow> Engine_get k [] e fs; Some (Finished (RValue r v), e, fs) } = Some (p, e', fs')"
    by (simp only: body_get)
  then have p: "p = (case m k of None \<Rightarrow> Finished (RValue kNotFound []) | Some v \<Rightarrow> Finished (RValue kSucc v))"
    using Engine_get_correct [OF at_rest_view [OF assms(1)], of k "[]"] by (auto split: option.splits)
  have "p \<noteq> Finished (RValue kNotFound [])"
    using get_reads [OF assms(3)] by auto
  with p show "\<exists>v. m k = Some v \<and> p = Finished (RValue kSucc v)" by (auto split: option.splits)
qed

lemma scan_ends:
  assumes "at_rest path n e fs m" "phase_ok path n e fs m (ScanFound lower upper hot idx)"
    "body (ScanFound lower upper hot idx) e fs = Some (p, e', fs')"
  shows "e' = e" "fs' = fs" "p = Finished (fst (map_call (CScan lower upper) m))"
proof -
  from assms(3) show eqs: "e' = e" "fs' = fs" by (auto simp: body.simps bind_eq_Some_conv)
  from assms(3) obtain s where f: "fs_files fs (log_filename e) = Some s"
    by (auto simp: body.simps bind_eq_Some_conv fopen_r_def fs_access_def split: if_splits)
  have app: "fold (\<lambda>k u. u @ [(k, the (m k))]) ks u = u @ map (\<lambda>k. (k, the (m k))) ks" for ks u
    by (induction ks arbitrary: u) simp_all
  from assms(2) have b: "body (Has2 (CScan lower upper)) e fs = Some (ScanFound lower upper hot idx, e, fs)"
    by (simp only: phase_ok.simps)
  have "do { (p, e, fs) \<leftarrow> body (Has2 (CScan lower upper)) e fs; body p e fs } = Some (p, e', fs')"
    unfolding b using assms(3) by simp
  then show "p = Finished (fst (map_call (CScan lower upper) m))"
    using Engine_visit_correct [OF at_rest_view [OF assms(1)] f, of lower upper "\<lambda>k v u. u @ [(k, v)]" "[]"]
    by (simp add: body_scan app)
qed

lemma view_gc:
  assumes "at_rest path n e fs m" "content fs (path @ ''/log(1)'') = []" "gc_copy e fs = Some (c, offs, fs')"
    "\<not> fs_lost fs'"
  shows "\<exists>s. fs_files fs (log_filename e) = Some s" "fs_writable fs" "live_size m \<le> fs_free fs"
    "at_rest path n e fs' m"
proof -
  have name: "log_filename e @ ''(1)'' = path @ ''/log(1)''" "log_filename e = path @ ''/log''"
    using assms(1) by (simp_all add: at_rest_def)
  from view_reads [OF at_rest_view [OF assms(1)]] obtain T where
    T: "btree_rep (eng_btree e) T" "dom m = set (map fst (entries T))"
      "\<forall>x\<in>set (entries T). reads_put fs (log_filename e) (\<lambda>k. the (m k)) x"
    by (metis (no_types, lifting) set_map)
  note g = gc_copy_correct [OF at_rest_view [OF assms(1)] T(1) refl T(2,3)]
  from assms(3) show w: "\<exists>s. fs_files fs (log_filename e) = Some s" "fs_writable fs"
    by (auto simp: gc_copy_def Let_def bind_eq_Some_conv fopen_r_def fs_access_def fopen_a_def split: if_splits)
  from g(2) [OF assms(3,4)] show l: "live_size m \<le> fs_free fs" by blast
  have d: "distinct (map fst (entries T))" using T(1) by (simp add: btree_rep_def root_distinct)
  have len: "length (encs (puts (\<lambda>k. the (m k)) (entries T))) = live_size m" by (rule length_puts [OF d T(2) [symmetric]])
  from g(2) [OF assms(3,4)] have "fs' = appended (log_filename e @ ''(1)'') (encs (puts (\<lambda>k. the (m k)) (entries T))) fs" by simp
  then have c: "content fs' (path @ ''/log'') = content fs (path @ ''/log'')" "fs_free fs' = fs_free fs - live_size m"
    "length (content fs' (path @ ''/log(1)'')) = live_size m" "fs_writable fs' = fs_writable fs"
    using name len assms(2) by simp_all
  then show "at_rest path n e fs' m" using assms(1,2) l by (auto simp: at_rest_def engine_view_def)
qed

lemma gc_ends:
  assumes "phase_ok path n e fs m (GcMoved offs)" "body (GcMoved offs) e fs = Some (p, e', fs')" "\<not> fs_lost fs"
  shows "p = Finished (RCode kSucc)" "at_rest path n e' fs' m" "content fs' (path @ ''/log(1)'') = []"
proof -
  from assms(1) obtain e0 fs0 c where f: "at_rest path n e0 fs0 m" "content fs0 (path @ ''/log(1)'') = []"
    "gc_copy e0 fs0 = Some (c, offs, fs)" "gc_move c offs e0 = Some e" by auto
  have name: "log_filename e0 @ ''(1)'' = path @ ''/log(1)''" "log_filename e0 = path @ ''/log''"
    using f(1) by (simp_all add: at_rest_def)
  from assms(2) have s: "gc_switch offs e fs = Some (e', fs')" and p: "p = Finished (RCode kSucc)"
    by (auto simp: body.simps bind_eq_Some_conv)
  show "p = Finished (RCode kSucc)" by (rule p)
  have run: "Engine_gc e0 fs0 = Some (e', fs')" using f(3,4) s by (simp add: Engine_gc_def)
  note v = view_gc [OF f(1-3) assms(3)]
  from v(1) obtain str where str: "fs_files fs0 (log_filename e0) = Some str" by blast
  from Engine_gc_correct [OF at_rest_view [OF f(1)] str f(2) [folded name(1)] v(2,3)] run
  have g: "log_filename e' = log_filename e0" "engine_abs e' fs' m" "length (content fs' (log_filename e0)) = live_size m" "fs_writable fs'"
    "content fs' (log_filename e0 @ ''(1)'') = []"
    "fs_free fs' = fs_free fs0 - live_size m + length str" by auto
  show "content fs' (path @ ''/log(1)'') = []" using g(5) name by simp
  show "at_rest path n e' fs' m"
    using g f(1) v(3) str name content_Some [OF str] by (simp add: at_rest_def)
qed


section \<open>The steps keep the invariant\<close>

lemma locks_held: "conc_inv path n s m \<Longrightarrow> set (locks_of (c_ph s i)) \<subseteq> set (c_held s i)"
proof -
  assume "conc_inv path n s m"
  then have "c_held s i = locks_of (c_ph s i) \<or> (\<exists>r. c_ph s i = Finished r)" by (simp add: conc_inv_def)
  then show ?thesis by auto
qed

lemma held_locks: "conc_inv path n s m \<Longrightarrow> \<nexists>r. c_ph s i = Finished r \<Longrightarrow> c_held s i = locks_of (c_ph s i)"
  unfolding conc_inv_def by blast

lemma other_locks:
  assumes "conc_inv path n s m" "(l, a) \<in> set (locks_of (c_ph s i))" "j \<noteq> i"
  shows "(l, Excl) \<notin> set (locks_of (c_ph s j))" "a = Excl \<Longrightarrow> l \<notin> fst ` set (locks_of (c_ph s j))"
proof -
  have "b = Shared \<and> a = Shared" if "(l, b) \<in> set (locks_of (c_ph s j))" for b
    using assms that locks_held [OF assms(1)] unfolding conc_inv_def by blast
  then show "(l, Excl) \<notin> set (locks_of (c_ph s j))" "a = Excl \<Longrightarrow> l \<notin> fst ` set (locks_of (c_ph s j))"
    by auto
qed

lemma not_lost: "conc_inv path n s m \<Longrightarrow> \<not> fs_lost (c_fs s)"
  by (simp add: conc_inv_def)

lemma work_inv:
  assumes "conc_inv path n s m" "locks_of p = locks_of (c_ph s i) \<or> (\<exists>r. p = Finished r)"
    "phase_ok path n e fs m' p" "\<And>j. j \<noteq> i \<Longrightarrow> phase_ok path n e fs m' (c_ph s j)"
    "calm p \<Longrightarrow> \<forall>j. j \<noteq> i \<longrightarrow> calm (c_ph s j) \<Longrightarrow> at_rest path n e fs m'"
    "one_log p \<Longrightarrow> \<forall>j. j \<noteq> i \<longrightarrow> one_log (c_ph s j) \<Longrightarrow> content fs (path @ ''/log(1)'') = []"
    "\<nexists>r. c_ph s i = Finished r" "\<not> fs_lost fs"
  shows "conc_inv path n (s\<lparr>c_eng := e, c_fs := fs, c_ph := (c_ph s)(i := p)\<rparr>) m'"
proof -
  let ?ph = "(c_ph s)(i := p)"
  have all: "(\<forall>j. P (?ph j)) \<longleftrightarrow> P p \<and> (\<forall>j. j \<noteq> i \<longrightarrow> P (c_ph s j))" for P by auto
  have "c_held s j = locks_of (?ph j) \<or> (\<exists>r. ?ph j = Finished r)" for j
    using assms(1,2,7) unfolding conc_inv_def by (cases "j = i") auto
  moreover have "phase_ok path n e fs m' (?ph j)" for j using assms(3,4) by simp
  moreover have "(\<forall>j. calm (?ph j)) \<longrightarrow> at_rest path n e fs m'" using assms(5) unfolding all by blast
  moreover have "(\<forall>j. one_log (?ph j)) \<longrightarrow> content fs (path @ ''/log(1)'') = []" using assms(6) unfolding all by blast
  moreover have "\<forall>i j l a b. i \<noteq> j \<longrightarrow> (l, a) \<in> set (c_held s i) \<longrightarrow> (l, b) \<in> set (c_held s j) \<longrightarrow> a = Shared \<and> b = Shared"
    using assms(1) unfolding conc_inv_def by (rule conjunct1 [OF conjunct2])
  ultimately show ?thesis using assms(8) unfolding conc_inv_def by simp
qed

text \<open>A step of the holder of an exclusive \<^verbatim>\<open>_mutex\<close>, of a reader, and of a collection.\<close>

lemma writer_inv:
  assumes "conc_inv path n s m" "locks_of (c_ph s i) = [(LMutex, Excl)]"
    "locks_of p = locks_of (c_ph s i) \<or> (\<exists>r. p = Finished r)" "phase_ok path n e fs m' p"
    "calm p \<Longrightarrow> at_rest path n e fs m'" "content fs (path @ ''/log(1)'') = []" "\<not> fs_lost fs"
  shows "conc_inv path n (s\<lparr>c_eng := e, c_fs := fs, c_ph := (c_ph s)(i := p)\<rparr>) m'"
proof (rule work_inv [OF assms(1,3,4)])
  fix j assume "j \<noteq> i"
  from other_locks(2) [OF assms(1) _ this] assms(2) have "LMutex \<notin> fst ` set (locks_of (c_ph s j))" by simp
  with assms(1) phase_ok_excl(1) show "phase_ok path n e fs m' (c_ph s j)" unfolding conc_inv_def by metis
qed (use assms(2,5-7) in auto)

lemma reader_inv:
  assumes "conc_inv path n s m" "locks_of p = locks_of (c_ph s i) \<or> (\<exists>r. p = Finished r)"
    "phase_ok path n (c_eng s) (c_fs s) m p" "calm (c_ph s i)" "one_log (c_ph s i)" "\<nexists>r. c_ph s i = Finished r"
  shows "conc_inv path n (s\<lparr>c_ph := (c_ph s)(i := p)\<rparr>) m"
proof -
  have "conc_inv path n (s\<lparr>c_eng := c_eng s, c_fs := c_fs s, c_ph := (c_ph s)(i := p)\<rparr>) m"
  proof (rule work_inv [OF assms(1-3) _ _ _ assms(6) not_lost [OF assms(1)]])
    show "at_rest path n (c_eng s) (c_fs s) m" if "\<forall>j. j \<noteq> i \<longrightarrow> calm (c_ph s j)"
      using assms(1,4) that unfolding conc_inv_def by metis
    show "content (c_fs s) (path @ ''/log(1)'') = []" if "\<forall>j. j \<noteq> i \<longrightarrow> one_log (c_ph s j)"
      using assms(1,5) that unfolding conc_inv_def by metis
  qed (use assms(1) in \<open>auto simp: conc_inv_def\<close>)
  then show ?thesis by simp
qed

lemma reader_rest:
  assumes "conc_inv path n s m" "set (locks_of (c_ph s i)) = {(LMutex2, Shared), (LMutex, Shared)}"
  shows "at_rest path n (c_eng s) (c_fs s) m"
proof -
  have "calm (c_ph s j)" for j
    using other_locks(1) [OF assms(1), of LMutex Shared i j] other_locks(1) [OF assms(1), of LMutex2 Shared i j] assms(2)
    by (cases "j = i") (auto intro!: calm_locks(2))
  with assms(1) show ?thesis unfolding conc_inv_def by blast
qed

lemma writer_rest:
  assumes "conc_inv path n s m" "locks_of (c_ph s i) = [(LMutex, Excl)]"
  shows "content (c_fs s) (path @ ''/log(1)'') = []"
    "calm (c_ph s i) \<Longrightarrow> at_rest path n (c_eng s) (c_fs s) m"
proof -
  have o: "calm (c_ph s j) \<and> one_log (c_ph s j)" if "j \<noteq> i" for j
    using other_locks(2) [OF assms(1) _ that] assms(2) by (intro calm_locks(1)) simp
  have "one_log (c_ph s i)" using assms(2) by (intro calm_locks(4)) simp
  with o assms(1) show "content (c_fs s) (path @ ''/log(1)'') = []" unfolding conc_inv_def by metis
  assume "calm (c_ph s i)"
  with o assms(1) show "at_rest path n (c_eng s) (c_fs s) m" unfolding conc_inv_def by metis
qed

lemma collector_rest:
  assumes "conc_inv path n s m" "{(LMutex, Shared), (LGc, Excl)} \<subseteq> set (locks_of (c_ph s i))"
  shows "j \<noteq> i \<Longrightarrow> (LMutex, Excl) \<notin> set (locks_of (c_ph s j))"
    "j \<noteq> i \<Longrightarrow> LGc \<notin> fst ` set (locks_of (c_ph s j))"
    "one_log (c_ph s i) \<Longrightarrow> content (c_fs s) (path @ ''/log(1)'') = []"
    "calm (c_ph s i) \<Longrightarrow> at_rest path n (c_eng s) (c_fs s) m"
proof -
  show l: "j \<noteq> i \<Longrightarrow> (LMutex, Excl) \<notin> set (locks_of (c_ph s j))"
    "j \<noteq> i \<Longrightarrow> LGc \<notin> fst ` set (locks_of (c_ph s j))" for j
    using other_locks(1) [OF assms(1), of LMutex Shared] other_locks(2) [OF assms(1), of LGc Excl] assms(2) by blast+
  have o: "calm (c_ph s j) \<and> one_log (c_ph s j)" if "j \<noteq> i" for j
    using l [OF that] by (rule calm_locks(3))
  with assms(1) show "one_log (c_ph s i) \<Longrightarrow> content (c_fs s) (path @ ''/log(1)'') = []"
    "calm (c_ph s i) \<Longrightarrow> at_rest path n (c_eng s) (c_fs s) m"
    unfolding conc_inv_def by metis+
qed


text \<open>
  \<open>moved s i p e fs m m'\<close>: the step of thread \<open>i\<close> to \<open>p\<close> keeps the invariant; either nothing has
  happened to the map, or this is the moment of the thread's call.
\<close>

definition moved :: "string \<Rightarrow> nat \<Rightarrow> cstate \<Rightarrow> nat \<Rightarrow> phase \<Rightarrow> engine \<Rightarrow> fsys \<Rightarrow> (string \<rightharpoonup> string) \<Rightarrow> (string \<rightharpoonup> string) \<Rightarrow> bool" where
  "moved path n s i p e fs m m' \<longleftrightarrow>
     conc_inv path n (s\<lparr>c_eng := e, c_fs := fs, c_ph := (c_ph s)(i := p)\<rparr>) m' \<and>
     (status_of p = status_of (c_ph s i) \<and> m' = m \<or>
      (\<exists>c. status_of (c_ph s i) = Pending c \<and> snd (map_call c m) = m' \<and> p = Finished (fst (map_call c m))))"

lemma put_moves:
  assumes inv: "conc_inv path n s m" and n: "n < 2 ^ 31" and kept: "\<not> fs_lost fs"
  shows "c_ph s i = Has1 (CPut k v) \<Longrightarrow> body (c_ph s i) (c_eng s) (c_fs s) = Some (p, e, fs) \<Longrightarrow>
      moved path n s i p e fs m m"
    "c_ph s i = PutLogged k v \<Longrightarrow> body (c_ph s i) (c_eng s) (c_fs s) = Some (p, e, fs) \<Longrightarrow>
      moved path n s i p e fs m (m(k \<mapsto> v))"
proof -
  assume ph: "c_ph s i = Has1 (CPut k v)" and b: "body (c_ph s i) (c_eng s) (c_fs s) = Some (p, e, fs)"
  then have l: "locks_of (c_ph s i) = [(LMutex, Excl)]" "calm (c_ph s i)" by simp_all
  note r = writer_rest(1) [OF inv l(1)] writer_rest(2) [OF inv l]
  note g = put_logs [OF r(2) b [unfolded ph] kept]
  have "nul_free k" using inv ph unfolding conc_inv_def by (metis phase_ok.simps(2))
  then have "phase_ok path n e fs m p" using r b ph g(1,2) by auto
  with l g(1,3) r show "moved path n s i p e fs m m"
    unfolding moved_def by (intro conjI writer_inv [OF inv _ _ _ _ _ kept]) (auto simp: ph status_of_def)
next
  assume ph: "c_ph s i = PutLogged k v" and b: "body (c_ph s i) (c_eng s) (c_fs s) = Some (p, e, fs)"
  have "phase_ok path n (c_eng s) (c_fs s) m (PutLogged k v)" using inv ph unfolding conc_inv_def by metis
  note g = put_ends [OF this b [unfolded ph] n not_lost [OF inv]]
  show "moved path n s i p e fs m (m(k \<mapsto> v))"
    unfolding moved_def by (intro conjI writer_inv [OF inv _ _ _ _ _ kept]) (use ph g in \<open>auto simp: status_of_def\<close>)
qed

lemma remove_moves:
  assumes inv: "conc_inv path n s m" and n: "n < 2 ^ 31" and kept: "\<not> fs_lost fs"
  shows "c_ph s i = Has1 (CRemove k) \<Longrightarrow> body (c_ph s i) (c_eng s) (c_fs s) = Some (p, e, fs) \<Longrightarrow>
      moved path n s i p e fs m m"
    "c_ph s i = RemIndexed k \<Longrightarrow> body (c_ph s i) (c_eng s) (c_fs s) = Some (p, e, fs) \<Longrightarrow>
      moved path n s i p e fs m (m(k := None))"
proof -
  assume ph: "c_ph s i = Has1 (CRemove k)" and b: "body (c_ph s i) (c_eng s) (c_fs s) = Some (p, e, fs)"
  then have l: "locks_of (c_ph s i) = [(LMutex, Excl)]" "calm (c_ph s i)" by simp_all
  note r = writer_rest(1) [OF inv l(1)] writer_rest(2) [OF inv l]
  note g = remove_begins [OF r(2) b [unfolded ph]]
  show "moved path n s i p e fs m m"
  proof (cases "m k = None")
    case True
    with g(1) g(2) [OF True] r l show ?thesis
      unfolding moved_def by (intro conjI writer_inv [OF inv _ _ _ _ _ kept]) (auto simp: ph status_of_def fun_upd_idem)
  next
    case False
    with g(3) [OF False] g(1) r b ph have "phase_ok path n e fs m p" by auto
    with l g(1) g(3) [OF False] r show ?thesis
      unfolding moved_def by (intro conjI writer_inv [OF inv _ _ _ _ _ kept]) (auto simp: ph status_of_def)
  qed
next
  assume ph: "c_ph s i = RemIndexed k" and b: "body (c_ph s i) (c_eng s) (c_fs s) = Some (p, e, fs)"
  have "phase_ok path n (c_eng s) (c_fs s) m (RemIndexed k)" using inv ph unfolding conc_inv_def by metis
  note g = remove_ends [OF this b [unfolded ph] n kept]
  show "moved path n s i p e fs m (m(k := None))"
    unfolding moved_def by (intro conjI writer_inv [OF inv _ _ _ _ _ kept]) (use ph g in \<open>auto simp: status_of_def\<close>)
qed

text \<open>A reader changes nothing.\<close>

lemma reader_moves:
  assumes inv: "conc_inv path n s m" and "set (locks_of (c_ph s i)) = {(LMutex2, Shared), (LMutex, Shared)}"
    and b: "body (c_ph s i) (c_eng s) (c_fs s) = Some (p, e, fs)"
  shows "moved path n s i p e fs m m"
proof -
  let ?e = "c_eng s" and ?fs = "c_fs s"
  note rest = reader_rest [OF assms(1,2)]
  have ok: "phase_ok path n ?e ?fs m (c_ph s i)" using inv by (simp add: conc_inv_def)
  have nl: "(LGc, Excl) \<notin> set (locks_of (c_ph s i))" "(LMutex2, Shared) \<in> set (locks_of (c_ph s i))"
    by (simp_all add: assms(2))
  have "e = ?e \<and> fs = ?fs \<and> phase_ok path n ?e ?fs m p \<and>
    (status_of p = status_of (c_ph s i) \<and> locks_of p = locks_of (c_ph s i) \<or>
      p = Finished (fst (map_call (op_of (c_ph s i)) m)) \<and> snd (map_call (op_of (c_ph s i)) m) = m) \<and>
    calm (c_ph s i) \<and> one_log (c_ph s i) \<and> status_of (c_ph s i) = Pending (op_of (c_ph s i))"
  proof (cases "c_ph s i")
    case (Has2 c)
    with assms(2) consider (get) k where "c = CGet k" | (scan) lower upper where "c = CScan lower upper"
      by (cases c) auto
    then show ?thesis
    proof cases
      case get
      with get_searches [OF rest, of k p e fs] b Has2 show ?thesis by (auto simp: status_of_def)
    next
      case scan
      from b obtain hot idx where "p = ScanFound lower upper hot idx" "e = ?e" "fs = ?fs"
        by (auto simp: Has2 scan body.simps bind_eq_Some_conv)
      with b show ?thesis by (simp add: Has2 scan status_of_def)
    qed
  next
    case (GetFound k index)
    with get_ends [OF rest, of k index p e fs] ok b show ?thesis by (auto simp: status_of_def)
  next
    case (ScanFound lower upper hot idx)
    with scan_ends [OF rest, of lower upper hot idx p e fs] ok b show ?thesis by (auto simp: status_of_def)
  next
    case (Has1 c)
    with nl show ?thesis by (cases c) simp_all
  qed (use nl in simp_all)
  moreover from this have "\<nexists>r. c_ph s i = Finished r" by (auto simp: status_of_def)
  ultimately show ?thesis using reader_inv [OF inv, of p i] unfolding moved_def by auto
qed

lemma gc_copies:
  assumes inv: "conc_inv path n s m" and ph: "c_ph s i = Has2 CCollect"
    and b: "body (c_ph s i) (c_eng s) (c_fs s) = Some (p, e, fs)" and kept: "\<not> fs_lost fs"
  shows "moved path n s i p e fs m m"
proof -
  have l: "{(LMutex, Shared), (LGc, Excl)} \<subseteq> set (locks_of (c_ph s i))" "calm (c_ph s i)" "one_log (c_ph s i)"
    by (simp_all add: ph)
  note o = collector_rest(1,2) [OF inv l(1)]
  note r = collector_rest(3) [OF inv l(1,3)] collector_rest(4) [OF inv l(1,2)]
  from b obtain c offs where g: "gc_copy (c_eng s) (c_fs s) = Some (c, offs, fs)" "e = c_eng s" "p = GcCopied c offs"
    by (auto simp: ph body.simps bind_eq_Some_conv)
  have "conc_inv path n (s\<lparr>c_eng := e, c_fs := fs, c_ph := (c_ph s)(i := p)\<rparr>) m"
  proof (rule work_inv [OF inv])
    show "phase_ok path n e fs m p" using g r by auto
    show "phase_ok path n e fs m (c_ph s j)" if "j \<noteq> i" for j
    proof -
      have "phase_ok path n (c_eng s) (c_fs s) m (c_ph s j)" using inv by (simp add: conc_inv_def)
      then show ?thesis unfolding g(2) by (rule phase_ok_log [OF o(1) [OF that] o(2) [OF that]])
    qed
    show "at_rest path n e fs m" using view_gc(4) [OF r(2,1) g(1) kept] g(2) by simp
  qed (simp_all add: ph g(3) kept)
  then show ?thesis by (simp add: moved_def ph g(3) status_of_def)
qed

lemma gc_moves:
  assumes inv: "conc_inv path n s m"
    and "set (locks_of (c_ph s i)) = {(LMutex2, Excl), (LMutex, Shared), (LGc, Excl)}"
    and b: "body (c_ph s i) (c_eng s) (c_fs s) = Some (p, e, fs)" and kept: "\<not> fs_lost fs"
  shows "moved path n s i p e fs m m"
proof -
  let ?e = "c_eng s" and ?fs = "c_fs s"
  have l: "{(LMutex, Shared), (LGc, Excl)} \<subseteq> set (locks_of (c_ph s i))" "(LMutex2, Excl) \<in> set (locks_of (c_ph s i))"
    using assms(2) by auto
  note o = collector_rest(1,2) [OF inv l(1)] other_locks(2) [OF inv l(2) _ refl]
  have ok: "phase_ok path n ?e ?fs m (c_ph s i)" using inv by (simp add: conc_inv_def)
  have "phase_ok path n e fs m p \<and> status_of (c_ph s i) = Pending CCollect \<and>
    ((\<exists>offs. p = GcMoved offs) \<and> locks_of (c_ph s i) = locks_of p \<or>
      p = Finished (RCode kSucc) \<and> at_rest path n e fs m \<and> content fs (path @ ''/log(1)'') = [])"
  proof (cases "c_ph s i")
    case (GcReady c offs)
    with b obtain "p = GcMoved offs" "gc_move c offs ?e = Some e" "fs = ?fs"
      by (auto simp: body.simps bind_eq_Some_conv)
    with ok GcReady show ?thesis by (auto simp: status_of_def)
  next
    case (GcMoved offs)
    with gc_ends [of path n ?e ?fs m offs p e fs] ok b not_lost [OF inv] show ?thesis by (auto simp: status_of_def)
  next
    case (Has1 c)
    with assms(2) show ?thesis by (cases c) auto
  next
    case (Has2 c)
    with assms(2) show ?thesis by (cases c) auto
  qed (use assms(2) in auto)
  note g = this
  have "conc_inv path n (s\<lparr>c_eng := e, c_fs := fs, c_ph := (c_ph s)(i := p)\<rparr>) m"
  proof (rule work_inv [OF inv])
    show "phase_ok path n e fs m (c_ph s j)" if "j \<noteq> i" for j
    proof -
      have "phase_ok path n ?e ?fs m (c_ph s j)" using inv by (simp add: conc_inv_def)
      then show ?thesis by (subst (asm) phase_ok_excl(2) [OF o(1) [OF that] o(2) [OF that] o(3) [OF that]])
    qed
  qed (use g kept in \<open>auto simp: status_of_def\<close>)
  with g show ?thesis by (auto simp: moved_def status_of_def)
qed

lemma work_moves:
  assumes "conc_inv path n s m" "n < 2 ^ 31" "body (c_ph s i) (c_eng s) (c_fs s) = Some (p, e, fs)" "\<not> fs_lost fs"
  shows "\<exists>m'. moved path n s i p e fs m m'"
proof (cases "c_ph s i")
  case (Has1 c)
  with assms(3) put_moves(1) [OF assms(1,2,4) _ assms(3)] remove_moves(1) [OF assms(1,2,4) _ assms(3)] show ?thesis
    by (cases c) (auto simp: body.simps)
next
  case (Has2 c)
  with assms(3) reader_moves [OF assms(1) _ assms(3)] gc_copies [OF assms(1) _ assms(3,4)] show ?thesis
    by (cases c) (auto simp: body.simps)
qed (use assms(3) put_moves(2) [OF assms(1,2,4) _ assms(3)] remove_moves(2) [OF assms(1,2,4) _ assms(3)]
  reader_moves [OF assms(1) _ assms(3)] gc_moves [OF assms(1) _ assms(3,4)] in \<open>auto simp: body.simps\<close>)


lemma lock_facts:
  assumes "next_lock q = Some (h, p)"
  shows "locks_of p = h # locks_of q" "status_of p = status_of q" "calm p = calm q" "one_log p = one_log q"
    "phase_ok path n e fs m q \<Longrightarrow> phase_ok path n e fs m p" "\<nexists>r. q = Finished r"
  using assms by (induction q rule: next_lock.induct; auto simp: status_of_def)+

lemma lock_moves:
  assumes inv: "conc_inv path n s m" and q: "next_lock (c_ph s i) = Some ((l, a), p)"
    and free: "\<forall>j. j \<noteq> i \<longrightarrow> compatible l a (c_held s j)"
  shows "conc_inv path n (s\<lparr>c_ph := (c_ph s)(i := p), c_held := (c_held s)(i := (l, a) # c_held s i)\<rparr>) m"
proof -
  note f = lock_facts [OF q]
  note held = held_locks [OF inv f(6)]
  have excl: "x = Shared \<and> y = Shared" if "j \<noteq> i" "(l', x) \<in> set ((l, a) # c_held s i)" "(l', y) \<in> set (c_held s j)" for j l' x y
  proof (cases "(l', x) = (l, a)")
    case True
    with free that(1,3) show ?thesis by (auto simp: compatible_def)
  next
    case False
    with inv that show ?thesis unfolding conc_inv_def by (metis set_ConsD)
  qed
  have "x = Shared \<and> y = Shared" if "j \<noteq> k" "(l', x) \<in> set (((c_held s)(i := (l, a) # c_held s i)) j)"
    "(l', y) \<in> set (((c_held s)(i := (l, a) # c_held s i)) k)" for j k l' x y
    using that excl [of j l' y x] excl [of k l' x y] inv unfolding conc_inv_def
    by (cases "j = i"; cases "k = i"; simp; blast)
  then have "\<forall>j k l' x y. j \<noteq> k \<longrightarrow> (l', x) \<in> set (((c_held s)(i := (l, a) # c_held s i)) j) \<longrightarrow>
    (l', y) \<in> set (((c_held s)(i := (l, a) # c_held s i)) k) \<longrightarrow> x = Shared \<and> y = Shared" by blast
  moreover have "(\<forall>j. calm (((c_ph s)(i := p)) j)) \<longleftrightarrow> (\<forall>j. calm (c_ph s j))"
    "(\<forall>j. one_log (((c_ph s)(i := p)) j)) \<longleftrightarrow> (\<forall>j. one_log (c_ph s j))" using f(3,4) by auto
  moreover have "phase_ok path n (c_eng s) (c_fs s) m (((c_ph s)(i := p)) j)" for j
    using inv f(5) by (simp add: conc_inv_def)
  moreover have "((c_held s)(i := (l, a) # c_held s i)) j = locks_of (((c_ph s)(i := p)) j) \<or>
    (\<exists>r. ((c_ph s)(i := p)) j = Finished r)" for j
    using inv f(1) held by (simp add: conc_inv_def)
  ultimately show ?thesis using inv unfolding conc_inv_def by simp
qed

lemma phase_inv:
  assumes inv: "conc_inv path n s m" and "locks_of p = []" "c_held s i = []" "phase_ok path n (c_eng s) (c_fs s) m p"
    "calm (c_ph s i)" "one_log (c_ph s i)"
  shows "conc_inv path n (s\<lparr>c_ph := (c_ph s)(i := p)\<rparr>) m"
proof -
  have "(\<forall>j. calm (((c_ph s)(i := p)) j)) \<longrightarrow> (\<forall>j. calm (c_ph s j))"
    "(\<forall>j. one_log (((c_ph s)(i := p)) j)) \<longrightarrow> (\<forall>j. one_log (c_ph s j))" using assms(5,6) by auto
  with assms show ?thesis unfolding conc_inv_def by auto
qed

lemma unlock_inv:
  assumes inv: "conc_inv path n s m" and "c_ph s i = Finished r" "set hs \<subseteq> set (c_held s i)"
  shows "conc_inv path n (s\<lparr>c_held := (c_held s)(i := hs)\<rparr>) m"
proof -
  have sub: "set (((c_held s)(i := hs)) j) \<subseteq> set (c_held s j)" for j using assms(3) by simp
  have "x = Shared \<and> y = Shared" if "j \<noteq> k" "(l, x) \<in> set (((c_held s)(i := hs)) j)" "(l, y) \<in> set (((c_held s)(i := hs)) k)"
    for j k l x y
    using inv that(1) subsetD [OF sub that(2)] subsetD [OF sub that(3)] unfolding conc_inv_def by blast
  then have "\<forall>j k l x y. j \<noteq> k \<longrightarrow> (l, x) \<in> set (((c_held s)(i := hs)) j) \<longrightarrow> (l, y) \<in> set (((c_held s)(i := hs)) k) \<longrightarrow>
    x = Shared \<and> y = Shared" by blast
  with assms(1,2) show ?thesis unfolding conc_inv_def by simp
qed

text \<open>A step of the threads is a step of the atomic object, or none.\<close>

inductive astep :: "(string \<rightharpoonup> string) \<Rightarrow> (nat \<Rightarrow> status) \<Rightarrow> event \<Rightarrow> (string \<rightharpoonup> string) \<Rightarrow> (nat \<Rightarrow> status) \<Rightarrow> bool" where
  astep_none: "astep m st Tau m st"
| astep_call: "st i = Outside \<Longrightarrow> astep m st (Call i c) m (st(i := Pending c))"
| astep_atomic: "st i = Pending c \<Longrightarrow>
    astep m st Tau (snd (map_call c m)) (st(i := Answered (fst (map_call c m))))"
| astep_return: "st i = Answered r \<Longrightarrow> astep m st (Ret i r) m (st(i := Outside))"

lemma astep_aexec:
  "astep m st ev m' st' \<Longrightarrow> aexec tr m st \<Longrightarrow> aexec (if ev = Tau then tr else tr @ [ev]) m' st'"
  by (induction rule: astep.induct) (auto intro: aexec.intros)

lemma cstep_astep:
  assumes "cstep s ev s'" "conc_inv path n s m" "n < 2 ^ 31" "\<And>i k v. ev = Call i (CPut k v) \<Longrightarrow> nul_free k"
  shows "\<exists>m'. conc_inv path n s' m' \<and> astep m (\<lambda>i. status_of (c_ph s i)) ev m' (\<lambda>i. status_of (c_ph s' i))"
proof -
  have upd: "(\<lambda>j. status_of (((c_ph s)(i := p)) j)) = (\<lambda>j. status_of (c_ph s j))(i := status_of p)" for i p by auto
  have same: "(\<lambda>j. status_of (c_ph s j))(i := status_of (c_ph s i)) = (\<lambda>j. status_of (c_ph s j))" for i by auto
  have st: "status_of Idle = Outside" "status_of (Called c) = Pending c" "status_of (Finished r) = Answered r" for c r
    by (simp_all add: status_of_def)
  from assms(1) show ?thesis
  proof cases
    case (call i c)
    have "calm (c_ph s i)" "one_log (c_ph s i)" "c_held s i = []"
      using call(3) held_locks [OF assms(2), of i] by simp_all
    moreover have "phase_ok path n (c_eng s) (c_fs s) m (Called c)" using assms(4) call(1,4) by (cases c) auto
    ultimately have "conc_inv path n s' m" using phase_inv [OF assms(2), of "Called c" i] call(2) by simp
    moreover have "astep m (\<lambda>i. status_of (c_ph s i)) ev m (\<lambda>i. status_of (c_ph s' i))"
      using astep_call [of "\<lambda>i. status_of (c_ph s i)" i m c] call(3) unfolding call(1,2)
      by (simp add: upd st del: fun_upd_apply)
    ultimately show ?thesis by blast
  next
    case (lock i l a p)
    have "conc_inv path n s' m" using lock_moves [OF assms(2) lock(3,4)] lock(2) by simp
    moreover have "astep m (\<lambda>i. status_of (c_ph s i)) ev m (\<lambda>i. status_of (c_ph s' i))"
      using astep_none unfolding lock(1,2) by (simp add: upd same lock_facts(2) [OF lock(3)] del: fun_upd_apply)
    ultimately show ?thesis by blast
  next
    case (work i p e fs)
    from work_moves [OF assms(2,3) work(3,4)] obtain m' where m': "moved path n s i p e fs m m'" by blast
    have "astep m (\<lambda>i. status_of (c_ph s i)) ev m' (\<lambda>i. status_of (c_ph s' i))"
    proof (cases "status_of p = status_of (c_ph s i) \<and> m' = m")
      case True
      then show ?thesis using astep_none unfolding work(1,2) by (simp add: upd same del: fun_upd_apply)
    next
      case False
      with m' obtain c where c: "status_of (c_ph s i) = Pending c" "snd (map_call c m) = m'" "p = Finished (fst (map_call c m))"
        by (auto simp: moved_def)
      with astep_atomic [of "\<lambda>i. status_of (c_ph s i)" i c m] show ?thesis
        unfolding work(1,2) by (simp add: upd st del: fun_upd_apply)
    qed
    with m' work(2) show ?thesis by (auto simp: moved_def)
  next
    case (unlock i r h hs)
    with unlock_inv [OF assms(2) unlock(3), of hs] astep_none show ?thesis by auto
  next
    case (return i r)
    with phase_inv [OF assms(2), of Idle i] have "conc_inv path n s' m" by simp
    moreover have "astep m (\<lambda>i. status_of (c_ph s i)) ev m (\<lambda>i. status_of (c_ph s' i))"
      using astep_return [of "\<lambda>i. status_of (c_ph s i)" i r m] return(3) unfolding return(1,2)
      by (simp add: upd st del: fun_upd_apply)
    ultimately show ?thesis by blast
  qed
qed

lemma start_inv:
  assumes "Engine_ctor path (new_fs n) = Some e" "n < 2 ^ 31"
  shows "conc_inv path n \<lparr>c_eng = e, c_fs = new_fs n, c_ph = (\<lambda>i. Idle), c_held = (\<lambda>i. [])\<rparr> Map.empty"
proof -
  have "fs_writable (new_fs n)" "fs_free (new_fs n) = n" "content (new_fs n) x = []" "\<not> fs_lost (new_fs n)" for x
    by (simp_all add: new_fs_def content_def)
  with new_store [OF assms(2), of path] assms(1) show ?thesis
    by (auto simp: conc_inv_def at_rest_def store_holds_def Let_def)
qed

lemma cexec_inv:
  "cexec path n tr s \<Longrightarrow> keys_ok tr \<Longrightarrow> n < 2 ^ 31 \<Longrightarrow>
   \<exists>m. conc_inv path n s m \<and> aexec tr m (\<lambda>i. status_of (c_ph s i))"
proof (induction rule: cexec.induct)
  case (start e)
  with start_inv [OF start(1)] astart show ?case by (auto simp: status_of_def)
next
  case (hidden tr s s')
  then show ?case using cstep_astep [OF hidden.hyps(2)] astep_aexec by fastforce
next
  case (visible tr s ev s')
  then have k: "keys_ok tr" "\<And>i k v. ev = Call i (CPut k v) \<Longrightarrow> nul_free k" by (auto simp: keys_ok_def)
  with visible cstep_astep [OF visible.hyps(2)] astep_aexec show ?case by fastforce
qed


section \<open>Linearizability\<close>

text \<open>
  C2. Linearizability: whatever calls any number of threads make, and however their steps interleave,
  the calls and returns are those of an object that runs each call at one moment between its call
  and its return on a map; and whenever no operation is in progress, the engine stores that map.
  (Keys that are put without the NUL byte, on a disk of less than 2 GiB, beginning in an empty directory,
  and as long as no record is lost on a full disk; C31 is about the case that one is.)
\<close>
theorem engine_linearizable:
  assumes "cexec path n tr s" "keys_ok tr" "n < 2 ^ 31"
  shows "\<exists>m st. aexec tr m st \<and> (\<forall>i. st i = status_of (c_ph s i)) \<and>
    ((\<forall>i. c_ph s i = Idle) \<longrightarrow> engine_abs (c_eng s) (c_fs s) m)"
proof -
  from cexec_inv [OF assms] obtain m where m: "conc_inv path n s m" "aexec tr m (\<lambda>i. status_of (c_ph s i))"
    by blast
  from m(1) have "(\<forall>i. c_ph s i = Idle) \<longrightarrow> engine_abs (c_eng s) (c_fs s) m"
    by (auto simp: conc_inv_def at_rest_def)
  with m(2) show ?thesis by blast
qed

text \<open>A reader and a writer; the reader is done when the writer enters.\<close>

definition new_engine :: engine where
  "new_engine = \<lparr>log_filename = ''d/log'', eng_btree = BTree_ctor, log_offset = 0\<rparr>"

lemma new_engine_ctor: "Engine_ctor ''d'' (new_fs n) = Some new_engine"
  by (simp add: Engine_ctor_def fs_access_def new_fs_def new_engine_def)

definition both_called :: "nat \<Rightarrow> phase" where
  "both_called = (\<lambda>i. Idle)(0 := Called (CGet ''k''), 1 := Called (CPut ''k'' ''v''))"

lemma both_call:
  "cexec ''d'' 100 [Call 0 (CGet ''k''), Call 1 (CPut ''k'' ''v'')]
    \<lparr>c_eng = new_engine, c_fs = new_fs 100, c_ph = both_called, c_held = (\<lambda>i. [])\<rparr>"
proof -
  note s = cexec.start [OF new_engine_ctor, of 100]
  note s = cexec.visible [OF s cstep.call [of _ 0 "CGet ''k''"]]
  note s = cexec.visible [OF s [simplified] cstep.call [of _ 1 "CPut ''k'' ''v''"]]
  from s show ?thesis by (simp add: both_called_def)
qed


lemma empty_search: "BTree_search BTree_ctor ''k'' = Some (- 1)"
  by code_simp

lemma reader_done:
  "cexec ''d'' 100 [Call 0 (CGet ''k''), Call 1 (CPut ''k'' ''v''), Ret 0 (RValue kNotFound [])]
    \<lparr>c_eng = new_engine, c_fs = new_fs 100, c_ph = both_called(0 := Idle), c_held = (\<lambda>i. [])\<rparr>"
proof -
  let ?s = "\<lambda>p (hs :: (lock \<times> mode) list). \<lparr>c_eng = new_engine, c_fs = new_fs 100, c_ph = both_called(0 := p), c_held = (\<lambda>i. [])(0 := hs)\<rparr>"
  let ?h = "[(LMutex2, Shared), (LMutex, Shared)]" and ?r = "RValue kNotFound []"
  have b: "body (Has2 (CGet ''k'')) new_engine (new_fs 100) = Some (Finished ?r, new_engine, new_fs 100)"
    using empty_search by (simp add: body.simps new_engine_def)
  have s0: "both_called(0 := Called (CGet ''k'')) = both_called" "(\<lambda>i. [])(0 := [] :: (lock \<times> mode) list) = (\<lambda>i. [])"
    by (auto simp: both_called_def)
  have "cstep (?s (Called (CGet ''k'')) []) Tau (?s (Has1 (CGet ''k'')) [(LMutex, Shared)])"
    using cstep.lock [of "?s (Called (CGet ''k'')) []" 0] by (simp add: compatible_def)
  note s = cexec.hidden [OF both_call this [unfolded s0]]
  have "cstep (?s (Has1 (CGet ''k'')) [(LMutex, Shared)]) Tau (?s (Has2 (CGet ''k'')) ?h)"
    using cstep.lock [of "?s (Has1 (CGet ''k'')) [(LMutex, Shared)]" 0] by (simp add: compatible_def)
  note s = cexec.hidden [OF s this]
  have "cstep (?s (Has2 (CGet ''k'')) ?h) Tau (?s (Finished ?r) ?h)"
    using cstep.work [of "?s (Has2 (CGet ''k'')) ?h" 0] b new_fs_kept by simp
  note s = cexec.hidden [OF s this]
  have u: "cstep (?s (Finished ?r) (h # hs)) Tau (?s (Finished ?r) hs)" for h hs
    using cstep.unlock [of "?s (Finished ?r) (h # hs)" 0 ?r h hs] by simp
  note s = cexec.hidden [OF cexec.hidden [OF s u] u]
  have "cstep (?s (Finished ?r) []) (Ret 0 ?r) (?s Idle [])"
    using cstep.return [of "?s (Finished ?r) []" 0 ?r] by simp
  from cexec.visible [OF s this] show ?thesis unfolding s0 by simp
qed

theorem engine_linearizable_witness:
  "\<exists>m st. aexec [Call 0 (CGet ''k''), Call 1 (CPut ''k'' ''v''), Ret 0 (RValue kNotFound [])] m st \<and>
    st 0 = Outside \<and> st 1 = Pending (CPut ''k'' ''v'')"
proof -
  have "keys_ok [Call 0 (CGet ''k''), Call 1 (CPut ''k'' ''v''), Ret 0 (RValue kNotFound [])]"
    by (simp add: keys_ok_def nul_free_def)
  from engine_linearizable [OF reader_done this] show ?thesis
    by (fastforce simp: both_called_def status_of_def)
qed

end
