(* ===== verification/Engine_Live.thy ===== *)
theory Engine_Live
  imports Engine_Conc
begin

text \<open>
  Operations return: as long as the disk has room and the log is there, some thread that is inside
  an operation can always take its next step.
\<close>

section \<open>Every step that is not waiting returns\<close>

text \<open>
  What a step can lack: room on the disk for the record or for the new log, or a log to read.  (On a
  full disk the bytes of the buffer are lost, or \<^verbatim>\<open>fwrite\<close> is repeated for ever; without a log the
  \<^verbatim>\<open>FILE\<close> pointer is null.)
\<close>

fun lacks :: "(string \<rightharpoonup> string) \<Rightarrow> engine \<Rightarrow> fsys \<Rightarrow> phase \<Rightarrow> bool" where
  "lacks m e fs (Has1 (CPut k v)) = (fs_free fs < rec_size k v)"
| "lacks m e fs (RemIndexed k) = (fs_free fs < rec_size k [])"
| "lacks m e fs (ScanFound lower upper hot idx) = (fs_files fs (log_filename e) = None)"
| "lacks m e fs (Has2 CCollect) = (fs_files fs (log_filename e) = None \<or> fs_free fs < live_size m)"
| "lacks m e fs p = False"

lemma returned: "do { (p, e, fs) \<leftarrow> x; f p e fs } = Some y \<Longrightarrow> x \<noteq> None"
  by (cases x) simp_all

lemma put_returns:
  assumes "at_rest path n e fs m" "nul_free k" "n < 2 ^ 31" "rec_size k v \<le> fs_free fs"
  shows "body (Has1 (CPut k v)) e fs \<noteq> None"
    "body (Has1 (CPut k v)) e fs = Some (PutLogged k v, e', fs') \<Longrightarrow> body (PutLogged k v) e' fs' \<noteq> None"
proof -
  from Engine_put_correct [OF at_rest_view [OF assms(1)] assms(2) room_returned [OF assms(1,3,4)]]
  obtain r where r: "Engine_put k v e fs = Some r" by blast
  with body_put [of k v e fs] have b: "do { (p, e, fs) \<leftarrow> body (Has1 (CPut k v)) e fs; body p e fs } \<noteq> None"
    by (simp add: case_prod_unfold)
  then show "body (Has1 (CPut k v)) e fs \<noteq> None" by (cases "body (Has1 (CPut k v)) e fs") simp_all
  assume "body (Has1 (CPut k v)) e fs = Some (PutLogged k v, e', fs')"
  with b show "body (PutLogged k v) e' fs' \<noteq> None" by simp
qed

lemma remove_returns:
  assumes "at_rest path n e fs m"
  shows "body (Has1 (CRemove k)) e fs \<noteq> None"
    "body (Has1 (CRemove k)) e fs = Some (RemIndexed k, e', fs) \<Longrightarrow> rec_size k [] \<le> fs_free fs \<Longrightarrow>
     body (RemIndexed k) e' fs \<noteq> None"
proof -
  from at_rest_view [OF assms(1)] obtain rs idx where i: "replay rs = m" "index_ok rs idx m" "btree_abs (eng_btree e) idx"
    by (auto simp: engine_view_def)
  with index_remove [of rs idx "eng_btree e" k] obtain t' where
    "BTree_remove k (eng_btree e) = Some (if m k = None then 0 else 1, t')" by auto
  then show "body (Has1 (CRemove k)) e fs \<noteq> None" by (simp add: body.simps)
  assume r: "rec_size k [] \<le> fs_free fs"
  have "length (remove_line k) = rec_size k []" by (simp add: length_enc rec_size_def)
  with r assms have "fs_writable fs" "length (remove_line k) \<le> fs_free fs" by (simp_all add: at_rest_def)
  from append_line [OF this, of "log_filename e'"] obtain w w' fs' where
    "fopen_a (log_filename e') fs = Some (w, opened (log_filename e') fs)"
    "log_line (remove_line k) w (opened (log_filename e') fs) = Some (w', fs')" by metis
  then show "body (RemIndexed k) e' fs \<noteq> None" by (simp add: body.simps split_beta Let_def)
qed

lemma get_returns:
  assumes "at_rest path n e fs m"
  shows "body (Has2 (CGet k)) e fs \<noteq> None"
    "phase_ok path n e fs m (GetFound k index) \<Longrightarrow> body (GetFound k index) e fs \<noteq> None"
proof -
  have "Engine_get k [] e fs \<noteq> None" using Engine_get_correct [OF at_rest_view [OF assms]] by simp
  then show "body (Has2 (CGet k)) e fs \<noteq> None"
    by (cases "BTree_search (eng_btree e) k") (simp_all add: Engine_get_def body.simps)
  assume ok: "phase_ok path n e fs m (GetFound k index)"
  then have b: "body (Has2 (CGet k)) e fs = Some (GetFound k index, e, fs)" by (simp add: body.simps)
  have "do { (r, v) \<leftarrow> Engine_get k [] e fs; Some (Finished (RValue r v), e, fs) } \<noteq> None"
    using Engine_get_correct [OF at_rest_view [OF assms], of k "[]"] by (cases "m k") simp_all
  then have "do { (p, e, fs) \<leftarrow> body (Has2 (CGet k)) e fs; if p = Finished (RValue kNotFound []) then Some (p, e, fs) else body p e fs } \<noteq> None"
    by (simp only: body_get not_False_eq_True)
  then show "body (GetFound k index) e fs \<noteq> None" unfolding b by simp
qed

lemma scan_returns:
  assumes "at_rest path n e fs m"
  shows "body (Has2 (CScan lower upper)) e fs \<noteq> None"
    "phase_ok path n e fs m (ScanFound lower upper hot idx) \<Longrightarrow> fs_files fs (log_filename e) \<noteq> None \<Longrightarrow>
     body (ScanFound lower upper hot idx) e fs \<noteq> None"
proof -
  from view_reads [OF at_rest_view [OF assms]] obtain T where T: "btree_rep (eng_btree e) T" by metis
  from search_enters_chain [OF T, of lower] obtain r p i js where
    "search_hot (eng_btree e) lower = Some (r, p, js @ [i])" by metis
  then show "body (Has2 (CScan lower upper)) e fs \<noteq> None" by (simp add: body.simps)
  assume "phase_ok path n e fs m (ScanFound lower upper hot idx)" and "fs_files fs (log_filename e) \<noteq> None"
  then obtain s where b: "body (Has2 (CScan lower upper)) e fs = Some (ScanFound lower upper hot idx, e, fs)"
    and s: "fs_files fs (log_filename e) = Some s" by auto
  from Engine_visit_correct [OF at_rest_view [OF assms] s, of lower upper "\<lambda>k v u. u @ [(k, v)]" "[]"]
  have "do { (r, kvs) \<leftarrow> Engine_visit lower upper (\<lambda>k v u. u @ [(k, v)]) [] e fs; Some (Finished (RScan r kvs), e, fs) } \<noteq> None"
    by simp
  then have "do { (p, e, fs) \<leftarrow> body (Has2 (CScan lower upper)) e fs; body p e fs } \<noteq> None"
    by (simp only: body_scan not_False_eq_True)
  then show "body (ScanFound lower upper hot idx) e fs \<noteq> None" unfolding b by simp
qed

lemma collect_returns:
  assumes "at_rest path n e fs m" "content fs (path @ ''/log(1)'') = []"
  shows "fs_files fs (log_filename e) \<noteq> None \<Longrightarrow> live_size m \<le> fs_free fs \<Longrightarrow> body (Has2 CCollect) e fs \<noteq> None"
    "gc_copy e fs = Some (c, offs, fs') \<Longrightarrow> \<not> fs_lost fs' \<Longrightarrow> body (GcReady c offs) e fs' \<noteq> None"
    "gc_copy e fs = Some (c, offs, fs') \<Longrightarrow> \<not> fs_lost fs' \<Longrightarrow> gc_move c offs e = Some e' \<Longrightarrow> body (GcMoved offs) e' fs' \<noteq> None"
proof -
  have stale: "content fs (log_filename e @ ''(1)'') = []" using assms by (simp add: at_rest_def)
  have w: "fs_writable fs" using assms(1) by (simp add: at_rest_def)
  have run: "Engine_gc e fs \<noteq> None" if "fs_files fs (log_filename e) \<noteq> None" "live_size m \<le> fs_free fs"
    using Engine_gc_correct [OF at_rest_view [OF assms(1)] _ stale w that(2)] that(1) by auto
  then show "fs_files fs (log_filename e) \<noteq> None \<Longrightarrow> live_size m \<le> fs_free fs \<Longrightarrow> body (Has2 CCollect) e fs \<noteq> None"
    by (auto simp: body.simps Engine_gc_def split: bind_splits)
  assume c: "gc_copy e fs = Some (c, offs, fs')" "\<not> fs_lost fs'"
  from run view_gc(1,3) [OF assms c] c(1) have r: "gc_move c offs e \<noteq> None \<and> (\<forall>e'. gc_move c offs e = Some e' \<longrightarrow> gc_switch offs e' fs' \<noteq> None)"
    by (auto simp: Engine_gc_def split: bind_splits)
  then show "body (GcReady c offs) e fs' \<noteq> None" by (auto simp: body.simps)
  assume "gc_move c offs e = Some e'"
  with r show "body (GcMoved offs) e' fs' \<noteq> None" by (auto simp: body.simps)
qed

text \<open>No bytes are lost either, where there is room.\<close>

lemma append_kept:
  assumes "fopen_a name fs = Some (w, fs1)" "log_line line w fs1 = Some (w', fs2)" "length line \<le> fs_free fs"
  shows "fs_lost (snd (fclose w' fs2)) = fs_lost fs"
proof -
  from assms(1) have "fs_writable fs" by (simp add: fopen_a_def split: if_splits)
  from append_line [OF this assms(3), of name] assms(1,2) show ?thesis by fastforce
qed

lemma gc_copy_kept:
  assumes "at_rest path n e fs m" "gc_copy e fs = Some (c, offs, fs')" "live_size m \<le> fs_free fs"
  shows "fs_lost fs' = fs_lost fs"
proof -
  from view_reads [OF at_rest_view [OF assms(1)]] obtain T where
    T: "btree_rep (eng_btree e) T" "dom m = set (map fst (entries T))"
      "\<forall>x\<in>set (entries T). reads_put fs (log_filename e) (\<lambda>k. the (m k)) x"
    by (metis (no_types, lifting) set_map)
  from assms(2) obtain s where "fs_files fs (log_filename e) = Some s" "fs_writable fs"
    by (auto simp: gc_copy_def Let_def bind_eq_Some_conv fopen_r_def fs_access_def fopen_a_def split: if_splits)
  from gc_copy_correct(1) [OF at_rest_view [OF assms(1)] T(1) refl T(2,3) this assms(3)] assms(2) show ?thesis by simp
qed

lemma body_kept:
  assumes "body q e fs = Some (p, e', fs')" "\<not> lacks m e fs q" "q = Has2 CCollect \<Longrightarrow> at_rest path n e fs m"
  shows "fs_lost fs' = fs_lost fs"
proof (cases q)
  case (Has1 c)
  with assms(1,2) show ?thesis
    by (cases c) (auto simp: body.simps bind_eq_Some_conv split_beta length_put_line append_kept)
next
  case (Has2 c)
  with assms gc_copy_kept [of path n e fs m] show ?thesis
    by (cases c) (auto simp: body.simps bind_eq_Some_conv)
next
  case (RemIndexed k)
  have "length (remove_line k) = rec_size k []" by (simp add: length_enc rec_size_def)
  with RemIndexed assms(1,2) show ?thesis by (auto simp: body.simps bind_eq_Some_conv split_beta append_kept)
next
  case (GetFound k index)
  with assms(1) get_reads show ?thesis by blast
next
  case (GcMoved offs)
  with assms(1) show ?thesis
    by (auto simp: body.simps bind_eq_Some_conv gc_switch_def fs_rename_def fs_remove_def Let_def split: option.splits)
qed (use assms(1) in \<open>auto simp: body.simps bind_eq_Some_conv\<close>)

lemma body_returns:
  assumes inv: "conc_inv path n s m" and n: "n < 2 ^ 31" and "next_lock (c_ph s i) = None" "c_ph s i \<noteq> Idle"
    "\<nexists>r. c_ph s i = Finished r" "\<not> lacks m (c_eng s) (c_fs s) (c_ph s i)"
  shows "body (c_ph s i) (c_eng s) (c_fs s) \<noteq> None"
proof -
  have ok: "phase_ok path n (c_eng s) (c_fs s) m (c_ph s i)" using inv by (simp add: conc_inv_def)
  note w = writer_rest [OF inv, of i] and g = collector_rest(3,4) [OF inv, of i] and r = reader_rest [OF inv, of i]
  show ?thesis
  proof (cases "c_ph s i")
    case (Has1 c)
    with assms(3,6) w ok put_returns(1) [OF _ _ n] remove_returns(1) show ?thesis by (cases c) auto
  next
    case (Has2 c)
    with assms(6) r g ok get_returns(1) scan_returns(1) collect_returns(1) show ?thesis by (cases c) auto
  next
    case (PutLogged k v)
    with ok obtain fs0 where f: "nul_free k" "at_rest path n (c_eng s) fs0 m"
      "body (Has1 (CPut k v)) (c_eng s) fs0 = Some (PutLogged k v, c_eng s, c_fs s)" by auto
    from put_returns(2) [OF f(2,1) n put_logs(6) [OF f(2,3) not_lost [OF inv]] f(3)] show ?thesis by (simp add: PutLogged)
  next
    case (RemIndexed k)
    with ok obtain e0 where "at_rest path n e0 (c_fs s) m"
      "body (Has1 (CRemove k)) e0 (c_fs s) = Some (RemIndexed k, c_eng s, c_fs s)" by auto
    from remove_returns(2) [OF this] assms(6) show ?thesis by (simp add: RemIndexed)
  next
    case (GetFound k index)
    with r ok get_returns(2) show ?thesis by auto
  next
    case (ScanFound lower upper hot idx)
    with r ok assms(6) scan_returns(2) show ?thesis by auto
  next
    case (GcReady c offs)
    with ok collect_returns(2) not_lost [OF inv] show ?thesis by auto
  next
    case (GcMoved offs)
    with ok collect_returns(3) not_lost [OF inv] show ?thesis by auto
  next
    case (Called c)
    with assms(3) ok show ?thesis by (cases c) auto
  qed (use assms(3-5) in auto)
qed


section \<open>Progress\<close>

definition can_step :: "cstate \<Rightarrow> nat \<Rightarrow> bool" where
  "can_step s i \<longleftrightarrow> (\<exists>ev s'. cstep s ev s' \<and> (c_ph s' i, c_held s' i) \<noteq> (c_ph s i, c_held s i))"

lemma body_changes:
  assumes "body q e fs = Some (p, e', fs')"
  shows "p \<noteq> q"
proof (cases q)
  case (Has1 c)
  with assms show ?thesis by (cases c) (auto simp: body.simps bind_eq_Some_conv split_beta split: if_splits)
next
  case (Has2 c)
  with assms show ?thesis by (cases c) (auto simp: body.simps bind_eq_Some_conv split: if_splits)
next
  case (GetFound k index)
  with assms get_reads show ?thesis by fastforce
qed (use assms in \<open>auto simp: body.simps bind_eq_Some_conv split_beta\<close>)

lemma next_lock_rank:
  "next_lock q = Some ((l, a), p) \<Longrightarrow> (l', b) \<in> set (locks_of q) \<Longrightarrow> rank l' < rank l"
  by (induction q rule: next_lock.induct) auto

lemma not_waiting_steps:
  assumes "conc_inv path n s m" "n < 2 ^ 31" "next_lock (c_ph s i) = None" "c_ph s i \<noteq> Idle"
  shows "lacks m (c_eng s) (c_fs s) (c_ph s i) \<or> can_step s i"
proof (cases "\<exists>r. c_ph s i = Finished r")
  case True
  then obtain r where r: "c_ph s i = Finished r" by blast
  show ?thesis
  proof (cases "c_held s i")
    case Nil
    from cstep.return [OF r Nil] r show ?thesis unfolding can_step_def by fastforce
  next
    case (Cons h hs)
    from cstep.unlock [OF r Cons] Cons show ?thesis unfolding can_step_def by fastforce
  qed
next
  case False
  from body_returns [OF assms False] obtain p e fs where
    b: "\<not> lacks m (c_eng s) (c_fs s) (c_ph s i) \<Longrightarrow> body (c_ph s i) (c_eng s) (c_fs s) = Some (p, e, fs)" by fastforce
  show ?thesis
  proof (cases "lacks m (c_eng s) (c_fs s) (c_ph s i)")
    case False
    have "at_rest path n (c_eng s) (c_fs s) m" if "c_ph s i = Has2 CCollect"
      using collector_rest(4) [OF assms(1), of i] that by simp
    from body_kept [OF b [OF False] False this] not_lost [OF assms(1)] have "\<not> fs_lost fs" by simp
    from cstep.work [OF b [OF False] this] body_changes [OF b [OF False]] show ?thesis unfolding can_step_def by fastforce
  qed simp
qed

text \<open>A thread waits for a greater lock than any that it holds, so that no threads wait in a circle.\<close>

definition waits_for :: "phase \<Rightarrow> nat" where
  "waits_for q = (case next_lock q of None \<Rightarrow> 0 | Some ((l, a), p) \<Rightarrow> 3 - rank l)"

lemma holder_waits:
  assumes "conc_inv path n s m" "next_lock q = Some ((l, a), p)" "(l, b) \<in> set (c_held s j)"
  shows "waits_for (c_ph s j) < waits_for q"
proof (cases "next_lock (c_ph s j)")
  case None
  then show ?thesis using assms(2) rank_le [of l] by (simp add: waits_for_def)
next
  case (Some h)
  then obtain l' a' p' where q: "next_lock (c_ph s j) = Some ((l', a'), p')" by (cases h) auto
  have "rank l < rank l'"
    using next_lock_rank [OF q] assms(3) held_locks [OF assms(1) lock_facts(6) [OF q]] by auto
  then show ?thesis using assms(2) q rank_le [of l'] by (simp add: waits_for_def)
qed

lemma busy_steps:
  assumes inv: "conc_inv path n s m" and n: "n < 2 ^ 31" and "c_ph s i \<noteq> Idle"
  shows "\<exists>j. c_ph s j \<noteq> Idle \<and> (lacks m (c_eng s) (c_fs s) (c_ph s j) \<or> can_step s j)"
  using assms(3)
proof (induction "waits_for (c_ph s i)" arbitrary: i rule: less_induct)
  case less
  show ?case
  proof (cases "next_lock (c_ph s i)")
    case None
    from not_waiting_steps [OF inv n None less.prems] less.prems show ?thesis by blast
  next
    case (Some h)
    then obtain l a p where q: "next_lock (c_ph s i) = Some ((l, a), p)" by (cases h) auto
    show ?thesis
    proof (cases "\<forall>j. j \<noteq> i \<longrightarrow> compatible l a (c_held s j)")
      case True
      from cstep.lock [OF q True] have "can_step s i" unfolding can_step_def by fastforce
      with less.prems show ?thesis by blast
    next
      case False
      then obtain j b where j: "(l, b) \<in> set (c_held s j)" by (auto simp: compatible_def)
      then have "c_ph s j \<noteq> Idle" using held_locks [OF inv, of j] by auto
      with less.hyps [OF holder_waits [OF inv q j]] show ?thesis .
    qed
  qed
qed

text \<open>
  C10. Progress: whenever some thread is inside an operation, a thread that is inside an operation can
  take its next step, unless it is one that the disk has no room for or that has no log to read:
  no deadlock, no lost wake-up and no step that does not return.  (Under the conditions of C2.)
\<close>
theorem engine_progress:
  assumes "cexec path n tr s" "keys_ok tr" "n < 2 ^ 31" "c_ph s i \<noteq> Idle"
  shows "\<exists>m st j. aexec tr m st \<and> (\<forall>i. st i = status_of (c_ph s i)) \<and> c_ph s j \<noteq> Idle \<and>
    (lacks m (c_eng s) (c_fs s) (c_ph s j) \<or> can_step s j)"
proof -
  from cexec_inv [OF assms(1-3)] obtain m where m: "conc_inv path n s m" "aexec tr m (\<lambda>i. status_of (c_ph s i))"
    by blast
  from busy_steps [OF m(1) assms(3,4)] m(2) show ?thesis by blast
qed

theorem engine_progress_witness:
  "\<exists>m st j. aexec [Call 0 (CGet ''k''), Call 1 (CPut ''k'' ''v'')] m st \<and> both_called j \<noteq> Idle \<and>
    (lacks m new_engine (new_fs 100) (both_called j) \<or>
     can_step \<lparr>c_eng = new_engine, c_fs = new_fs 100, c_ph = both_called, c_held = (\<lambda>i. [])\<rparr> j)"
proof -
  have "keys_ok [Call 0 (CGet ''k''), Call 1 (CPut ''k'' ''v'')]" by (simp add: keys_ok_def nul_free_def)
  moreover have "both_called 0 \<noteq> Idle" by (simp add: both_called_def)
  ultimately show ?thesis using engine_progress [OF both_call, of 0] by (simp, blast)
qed

end
