(* ===== verification/Engine_Crash.thy ===== *)
theory Engine_Crash
  imports Engine_Props Engine_Live
begin

text \<open>A crash during a garbage collection, at every point of it.\<close>

text \<open>The file system when the program is killed after \<open>n\<close> bytes of the new log.\<close>

definition cut_new_log :: "string \<Rightarrow> nat \<Rightarrow> fsys \<Rightarrow> fsys" where
  "cut_new_log name n fs = fs\<lparr>fs_files := (fs_files fs)(name := map_option (take n) (fs_files fs name))\<rparr>"

lemma view_same_log: "engine_abs e fs m \<Longrightarrow> content fs' (log_filename e) = content fs (log_filename e) \<Longrightarrow> engine_abs e fs' m"
  by (simp add: engine_view_def)

lemma copied_rest:
  assumes "engine_abs e fs m" "log_filename e = path @ ''/log''" "content fs (path @ ''/log(1)'') = []"
    and "gc_copy e fs = Some (c, offs, fs2)" "\<not> fs_lost fs2"
  shows "engine_abs e fs2 m" "\<exists>s. fs_files fs (log_filename e) = Some s" "fs_writable fs" "live_size m \<le> fs_free fs"
proof -
  show w: "fs_writable fs" using assms(4) by (auto simp: gc_copy_def Let_def bind_eq_Some_conv fopen_a_def split: if_splits)
  let ?n = "fs_free fs + length (content fs (path @ ''/log'')) + length (content fs (path @ ''/log(1)''))"
  have "at_rest path ?n e fs m" using assms(1,2) w by (simp add: at_rest_def)
  from view_gc [OF this assms(3-5)] show "engine_abs e fs2 m" "\<exists>s. fs_files fs (log_filename e) = Some s"
    "live_size m \<le> fs_free fs" by (simp_all add: at_rest_def)
qed

text \<open>
  C9. A crash during a collection that began without a new log of an earlier one and that the disk has
  room for: killed while the new log is written, at any byte, or after the logs were switched, the
  next start has the same map; killed between \<^verbatim>\<open>std::remove\<close> and \<^verbatim>\<open>std::rename\<close>, the next start finds no
  log and has no key at all.  (In the first case the part of the new log stays behind; what the next
  collection then does is \<open>C35\<close>.)
\<close>
theorem collection_crash:
  assumes "engine_abs e fs m" "log_filename e = path @ ''/log''" "content fs (path @ ''/log(1)'') = []"
    and "gc_copy e fs = Some (c, offs, fs2)" "\<not> fs_lost fs2"
  shows "(\<forall>n. \<exists>e'. Engine_ctor path (cut_new_log (path @ ''/log(1)'') n fs2) = Some e' \<and>
      engine_abs e' (cut_new_log (path @ ''/log(1)'') n fs2) m) \<and>
    (\<exists>e'. Engine_ctor path (fs_remove (path @ ''/log'') fs2) = Some e' \<and> engine_abs e' (fs_remove (path @ ''/log'') fs2) Map.empty) \<and>
    (\<exists>e'. Engine_ctor path (fs_rename (path @ ''/log(1)'') (path @ ''/log'') (fs_remove (path @ ''/log'') fs2)) = Some e' \<and>
      engine_abs e' (fs_rename (path @ ''/log(1)'') (path @ ''/log'') (fs_remove (path @ ''/log'') fs2)) m)"
proof (intro conjI allI)
  note r = copied_rest [OF assms]
  fix n
  have "content (cut_new_log (path @ ''/log(1)'') n fs2) (log_filename e) = content fs2 (log_filename e)"
    by (simp add: cut_new_log_def content_def assms(2))
  from ctor_view [OF view_same_log [OF r(1) this] assms(2)]
  show "\<exists>e'. Engine_ctor path (cut_new_log (path @ ''/log(1)'') n fs2) = Some e' \<and>
      engine_abs e' (cut_new_log (path @ ''/log(1)'') n fs2) m" by blast
next
  show "\<exists>e'. Engine_ctor path (fs_remove (path @ ''/log'') fs2) = Some e' \<and> engine_abs e' (fs_remove (path @ ''/log'') fs2) Map.empty"
    by (rule ctor_no_log) simp
next
  note r = copied_rest [OF assms]
  from r(2) obtain s where s: "fs_files fs (log_filename e) = Some s" by blast
  have "content fs (log_filename e @ ''(1)'') = []" using assms(2,3) by simp
  from Engine_gc_correct [OF assms(1) s this r(3,4)] obtain e' fs' where
    g: "Engine_gc e fs = Some (e', fs')" "log_filename e' = log_filename e" "engine_abs e' fs' m" by blast
  from g(1) have "fs' = fs_rename (path @ ''/log(1)'') (path @ ''/log'') (fs_remove (path @ ''/log'') fs2)"
    by (auto simp: Engine_gc_def gc_move_def gc_switch_def bind_eq_Some_conv assms(2,4) Let_def split_beta)
  with ctor_view [OF g(3)] g(2) assms(2)
  show "\<exists>e'. Engine_ctor path (fs_rename (path @ ''/log(1)'') (path @ ''/log'') (fs_remove (path @ ''/log'') fs2)) = Some e' \<and>
      engine_abs e' (fs_rename (path @ ''/log(1)'') (path @ ''/log'') (fs_remove (path @ ''/log'') fs2)) m" by auto
qed

theorem collection_crash_witness:
  "\<exists>e fs c offs fs2 e'. engine_abs e fs [''a'' \<mapsto> ''1''] \<and> gc_copy e fs = Some (c, offs, fs2) \<and>
    Engine_ctor ''d'' (cut_new_log ''d/log(1)'' 7 fs2) = Some e' \<and>
    engine_abs e' (cut_new_log ''d/log(1)'' 7 fs2) [''a'' \<mapsto> ''1'']"
proof -
  obtain e fs where s: "engine_abs e fs [''a'' \<mapsto> ''1'']" "content fs (log_filename e @ ''(1)'') = []"
    "fs_writable fs" "900 \<le> fs_free fs" "\<exists>s. fs_files fs (log_filename e) = Some s" "log_filename e = ''d/log''" by (metis sample_store)
  let ?fs = "fs\<lparr>fs_lost := False\<rparr>"
  have a: "engine_abs e ?fs [''a'' \<mapsto> ''1'']" using engine_abs_files [OF s(1), of ?fs] by simp
  from s(5) obtain str where f: "fs_files ?fs (log_filename e) = Some str" by auto
  have l: "live_size [''a'' \<mapsto> ''1''] \<le> fs_free ?fs" using s(4) by (simp add: live_size_def rec_size_def)
  have c1: "content ?fs (log_filename e @ ''(1)'') = []" "fs_writable ?fs" using s(2,3) by simp_all
  from Engine_gc_correct [OF a f c1 l] obtain c offs fs2 where g: "gc_copy e ?fs = Some (c, offs, fs2)"
    by (auto simp: Engine_gc_def bind_eq_Some_conv)
  have "at_rest ''d'' (fs_free ?fs + length (content ?fs ''d/log'') + length (content ?fs ''d/log(1)'')) e ?fs [''a'' \<mapsto> ''1'']"
    using a s(3,6) by (simp add: at_rest_def)
  from gc_copy_kept [OF this g l] have "\<not> fs_lost fs2" by simp
  from collection_crash [OF a _ _ g this, of "''d''"] s(2,6) have
    "\<forall>n. \<exists>e'. Engine_ctor ''d'' (cut_new_log ''d/log(1)'' n fs2) = Some e' \<and>
      engine_abs e' (cut_new_log ''d/log(1)'' n fs2) [''a'' \<mapsto> ''1'']" by simp
  from this [rule_format, of 7] a g show ?thesis by blast
qed

end
