(* ===== verification/Executor.thy ===== *)
theory Executor
  imports Engine_Store
begin

text \<open>
  The executors of \<^verbatim>\<open>include/util/executor.h\<close> over the interface of \<^verbatim>\<open>interfaces.h\<close>: they run a
  list of test cases, and the validating ones check each answer against a \<^verbatim>\<open>std::map\<close>.  A failed
  \<^verbatim>\<open>CHECK\<close> and \<^verbatim>\<open>LOG(FATAL)\<close> are \<open>None\<close>.
\<close>

section \<open>Test cases and the interface\<close>

datatype Op = kPut | kDelete | kGet | kSync | kGc | kSnapshot | kVisit | kNoOp

record test_case =
  tc_op :: Op
  tc_key :: string
  tc_value :: string
  tc_lower :: string
  tc_upper :: string

text \<open>
  \<^verbatim>\<open>IEngine\<close>: its virtual functions on a state \<open>'e\<close>.  A snapshot is there or null.  The state of
  a visitor is the count of the validator, or \<open>None\<close> after it aborted.
\<close>

type_synonym counter = "nat option"

record 'e iengine =
  ie_put :: "string \<Rightarrow> string \<Rightarrow> 'e \<Rightarrow> (RetCode \<times> 'e) option"
  ie_remove :: "string \<Rightarrow> 'e \<Rightarrow> (RetCode \<times> 'e) option"
  ie_get :: "string \<Rightarrow> string \<Rightarrow> 'e \<Rightarrow> (RetCode \<times> string) option"
  ie_visit :: "string \<Rightarrow> string \<Rightarrow> (string \<Rightarrow> string \<Rightarrow> counter \<Rightarrow> counter) \<Rightarrow> counter \<Rightarrow> 'e \<Rightarrow>
    (RetCode \<times> counter) option"
  ie_sync :: "'e \<Rightarrow> (RetCode \<times> 'e) option"
  ie_gc :: "'e \<Rightarrow> (RetCode \<times> 'e) option"
  ie_snapshot :: "'e \<Rightarrow> bool"

definition check :: "bool \<Rightarrow> unit option" where
  "check b = (if b then Some () else None)"

lemma check_simps [simp]: "check True = Some ()" "check False = None"
  by (simp_all add: check_def)

section \<open>\<^verbatim>\<open>std::map\<close>\<close>

text \<open>A \<^verbatim>\<open>std::map\<close> is a list of entries sorted by key; iterators are positions.\<close>

type_synonym omap = "(string \<times> string) list"

fun om_put :: "'k::linorder \<Rightarrow> 'v \<Rightarrow> ('k \<times> 'v) list \<Rightarrow> ('k \<times> 'v) list" where
  "om_put k v [] = [(k, v)]"
| "om_put k v ((k', v') # xs) =
     (if k < k' then (k, v) # (k', v') # xs
      else if k = k' then (k, v) # xs
      else (k', v') # om_put k v xs)"

definition om_erase :: "'k \<Rightarrow> ('k \<times> 'v) list \<Rightarrow> ('k \<times> 'v) list" where
  "om_erase k xs = filter (\<lambda>x. fst x \<noteq> k) xs"

definition om_lower_bound :: "'k::linorder \<Rightarrow> ('k \<times> 'v) list \<Rightarrow> nat" where
  "om_lower_bound k xs = length (takeWhile (\<lambda>x. fst x < k) xs)"

definition om_upper_bound :: "'k::linorder \<Rightarrow> ('k \<times> 'v) list \<Rightarrow> nat" where
  "om_upper_bound k xs = length (takeWhile (\<lambda>x. fst x \<le> k) xs)"

definition om_ok :: "('k::linorder \<times> 'v) list \<Rightarrow> bool" where
  "om_ok xs \<longleftrightarrow> sorted_wrt (<) (map fst xs)"

section \<open>Validating single operations\<close>

definition validate_get :: "omap \<Rightarrow> 'e iengine \<Rightarrow> test_case \<Rightarrow> 'e \<Rightarrow> unit option" where
  "validate_get kv en c e = (case map_of kv (tc_key c) of
       Some x \<Rightarrow> do {
         (r, v) \<leftarrow> ie_get en (tc_key c) [] e;
         check (r = kSucc);
         check (v = x) }
     | None \<Rightarrow> do {
         (r, v) \<leftarrow> ie_get en (tc_key c) [] e;
         check (r = kNotFound);
         check (v = []) })"

definition validate_put :: "omap \<Rightarrow> 'e iengine \<Rightarrow> test_case \<Rightarrow> 'e \<Rightarrow> (omap \<times> 'e) option" where
  "validate_put kv en c e = do {
     (r, e) \<leftarrow> ie_put en (tc_key c) (tc_value c) e;
     check (r = kSucc);
     Some (om_put (tc_key c) (tc_value c) kv, e) }"

definition validate_delete :: "omap \<Rightarrow> 'e iengine \<Rightarrow> test_case \<Rightarrow> 'e \<Rightarrow> (omap \<times> 'e) option" where
  "validate_delete kv en c e = (case map_of kv (tc_key c) of
       Some x \<Rightarrow> do {
         (r, e) \<leftarrow> ie_remove en (tc_key c) e;
         check (r = kSucc);
         Some (om_erase (tc_key c) kv, e) }
     | None \<Rightarrow> do {
         (r, e) \<leftarrow> ie_remove en (tc_key c) e;
         check (r = kNotFound);
         Some (kv, e) })"

definition count_visitor :: "omap \<Rightarrow> string \<Rightarrow> string \<Rightarrow> counter \<Rightarrow> counter" where
  "count_visitor kv k v got = (case got of None \<Rightarrow> None
     | Some g \<Rightarrow> (if map_of kv k = Some v then Some (g + 1) else None))"

text \<open>
  \<^verbatim>\<open>std::distance\<close> walks from the first iterator to the second, which must not be before it.
\<close>

definition validate_visit :: "omap \<Rightarrow> 'e iengine \<Rightarrow> test_case \<Rightarrow> 'e \<Rightarrow> unit option" where
  "validate_visit kv en c e = do {
     (r, got) \<leftarrow> ie_visit en (tc_lower c) (tc_upper c) (count_visitor kv) (Some 0) e;
     got \<leftarrow> got;
     check (r = kSucc);
     let beg_it = (if tc_lower c = [] then 0 else om_lower_bound (tc_lower c) kv);
     let end_it = (if tc_upper c = [] then length kv else om_upper_bound (tc_upper c) kv);
     check (beg_it \<le> end_it);
     check (end_it - beg_it = got) }"

text \<open>The numbers of the return codes, which \<^verbatim>\<open>CHECK\<close> takes for a truth value.\<close>

primrec ret_num :: "RetCode \<Rightarrow> int" where
  "ret_num kSucc = 0"
| "ret_num kNotFound = 1"
| "ret_num kCorruption = 2"
| "ret_num kNotSupported = 3"
| "ret_num kInvalidArgument = 4"
| "ret_num kIOError = 5"
| "ret_num kIncomplete = 6"
| "ret_num kTimedOut = 7"
| "ret_num kFull = 8"
| "ret_num kOutOfMemory = 9"

section \<open>Running test cases\<close>

text \<open>\<^verbatim>\<open>SnapshotValidator::validate_execute\<close>\<close>

fun snapshot_validate :: "omap \<Rightarrow> 'e iengine \<Rightarrow> test_case list \<Rightarrow> 'e \<Rightarrow> unit option" where
  "snapshot_validate kv en [] e = Some ()"
| "snapshot_validate kv en (c # cs) e = do {
     (case tc_op c of
        kGet \<Rightarrow> validate_get kv en c e
      | kVisit \<Rightarrow> validate_visit kv en c e
      | kNoOp \<Rightarrow> Some ()
      | _ \<Rightarrow> None);
     snapshot_validate kv en cs e }"

text \<open>\<^verbatim>\<open>EngineValidator::execute\<close>, one case and the loop; the end wraps around as a \<^verbatim>\<open>size_t\<close>.\<close>

definition execute_case :: "'e iengine \<Rightarrow> test_case \<Rightarrow> 'e \<Rightarrow> 'e option" where
  "execute_case en c e = (case tc_op c of
       kPut \<Rightarrow> do { (r, e) \<leftarrow> ie_put en (tc_key c) (tc_value c) e; check (r = kSucc); Some e }
     | kDelete \<Rightarrow> do { (r, e) \<leftarrow> ie_remove en (tc_key c) e; check (r = kSucc \<or> r = kNotFound); Some e }
     | kGet \<Rightarrow> do { (r, v) \<leftarrow> ie_get en (tc_key c) [] e; check (r = kSucc \<or> r = kNotFound); Some e }
     | kGc \<Rightarrow> do { (r, e) \<leftarrow> ie_gc en e; check (r = kSucc); Some e }
     | kSnapshot \<Rightarrow> do { check (ie_snapshot en e); Some e }
     | kSync \<Rightarrow> do { (r, e) \<leftarrow> ie_sync en e; check (r = kSucc); Some e }
     | kVisit \<Rightarrow> do { (r, u) \<leftarrow> ie_visit en (tc_lower c) (tc_upper c) (\<lambda>k v u. u) (Some 0) e; Some e }
     | kNoOp \<Rightarrow> Some e)"

definition execute_tests :: "'e iengine \<Rightarrow> test_case list \<Rightarrow> 64 word \<Rightarrow> 64 word \<Rightarrow> 'e \<Rightarrow> 'e option" where
  "execute_tests en bench from_idx limit e =
     for_up (unat from_idx) (min (length bench) (unat (from_idx + limit)))
       (\<lambda>i e. do { c \<leftarrow> at bench i; execute_case en c e }) e"

text \<open>
  \<^verbatim>\<open>EngineValidator::validate_execute\<close>.  Its \<^verbatim>\<open>CHECK(engine_->sync())\<close> is on the number of the
  return code.
\<close>

definition validate_case :: "'e iengine \<Rightarrow> test_case \<Rightarrow> omap \<times> 'e \<Rightarrow> (omap \<times> 'e) option" where
  "validate_case en c s = (let (kv, e) = s in case tc_op c of
       kPut \<Rightarrow> validate_put kv en c e
     | kDelete \<Rightarrow> validate_delete kv en c e
     | kGet \<Rightarrow> do { validate_get kv en c e; Some (kv, e) }
     | kGc \<Rightarrow> do { (r, e) \<leftarrow> ie_gc en e; check (r = kSucc); Some (kv, e) }
     | kSnapshot \<Rightarrow> do { check (ie_snapshot en e); Some (kv, e) }
     | kSync \<Rightarrow> do { (r, e) \<leftarrow> ie_sync en e; check (ret_num r \<noteq> 0); Some (kv, e) }
     | kVisit \<Rightarrow> do { validate_visit kv en c e; Some (kv, e) }
     | kNoOp \<Rightarrow> Some (kv, e))"

fun validate_execute :: "'e iengine \<Rightarrow> test_case list \<Rightarrow> omap \<times> 'e \<Rightarrow> (omap \<times> 'e) option" where
  "validate_execute en [] s = Some s"
| "validate_execute en (c # cs) s = do { s \<leftarrow> validate_case en c s; validate_execute en cs s }"

text \<open>
  The constructors, which begin with an empty or a given map, \<^verbatim>\<open>get_internal_kv\<close>, and
  \<^verbatim>\<open>snapshot_validator\<close>, which hands the map to a validator of a snapshot that must not be null.
\<close>

definition EngineValidator :: "'e \<Rightarrow> omap \<times> 'e" where
  "EngineValidator engine = ([], engine)"

definition EngineValidator_kv :: "'e \<Rightarrow> omap \<Rightarrow> omap \<times> 'e" where
  "EngineValidator_kv engine kv = (kv, engine)"

definition get_internal_kv :: "omap \<times> 'e \<Rightarrow> omap" where
  "get_internal_kv s = fst s"

definition snapshot_validator :: "'e iengine \<Rightarrow> omap \<times> 'e \<Rightarrow> omap option" where
  "snapshot_validator en s = (let (kv, e) = s in do { check (ie_snapshot en e); Some kv })"

section \<open>The engine behind the interface\<close>

definition engine_iface :: "store iengine" where
  "engine_iface = \<lparr>
     ie_put = (\<lambda>k v s. do { (r, e, fs) \<leftarrow> Engine_put k v (fst s) (snd s); Some (r, e, fs) }),
     ie_remove = (\<lambda>k s. do { (r, e, fs) \<leftarrow> Engine_remove k (fst s) (snd s); Some (r, e, fs) }),
     ie_get = (\<lambda>k v s. Engine_get k v (fst s) (snd s)),
     ie_visit = (\<lambda>lower upper visitor u s. Engine_visit lower upper visitor u (fst s) (snd s)),
     ie_sync = (\<lambda>s. do { (r, e, fs) \<leftarrow> Engine_sync (fst s) (snd s); Some (r, e, fs) }),
     ie_gc = (\<lambda>s. do { (r, e, fs) \<leftarrow> Engine_garbage_collect (fst s) (snd s); Some (r, e, fs) }),
     ie_snapshot = (\<lambda>s. Engine_snapshot (fst s) \<noteq> nullptr)\<rparr>"

section \<open>The map of the validator\<close>

lemma om_put_keys: "fst ` set (om_put k v xs) = insert k (fst ` set xs)"
  by (induction k v xs rule: om_put.induct) auto

lemma om_put_ok: "om_ok xs \<Longrightarrow> om_ok (om_put k v xs)"
proof (induction k v xs rule: om_put.induct)
  case (2 k v k' v' xs)
  then show ?case using om_put_keys [of k v xs] by (fastforce simp: om_ok_def)
qed (simp add: om_ok_def)

lemma map_of_om_put: "om_ok xs \<Longrightarrow> map_of (om_put k v xs) = (map_of xs)(k \<mapsto> v)"
proof (induction k v xs rule: om_put.induct)
  case (2 k v k' v' xs)
  then show ?case by (auto simp: om_ok_def fun_eq_iff)
qed simp

lemma om_erase_ok: "om_ok xs \<Longrightarrow> om_ok (om_erase k xs)"
  by (simp add: om_ok_def om_erase_def sorted_wrt_map sorted_wrt_filter)

lemma map_of_om_erase: "map_of (om_erase k xs) = (map_of xs)(k := None)"
  by (induction xs) (auto simp: om_erase_def fun_eq_iff)

lemma takeWhile_less_sorted:
  "sorted_wrt (<) (map fst xs) \<Longrightarrow> takeWhile (\<lambda>x. fst x < b) xs = filter (\<lambda>x. fst x < (b :: 'a::linorder)) xs"
proof (induction xs)
  case (Cons x xs)
  then have "filter (\<lambda>x. fst x < b) xs = []" if "\<not> fst x < b"
    using that by (fastforce simp: filter_empty_conv)
  with Cons show ?case by simp
qed simp

lemma om_range:
  assumes "om_ok xs" "lower \<le> upper"
  shows "om_lower_bound lower xs \<le> om_upper_bound upper xs"
    "om_upper_bound upper xs - om_lower_bound lower xs = length (keys_in (map_of xs) lower upper)"
proof -
  have s: "sorted_wrt (<) (map fst xs)" using assms(1) by (simp add: om_ok_def)
  have "length (filter (\<lambda>x. fst x \<le> upper) xs) =
      length (filter (\<lambda>x. fst x < lower) xs) + length (filter (\<lambda>x. lower \<le> fst x \<and> fst x \<le> upper) xs)"
    using assms(2) by (induction xs) auto
  moreover have "length (keys_in (map_of xs) lower upper) = length (filter (\<lambda>x. lower \<le> fst x \<and> fst x \<le> upper) xs)"
    by (subst keys_in_entries [OF s]) (simp_all add: dom_map_of_conv_image_fst)
  ultimately show "om_lower_bound lower xs \<le> om_upper_bound upper xs"
    "om_upper_bound upper xs - om_lower_bound lower xs = length (keys_in (map_of xs) lower upper)"
    using s by (simp_all add: om_lower_bound_def om_upper_bound_def takeWhile_less_sorted takeWhile_filter_sorted)
qed

lemma om_lower_bound_Nil: "om_lower_bound ([] :: string) xs = 0"
  by (cases xs) (simp_all add: om_lower_bound_def)

lemma count_visitor_fold:
  "\<forall>k\<in>set ks. map_of kv k = Some (f k) \<Longrightarrow>
   fold (\<lambda>k. count_visitor kv k (f k)) ks (Some g) = Some (g + length ks)"
  by (induction ks arbitrary: g) (simp_all add: count_visitor_def)

section \<open>The validator on the engine\<close>

text \<open>
  The call a test case makes, and what it asks for: no \<^verbatim>\<open>sync\<close> and no snapshot, a visit of a range
  that is in order and has an upper end.
\<close>

definition test_call :: "test_case \<Rightarrow> kv_call" where
  "test_call c = (case tc_op c of
       kPut \<Rightarrow> CPut (tc_key c) (tc_value c)
     | kDelete \<Rightarrow> CRemove (tc_key c)
     | kGc \<Rightarrow> CCollect
     | kVisit \<Rightarrow> CScan (tc_lower c) (tc_upper c)
     | _ \<Rightarrow> CGet (tc_key c))"

definition test_pre :: "test_case \<Rightarrow> (string \<rightharpoonup> string) \<Rightarrow> nat \<Rightarrow> bool" where
  "test_pre c m n \<longleftrightarrow> tc_op c \<noteq> kSync \<and> tc_op c \<noteq> kSnapshot \<and> call_pre (test_call c) m n \<and>
     (tc_op c = kVisit \<longrightarrow> tc_upper c \<noteq> [] \<and> tc_lower c \<le> tc_upper c)"

fun tests_pre :: "test_case list \<Rightarrow> (string \<rightharpoonup> string) \<Rightarrow> nat \<Rightarrow> bool" where
  "tests_pre [] m n = True"
| "tests_pre (c # cs) m n = (test_pre c m n \<and>
     tests_pre cs (snd (map_call (test_call c) m)) (n - call_size (test_call c) m))"

lemma iface_visit:
  assumes "store_holds path s (map_of kv) n" "map_of kv \<noteq> Map.empty" "om_ok kv" "upper \<noteq> []" "lower \<le> upper"
  shows "ie_visit engine_iface lower upper (count_visitor kv) (Some 0) s =
    Some (kSucc, Some (om_upper_bound upper kv - om_lower_bound lower kv))"
proof -
  have v: "engine_abs (fst s) (snd s) (map_of kv)" using assms(1) unfolding store_holds_def Let_def by blast
  from view_file [OF v assms(2)] obtain str where f: "fs_files (snd s) (log_filename (fst s)) = Some str" by blast
  have "finite {k \<in> dom (map_of kv). lower \<le> k \<and> k \<le> upper}" 
    using finite_dom_map_of [of kv] by (rule rev_finite_subset) auto
  then have "\<forall>k\<in>set (keys_in (map_of kv) lower upper). map_of kv k = Some (the (map_of kv k))"
    by (auto simp: keys_in_def)
  from count_visitor_fold [OF this, of 0] Engine_visit_correct [OF v f, of lower upper "count_visitor kv" "Some 0"]
    om_range(2) [OF assms(3,5)] show ?thesis
    by (simp add: engine_iface_def)
qed

text \<open>
  A visit without an upper end: the validator counts all keys from \<open>lower\<close> on, but the engine takes the
  empty \<open>upper\<close> for a bound, so that the \<^verbatim>\<open>CHECK\<close> fails if there is such a key that is not empty.
\<close>

lemma open_visit_fails:
  assumes "store_holds path s (map_of kv) n" "om_ok kv" "map_of kv k = Some v" "k \<noteq> []" "tc_lower c \<le> k" "tc_upper c = []"
  shows "validate_visit kv engine_iface c s = None"
proof -
  let ?m = "map_of kv" and ?lower = "tc_lower c"
  have srt: "sorted_wrt (<) (map fst kv)" using assms(2) by (simp add: om_ok_def)
  have e: "engine_abs (fst s) (snd s) ?m" using assms(1) unfolding store_holds_def Let_def by blast
  have "?m \<noteq> Map.empty" using assms(3) by auto
  from view_file [OF e this] obtain str where f: "fs_files (snd s) (log_filename (fst s)) = Some str" by blast
  have "finite {k \<in> dom ?m. ?lower \<le> k \<and> k \<le> []}" using finite_dom_map_of [of kv] by (rule rev_finite_subset) auto
  then have "\<forall>k\<in>set (keys_in ?m ?lower []). ?m k = Some (the (?m k))" by (auto simp: keys_in_def)
  from count_visitor_fold [OF this, of 0] Engine_visit_correct [OF e f, of ?lower "[]" "count_visitor kv" "Some 0"]
  have got: "ie_visit engine_iface ?lower [] (count_visitor kv) (Some 0) s = Some (kSucc, Some (length (keys_in ?m ?lower [])))"
    by (simp add: engine_iface_def)
  let ?from = "filter (\<lambda>x. ?lower \<le> fst x) kv"
  have "length (keys_in ?m ?lower []) = length (filter (\<lambda>x. fst x \<le> []) ?from)"
    by (subst keys_in_entries [OF srt]) (simp_all add: dom_map_of_conv_image_fst conj_commute)
  moreover have "(k, v) \<in> set ?from" using map_of_SomeD [OF assms(3)] assms(5) by simp
  then have "length (filter (\<lambda>x. fst x \<le> []) ?from) < length ?from"
    using assms(4) by (rule_tac length_filter_less) auto
  moreover have "length kv - om_lower_bound ?lower kv = length ?from"
    using sum_length_filter_compl [of "\<lambda>x. fst x < ?lower" kv] srt
    by (simp add: om_lower_bound_def takeWhile_less_sorted not_less)
  moreover have "(if ?lower = [] then 0 else om_lower_bound ?lower kv) = om_lower_bound ?lower kv"
    by (simp add: om_lower_bound_Nil)
  ultimately show ?thesis using got assms(6) by (simp add: validate_visit_def check_def Let_def)
qed

lemma validate_case_ok:
  assumes "store_holds path s (map_of kv) n" "om_ok kv" "test_pre c (map_of kv) n"
  shows "\<exists>kv' s'. validate_case engine_iface c (kv, s) = Some (kv', s') \<and> om_ok kv' \<and>
    map_of kv' = snd (map_call (test_call c) (map_of kv)) \<and>
    store_holds path s' (map_of kv') (n - call_size (test_call c) (map_of kv))"
proof -
  have p: "call_pre (test_call c) (map_of kv) n" using assms(3) by (simp add: test_pre_def)
  from ekv.step_map [OF assms(1) p] obtain s' where
    s': "engine_call path (test_call c) s = Some (fst (map_call (test_call c) (map_of kv)), s')"
    "store_holds path s' (snd (map_call (test_call c) (map_of kv))) (n - call_size (test_call c) (map_of kv))" by blast
  show ?thesis
  proof (cases "tc_op c")
    case kPut
    with s'(1) have "ie_put engine_iface (tc_key c) (tc_value c) s = Some (kSucc, s')"
      by (auto simp: test_call_def engine_iface_def bind_eq_Some_conv)
    with kPut s'(2) assms(2) show ?thesis
      by (simp add: validate_case_def validate_put_def test_call_def om_put_ok map_of_om_put del: fun_upd_apply)
  next
    case kDelete
    with s'(1) have "ie_remove engine_iface (tc_key c) s =
        Some (if map_of kv (tc_key c) = None then kNotFound else kSucc, s')"
      by (auto simp: test_call_def engine_iface_def bind_eq_Some_conv)
    with kDelete s'(2) assms(2) show ?thesis
      by (cases "map_of kv (tc_key c)") (simp_all add: validate_case_def validate_delete_def test_call_def
          om_erase_ok map_of_om_erase fun_upd_idem del: fun_upd_apply)
  next
    case kGet
    with s'(1) have "ie_get engine_iface (tc_key c) [] s = (case map_of kv (tc_key c) of
        None \<Rightarrow> Some (kNotFound, []) | Some v \<Rightarrow> Some (kSucc, v))" "s' = s"
      by (auto simp: test_call_def engine_iface_def bind_eq_Some_conv split: option.splits)
    with kGet s'(2) assms(2) show ?thesis
      by (cases "map_of kv (tc_key c)") (simp_all add: validate_case_def validate_get_def test_call_def)
  next
    case kGc
    with s'(1) have "ie_gc engine_iface s = Some (kSucc, s')"
      by (auto simp: test_call_def engine_iface_def bind_eq_Some_conv)
    with kGc s'(2) assms(2) show ?thesis by (simp add: validate_case_def test_call_def)
  next
    case kVisit
    with assms(3) have v: "map_of kv \<noteq> Map.empty" "tc_upper c \<noteq> []" "tc_lower c \<le> tc_upper c"
      by (simp_all add: test_pre_def test_call_def)
    from s' kVisit have "s' = s" by (auto simp: test_call_def bind_eq_Some_conv)
    with iface_visit [OF assms(1) v(1) assms(2) v(2,3)] om_range(1) [OF assms(2) v(3)] kVisit v(2) s'(2) assms(2)
    show ?thesis by (cases s) (simp add: validate_case_def validate_visit_def test_call_def om_lower_bound_Nil)
  next
    case kNoOp
    with s' assms(2) show ?thesis by (auto simp: validate_case_def test_call_def bind_eq_Some_conv)
  qed (use assms(3) in \<open>simp_all add: test_pre_def\<close>)
qed

text \<open>The bytes a list of tests adds to the log.\<close>

fun tests_size :: "test_case list \<Rightarrow> (string \<rightharpoonup> string) \<Rightarrow> nat" where
  "tests_size [] m = 0"
| "tests_size (c # cs) m = call_size (test_call c) m + tests_size cs (snd (map_call (test_call c) m))"

lemma validate_execute_ok:
  "store_holds path s (map_of kv) n \<Longrightarrow> om_ok kv \<Longrightarrow> tests_pre cs (map_of kv) n \<Longrightarrow>
   \<exists>kv' s'. validate_execute engine_iface cs (kv, s) = Some (kv', s') \<and> om_ok kv' \<and>
     store_holds path s' (map_of kv') (n - tests_size cs (map_of kv))"
proof (induction cs arbitrary: kv s n)
  case (Cons c cs)
  then have t: "test_pre c (map_of kv) n" by simp
  from validate_case_ok [OF Cons.prems(1,2) t] obtain kv1 s1 where
    s1: "validate_case engine_iface c (kv, s) = Some (kv1, s1)" "om_ok kv1"
    "map_of kv1 = snd (map_call (test_call c) (map_of kv))"
    "store_holds path s1 (map_of kv1) (n - call_size (test_call c) (map_of kv))" by blast
  have "tests_pre cs (map_of kv1) (n - call_size (test_call c) (map_of kv))" using Cons.prems(3) s1(3) by simp
  from Cons.IH [OF s1(4,2) this] s1(1,3) show ?case by simp
qed auto

section \<open>Properties\<close>

text \<open>
  C17. The repository's own validator accepts the engine.  For test cases without \<^verbatim>\<open>sync\<close> and snapshots,
  NUL-free keys that are put, room on the disk and below 2 GB for every record and for the new log of
  a collection, visits and collections only while a key is stored, and visits with a non-empty upper end
  that is not below the lower one, no \<^verbatim>\<open>CHECK\<close> of \<^verbatim>\<open>EngineValidator::validate_execute\<close> fails, and its map is
  the engine's at the end.  (With an empty upper end, which the validator takes for the end of all keys,
  its \<^verbatim>\<open>CHECK\<close> fails: \<open>open_visit_fails\<close>.)
\<close>
theorem validator_accepts_engine:
  assumes "store_holds path s (map_of kv) n" "om_ok kv" "tests_pre cs (map_of kv) n"
  shows "\<exists>kv' s'. validate_execute engine_iface cs (kv, s) = Some (kv', s') \<and>
    engine_abs (fst s') (snd s') (map_of kv')"
proof -
  from validate_execute_ok [OF assms] obtain kv' s' where
    r: "validate_execute engine_iface cs (kv, s) = Some (kv', s')"
    "store_holds path s' (map_of kv') (n - tests_size cs (map_of kv))" by blast
  then have "engine_abs (fst s') (snd s') (map_of kv')" unfolding store_holds_def Let_def by blast
  with r(1) show ?thesis by blast
qed

definition tc :: "Op \<Rightarrow> string \<Rightarrow> string \<Rightarrow> test_case" where
  "tc oper k v = \<lparr>tc_op = oper, tc_key = k, tc_value = v, tc_lower = k, tc_upper = v\<rparr>"

theorem validator_accepts_engine_witness:
  "\<exists>e kv s'. Engine_ctor ''d'' (new_fs 1000) = Some e \<and>
    validate_execute engine_iface [tc kPut ''a'' ''1'', tc kGet ''a'' [], tc kGet ''b'' [], tc kVisit ''a'' ''z'',
      tc kDelete ''b'' [], tc kNoOp [] []] ([], (e, new_fs 1000)) = Some (kv, s')"
proof -
  from new_store [of 1000 "''d''"] obtain e where
    e: "Engine_ctor ''d'' (new_fs 1000) = Some e" "store_holds ''d'' (e, new_fs 1000) Map.empty 1000" by auto
  let ?cs = "[tc kPut ''a'' ''1'', tc kGet ''a'' [], tc kGet ''b'' [], tc kVisit ''a'' ''z'',
      tc kDelete ''b'' [], tc kNoOp [] []]"
  have ne: "[''a'' \<mapsto> ''1''] \<noteq> Map.empty" by (metis map_upd_nonempty)
  have b: "[''a'' \<mapsto> ''1''](''b'' := None) = [''a'' \<mapsto> ''1'']" by auto
  have "tests_pre ?cs Map.empty 1000"
    using ne by (simp add: tc_def test_pre_def test_call_def nul_free_def rec_size_def b less_eq_char_def del: fun_upd_apply)
  with e validator_accepts_engine [of "''d''" "(e, new_fs 1000)" "[]" 1000 ?cs] show ?thesis
    by (auto simp: om_ok_def)
qed

text \<open>
  The validator's check of \<^verbatim>\<open>sync\<close> is inverted: \<^verbatim>\<open>CHECK(engine_->sync())\<close> aborts when the
  engine returns \<^verbatim>\<open>kSucc\<close> and goes on when it returns \<^verbatim>\<open>kIOError\<close>, while \<^verbatim>\<open>execute\<close> does the
  opposite.
\<close>
theorem validator_sync_inverted:
  assumes "tc_op c = kSync" "engine_abs e fs m" "fs_writable fs"
  shows "(validate_case engine_iface c (kv, (e, fs)) = None) = fs_sync_ok fs \<and>
    (execute_case engine_iface c (e, fs) = None) = (\<not> fs_sync_ok fs)"
  using Engine_sync_correct [OF assms(2,3)] assms(1)
  by (auto simp: validate_case_def execute_case_def engine_iface_def)

theorem validator_sync_inverted_witness:
  "\<exists>e. validate_case engine_iface (tc kSync [] []) ([], (e, new_fs 1000)) = None"
proof -
  from new_store [of 1000 "''d''"] obtain e where "store_holds ''d'' (e, new_fs 1000) Map.empty 1000" by auto
  then have "engine_abs e (new_fs 1000) Map.empty" unfolding store_holds_def Let_def by auto
  from validator_sync_inverted [OF _ this, of "tc kSync [] []" "[]"] show ?thesis by (auto simp: tc_def new_fs_def)
qed

end
