(* ===== verification/Rand_Alloc.thy ===== *)
theory Rand_Alloc
  imports Executor Complex_Main
begin

text \<open>
  The random numbers of \<^verbatim>\<open>include/util/utils.h\<close> and the allocators of keys and values of
  \<^verbatim>\<open>include/util/rand_alloc.h\<close>.  The generators of the standard library and \<^verbatim>\<open>rand_r\<close> are
  parameters on a state \<open>'r\<close> of all of them.  A \<^verbatim>\<open>double\<close> is a real number, and the result of each
  operation is rounded by the parameter \<open>fl\<close>.
\<close>

text \<open>Access to a vector; the name \<open>at\<close> is also one of the library's filters.\<close>

abbreviation vat :: "'a list \<Rightarrow> nat \<Rightarrow> 'a option" where
  "vat \<equiv> KVS_Prelude.at"

section \<open>Random numbers\<close>

record 'r rng =
  draw_int :: "nat \<Rightarrow> nat \<Rightarrow> 'r \<Rightarrow> nat \<times> 'r"
  draw_dbl :: "real \<Rightarrow> real \<Rightarrow> 'r \<Rightarrow> real \<times> 'r"
  draw_r :: "'r \<Rightarrow> nat \<times> 'r"
  fl :: "real \<Rightarrow> real"

text \<open>
  \<^verbatim>\<open>std::uniform_int_distribution\<close> and \<^verbatim>\<open>std::uniform_real_distribution\<close> draw from the range they
  are given.  The upper end of the real range may be reached by rounding.
\<close>

definition rng_ok :: "'r rng \<Rightarrow> bool" where
  "rng_ok R \<longleftrightarrow> (\<forall>lo hi r. lo \<le> hi \<longrightarrow> lo \<le> fst (draw_int R lo hi r) \<and> fst (draw_int R lo hi r) \<le> hi) \<and>
     (\<forall>lo hi r. lo \<le> hi \<longrightarrow> lo \<le> fst (draw_dbl R lo hi r) \<and> fst (draw_dbl R lo hi r) \<le> hi)"

text \<open>
  The conversion of a \<^verbatim>\<open>double\<close> to \<^verbatim>\<open>size_t\<close> cuts the fraction; outside the range of \<^verbatim>\<open>size_t\<close> it
  is undefined.
\<close>

definition to_size :: "real \<Rightarrow> nat option" where
  "to_size x = (if 0 \<le> x \<and> x < 18446744073709551616 then Some (nat \<lfloor>x\<rfloor>) else None)"

definition probability_yes :: "'r rng \<Rightarrow> real \<Rightarrow> 'r \<Rightarrow> (bool \<times> 'r) option" where
  "probability_yes R prob r = do {
     let (x, r) = draw_int R 0 999 r;
     okay \<leftarrow> to_size (fl R (fl R (1 * 1000) * prob));
     Some (x < okay, r) }"

definition random_choose :: "'r rng \<Rightarrow> 'a list \<Rightarrow> nat \<Rightarrow> 'r \<Rightarrow> ('a \<times> 'r) option" where
  "random_choose R xs rand_limit r = do {
     let limit = min (length xs) rand_limit;
     let (adv, r) = draw_int R 0 (size_sub limit 1) r;
     x \<leftarrow> vat xs adv;
     Some (x, r) }"

section \<open>Random strings\<close>

definition alphanum :: string where
  "alphanum = ''0123456789ABCDEFGHIJKLMNOPQRSTUVWXYZabcdefghijklmnopqrstuvwxyz''"

text \<open>
  \<^verbatim>\<open>gen_random\<close> fills the buffer \<open>s\<close> and ends it with a NUL byte; a negative length writes that
  byte in front of the buffer.
\<close>

definition gen_random :: "'r rng \<Rightarrow> string \<Rightarrow> int \<Rightarrow> 'r \<Rightarrow> (string \<times> 'r) option" where
  "gen_random R s len r = do {
     (s, r) \<leftarrow> for_up 0 (nat len) (\<lambda>i (s, r). do {
       let (x, r) = draw_r R r;
       c \<leftarrow> vat alphanum (x mod 62);
       s \<leftarrow> set_at s i c;
       Some (s, r) }) (s, r);
     s \<leftarrow> (if len < 0 then None else set_at s (nat len) (CHR 0x00));
     Some (s, r) }"

text \<open>
  The buffer is the string with its terminator; the \<^verbatim>\<open>size_t\<close> becomes an \<^verbatim>\<open>int\<close> in the call.
  \<^verbatim>\<open>gen_rand_value\<close> has the same body.
\<close>

definition gen_rand_key :: "'r rng \<Rightarrow> nat \<Rightarrow> 'r \<Rightarrow> (string \<times> 'r) option" where
  "gen_rand_key R sz r = do {
     (s, r) \<leftarrow> gen_random R (replicate sz (CHR '' '') @ [CHR 0x00]) (sint (word_of_nat sz :: 32 word)) r;
     Some (take sz s, r) }"

definition gen_rand_value :: "'r rng \<Rightarrow> nat \<Rightarrow> 'r \<Rightarrow> (string \<times> 'r) option" where
  "gen_rand_value R sz r = do {
     (s, r) \<leftarrow> gen_random R (replicate sz (CHR '' '') @ [CHR 0x00]) (sint (word_of_nat sz :: 32 word)) r;
     Some (take sz s, r) }"

definition gen_rand_kv :: "'r rng \<Rightarrow> nat \<Rightarrow> nat \<Rightarrow> 'r \<Rightarrow> ((string \<times> string) \<times> 'r) option" where
  "gen_rand_kv R k_size v_size r = do {
     (k, r) \<leftarrow> gen_rand_key R k_size r;
     (v, r) \<leftarrow> gen_rand_value R v_size r;
     Some ((k, v), r) }"

text \<open>The forms of \<^verbatim>\<open>fast_pseudo_rand_int\<close> and \<^verbatim>\<open>fast_pseudo_rand_dbl\<close> with default bounds.\<close>

definition fast_pseudo_rand_int_upto :: "'r rng \<Rightarrow> nat \<Rightarrow> 'r \<Rightarrow> nat \<times> 'r" where
  "fast_pseudo_rand_int_upto R hi r = draw_int R 0 hi r"

definition fast_pseudo_rand_int_any :: "'r rng \<Rightarrow> 'r \<Rightarrow> nat \<times> 'r" where
  "fast_pseudo_rand_int_any R r = draw_int R 0 npos r"

definition fast_pseudo_rand_dbl_upto :: "'r rng \<Rightarrow> real \<Rightarrow> 'r \<Rightarrow> real \<times> 'r" where
  "fast_pseudo_rand_dbl_upto R hi r = draw_dbl R 0 hi r"

text \<open>The largest \<^verbatim>\<open>double\<close> is \<open>(2 ^ 53 - 1) * 2 ^ 971\<close>.\<close>

definition fast_pseudo_rand_dbl_any :: "'r rng \<Rightarrow> 'r \<Rightarrow> real \<times> 'r" where
  "fast_pseudo_rand_dbl_any R r = draw_dbl R 0 ((2 ^ 53 - 1) * 2 ^ 971) r"

section \<open>Allocators\<close>

text \<open>\<^verbatim>\<open>IRandAllocator\<close> and its implementations; a failed \<^verbatim>\<open>CHECK\<close> is \<open>None\<close>.\<close>

record 'r rand_allocator =
  alloc_key :: "nat \<Rightarrow> 'r \<Rightarrow> (string \<times> 'r) option"
  alloc_value :: "nat \<Rightarrow> 'r \<Rightarrow> (string \<times> 'r) option"

definition PrintableAllocator :: "'r rng \<Rightarrow> 'r rand_allocator" where
  "PrintableAllocator R = \<lparr>alloc_key = gen_rand_key R, alloc_value = gen_rand_value R\<rparr>"

text \<open>\<^verbatim>\<open>DCHECK_GE(max_key_, 1)\<close> is as in a debug build.\<close>

definition UniformAllocator :: "'r rng \<Rightarrow> nat \<Rightarrow> 'r rand_allocator" where
  "UniformAllocator R max_key = \<lparr>
     alloc_key = (\<lambda>sz r. do {
       check (sz = 8);
       check (1 \<le> max_key);
       let (x, r) = draw_int R 0 (max_key - 1) r;
       Some (size_bytes (word_of_nat x), r) }),
     alloc_value = gen_rand_value R\<rparr>"

definition PrefixAllocator :: "'r rng \<Rightarrow> string \<Rightarrow> 'r rand_allocator" where
  "PrefixAllocator R pref = \<lparr>
     alloc_key = (\<lambda>sz r. do {
       check (length pref < sz);
       (s, r) \<leftarrow> gen_rand_key R (size_sub sz (length pref)) r;
       Some (pref @ s, r) }),
     alloc_value = (\<lambda>sz r. do {
       (s, r) \<leftarrow> gen_rand_value R (size_sub sz (length pref)) r;
       Some (pref @ s, r) })\<rparr>"

definition SetAllocator :: "'r rng \<Rightarrow> string list \<Rightarrow> string list \<Rightarrow> 'r rand_allocator" where
  "SetAllocator R keys vals = \<lparr>
     alloc_key = (\<lambda>sz r. do {
       let (i, r) = draw_int R 0 (size_sub (length keys) 1) r;
       k \<leftarrow> vat keys i;
       Some (k, r) }),
     alloc_value = (\<lambda>sz r.
       if vals = [] then gen_rand_value R sz r
       else do {
         let (i, r) = draw_int R 0 (size_sub (length vals) 1) r;
         v \<leftarrow> vat vals i;
         Some (v, r) })\<rparr>"

section \<open>What they give\<close>

lemma alphanum_at: "\<exists>c. vat alphanum (x mod 62) = Some c \<and> c \<in> set alphanum"
proof -
  have "x mod 62 < length alphanum" by (simp add: alphanum_def)
  then show ?thesis by (simp add: KVS_Prelude.at_def)
qed

lemma alphanum_nul: "set s \<subseteq> set alphanum \<Longrightarrow> nul_free s"
  by (auto simp: nul_free_def alphanum_def)

lemma gen_random_fills:
  assumes "int n \<le> 2 ^ 31"
  shows "\<exists>s' r'. gen_random R (replicate n (CHR '' '') @ [CHR 0x00]) (int n) r = Some (s' @ [CHR 0x00], r') \<and>
    length s' = n \<and> set s' \<subseteq> set alphanum"
proof -
  let ?P = "\<lambda>i (s, r :: 'a). length s = Suc n \<and> set (take i s) \<subseteq> set alphanum"
  let ?f = "\<lambda>i (s, r). do { let (x, r) = draw_r R r; c \<leftarrow> vat alphanum (x mod 62);
      s \<leftarrow> set_at s i c; Some (s, r) }"
  have step: "\<exists>z'. ?f i z = Some z' \<and> ?P (Suc i) z'" if "i < n" "?P i z" for i z
  proof -
    obtain s r where z: "z = (s, r)" by (cases z)
    obtain x r' where d: "draw_r R r = (x, r')" by (cases "draw_r R r")
    from alphanum_at [of x] obtain c where c: "vat alphanum (x mod 62) = Some c" "c \<in> set alphanum" by blast
    have "i < length s" using that z by simp
    then have "set_at s i c = Some (s[i := c])" "take (Suc i) (s[i := c]) = take i s @ [c]"
      by (simp_all add: set_at_def take_Suc_conv_app_nth)
    with that c d show ?thesis by (auto simp: z)
  qed
  have "\<exists>z. for_up 0 n ?f (replicate n (CHR '' '') @ [CHR 0x00], r) = Some z \<and> ?P n z"
    by (rule for_up_inv [where P = ?P]) (use step in simp_all)
  then obtain s r' where
    l: "for_up 0 n ?f (replicate n (CHR '' '') @ [CHR 0x00], r) = Some (s, r')"
    "length s = Suc n" "set (take n s) \<subseteq> set alphanum" by auto
  have "set_at s n (CHR 0x00) = Some (take n s @ [CHR 0x00])"
    using l(2) by (simp add: set_at_def upd_conv_take_nth_drop)
  with l show ?thesis by (simp add: gen_random_def)
qed

lemma sint_size: "n < 2 ^ 31 \<Longrightarrow> sint (word_of_nat n :: 32 word) = int n"
  by (rule sint_small)

lemma gen_rand_key_fills:
  assumes "n < 2 ^ 31"
  shows "\<exists>s r'. gen_rand_key R n r = Some (s, r') \<and> length s = n \<and> set s \<subseteq> set alphanum"
  using gen_random_fills [of n R r] sint_size [OF assms] assms by (auto simp: gen_rand_key_def)

lemma gen_rand_value_fills:
  assumes "n < 2 ^ 31"
  shows "\<exists>s r'. gen_rand_value R n r = Some (s, r') \<and> length s = n \<and> set s \<subseteq> set alphanum"
  using gen_rand_key_fills [OF assms] by (simp add: gen_rand_key_def gen_rand_value_def)

lemma gen_rand_kv_fills:
  assumes "n < 2 ^ 31" "m < 2 ^ 31"
  shows "\<exists>k v r'. gen_rand_kv R n m r = Some ((k, v), r') \<and> length k = n \<and> length v = m \<and> set (k @ v) \<subseteq> set alphanum"
proof -
  from gen_rand_key_fills [OF assms(1), of R r] obtain k r1 where
    k: "gen_rand_key R n r = Some (k, r1)" "length k = n" "set k \<subseteq> set alphanum" by blast
  from gen_rand_value_fills [OF assms(2), of R r1] k show ?thesis by (auto simp: gen_rand_kv_def)
qed

text \<open>
  The contract of an allocator: it returns a key with the property \<open>Q\<close> and a value of at most \<open>l\<close>
  bytes.  Keys the engine accepts have no NUL byte.
\<close>

definition alloc_ok :: "'r rand_allocator \<Rightarrow> nat \<Rightarrow> nat \<Rightarrow> (string \<Rightarrow> bool) \<Rightarrow> nat \<Rightarrow> bool" where
  "alloc_ok A ks vs Q l \<longleftrightarrow> (\<forall>r. \<exists>k r'. alloc_key A ks r = Some (k, r') \<and> Q k) \<and>
     (\<forall>r. \<exists>v r'. alloc_value A vs r = Some (v, r') \<and> length v \<le> l)"

definition key_ok :: "nat \<Rightarrow> string \<Rightarrow> bool" where
  "key_ok l k \<longleftrightarrow> nul_free k \<and> k \<noteq> [] \<and> length k \<le> l"

lemma printable_alloc_ok:
  assumes "0 < ks" "ks < 2 ^ 31" "vs < 2 ^ 31" "ks \<le> l" "vs \<le> l"
  shows "alloc_ok (PrintableAllocator R) ks vs (key_ok l) l"
proof -
  have "\<exists>k r'. gen_rand_key R ks r = Some (k, r') \<and> nul_free k \<and> k \<noteq> [] \<and> length k \<le> l" for r
    using gen_rand_key_fills [OF assms(2), of R r] alphanum_nul assms(1,4) by force
  moreover have "\<exists>v r'. gen_rand_value R vs r = Some (v, r') \<and> length v \<le> l" for r
    using gen_rand_value_fills [OF assms(3), of R r] assms(5) by force
  ultimately show ?thesis by (simp add: alloc_ok_def PrintableAllocator_def key_ok_def)
qed

lemma prefixed_alloc_ok:
  assumes "length p < ks" "length p \<le> vs" "nul_free p" "ks < 2 ^ 31" "vs < 2 ^ 31" "ks \<le> l" "vs \<le> l"
  shows "alloc_ok (PrefixAllocator R p) ks vs (\<lambda>k. key_ok l k \<and> (\<exists>s. k = p @ s)) l"
proof -
  have "\<exists>k r'. alloc_key (PrefixAllocator R p) ks r = Some (k, r') \<and> key_ok l k \<and> (\<exists>s. k = p @ s)" for r
  proof -
    have "ks - length p < 2 ^ 31" using assms(4) by simp
    from gen_rand_key_fills [OF this, of R r] obtain k r' where
      "gen_rand_key R (ks - length p) r = Some (k, r')" "length k = ks - length p" "nul_free k"
      using alphanum_nul by blast
    with assms(1,3,6) show ?thesis by (auto simp: PrefixAllocator_def nul_free_def key_ok_def)
  qed
  moreover have "\<exists>v r'. alloc_value (PrefixAllocator R p) vs r = Some (v, r') \<and> length v \<le> l" for r
  proof -
    have "vs - length p < 2 ^ 31" using assms(5) by simp
    from gen_rand_value_fills [OF this, of R r] obtain v r' where
      "gen_rand_value R (vs - length p) r = Some (v, r')" "length v = vs - length p" by blast
    with assms(2,7) show ?thesis by (simp add: PrefixAllocator_def)
  qed
  ultimately show ?thesis by (simp add: alloc_ok_def)
qed

lemma uniform_alloc_ok:
  assumes "1 \<le> max_key" "vs < 2 ^ 31" "vs \<le> l"
  shows "alloc_ok (UniformAllocator R max_key) 8 vs (\<lambda>k. length k = 8) l"
proof -
  have "\<exists>v r'. gen_rand_value R vs r = Some (v, r') \<and> length v \<le> l" for r
    using gen_rand_value_fills [OF assms(2), of R r] assms(3) by force
  with assms(1) show ?thesis by (simp add: alloc_ok_def UniformAllocator_def split_beta)
qed

lemma random_choose_in:
  assumes "rng_ok R" "xs \<noteq> []" "0 < limit"
  shows "\<exists>x r'. random_choose R xs limit r = Some (x, r') \<and> x \<in> set xs"
proof -
  have m: "0 < min (length xs) limit" using assms(2,3) by simp
  have "fst (draw_int R 0 (min (length xs) limit - 1) r) \<le> min (length xs) limit - 1"
    using assms(1) unfolding rng_ok_def by blast
  with m have "fst (draw_int R 0 (min (length xs) limit - 1) r) < length xs" by linarith
  with m show ?thesis by (simp add: random_choose_def split_beta KVS_Prelude.at_def Let_def)
qed

lemma probability_yes_returns:
  assumes "0 \<le> fl R (fl R 1000 * p)" "fl R (fl R 1000 * p) < 2 ^ 64"
  shows "\<exists>b r'. probability_yes R p r = Some (b, r')"
  using assms by (simp add: probability_yes_def to_size_def split_beta)

end
