(* ===== verification/Bench_Gen.thy ===== *)
theory Bench_Gen
  imports Rand_Alloc
begin

text \<open>
  The workload generator of \<^verbatim>\<open>include/util/bench.h\<close>: operations drawn by their rates, keys taken
  from those already inserted or from an allocator, ranges of inserted keys.
\<close>

section \<open>State\<close>

record op_config =
  oc_op :: Op
  op_rate :: real
  key_size_limit :: nat
  value_size_limit :: nat
  found_rate :: real
  visit_range_percent :: real

text \<open>
  \<^verbatim>\<open>acc_prob_to_conf_\<close> is a \<^verbatim>\<open>std::map\<close>, a list of entries in the order of their keys;
  \<^verbatim>\<open>inserted_keys_\<close> is a \<^verbatim>\<open>std::set\<close>, a sorted list.
\<close>

record bench_gen =
  op_confs :: "op_config list"
  acc_prob_to_conf :: "(real \<times> op_config) list"
  inserted_keys :: "string list"

definition gen_validate :: "'r rng \<Rightarrow> op_config list \<Rightarrow> unit option" where
  "gen_validate R confs =
     check (\<bar>fl R (1 - foldl (\<lambda>acc c. fl R (acc + op_rate c)) 0 confs)\<bar> < fl R (1 / 1000))"

fun acc_rates :: "'r rng \<Rightarrow> op_config list \<Rightarrow> real \<Rightarrow> (real \<times> op_config) list \<Rightarrow> (real \<times> op_config) list" where
  "acc_rates R [] acc m = m"
| "acc_rates R (c # cs) acc m = (let acc = fl R (acc + op_rate c) in acc_rates R cs acc (om_put acc c m))"

definition BenchGenerator :: "'r rng \<Rightarrow> op_config list \<Rightarrow> bench_gen option" where
  "BenchGenerator R confs = do {
     gen_validate R confs;
     Some \<lparr>op_confs = confs, acc_prob_to_conf = acc_rates R confs 0 [], inserted_keys = []\<rparr> }"

definition gen_clone :: "'r rng \<Rightarrow> op_config list \<Rightarrow> bench_gen \<Rightarrow> bench_gen option" where
  "gen_clone R confs g = do {
     ret \<leftarrow> BenchGenerator R confs;
     Some (ret\<lparr>inserted_keys := inserted_keys g\<rparr>) }"

section \<open>One test\<close>

text \<open>The configuration of a test; a draw above all accumulated rates is \<^verbatim>\<open>LOG(FATAL)\<close>.\<close>

definition pick_conf :: "'r rng \<Rightarrow> bench_gen \<Rightarrow> 'r \<Rightarrow> (op_config \<times> 'r) option" where
  "pick_conf R g r = do {
     let (x, r) = draw_dbl R 0 1 r;
     (a, c) \<leftarrow> vat (acc_prob_to_conf g) (om_lower_bound x (acc_prob_to_conf g));
     Some (c, r) }"

text \<open>
  Configurations as a program writes them: the operation, its rate, the two sizes, the rate of
  found keys and the part of the map a visit covers.
\<close>

definition confs_of :: "'r rng \<Rightarrow> (Op \<times> real \<times> nat \<times> nat \<times> real \<times> real) list \<Rightarrow> op_config list" where
  "confs_of R = map (\<lambda>(oper, x, ks, vs, found, percent). \<lparr>oc_op = oper, op_rate = fl R x, key_size_limit = ks,
     value_size_limit = vs, found_rate = fl R found, visit_range_percent = fl R percent\<rparr>)"

definition sync_conf :: op_config where
  "sync_conf = \<lparr>oc_op = kSync, op_rate = 0, key_size_limit = 0, value_size_limit = 0,
     found_rate = 0, visit_range_percent = 0\<rparr>"

definition choose_key :: "'r rng \<Rightarrow> 'r rand_allocator \<Rightarrow> bench_gen \<Rightarrow> op_config \<Rightarrow> 'r \<Rightarrow> (string \<times> 'r) option" where
  "choose_key R A g c r = do {
     (yes, r) \<leftarrow> probability_yes R (found_rate c) r;
     if yes \<and> inserted_keys g \<noteq> [] then random_choose R (inserted_keys g) 10000 r
     else alloc_key A (key_size_limit c) r }"

text \<open>The range of a visit; both ends are positions in the set of inserted keys.\<close>

definition rand_range :: "'r rng \<Rightarrow> string list \<Rightarrow> real \<Rightarrow> 'r \<Rightarrow> (string \<times> string \<times> 'r) option" where
  "rand_range R ks percent r = do {
     let begin_range = fl R (1 - percent);
     let (begin_d, r) = draw_dbl R 0 begin_range r;
     let end_d = fl R (begin_d + percent);
     begin_idx \<leftarrow> to_size (fl R (fl R (real (length ks)) * begin_d));
     end_idx \<leftarrow> to_size (fl R (fl R (real (length ks)) * end_d));
     check (begin_idx \<le> end_idx);
     check (end_idx < length ks);
     lower \<leftarrow> vat ks begin_idx;
     upper \<leftarrow> vat ks end_idx;
     Some (lower, upper, r) }"

definition blank_test :: "Op \<Rightarrow> test_case" where
  "blank_test oper = \<lparr>tc_op = oper, tc_key = [], tc_value = [], tc_lower = [], tc_upper = []\<rparr>"

text \<open>The \<^verbatim>\<open>switch\<close> of \<^verbatim>\<open>rand_tests\<close> for the configuration \<open>c\<close>.\<close>

definition fill_test :: "'r rng \<Rightarrow> 'r rand_allocator \<Rightarrow> op_config \<Rightarrow> bench_gen \<Rightarrow> 'r \<Rightarrow>
    (test_case \<times> bench_gen \<times> 'r) option" where
  "fill_test R A c g r = (let t = blank_test (oc_op c) in
     case oc_op c of
       kPut \<Rightarrow> do {
         (k, r) \<leftarrow> choose_key R A g c r;
         (v, r) \<leftarrow> alloc_value A (value_size_limit c) r;
         Some (t\<lparr>tc_key := k, tc_value := v\<rparr>, g\<lparr>inserted_keys := insort_insert k (inserted_keys g)\<rparr>, r) }
     | kDelete \<Rightarrow> do {
         (k, r) \<leftarrow> choose_key R A g c r;
         Some (t\<lparr>tc_key := k\<rparr>, g\<lparr>inserted_keys := remove1 k (inserted_keys g)\<rparr>, r) }
     | kGet \<Rightarrow> do {
         (k, r) \<leftarrow> choose_key R A g c r;
         Some (t\<lparr>tc_key := k\<rparr>, g, r) }
     | kVisit \<Rightarrow>
         if inserted_keys g = [] then Some (t\<lparr>tc_op := kNoOp\<rparr>, g, r)
         else do {
           (lower, upper, r) \<leftarrow> rand_range R (inserted_keys g) (visit_range_percent c) r;
           Some (t\<lparr>tc_lower := lower, tc_upper := upper\<rparr>, g, r) }
     | _ \<Rightarrow> Some (t, g, r))"

text \<open>The body of the loop for the test \<open>i\<close>, and the loop.\<close>

definition rand_test :: "'r rng \<Rightarrow> 'r rand_allocator \<Rightarrow> nat \<Rightarrow> nat \<Rightarrow> bench_gen \<Rightarrow> 'r \<Rightarrow>
    (test_case \<times> bench_gen \<times> 'r) option" where
  "rand_test R A sync_every i g r = do {
     (c, r) \<leftarrow> (if sync_every \<noteq> 0 \<and> i mod sync_every = 0 then Some (sync_conf, r) else pick_conf R g r);
     fill_test R A c g r }"

definition rand_tests :: "'r rng \<Rightarrow> 'r rand_allocator \<Rightarrow> nat \<Rightarrow> nat \<Rightarrow> bench_gen \<Rightarrow> 'r \<Rightarrow>
    (test_case list \<times> bench_gen \<times> 'r) option" where
  "rand_tests R A test_size sync_every g r =
     for_up 0 test_size (\<lambda>i (ret, g, r). do {
       (t, g, r) \<leftarrow> rand_test R A sync_every i g r;
       Some (ret @ [t], g, r) }) ([], g, r)"

section \<open>The keys that are inserted\<close>

primrec live_keys :: "test_case list \<Rightarrow> string set \<Rightarrow> string set" where
  "live_keys [] K = K"
| "live_keys (t # ts) K = live_keys ts
     (if tc_op t = kPut then insert (tc_key t) K else if tc_op t = kDelete then K - {tc_key t} else K)"

primrec ranges_live :: "test_case list \<Rightarrow> string set \<Rightarrow> bool" where
  "ranges_live [] K = True"
| "ranges_live (t # ts) K = ((tc_op t = kVisit \<longrightarrow> tc_lower t \<in> K \<and> tc_upper t \<in> K \<and> tc_lower t \<le> tc_upper t) \<and>
     ranges_live ts
       (if tc_op t = kPut then insert (tc_key t) K else if tc_op t = kDelete then K - {tc_key t} else K))"

lemma live_keys_snoc: "live_keys (ts @ [t]) K = live_keys [t] (live_keys ts K)"
  by (induction ts arbitrary: K) simp_all

lemma ranges_live_snoc: "ranges_live (ts @ [t]) K \<longleftrightarrow> ranges_live ts K \<and> ranges_live [t] (live_keys ts K)"
  by (induction ts arbitrary: K) simp_all

lemma ranges_live_keys:
  "ranges_live ts K \<Longrightarrow> (\<forall>k\<in>K. Q k) \<Longrightarrow> (\<forall>t\<in>set ts. tc_op t = kPut \<longrightarrow> Q (tc_key t)) \<Longrightarrow>
   \<forall>t\<in>set ts. tc_op t = kVisit \<longrightarrow> Q (tc_lower t) \<and> Q (tc_upper t) \<and> tc_lower t \<le> tc_upper t"
proof (induction ts arbitrary: K)
  case (Cons t ts)
  show ?case using Cons.prems Cons.IH [of "if tc_op t = kPut then insert (tc_key t) K
      else if tc_op t = kDelete then K - {tc_key t} else K"] by auto
qed simp

definition set_ok :: "string list \<Rightarrow> bool" where
  "set_ok ks \<longleftrightarrow> sorted ks \<and> distinct ks"

lemma set_ok_simps [simp]:
  "set_ok []" "set_ok ks \<Longrightarrow> set_ok (insort_insert k ks)" "set_ok ks \<Longrightarrow> set_ok (remove1 k ks)"
  by (auto simp: set_ok_def sorted_insort_insert distinct_insort_insert sorted_remove1)

lemma rand_range_live:
  assumes "rand_range R ks p r = Some (lower, upper, r')" "set_ok ks"
  shows "lower \<in> set ks \<and> upper \<in> set ks \<and> lower \<le> upper"
proof -
  from assms(1) obtain i j where "i \<le> j" "j < length ks" "lower = ks ! i" "upper = ks ! j"
    by (auto simp: rand_range_def check_def KVS_Prelude.at_def bind_eq_Some_conv split: prod.splits if_splits)
  with assms(2) show ?thesis by (simp add: set_ok_def sorted_nth_mono)
qed

lemma fill_test_live:
  assumes "fill_test R A c g r = Some (t, g', r')" "set_ok (inserted_keys g)"
  shows "set_ok (inserted_keys g') \<and> set (inserted_keys g') = live_keys [t] (set (inserted_keys g)) \<and>
    ranges_live [t] (set (inserted_keys g)) \<and> acc_prob_to_conf g' = acc_prob_to_conf g \<and>
    (tc_op t = oc_op c \<or> oc_op c = kVisit \<and> tc_op t = kNoOp)"
proof -
  from assms(2) have d: "distinct (inserted_keys g)" by (simp add: set_ok_def)
  show ?thesis
  proof (cases "oc_op c")
    case kVisit
    with assms show ?thesis
      by (auto simp: fill_test_def Let_def blank_test_def bind_eq_Some_conv split: if_splits dest: rand_range_live)
  qed (use assms d in \<open>auto simp: fill_test_def Let_def blank_test_def bind_eq_Some_conv set_insort_insert\<close>)
qed

lemma rand_test_live:
  assumes "rand_test R A sy i g r = Some (t, g', r')" "set_ok (inserted_keys g)"
  shows "set_ok (inserted_keys g') \<and> set (inserted_keys g') = live_keys [t] (set (inserted_keys g)) \<and>
    ranges_live [t] (set (inserted_keys g)) \<and> (sy \<noteq> 0 \<and> i mod sy = 0 \<longrightarrow> tc_op t = kSync) \<and>
    acc_prob_to_conf g' = acc_prob_to_conf g"
proof -
  from assms(1) obtain c r1 where c: "fill_test R A c g r1 = Some (t, g', r')"
    "sy \<noteq> 0 \<and> i mod sy = 0 \<longrightarrow> c = sync_conf"
    by (auto simp: rand_test_def bind_eq_Some_conv split: if_splits)
  from fill_test_live [OF c(1) assms(2)] c(2) show ?thesis by (auto simp: sync_conf_def)
qed

lemma rand_tests_live:
  assumes "rand_tests R A n sy g r = Some (ts, g', r')" "set_ok (inserted_keys g)"
  shows "length ts = n \<and> set_ok (inserted_keys g') \<and>
    set (inserted_keys g') = live_keys ts (set (inserted_keys g)) \<and>
    ranges_live ts (set (inserted_keys g)) \<and> (\<forall>i<n. sy \<noteq> 0 \<and> i mod sy = 0 \<longrightarrow> tc_op (ts ! i) = kSync)"
proof -
  let ?P = "\<lambda>i (ts, g', r'). length ts = i \<and> set_ok (inserted_keys g') \<and>
    set (inserted_keys g') = live_keys ts (set (inserted_keys g)) \<and>
    ranges_live ts (set (inserted_keys g)) \<and> (\<forall>j<i. sy \<noteq> 0 \<and> j mod sy = 0 \<longrightarrow> tc_op (ts ! j) = kSync)"
  have "?P n (ts, g', r')"
  proof (rule for_up_returned [OF assms(1) [unfolded rand_tests_def], where P = ?P])
    fix i s s'
    assume p: "?P i s" and s': "(case s of (ret, g, r) \<Rightarrow> do { (t, g, r) \<leftarrow> rand_test R A sy i g r; Some (ret @ [t], g, r) }) = Some s'"
    obtain ts g1 r1 where s: "s = (ts, g1, r1)" by (cases s)
    with s' obtain t g2 r2 where t: "rand_test R A sy i g1 r1 = Some (t, g2, r2)" "s' = (ts @ [t], g2, r2)"
      by (auto simp: bind_eq_Some_conv)
    from rand_test_live [OF t(1)] p s have
      "set_ok (inserted_keys g2)" "set (inserted_keys g2) = live_keys [t] (set (inserted_keys g1))"
      "ranges_live [t] (set (inserted_keys g1))" "sy \<noteq> 0 \<and> i mod sy = 0 \<longrightarrow> tc_op t = kSync" by auto
    with p s t(2) show "?P (Suc i) s'"
      by (auto simp: live_keys_snoc ranges_live_snoc nth_append less_Suc_eq)
  qed (use assms(2) in simp_all)
  then show ?thesis by simp
qed

section \<open>Generation returns\<close>

text \<open>
  What IEEE 754 says of the rounding of a \<^verbatim>\<open>double\<close>: it is monotone and keeps the numbers that
  have a representation, among them the natural numbers up to \<open>2 ^ 53\<close> and the powers of two
  from \<open>2 ^ - 1022\<close> on.
\<close>

definition rounding_ok :: "(real \<Rightarrow> real) \<Rightarrow> bool" where
  "rounding_ok f \<longleftrightarrow> mono f \<and> (\<forall>n. n \<le> 2 ^ 53 \<longrightarrow> f (real n) = real n) \<and>
     (\<forall>n. n \<le> 1022 \<longrightarrow> f (1 / 2 ^ n) = 1 / 2 ^ n)"

lemma rounding_nat: "rounding_ok f \<Longrightarrow> n \<le> 2 ^ 53 \<Longrightarrow> f (real n) = real n"
  by (simp add: rounding_ok_def)

lemma rounding_range:
  assumes "rounding_ok f" "0 \<le> x" "x \<le> 1000"
  shows "0 \<le> f x" "f x \<le> 1000"
proof -
  have m: "mono f" using assms(1) by (simp add: rounding_ok_def)
  from monoD [OF m assms(2)] rounding_nat [OF assms(1), of 0] show "0 \<le> f x" by simp
  from monoD [OF m assms(3)] rounding_nat [OF assms(1), of 1000] show "f x \<le> 1000" by simp
qed

lemma probability_yes_total:
  assumes "rounding_ok (fl R)" "0 \<le> p" "p \<le> 1"
  shows "\<exists>b r'. probability_yes R p r = Some (b, r')"
proof -
  have k: "fl R 1000 = 1000" using rounding_nat [OF assms(1), of 1000] by simp
  have "0 \<le> 1000 * p" "1000 * p \<le> 1000" using assms(2,3) by simp_all
  from rounding_range [OF assms(1) this] show ?thesis by (intro probability_yes_returns) (simp_all add: k)
qed

definition conf_ok :: "'r rand_allocator \<Rightarrow> (string \<Rightarrow> bool) \<Rightarrow> nat \<Rightarrow> op_config \<Rightarrow> bool" where
  "conf_ok A Q l c \<longleftrightarrow>
     (oc_op c \<in> {kPut, kDelete, kGet} \<longrightarrow> alloc_ok A (key_size_limit c) (value_size_limit c) Q l) \<and>
     0 \<le> found_rate c \<and> found_rate c \<le> 1"

definition test_small :: "(string \<Rightarrow> bool) \<Rightarrow> nat \<Rightarrow> test_case \<Rightarrow> bool" where
  "test_small Q l t \<longleftrightarrow> (tc_op t \<in> {kPut, kDelete, kGet} \<longrightarrow> Q (tc_key t)) \<and> length (tc_value t) \<le> l \<and>
     (tc_op t = kVisit \<longrightarrow> Q (tc_upper t))"

lemma choose_key_total:
  assumes "rng_ok R" "rounding_ok (fl R)" "conf_ok A Q l c" "\<forall>k\<in>set (inserted_keys g). Q k"
    and "oc_op c \<in> {kPut, kDelete, kGet}"
  shows "\<exists>k r'. choose_key R A g c r = Some (k, r') \<and> Q k"
proof -
  from probability_yes_total [OF assms(2), of "found_rate c" r] assms(3) obtain b r1 where
    b: "probability_yes R (found_rate c) r = Some (b, r1)" by (auto simp: conf_ok_def)
  show ?thesis
  proof (cases "b \<and> inserted_keys g \<noteq> []")
    case True
    then have "inserted_keys g \<noteq> []" by simp
    from random_choose_in [OF assms(1) this, of 10000 r1] assms(4) True b show ?thesis
      by (fastforce simp: choose_key_def)
  next
    case False
    with b assms(3,5) show ?thesis by (auto simp: choose_key_def conf_ok_def alloc_ok_def)
  qed
qed

lemma fill_test_small:
  assumes "rng_ok R" "rounding_ok (fl R)" "conf_ok A Q l c \<or> c = sync_conf"
    and "\<forall>k\<in>set (inserted_keys g). Q k" "set_ok (inserted_keys g)"
  shows "oc_op c \<noteq> kVisit \<longrightarrow> (\<exists>x. fill_test R A c g r = Some x)"
    and "fill_test R A c g r = Some (t, g', r') \<Longrightarrow>
      (\<forall>k\<in>set (inserted_keys g'). Q k) \<and> test_small Q l t"
proof -
  consider (sync) "c = sync_conf" | (conf) "conf_ok A Q l c" using assms(3) by blast
  then have "(oc_op c \<noteq> kVisit \<longrightarrow> (\<exists>x. fill_test R A c g r = Some x)) \<and>
    (fill_test R A c g r = Some (t, g', r') \<longrightarrow> (\<forall>k\<in>set (inserted_keys g'). Q k) \<and> test_small Q l t)"
  proof cases
    case sync
    with assms(4) show ?thesis by (auto simp: fill_test_def sync_conf_def blank_test_def test_small_def Let_def)
  next
    case conf
    have rm: "set (remove1 k (inserted_keys g)) \<subseteq> set (inserted_keys g)" for k by (rule set_remove1_subset)
    show ?thesis
    proof (cases "oc_op c \<in> {kPut, kDelete, kGet}")
      case True
      from choose_key_total [OF assms(1,2) conf assms(4) True] obtain k r1 where
        k: "choose_key R A g c r = Some (k, r1)" "Q k" by blast
      from conf True obtain v r2 where v: "alloc_value A (value_size_limit c) r1 = Some (v, r2)" "length v \<le> l"
        unfolding conf_ok_def alloc_ok_def by blast
      from True show ?thesis
        by (cases "oc_op c") (use assms(4) k v rm [of k] in
          \<open>auto simp: fill_test_def blank_test_def test_small_def Let_def set_insort_insert\<close>)
    next
      case False
      have "Q up" if "rand_range R (inserted_keys g) p r = Some (lo, up, r')" for p lo up r'
        using rand_range_live [OF that assms(5)] assms(4) by auto
      with False assms(4) show ?thesis
        by (cases "oc_op c")
          (auto simp: fill_test_def blank_test_def test_small_def Let_def bind_eq_Some_conv split: if_splits)
    qed
  qed
  then show "oc_op c \<noteq> kVisit \<longrightarrow> (\<exists>x. fill_test R A c g r = Some x)"
    "fill_test R A c g r = Some (t, g', r') \<Longrightarrow> (\<forall>k\<in>set (inserted_keys g'). Q k) \<and> test_small Q l t"
    by blast+
qed

section \<open>Accumulated rates\<close>

definition total_rate :: "'r rng \<Rightarrow> op_config list \<Rightarrow> real" where
  "total_rate R confs = foldl (\<lambda>acc c. fl R (acc + op_rate c)) 0 confs"

lemma om_put_set: "set (om_put k v xs) \<subseteq> insert (k, v) (set xs)"
  by (induction k v xs rule: om_put.induct) auto

lemma acc_rates_confs: "snd ` set (acc_rates R cs acc m) \<subseteq> snd ` set m \<union> set cs"
proof (induction R cs acc m rule: acc_rates.induct)
  case (2 R c cs acc m)
  have "snd ` set (om_put (fl R (acc + op_rate c)) c m) \<subseteq> insert c (snd ` set m)"
    using image_mono [OF om_put_set, of snd] by simp
  with 2 [OF refl] show ?case by (simp add: Let_def) blast
qed simp

lemma acc_rates_keys: "fst ` set m \<subseteq> fst ` set (acc_rates R cs acc m)"
proof (induction R cs acc m rule: acc_rates.induct)
  case (2 R c cs acc m)
  from 2 [OF refl] show ?case by (simp add: Let_def om_put_keys)
qed simp

lemma acc_rates_total:
  "acc \<in> fst ` set m \<or> cs \<noteq> [] \<Longrightarrow>
   foldl (\<lambda>acc c. fl R (acc + op_rate c)) acc cs \<in> fst ` set (acc_rates R cs acc m)"
proof (induction R cs acc m rule: acc_rates.induct)
  case (2 R c cs acc m)
  have "fl R (acc + op_rate c) \<in> fst ` set (om_put (fl R (acc + op_rate c)) c m)" by (simp add: om_put_keys)
  with "2.IH" [OF refl] show ?case by (simp add: Let_def)
qed simp

lemma takeWhile_stops: "e \<in> set xs \<Longrightarrow> \<not> P e \<Longrightarrow> length (takeWhile P xs) < length xs"
  by (induction xs) auto

lemma pick_conf_total:
  assumes "rng_ok R" "BenchGenerator R confs = Some g0" "1 \<le> total_rate R confs"
    and "acc_prob_to_conf g = acc_prob_to_conf g0"
  shows "\<exists>c r'. pick_conf R g r = Some (c, r') \<and> c \<in> set confs"
proof -
  let ?m = "acc_prob_to_conf g"
  obtain x r' where x: "draw_dbl R 0 1 r = (x, r')" by (cases "draw_dbl R 0 1 r")
  have "fst (draw_dbl R 0 1 r) \<le> 1" using assms(1) unfolding rng_ok_def by (meson zero_le_one)
  with x have le: "x \<le> 1" by simp
  have m: "?m = acc_rates R confs 0 []"
    using assms(2,4) by (auto simp: BenchGenerator_def bind_eq_Some_conv)
  have "confs \<noteq> []" using assms(3) by (auto simp: total_rate_def)
  then have "total_rate R confs \<in> fst ` set ?m" using acc_rates_total [of 0 "[]" confs R] m by (simp add: total_rate_def)
  then obtain e where e: "e \<in> set ?m" "fst e = total_rate R confs" by auto
  then have l: "om_lower_bound x ?m < length ?m"
    unfolding om_lower_bound_def using le assms(3) by (intro takeWhile_stops [of e]) auto
  then have "?m ! om_lower_bound x ?m \<in> set ?m" by simp
  with acc_rates_confs [of R confs 0 "[]"] m have "snd (?m ! om_lower_bound x ?m) \<in> set confs" by auto
  with l x show ?thesis by (simp add: pick_conf_def KVS_Prelude.at_def split_beta)
qed

end
