(* ===== verification/Bench.thy ===== *)
theory Bench
  imports Bench_Gen
begin

text \<open>
  The benchmark of \<^verbatim>\<open>bench/bench.cpp\<close> as far as it computes something: its keys, the warm-up and
  the configurations of the generator; and the properties of the generator and the benchmark.
\<close>

section \<open>Generated tests\<close>

text \<open>What a generator relies on: its random numbers, the arithmetic, and its allocator.\<close>

definition gen_env :: "'r rng \<Rightarrow> 'r rand_allocator \<Rightarrow> (string \<Rightarrow> bool) \<Rightarrow> nat \<Rightarrow> op_config list \<Rightarrow> bool" where
  "gen_env R A Q l confs \<longleftrightarrow> rng_ok R \<and> rounding_ok (fl R) \<and> (\<forall>c\<in>set confs. conf_ok A Q l c)"

definition gen_inv :: "'r rng \<Rightarrow> (string \<Rightarrow> bool) \<Rightarrow> op_config list \<Rightarrow> bench_gen \<Rightarrow> bool" where
  "gen_inv R Q confs g \<longleftrightarrow> acc_prob_to_conf g = acc_rates R confs 0 [] \<and> set_ok (inserted_keys g) \<and>
     (\<forall>k\<in>set (inserted_keys g). Q k)"

lemma generator_inv:
  "BenchGenerator R confs = Some g \<Longrightarrow> gen_inv R Q confs g \<and> inserted_keys g = []"
  by (auto simp: BenchGenerator_def gen_inv_def bind_eq_Some_conv)

lemma pick_conf_in:
  assumes "pick_conf R g r = Some (c, r')" "gen_inv R Q confs g"
  shows "c \<in> set confs"
proof -
  from assms(1) obtain a where "(a, c) \<in> set (acc_prob_to_conf g)"
    by (auto simp: pick_conf_def bind_eq_Some_conv KVS_Prelude.at_def split: prod.splits if_splits)
      (metis nth_mem)
  with assms(2) acc_rates_confs [of R confs 0 "[]"] show ?thesis by (force simp: gen_inv_def)
qed

lemma rand_test_inv:
  assumes "gen_env R A Q l confs" "gen_inv R Q confs g" "rand_test R A sy i g r = Some (t, g', r')"
  shows "gen_inv R Q confs g' \<and> test_small Q l t \<and>
    (tc_op t = kSync \<and> sy \<noteq> 0 \<and> i mod sy = 0 \<or> tc_op t \<in> insert kNoOp (oc_op ` set confs))"
proof -
  from assms(3) obtain c r1 where c: "fill_test R A c g r1 = Some (t, g', r')"
    "c = sync_conf \<and> sy \<noteq> 0 \<and> i mod sy = 0 \<or> pick_conf R g r = Some (c, r1)"
    by (auto simp: rand_test_def bind_eq_Some_conv split: if_splits)
  then have k: "c = sync_conf \<and> sy \<noteq> 0 \<and> i mod sy = 0 \<or> c \<in> set confs"
    using pick_conf_in [OF _ assms(2)] by blast
  with assms(1) have e: "rng_ok R" "rounding_ok (fl R)" "conf_ok A Q l c \<or> c = sync_conf"
    by (auto simp: gen_env_def)
  from assms(2) have g: "\<forall>k\<in>set (inserted_keys g). Q k" "set_ok (inserted_keys g)"
    by (simp_all add: gen_inv_def)
  from fill_test_small(2) [OF e g c(1)] fill_test_live [OF c(1) g(2)] assms(2) k show ?thesis
    by (auto simp: gen_inv_def sync_conf_def)
qed

lemma rand_test_total:
  assumes "gen_env R A Q l confs" "gen_inv R Q confs g" "1 \<le> total_rate R confs" "kVisit \<notin> oc_op ` set confs"
    and "BenchGenerator R confs = Some g0"
  shows "\<exists>t g' r'. rand_test R A sy i g r = Some (t, g', r')"
proof -
  have e: "rng_ok R" "rounding_ok (fl R)" "\<forall>c\<in>set confs. conf_ok A Q l c"
    using assms(1) by (simp_all add: gen_env_def)
  have a: "acc_prob_to_conf g = acc_prob_to_conf g0"
    using assms(2) generator_inv [OF assms(5), of Q] by (simp add: gen_inv_def)
  from assms(2) have g: "\<forall>k\<in>set (inserted_keys g). Q k" "set_ok (inserted_keys g)"
    by (simp_all add: gen_inv_def)
  from pick_conf_total [OF e(1) assms(5,3) a, of r] obtain c r1 where
    c: "pick_conf R g r = Some (c, r1)" "c \<in> set confs" by blast
  have ok: "\<exists>x. fill_test R A c' g r' = Some x" if "c' = c \<or> c' = sync_conf" for c' r'
  proof -
    have "conf_ok A Q l c' \<or> c' = sync_conf" "oc_op c' \<noteq> kVisit"
      using that c(2) e(3) assms(4) by (auto simp: sync_conf_def) (metis imageI)
    with fill_test_small(1) [OF e(1,2) this(1) g, of r'] show ?thesis by blast
  qed
  show ?thesis using ok [of c r1] ok [of sync_conf r] c(1) by (auto simp: rand_test_def)
qed

lemma rand_tests_inv:
  assumes "gen_env R A Q l confs" "gen_inv R Q confs g" "rand_tests R A n sy g r = Some (ts, g', r')"
  shows "gen_inv R Q confs g' \<and> (\<forall>t\<in>set ts. test_small Q l t \<and>
    (tc_op t = kSync \<and> sy \<noteq> 0 \<or> tc_op t \<in> insert kNoOp (oc_op ` set confs)))"
proof -
  let ?P = "\<lambda>i (ts, g', r'). gen_inv R Q confs g' \<and> (\<forall>t\<in>set ts. test_small Q l t \<and>
    (tc_op t = kSync \<and> sy \<noteq> 0 \<or> tc_op t \<in> insert kNoOp (oc_op ` set confs)))"
  have "?P n (ts, g', r')"
  proof (rule for_up_returned [OF assms(3) [unfolded rand_tests_def], where P = ?P])
    fix i s s'
    assume p: "?P i s" and s': "(case s of (ret, g, r) \<Rightarrow> do { (t, g, r) \<leftarrow> rand_test R A sy i g r; Some (ret @ [t], g, r) }) = Some s'"
    obtain ts g1 r1 where s: "s = (ts, g1, r1)" by (cases s)
    with s' obtain t g2 r2 where t: "rand_test R A sy i g1 r1 = Some (t, g2, r2)" "s' = (ts @ [t], g2, r2)"
      by (auto simp: bind_eq_Some_conv)
    from rand_test_inv [OF assms(1) _ t(1)] p s t(2) show "?P (Suc i) s'" by auto
  qed (use assms(2) in simp_all)
  then show ?thesis by simp
qed

lemma rand_tests_goes_on:
  assumes "gen_env R A Q l confs" "gen_inv R Q confs g" "BenchGenerator R confs = Some g0" "1 \<le> total_rate R confs"
    and "kVisit \<notin> oc_op ` set confs"
  shows "\<exists>ts g' r'. rand_tests R A n sy g r = Some (ts, g', r')"
proof -
  let ?P = "\<lambda>i (ts :: test_case list, g', r' :: 'a). gen_inv R Q confs g'"
  have "\<exists>z. rand_tests R A n sy g r = Some z \<and> ?P n z"
    unfolding rand_tests_def
  proof (rule for_up_inv [where P = ?P])
    fix i s
    assume p: "?P i s"
    obtain ts g1 r1 where s: "s = (ts, g1, r1)" by (cases s)
    with p have i: "gen_inv R Q confs g1" by simp
    have "\<exists>t g2 r2. rand_test R A sy i g1 r1 = Some (t, g2, r2)"
      by (rule rand_test_total [OF assms(1) i assms(4,5,3)])
    then obtain t g2 r2 where t: "rand_test R A sy i g1 r1 = Some (t, g2, r2)" by blast
    with rand_test_inv [OF assms(1) i t] show "\<exists>s'. (case s of (ret, g, r) \<Rightarrow>
        do { (t, g, r) \<leftarrow> rand_test R A sy i g r; Some (ret @ [t], g, r) }) = Some s' \<and> ?P (Suc i) s'"
      by (simp add: s)
  qed (use assms(2) in simp_all)
  then show ?thesis by auto
qed

lemma rand_tests_total:
  assumes "gen_env R A Q l confs" "BenchGenerator R confs = Some g" "1 \<le> total_rate R confs"
    and "kVisit \<notin> oc_op ` set confs"
  shows "\<exists>ts g' r'. rand_tests R A n sy g r = Some (ts, g', r')"
  using rand_tests_goes_on [OF assms(1) _ assms(2-4)] generator_inv [OF assms(2)] by blast

section \<open>Generated tests on the engine\<close>

lemma small_tests_pre:
  assumes "\<forall>t\<in>set ts. test_small (key_ok l) l t \<and> tc_op t \<in> {kPut, kDelete, kGet, kVisit, kNoOp}"
    and "ranges_live ts (dom m)" "length ts * (16 + 2 * l) \<le> n"
  shows "tests_pre ts m n"
  using assms
proof (induction ts arbitrary: m n)
  case (Cons t ts)
  let ?c = "test_call t"
  have room: "16 + 2 * l \<le> n" using Cons.prems(3) by simp
  have t: "test_small (key_ok l) l t" "tc_op t \<in> {kPut, kDelete, kGet, kVisit, kNoOp}" using Cons.prems(1) by simp_all
  have visit: "tc_op t = kVisit \<longrightarrow> m \<noteq> Map.empty \<and> tc_lower t \<le> tc_upper t" using Cons.prems(2) by auto
  have size: "call_size ?c m \<le> 16 + 2 * l"
    using t by (auto simp: test_call_def test_small_def key_ok_def rec_size_def)
  have small: "test_pre t m n"
    using t visit room by (auto simp: test_call_def test_pre_def test_small_def key_ok_def rec_size_def)
  have "dom (snd (map_call ?c m)) = (if tc_op t = kPut then insert (tc_key t) (dom m)
      else if tc_op t = kDelete then dom m - {tc_key t} else dom m)"
    using Cons.prems(1) by (auto simp: test_call_def split: option.splits)
  then have "ranges_live ts (dom (snd (map_call ?c m)))" using Cons.prems(2) by simp
  moreover have "length ts * (16 + 2 * l) \<le> n - call_size ?c m" using Cons.prems(3) size by simp
  ultimately have "tests_pre ts (snd (map_call ?c m)) (n - call_size ?c m)" using Cons by simp
  with small show ?case by simp
qed simp

lemma small_tests_size:
  assumes "\<forall>t\<in>set ts. test_small (key_ok l) l t \<and> tc_op t \<in> {kPut, kDelete, kGet, kVisit, kNoOp}"
  shows "tests_size ts m \<le> length ts * (16 + 2 * l)"
  using assms
proof (induction ts arbitrary: m)
  case (Cons t ts)
  then have t: "test_small (key_ok l) l t" "tc_op t \<in> {kPut, kDelete, kGet, kVisit, kNoOp}" by simp_all
  have "call_size (test_call t) m \<le> 16 + 2 * l"
    using t by (auto simp: test_call_def test_small_def key_ok_def rec_size_def)
  with Cons.IH [of "snd (map_call (test_call t) m)"] Cons.prems show ?case by simp
qed simp

lemma no_visits_live: "\<forall>t\<in>set ts. tc_op t \<noteq> kVisit \<Longrightarrow> ranges_live ts K"
  by (induction ts arbitrary: K) simp_all

text \<open>The keys of the validator are those the tests leave, whatever the engine is.\<close>

lemma validate_case_keys:
  assumes "validate_case en t (kv, e) = Some (kv', e')"
  shows "fst ` set kv' = live_keys [t] (fst ` set kv)"
proof (cases "tc_op t")
  case kPut
  with assms have "kv' = om_put (tc_key t) (tc_value t) kv"
    by (auto simp: validate_case_def validate_put_def bind_eq_Some_conv)
  with kPut show ?thesis by (simp add: om_put_keys)
next
  case kDelete
  with assms show ?thesis
    by (auto simp: validate_case_def validate_delete_def bind_eq_Some_conv om_erase_def image_iff map_of_eq_None_iff
        split: option.splits)
qed (use assms in \<open>auto simp: validate_case_def bind_eq_Some_conv\<close>)

lemma validate_execute_keys:
  "validate_execute en ts (kv, e) = Some (kv', e') \<Longrightarrow> fst ` set kv' = live_keys ts (fst ` set kv)"
proof (induction ts arbitrary: kv e)
  case (Cons t ts)
  then obtain kv1 e1 where "validate_case en t (kv, e) = Some (kv1, e1)"
    "validate_execute en ts (kv1, e1) = Some (kv', e')" by (auto simp: bind_eq_Some_conv)
  with Cons.IH validate_case_keys [of en t kv e kv1 e1] show ?case by simp
qed simp

section \<open>The benchmark\<close>

definition to_key :: "64 word \<Rightarrow> string" where
  "to_key k = size_bytes k"

definition warmup :: "'e iengine \<Rightarrow> nat \<Rightarrow> nat \<Rightarrow> 'e \<Rightarrow> 'e option" where
  "warmup en max_key max_value_size e = do {
     let v = replicate (max_value_size div 2) (CHR ''a'');
     for_up 0 max_key (\<lambda>k e. do {
       (r, e) \<leftarrow> ie_put en (to_key (word_of_nat k)) v e;
       check (r = kSucc);
       Some e }) e }"

text \<open>The configurations of \<^verbatim>\<open>bench_kv\<close>; \<open>read_pct\<close> is \<^verbatim>\<open>FLAGS_read_ratio\<close>.\<close>

definition bench_confs :: "'r rng \<Rightarrow> nat \<Rightarrow> nat \<Rightarrow> real \<Rightarrow> op_config list" where
  "bench_confs R read_pct max_value_size overwrite_ratio = (
     let read_ratio = fl R (fl R (1 * fl R (real read_pct)) / 100);
         ins_ratio = fl R (fl R (1 - read_ratio) / 2);
         del_ratio = ins_ratio;
         conf = (\<lambda>oper rate. \<lparr>oc_op = oper, op_rate = rate, key_size_limit = 8,
           value_size_limit = max_value_size, found_rate = overwrite_ratio, visit_range_percent = 0\<rparr>)
     in [conf kGet read_ratio, conf kPut ins_ratio, conf kDelete del_ratio])"

lemma bench_confs_100:
  assumes "rounding_ok (fl R)"
  shows "\<exists>g c. BenchGenerator R (bench_confs R 100 mv ow) = Some g \<and> acc_prob_to_conf g = [(1, c)] \<and> oc_op c = kDelete \<and>
    total_rate R (bench_confs R 100 mv ow) = 1 \<and> (\<forall>c\<in>set (bench_confs R 100 mv ow).
      oc_op c \<noteq> kVisit \<and> key_size_limit c = 8 \<and> value_size_limit c = mv \<and> found_rate c = ow)"
proof -
  have n: "fl R 0 = 0" "fl R 1 = 1" "fl R 100 = 100"
    using rounding_nat [OF assms, of 0] rounding_nat [OF assms, of 1] rounding_nat [OF assms, of 100] by simp_all
  have m: "mono (fl R)" and p: "\<forall>n. n \<le> 1022 \<longrightarrow> fl R (1 / 2 ^ n) = 1 / 2 ^ n"
    using assms unfolding rounding_ok_def by blast+
  have "(1 / 2 ^ 10 :: real) = fl R (1 / 2 ^ 10)" using p [rule_format, of 10] by simp
  also have "\<dots> \<le> fl R (1 / 1000)" by (rule monoD [OF m]) simp
  finally have "0 < fl R (1 / 1000)" by (rule less_le_trans [rotated]) simp
  with n show ?thesis
    by (simp add: bench_confs_def BenchGenerator_def gen_validate_def total_rate_def Let_def)
qed

text \<open>A visit of the whole range of keys is never generated: its upper end is behind the last key.\<close>

lemma full_range_aborts:
  assumes "rng_ok R" "rounding_ok (fl R)" "length ks \<le> 2 ^ 53"
  shows "rand_range R ks 1 r = None"
proof -
  have n: "fl R 0 = 0" "fl R 1 = 1" "fl R (real (length ks)) = real (length ks)"
    using rounding_nat [OF assms(2), of 0] rounding_nat [OF assms(2), of 1] rounding_nat [OF assms(2,3)] by simp_all
  have "0 \<le> fst (draw_dbl R 0 0 r)" "fst (draw_dbl R 0 0 r) \<le> 0"
    using assms(1) unfolding rng_ok_def by (meson order_refl)+
  then obtain r' where d: "draw_dbl R 0 0 r = (0, r')" by (cases "draw_dbl R 0 0 r") auto
  from assms(3) have "real (length ks) \<le> real (2 ^ 53)" by (simp only: of_nat_le_iff)
  then have "real (length ks) < 18446744073709551616" by simp
  with n d show ?thesis by (simp add: rand_range_def to_size_def)
qed

text \<open>A draw above all accumulated rates ends the generation.\<close>

lemma short_rates_abort:
  assumes "\<forall>e\<in>set (acc_prob_to_conf g). fst e < fst (draw_dbl R 0 1 r)" "0 < n"
  shows "rand_tests R A n 0 g r = None"
proof -
  have "om_lower_bound (fst (draw_dbl R 0 1 r)) (acc_prob_to_conf g) = length (acc_prob_to_conf g)"
    using assms(1) by (simp add: om_lower_bound_def takeWhile_eq_all_conv [THEN iffD2])
  then have "pick_conf R g r = None" by (simp add: pick_conf_def split_beta KVS_Prelude.at_def)
  with assms(2) show ?thesis by (simp add: rand_tests_def for_up_step rand_test_def)
qed

section \<open>The warm-up\<close>

text \<open>An engine with a given index and end of the log, and one \<^verbatim>\<open>put\<close> of it.\<close>

definition eng :: "string \<Rightarrow> btree \<Rightarrow> 32 word \<Rightarrow> engine" where
  "eng f t off = \<lparr>log_filename = f, eng_btree = t, log_offset = off\<rparr>"

lemma put_step:
  assumes "BTree_insert k (scast off) t = Some (r, t')" "fs_writable fs" "rec_size k v \<le> fs_free fs"
  shows "ie_put engine_iface k v (eng f t off, fs) =
    Some (kSucc, eng f t' (off + word_of_nat (rec_size k v)), appended f (put_line k v) fs)"
proof -
  have "length (put_line k v) \<le> fs_free fs" using assms(3) by (simp add: length_put_line)
  from append_line [OF assms(2) this, of f] obtain w w' fs' where "fopen_a f fs = Some (w, opened f fs)"
    "log_line (put_line k v) w (opened f fs) = Some (w', fs')" "fclose w' fs' = (0, appended f (put_line k v) fs)" by metis
  with assms(1) show ?thesis by (simp add: engine_iface_def Engine_put_def eng_def Let_def length_put_line)
qed

lemma le_bytes_numeral: "le_bytes (numeral w) n = char_of (n mod 256) # le_bytes (pred_numeral w) (n div 256)"
  by (simp add: numeral_eq_Suc [of w])

lemma first_keys: "to_key 0 = [CHR 0x00, CHR 0x00, CHR 0x00, CHR 0x00, CHR 0x00, CHR 0x00, CHR 0x00, CHR 0x00]"
  "to_key 1 = [CHR 0x01, CHR 0x00, CHR 0x00, CHR 0x00, CHR 0x00, CHR 0x00, CHR 0x00, CHR 0x00]"
  "to_key 2 = [CHR 0x02, CHR 0x00, CHR 0x00, CHR 0x00, CHR 0x00, CHR 0x00, CHR 0x00, CHR 0x00]"
  "to_key 3 = [CHR 0x03, CHR 0x00, CHR 0x00, CHR 0x00, CHR 0x00, CHR 0x00, CHR 0x00, CHR 0x00]"
  "to_key 4 = [CHR 0x04, CHR 0x00, CHR 0x00, CHR 0x00, CHR 0x00, CHR 0x00, CHR 0x00, CHR 0x00]"
  by (simp_all add: to_key_def size_bytes_def le_bytes_numeral char_of_def bit_0)

definition k8 :: "char \<Rightarrow> string" where
  "k8 c = [c, CHR 0x00, CHR 0x00, CHR 0x00, CHR 0x00, CHR 0x00, CHR 0x00, CHR 0x00]"

text \<open>The index alone: the split of the leaf cuts the keys that move to the right half.\<close>

lemma lost_index:
  "do { (r, t) \<leftarrow> BTree_insert (k8 (CHR 0x00)) d0 BTree_ctor;
        (r, t) \<leftarrow> BTree_insert (k8 (CHR 0x01)) d1 t;
        (r, t) \<leftarrow> BTree_insert (k8 (CHR 0x02)) d2 t;
        (r, t) \<leftarrow> BTree_insert (k8 (CHR 0x03)) d3 t;
        (r, t) \<leftarrow> BTree_insert (k8 (CHR 0x04)) d4 t;
        a \<leftarrow> BTree_search t (k8 (CHR 0x02));
        b \<leftarrow> BTree_search t (k8 (CHR 0x03));
        c \<leftarrow> BTree_search t (k8 (CHR 0x04));
        Some [a, b, c] } = Some [-1, -1, -1]"
  by code_simp

lemma for_up_5: "for_up 0 5 f s = do { s \<leftarrow> f 0 s; s \<leftarrow> f 1 s; s \<leftarrow> f 2 s; s \<leftarrow> f 3 s; f 4 s }"
  by (simp add: for_up_step numeral_eq_Suc)

section \<open>A sample generator\<close>

definition sample_rng :: "nat rng" where
  "sample_rng = \<lparr>draw_int = (\<lambda>lo hi r. (lo, r + 1)), draw_dbl = (\<lambda>lo hi r. (hi, r + 1)),
     draw_r = (\<lambda>r. (r, r + 1)), fl = (\<lambda>x. x)\<rparr>"

definition sample_confs :: "op_config list" where
  "sample_confs = [\<lparr>oc_op = kGet, op_rate = 1 / 2, key_size_limit = 4, value_size_limit = 4,
       found_rate = 1 / 2, visit_range_percent = 0\<rparr>,
     \<lparr>oc_op = kPut, op_rate = 1 / 2, key_size_limit = 4, value_size_limit = 4,
       found_rate = 1 / 2, visit_range_percent = 0\<rparr>]"

lemma sample_rng_ok: "rng_ok sample_rng" "rounding_ok (fl sample_rng)"
  by (simp_all add: rng_ok_def sample_rng_def rounding_ok_def mono_def)

lemma sample_env: "gen_env sample_rng (PrintableAllocator sample_rng) (key_ok 4) 4 sample_confs"
  using printable_alloc_ok [of 4 4 4 sample_rng] sample_rng_ok by (simp add: gen_env_def sample_confs_def conf_ok_def)

lemma sample_gen: "\<exists>g. BenchGenerator sample_rng sample_confs = Some g" "1 \<le> total_rate sample_rng sample_confs"
  by (simp_all add: BenchGenerator_def gen_validate_def sample_confs_def sample_rng_def total_rate_def)

lemma sample_ops: "kVisit \<notin> oc_op ` set sample_confs"
  by (simp add: sample_confs_def)

section \<open>Properties\<close>

text \<open>
  \<^verbatim>\<open>rand_tests\<close> gives as many tests as asked for, a \<^verbatim>\<open>sync\<close> wherever one is due, and visits
  only ranges that are in order and between two keys that are inserted at that point; the
  generator's set of keys is that of the keys its tests leave.
\<close>
theorem generated_ranges_live:
  assumes "BenchGenerator R confs = Some g" "rand_tests R A n sync_every g r = Some (ts, g', r')"
  shows "length ts = n \<and> set (inserted_keys g') = live_keys ts {} \<and> ranges_live ts {} \<and>
    (\<forall>i<n. sync_every \<noteq> 0 \<and> i mod sync_every = 0 \<longrightarrow> tc_op (ts ! i) = kSync)"
  using rand_tests_live [OF assms(2)] generator_inv [OF assms(1), of "\<lambda>k. True"] by simp

theorem generated_ranges_live_witness:
  "\<exists>ts g g' r'. BenchGenerator sample_rng sample_confs = Some g \<and>
    rand_tests sample_rng (PrintableAllocator sample_rng) 3 2 g 0 = Some (ts, g', r') \<and>
    length ts = 3 \<and> tc_op (ts ! 2) = kSync"
proof -
  from sample_gen(1) obtain g where g: "BenchGenerator sample_rng sample_confs = Some g" by blast
  from rand_tests_total [OF sample_env g sample_gen(2) sample_ops] obtain ts g' r' where
    t: "rand_tests sample_rng (PrintableAllocator sample_rng) 3 2 g 0 = Some (ts, g', r')" by blast
  from generated_ranges_live [OF g t] have "length ts = 3" "tc_op (ts ! 2) = kSync" by auto
  with g t show ?thesis by blast
qed

text \<open>
  Generation returns, if the rates add up to at least 1 and no visit is configured: every
  draw finds a configuration, every key an entry of the set or of the allocator, and the
  tests have configured operations and keys the allocator can give.
\<close>
theorem generation_returns:
  assumes "gen_env R A Q l confs" "BenchGenerator R confs = Some g" "1 \<le> total_rate R confs"
    and "kVisit \<notin> oc_op ` set confs"
  shows "\<exists>ts g' r'. rand_tests R A n sync_every g r = Some (ts, g', r') \<and> (\<forall>t\<in>set ts. test_small Q l t \<and>
    (tc_op t = kSync \<and> sync_every \<noteq> 0 \<or> tc_op t \<in> insert kNoOp (oc_op ` set confs)))"
proof -
  from rand_tests_total [OF assms] obtain ts g' r' where
    t: "rand_tests R A n sync_every g r = Some (ts, g', r')" by blast
  have "gen_inv R Q confs g" using generator_inv [OF assms(2)] by blast
  from rand_tests_inv [OF assms(1) this t] t show ?thesis by blast
qed

theorem generation_returns_witness:
  "\<exists>g ts g' r'. BenchGenerator sample_rng sample_confs = Some g \<and>
    rand_tests sample_rng (PrintableAllocator sample_rng) 7 3 g 0 = Some (ts, g', r') \<and>
    (\<forall>t\<in>set ts. test_small (key_ok 4) 4 t)"
proof -
  from sample_gen(1) obtain g where g: "BenchGenerator sample_rng sample_confs = Some g" by blast
  from generation_returns [OF sample_env g sample_gen(2) sample_ops, of 7 3 0] g show ?thesis by blast
qed

text \<open>
  C18. The repository's testing scheme works on the engine: whatever \<^verbatim>\<open>rand_tests\<close> generates from
  puts, removals, gets and visits, with keys without NUL bytes and without \<^verbatim>\<open>sync\<close>,
  \<^verbatim>\<open>validate_execute\<close> accepts on a new engine with enough room, and the validator ends with the
  generator's set of keys.
\<close>
theorem generated_tests_accepted:
  assumes "gen_env R A (key_ok l) l confs" "BenchGenerator R confs = Some g"
    and "oc_op ` set confs \<subseteq> {kPut, kDelete, kGet, kVisit, kNoOp}"
    and "rand_tests R A n 0 g r = Some (ts, g', r')" "n * (16 + 2 * l) \<le> space" "space < 2 ^ 31"
  shows "\<exists>e kv s'. Engine_ctor path (new_fs space) = Some e \<and>
    validate_execute engine_iface ts ([], e, new_fs space) = Some (kv, s') \<and>
    fst ` set kv = set (inserted_keys g') \<and> engine_abs (fst s') (snd s') (map_of kv)"
proof -
  have "gen_inv R (key_ok l) confs g" "inserted_keys g = []" using generator_inv [OF assms(2)] by blast+
  note i = rand_tests_inv [OF assms(1) this(1) assms(4)] and live = rand_tests_live [OF assms(4)]
  from live \<open>inserted_keys g = []\<close> have l: "length ts = n" "set (inserted_keys g') = live_keys ts {}"
    "ranges_live ts (dom (map_of ([] :: omap)))" by simp_all
  have "\<forall>t\<in>set ts. test_small (key_ok l) l t \<and> tc_op t \<in> {kPut, kDelete, kGet, kVisit, kNoOp}"
    using i assms(3) by blast
  from small_tests_pre [OF this l(3)] assms(5) l(1) have pre: "tests_pre ts (map_of ([] :: omap)) space" by simp
  from new_store [OF assms(6), of path] obtain e where
    e: "Engine_ctor path (new_fs space) = Some e" "store_holds path (e, new_fs space) (map_of ([] :: omap)) space" by auto
  from validate_execute_ok [OF e(2) _ pre] obtain kv s' where
    v: "validate_execute engine_iface ts ([], e, new_fs space) = Some (kv, s')"
    "store_holds path s' (map_of kv) (space - tests_size ts (map_of []))"
    by (auto simp: om_ok_def)
  from v(2) have "engine_abs (fst s') (snd s') (map_of kv)" unfolding store_holds_def Let_def by blast
  moreover have "fst ` set kv = set (inserted_keys g')"
    using validate_execute_keys [of engine_iface ts "[]" "(e, new_fs space)" kv s'] v(1) l(2) by (cases s') simp
  ultimately show ?thesis using e(1) v(1) by blast
qed

theorem generated_tests_accepted_witness:
  "\<exists>g ts g' r' e kv s'. rand_tests sample_rng (PrintableAllocator sample_rng) 5 0 g 0 = Some (ts, g', r') \<and>
    Engine_ctor ''d'' (new_fs 1000) = Some e \<and>
    validate_execute engine_iface ts ([], e, new_fs 1000) = Some (kv, s') \<and> fst ` set kv = set (inserted_keys g')"
proof -
  from sample_gen(1) obtain g where g: "BenchGenerator sample_rng sample_confs = Some g" by blast
  from rand_tests_total [OF sample_env g sample_gen(2) sample_ops] obtain ts g' r' where
    t: "rand_tests sample_rng (PrintableAllocator sample_rng) 5 0 g 0 = Some (ts, g', r')" by blast
  have "oc_op ` set sample_confs \<subseteq> {kPut, kDelete, kGet, kVisit, kNoOp}" by (simp add: sample_confs_def)
  from generated_tests_accepted [OF sample_env g this t, of 1000 "''d''"] obtain e kv s' where
    "Engine_ctor ''d'' (new_fs 1000) = Some e"
    "validate_execute engine_iface ts ([], e, new_fs 1000) = Some (kv, s')" "fst ` set kv = set (inserted_keys g')" by auto
  with t show ?thesis by blast
qed

text \<open>
  C36. The benchmark with \<^verbatim>\<open>--read_ratio=100\<close>, whatever its other flags, reads nothing: the rates of
  \<^verbatim>\<open>put\<close> and \<^verbatim>\<open>remove\<close> are 0, so all three configurations have the accumulated rate 1, the key of one
  entry of the map, and the last of them, \<^verbatim>\<open>remove\<close>, stays.  Whatever allocator the keys are drawn from
  (\<^verbatim>\<open>ZipfianAllocator\<close> by default, or \<^verbatim>\<open>UniformAllocator\<close>), a generated workload is a \<^verbatim>\<open>sync\<close> where
  \<^verbatim>\<open>--sync_every\<close> asks for one, and \<^verbatim>\<open>remove\<close> everywhere else; and with keys drawn uniformly from at
  least one key the generation returns.
\<close>
theorem read_only_bench_deletes:
  assumes "rng_ok R" "rounding_ok (fl R)" "max_value_size < 2 ^ 31" "0 \<le> ratio" "ratio \<le> 1"
  shows "\<exists>g. BenchGenerator R (bench_confs R 100 max_value_size ratio) = Some g \<and>
    (\<forall>A r ts g' r'. rand_tests R A n sync_every g r = Some (ts, g', r') \<longrightarrow> length ts = n \<and>
      (\<forall>i<n. tc_op (ts ! i) = (if sync_every \<noteq> 0 \<and> i mod sync_every = 0 then kSync else kDelete))) \<and>
    (\<forall>max_key r. 1 \<le> max_key \<longrightarrow> rand_tests R (UniformAllocator R max_key) n sync_every g r \<noteq> None)"
proof -
  let ?cs = "bench_confs R 100 max_value_size ratio" and ?op = "\<lambda>i. if sync_every \<noteq> 0 \<and> i mod sync_every = 0 then kSync else kDelete"
  from bench_confs_100 [OF assms(2), of max_value_size ratio] obtain g c where
    g: "BenchGenerator R ?cs = Some g" "acc_prob_to_conf g = [(1, c)]" "oc_op c = kDelete" "total_rate R ?cs = 1"
    "\<forall>c\<in>set ?cs. oc_op c \<noteq> kVisit \<and> key_size_limit c = 8 \<and> value_size_limit c = max_value_size \<and> found_rate c = ratio"
    by blast
  have returns: "rand_tests R (UniformAllocator R max_key) n sync_every g r \<noteq> None" if "1 \<le> max_key" for max_key r
  proof -
    have env: "gen_env R (UniformAllocator R max_key) (\<lambda>k. length k = 8) max_value_size ?cs"
      using assms g(5) uniform_alloc_ok [OF that assms(3) order_refl, of R] by (simp add: gen_env_def conf_ok_def)
    have "kVisit \<notin> oc_op ` set ?cs" "1 \<le> total_rate R ?cs" using g(4,5) by auto
    with rand_tests_total [OF env g(1)] show ?thesis by blast
  qed
  have "length ts = n \<and> (\<forall>i<n. tc_op (ts ! i) = ?op i)" if t: "rand_tests R A n sync_every g r = Some (ts, g', r')"
    for A r ts g' r'
  proof -
    let ?P = "\<lambda>i (ts, g', r' :: 'a). acc_prob_to_conf g' = [(1, c)] \<and> set_ok (inserted_keys g') \<and>
      length ts = i \<and> (\<forall>j<i. tc_op (ts ! j) = ?op j)"
    have "?P n (ts, g', r')"
    proof (rule for_up_returned [OF t [unfolded rand_tests_def], where P = ?P])
      fix i s s'
      assume p: "?P i s" and s': "(case s of (ret, g, r) \<Rightarrow> do {
          (t, g, r) \<leftarrow> rand_test R A sync_every i g r; Some (ret @ [t], g, r) }) = Some s'"
      obtain ts1 g1 r1 where s: "s = (ts1, g1, r1)" by (cases s)
      with s' obtain t1 g2 r2 where t1: "rand_test R A sync_every i g1 r1 = Some (t1, g2, r2)" "s' = (ts1 @ [t1], g2, r2)"
        by (auto simp: bind_eq_Some_conv)
      from p s have i: "acc_prob_to_conf g1 = [(1, c)]" "set_ok (inserted_keys g1)" by simp_all
      from t1(1) obtain c1 r3 where c1: "fill_test R A c1 g1 r3 = Some (t1, g2, r2)"
        "if sync_every \<noteq> 0 \<and> i mod sync_every = 0 then c1 = sync_conf else pick_conf R g1 r1 = Some (c1, r3)"
        by (auto simp: rand_test_def bind_eq_Some_conv split: if_splits)
      with i(1) have "oc_op c1 = ?op i" using g(3)
        by (auto simp: pick_conf_def KVS_Prelude.at_def bind_eq_Some_conv sync_conf_def split: prod.splits if_splits)
      with fill_test_live [OF c1(1) i(2)] p s t1(2) i show "?P (Suc i) s'"
        by (auto simp: nth_append less_Suc_eq split: if_splits)
    qed (use g(2) generator_inv [OF g(1), of "\<lambda>k. True"] in simp_all)
    then show ?thesis by simp
  qed
  with g(1) returns show ?thesis by blast
qed

theorem read_only_bench_deletes_witness:
  "\<exists>g ts g' r'. BenchGenerator sample_rng (bench_confs sample_rng 100 4096 (1 / 5)) = Some g \<and>
    rand_tests sample_rng (UniformAllocator sample_rng 10000) 3 10 g 0 = Some (ts, g', r') \<and> length ts = 3 \<and>
    tc_op (ts ! 0) = kSync \<and> tc_op (ts ! 1) = kDelete \<and> tc_op (ts ! 2) = kDelete"
proof -
  from read_only_bench_deletes [OF sample_rng_ok, of 4096 "1 / 5" 3 10] obtain g where
    g: "BenchGenerator sample_rng (bench_confs sample_rng 100 4096 (1 / 5)) = Some g"
    "\<And>ts g' r'. rand_tests sample_rng (UniformAllocator sample_rng 10000) 3 10 g 0 = Some (ts, g', r') \<Longrightarrow> length ts = 3 \<and>
      (\<forall>i<3. tc_op (ts ! i) = (if (10 :: nat) \<noteq> 0 \<and> i mod 10 = 0 then kSync else kDelete))"
    "rand_tests sample_rng (UniformAllocator sample_rng 10000) 3 10 g 0 \<noteq> None" by fastforce
  from g(3) obtain ts g' r' where t: "rand_tests sample_rng (UniformAllocator sample_rng 10000) 3 10 g 0 = Some (ts, g', r')" by auto
  from g(1) g(2) [OF t] t show ?thesis by force
qed

text \<open>
  C37. The keys of the benchmark are the bytes of a number and hold NUL bytes, which the index cuts
  off when a leaf is split: a warm-up with five keys succeeds, and three of them are not found
  afterwards.
\<close>
theorem bench_keys_lost:
  assumes "5 * (24 + max_value_size div 2) \<le> n"
  shows "\<exists>e s. Engine_ctor path (new_fs n) = Some e \<and>
    warmup engine_iface 5 max_value_size (e, new_fs n) = Some s \<and>
    (\<forall>k\<in>{2, 3, 4}. ie_get engine_iface (to_key k) [] s = Some (kNotFound, []))"
proof -
  let ?v = "replicate (max_value_size div 2) (CHR ''a'')" and ?f = "path @ ''/log''"
  let ?w = "word_of_nat (24 + max_value_size div 2) :: 32 word"
  define off where "off i = (word_of_nat (i * (24 + max_value_size div 2)) :: 32 word)" for i :: nat
  define d where "d i = (scast (off i) :: 64 word)" for i
  from lost_index [of "d 0" "d 1" "d 2" "d 3" "d 4"] obtain t1 t2 t3 t4 t5 r1 r2 r3 r4 r5 where
    t: "BTree_insert (k8 (CHR 0x00)) (d 0) BTree_ctor = Some (r1, t1)"
    "BTree_insert (k8 (CHR 0x01)) (d 1) t1 = Some (r2, t2)"
    "BTree_insert (k8 (CHR 0x02)) (d 2) t2 = Some (r3, t3)"
    "BTree_insert (k8 (CHR 0x03)) (d 3) t3 = Some (r4, t4)"
    "BTree_insert (k8 (CHR 0x04)) (d 4) t4 = Some (r5, t5)"
    and lost: "BTree_search t5 (k8 (CHR 0x02)) = Some (-1)" "BTree_search t5 (k8 (CHR 0x03)) = Some (-1)"
    "BTree_search t5 (k8 (CHR 0x04)) = Some (-1)"
    by (auto simp: bind_eq_Some_conv)
  have size: "rec_size (k8 c) ?v = 24 + max_value_size div 2" for c by (simp add: rec_size_def k8_def)
  have step: "\<exists>fs'. ie_put engine_iface (k8 c) ?v (eng ?f t (off i), fs) = Some (kSucc, eng ?f t' (off (Suc i)), fs') \<and>
      fs_writable fs' \<and> (4 - i) * (24 + max_value_size div 2) \<le> fs_free fs'"
    if "BTree_insert (k8 c) (d i) t = Some (r, t')" "fs_writable fs"
      "(5 - i) * (24 + max_value_size div 2) \<le> fs_free fs" "i < 5" for c i t r t' fs
  proof -
    have "5 - i = Suc (4 - i)" using that(4) by simp
    with that(3) have l: "24 + max_value_size div 2 + (4 - i) * (24 + max_value_size div 2) \<le> fs_free fs" by simp
    have "off (Suc i) = off i + word_of_nat (rec_size (k8 c) ?v)" by (simp only: off_def size) (simp add: algebra_simps)
    with put_step [of "k8 c" "off i" t r t' fs ?v ?f] that(1,2) l show ?thesis
      by (simp add: d_def size length_put_line)
  qed
  have c: "Engine_ctor path (new_fs n) = Some (eng ?f BTree_ctor (off 0))"
    by (simp add: Engine_ctor_def Let_def fs_access_def new_fs_def eng_def off_def)
  from step [OF t(1), of "new_fs n"] assms obtain f1 where
    f1: "ie_put engine_iface (k8 (CHR 0x00)) ?v (eng ?f BTree_ctor (off 0), new_fs n) = Some (kSucc, eng ?f t1 (off 1), f1)"
    "fs_writable f1" "4 * (24 + max_value_size div 2) \<le> fs_free f1" by (auto simp: new_fs_def)
  from step [OF t(2) f1(2)] f1(3) obtain f2 where
    f2: "ie_put engine_iface (k8 (CHR 0x01)) ?v (eng ?f t1 (off 1), f1) = Some (kSucc, eng ?f t2 (off 2), f2)"
    "fs_writable f2" "3 * (24 + max_value_size div 2) \<le> fs_free f2" by (auto simp: numeral_2_eq_2)
  from step [OF t(3) f2(2)] f2(3) obtain f3 where
    f3: "ie_put engine_iface (k8 (CHR 0x02)) ?v (eng ?f t2 (off 2), f2) = Some (kSucc, eng ?f t3 (off 3), f3)"
    "fs_writable f3" "2 * (24 + max_value_size div 2) \<le> fs_free f3" by (auto simp: eval_nat_numeral)
  from step [OF t(4) f3(2)] f3(3) obtain f4 where
    f4: "ie_put engine_iface (k8 (CHR 0x03)) ?v (eng ?f t3 (off 3), f3) = Some (kSucc, eng ?f t4 (off 4), f4)"
    "fs_writable f4" "24 + max_value_size div 2 \<le> fs_free f4" by (auto simp: eval_nat_numeral)
  from step [OF t(5) f4(2)] f4(3) obtain f5 where
    f5: "ie_put engine_iface (k8 (CHR 0x04)) ?v (eng ?f t4 (off 4), f4) = Some (kSucc, eng ?f t5 (off 5), f5)"
    by (auto simp: eval_nat_numeral)
  have keys: "to_key 0 = k8 (CHR 0x00)" "to_key 1 = k8 (CHR 0x01)" "to_key 2 = k8 (CHR 0x02)"
    "to_key 3 = k8 (CHR 0x03)" "to_key 4 = k8 (CHR 0x04)" by (simp_all only: first_keys k8_def)
  have "warmup engine_iface 5 max_value_size (eng ?f BTree_ctor (off 0), new_fs n) = Some (eng ?f t5 (off 5), f5)"
    by (simp add: warmup_def Let_def for_up_5 keys f1(1) f2(1) f3(1) f4(1) f5 del: One_nat_def)
  moreover have "\<forall>k\<in>{2, 3, 4}. ie_get engine_iface (to_key k) [] (eng ?f t5 (off 5), f5) = Some (kNotFound, [])"
    using lost by (simp add: engine_iface_def Engine_get_def eng_def keys)
  ultimately show ?thesis using c by blast
qed

theorem bench_keys_lost_witness:
  "\<exists>e s. Engine_ctor ''d'' (new_fs 1000) = Some e \<and> warmup engine_iface 5 4 (e, new_fs 1000) = Some s \<and>
    ie_get engine_iface (to_key 3) [] s = Some (kNotFound, [])"
  using bench_keys_lost [of 4 1000 "''d''"] by auto

end
