(* ===== verification/Zipf.thy ===== *)
theory Zipf
  imports Bench_Gen
begin

text \<open>
  The generator of skewed numbers of \<^verbatim>\<open>include/util/zipf.h\<close> and its allocator.  A \<^verbatim>\<open>double\<close> is a real
  number, rounded by \<open>f\<close> after each operation; a division by zero, a conversion that is out of range, a
  failed \<^verbatim>\<open>assert\<close> and a loop that does not end are \<open>None\<close>.  The state of a generator is a record
  with the fields of the source.
\<close>

section \<open>State and random numbers\<close>

record zipf_gen_state =
  zn :: "64 word"
  theta :: real
  alpha :: real
  thres :: real
  last_n :: "64 word"
  dbl_n :: real
  zetan :: real
  eta :: real
  rand_state :: "64 word"

definition mehcached_rand_d :: "(real \<Rightarrow> real) \<Rightarrow> 64 word \<Rightarrow> real \<times> 64 word" where
  "mehcached_rand_d f state = (
     let state = and (state * 0x5deece66d + 0xb) (2 ^ 48 - 1) in
     (f (f (real (unat state)) / f (real (2 ^ 48 - 1))), state))"

section \<open>Powers\<close>

text \<open>
  The high half of the IEEE representation of a \<^verbatim>\<open>double\<close> as an \<^verbatim>\<open>int\<close>, and the \<^verbatim>\<open>double\<close> with that high
  half and a low half of zero: \<^verbatim>\<open>u.x[1]\<close> of the union.  An exponent of all ones is infinity or not a
  number.
\<close>

definition double_hi :: "real \<Rightarrow> int" where
  "double_hi x = (let y = \<bar>x\<bar>; e = \<lfloor>log 2 y\<rfloor>; m = (
       if y = 0 then 0
       else if e < - 1022 then \<lfloor>y * 2 powr 1042\<rfloor>
       else (e + 1023) * 2 ^ 20 + \<lfloor>(y / 2 powr e - 1) * 2 ^ 20\<rfloor>) in
     if x < 0 then m - 2 ^ 31 else m)"

definition from_hi :: "int \<Rightarrow> real option" where
  "from_hi h = (let m = h mod 2 ^ 31; e = m div 2 ^ 20; r = real_of_int (m mod 2 ^ 20);
       y = (if e = 0 then r * 2 powr (- 1042) else (1 + r / 2 ^ 20) * 2 powr (e - 1023)) in
     if e = 2047 then None else Some (if h < 0 then - y else y))"

definition to_int :: "real \<Rightarrow> int option" where
  "to_int x = (let i = (if x < 0 then \<lceil>x\<rceil> else \<lfloor>x\<rfloor>) in if - (2 ^ 31) \<le> i \<and> i < 2 ^ 31 then Some i else None)"

text \<open>Exponentiation by squaring; shifting a negative \<^verbatim>\<open>e\<close> never makes it zero.\<close>

fun pow_loop :: "(real \<Rightarrow> real) \<Rightarrow> nat \<Rightarrow> real \<Rightarrow> real \<Rightarrow> real" where
  "pow_loop f e r a = (if e = 0 then r
     else pow_loop f (e div 2) (if odd e then f (r * a) else r) (f (a * a)))"

declare pow_loop.simps [simp del]

definition mehcached_pow_approx :: "(real \<Rightarrow> real) \<Rightarrow> real \<Rightarrow> real \<Rightarrow> real option" where
  "mehcached_pow_approx f a b = do {
     e \<leftarrow> to_int b;
     let d = double_hi a - 1072632447;
     check (- (2 ^ 31) \<le> d);
     x1 \<leftarrow> to_int (f (f (f (b - f (of_int e)) * f (of_int d)) + 1072632447));
     ud \<leftarrow> from_hi x1;
     check (0 \<le> e);
     Some (f (pow_loop f (nat e) 1 a * ud)) }"

definition fdiv :: "(real \<Rightarrow> real) \<Rightarrow> real \<Rightarrow> real \<Rightarrow> real option" where
  "fdiv f x y = (if y = 0 then None else Some (f (x / y)))"

section \<open>Initialisation\<close>

definition mehcached_zipf_init :: "(real \<Rightarrow> real) \<Rightarrow> 64 word \<Rightarrow> real \<Rightarrow> 64 word \<Rightarrow> zipf_gen_state option" where
  "mehcached_zipf_init f n th rand_seed = do {
     check (0 < n);
     check (\<not> (1 \<le> th \<and> th < 40));
     check (th = - 1 \<or> (0 \<le> th \<and> th < 1) \<or> 40 \<le> th);
     check (rand_seed < 2 ^ 48);
     let state = \<lparr>zn = n, theta = th, alpha = 0, thres = 0, last_n = 0, dbl_n = 0, zetan = 0, eta = 0, rand_state = 0\<rparr>;
     (state, rand_seed) \<leftarrow>
       (if th = - 1 then Some (state, rand_seed mod n)
        else if 0 < th \<and> th < 1 then do {
          al \<leftarrow> fdiv f 1 (f (1 - th));
          p \<leftarrow> mehcached_pow_approx f (1 / 2) th;
          Some (state\<lparr>alpha := al, thres := f (1 + p)\<rparr>, rand_seed) }
        else Some (state\<lparr>alpha := 0, thres := 0\<rparr>, rand_seed));
     Some (state\<lparr>last_n := 0, zetan := 0, rand_state := rand_seed\<rparr>) }"

definition mehcached_zipf_init_copy :: "zipf_gen_state \<Rightarrow> 64 word \<Rightarrow> zipf_gen_state option" where
  "mehcached_zipf_init_copy src_state rand_seed = do {
     check (rand_seed < 2 ^ 48);
     Some (src_state\<lparr>rand_state := rand_seed\<rparr>) }"

definition mehcached_zipf_change_n :: "64 word \<Rightarrow> zipf_gen_state \<Rightarrow> zipf_gen_state" where
  "mehcached_zipf_change_n n state = state\<lparr>zn := n\<rparr>"

definition mehcached_zeta :: "(real \<Rightarrow> real) \<Rightarrow> 64 word \<Rightarrow> real \<Rightarrow> 64 word \<Rightarrow> real \<Rightarrow> real option" where
  "mehcached_zeta f from_n last_sum n th = (
     let (from_n, last_sum) = (if n < from_n then (0, 0) else (from_n, last_sum)) in
     for_up (unat from_n) (unat n) (\<lambda>i sum. do {
       p \<leftarrow> mehcached_pow_approx f (f (f (real i) + 1)) th;
       q \<leftarrow> fdiv f 1 p;
       Some (f (sum + q)) }) last_sum)"

section \<open>The next number\<close>

definition zipf_prepare :: "(real \<Rightarrow> real) \<Rightarrow> zipf_gen_state \<Rightarrow> zipf_gen_state option" where
  "zipf_prepare f state = (
     if last_n state \<noteq> zn state then do {
       state \<leftarrow> (if 0 < theta state \<and> theta state < 1 then do {
         z \<leftarrow> mehcached_zeta f (last_n state) (zetan state) (zn state) (theta state);
         let state = state\<lparr>zetan := z\<rparr>;
         x \<leftarrow> fdiv f 2 (f (real (unat (zn state))));
         p \<leftarrow> mehcached_pow_approx f x (f (1 - theta state));
         z2 \<leftarrow> mehcached_zeta f 0 0 2 (theta state);
         q \<leftarrow> fdiv f z2 (zetan state);
         e \<leftarrow> fdiv f (f (1 - p)) (f (1 - q));
         Some (state\<lparr>eta := e\<rparr>) }
       else Some state);
       Some (state\<lparr>last_n := zn state, dbl_n := f (real (unat (zn state)))\<rparr>) }
     else Some state)"

definition mehcached_zipf_next :: "(real \<Rightarrow> real) \<Rightarrow> zipf_gen_state \<Rightarrow> (64 word \<times> zipf_gen_state) option" where
  "mehcached_zipf_next f state = do {
     state \<leftarrow> zipf_prepare f state;
     if theta state = - 1 then
       let v = rand_state state; r = v + 1 in
       Some (v, state\<lparr>rand_state := if zn state \<le> r then 0 else r\<rparr>)
     else if theta state = 0 then do {
       let (u, r) = mehcached_rand_d f (rand_state state);
       x \<leftarrow> to_size (f (dbl_n state * u));
       Some (word_of_nat x, state\<lparr>rand_state := r\<rparr>) }
     else if 40 \<le> theta state then Some (0, state)
     else do {
       let (u, r) = mehcached_rand_d f (rand_state state);
       let state = state\<lparr>rand_state := r\<rparr>;
       let uz = f (u * zetan state);
       if uz < 1 then Some (0, state)
       else if uz < thres state then Some (1, state)
       else do {
         p \<leftarrow> mehcached_pow_approx f (f (f (eta state * f (u - 1)) + 1)) (alpha state);
         x \<leftarrow> to_size (f (dbl_n state * p));
         Some (word_of_nat x, state) } } }"

section \<open>The allocator\<close>

text \<open>
  \<^verbatim>\<open>ZipfianAllocator\<close>: its generator is a part of the state, beside that of the other random numbers.
\<close>

definition ZipfianAllocator :: "'r rng \<Rightarrow> (zipf_gen_state \<times> 'r) rand_allocator" where
  "ZipfianAllocator R = \<lparr>
     alloc_key = (\<lambda>sz (z, r). do {
       check (sz = 8);
       (x, z) \<leftarrow> mehcached_zipf_next (fl R) z;
       Some (size_bytes x, (z, r)) }),
     alloc_value = (\<lambda>sz (z, r). do {
       (v, r) \<leftarrow> gen_rand_value R sz r;
       Some (v, (z, r)) })\<rparr>"

definition ZipfianAllocator_ctor :: "'r rng \<Rightarrow> 32 word \<Rightarrow> 64 word \<Rightarrow> real \<Rightarrow> zipf_gen_state option" where
  "ZipfianAllocator_ctor R seed max_key skewness = mehcached_zipf_init (fl R) max_key skewness (ucast seed)"


section \<open>The test of the generator\<close>

text \<open>
  \<^verbatim>\<open>mehcached_test_zipf\<close>: how many of the samples are 0, and the two printed numbers, where the
  second is printed only for a skew that \<^verbatim>\<open>mehcached_zipf_init\<close> is called with.  \<^verbatim>\<open>pow\<close> is the
  parameter \<open>pw\<close>; the divisors it gives are not 0 as long as no power underflows.
\<close>

definition zipf_key0 :: "(real \<Rightarrow> real) \<Rightarrow> nat \<Rightarrow> zipf_gen_state \<Rightarrow> (nat \<times> zipf_gen_state) option" where
  "zipf_key0 f num_samples state = for_up 0 num_samples (\<lambda>i (num_key0, state). do {
     (x, state) \<leftarrow> mehcached_zipf_next f state;
     Some (if x = 0 then num_key0 + 1 else num_key0, state) }) (0, state)"

definition mehcached_test_zipf :: "(real \<Rightarrow> real) \<Rightarrow> (real \<Rightarrow> real \<Rightarrow> real) \<Rightarrow> real \<Rightarrow> (real \<times> real option) option" where
  "mehcached_test_zipf f pw th = do {
     sum \<leftarrow> for_up 0 1000000 (\<lambda>i sum. do {
       x \<leftarrow> fdiv f 1 (pw (f (real i + 1)) th);
       Some (f (sum + x)) }) 0;
     approx \<leftarrow> (if th < 1 \<or> 40 \<le> th then do {
         state \<leftarrow> mehcached_zipf_init f 1000000 th 0;
         (num_key0, state) \<leftarrow> zipf_key0 f 10000000 state;
         x \<leftarrow> fdiv f (f (real num_key0)) (f 10000000);
         Some (Some x) }
       else Some None);
     x \<leftarrow> fdiv f 1 sum;
     Some (x, approx) }"

section \<open>What is computed\<close>

lemma rand_d_range:
  assumes "rounding_ok f"
  shows "snd (mehcached_rand_d f st) < 2 ^ 48" "0 \<le> fst (mehcached_rand_d f st)" "fst (mehcached_rand_d f st) \<le> 1"
proof -
  define s' where "s' = and (st * 0x5deece66d + 0xb) (2 ^ 48 - 1 :: 64 word)"
  have "s' = take_bit 48 (st * 0x5deece66d + 0xb)" by (simp add: s'_def take_bit_eq_mask mask_eq_exp_minus_1)
  then have "unat s' = take_bit 48 (unat (st * 0x5deece66d + 0xb))" by (simp add: unsigned_take_bit_eq)
  then have u: "unat s' < 2 ^ 48" by (simp only: take_bit_nat_less_exp)
  then show "snd (mehcached_rand_d f st) < 2 ^ 48" by (simp add: mehcached_rand_d_def s'_def word_less_nat_alt Let_def)
  have m: "mono f" using assms by (simp add: rounding_ok_def)
  obtain v where v: "unat s' = v" "v < 2 ^ 48" using u by blast
  have k: "f (real (2 ^ 48 - 1)) = real (2 ^ 48 - 1)" "f (real v) = real v" "f 0 = 0" "f 1 = 1"
    using rounding_nat [OF assms, of "2 ^ 48 - 1"] rounding_nat [OF assms, of v] v(2)
      rounding_nat [OF assms, of 0] rounding_nat [OF assms, of 1] by simp_all
  have d: "fst (mehcached_rand_d f st) = f (real v / real (2 ^ 48 - 1))"
    unfolding mehcached_rand_d_def s'_def [symmetric] Let_def fst_conv v(1) k(1,2) ..
  have "0 \<le> real v / real (2 ^ 48 - 1)" "real v / real (2 ^ 48 - 1) \<le> 1" using v(2) by simp_all
  from monoD [OF m this(1)] monoD [OF m this(2)] show "0 \<le> fst (mehcached_rand_d f st)" "fst (mehcached_rand_d f st) \<le> 1"
    unfolding d k(3,4) by simp_all
qed

text \<open>Without rounding the loop computes a power.\<close>

lemma pow_loop_power: "pow_loop (\<lambda>x. x) e r a = r * a ^ e"
proof (induction "\<lambda>x :: real. x" e r a rule: pow_loop.induct)
  case (1 e r a)
  show ?case
  proof (cases "e = 0")
    case True
    then show ?thesis by (simp add: pow_loop.simps [of _ 0])
  next
    case False
    have "a ^ e = (a * a) ^ (e div 2) * (if odd e then a else 1)"
      by (cases "even e") (auto elim!: evenE oddE simp: power_mult power2_eq_square [symmetric])
    with 1 [OF False] False show ?thesis by (simp add: pow_loop.simps [of _ e])
  qed
qed


text \<open>Arguments \<^verbatim>\<open>mehcached_zipf_init\<close> does not reject, and the states of a generator.\<close>

definition zipf_args_ok :: "64 word \<Rightarrow> real \<Rightarrow> 64 word \<Rightarrow> bool" where
  "zipf_args_ok n th seed \<longleftrightarrow> 0 < n \<and> seed < 2 ^ 48 \<and> (th = - 1 \<or> 0 \<le> th \<and> th < 1 \<or> 40 \<le> th)"

definition zipf_ok :: "(real \<Rightarrow> real) \<Rightarrow> zipf_gen_state \<Rightarrow> bool" where
  "zipf_ok f z \<longleftrightarrow> 0 < zn z \<and> (theta z = - 1 \<or> 0 \<le> theta z \<and> theta z < 1 \<or> 40 \<le> theta z) \<and>
     (if theta z = - 1 then rand_state z < zn z else rand_state z < 2 ^ 48) \<and>
     (last_n z \<noteq> 0 \<longrightarrow> dbl_n z = f (real (unat (last_n z))))"

lemma zipf_init_ok:
  "mehcached_zipf_init f n th seed = Some z \<Longrightarrow> zipf_args_ok n th seed \<and> zipf_ok f z \<and> zn z = n \<and> theta z = th \<and>
    last_n z = 0 \<and> rand_state z = (if th = - 1 then seed mod n else seed)"
  by (auto simp: mehcached_zipf_init_def zipf_args_ok_def zipf_ok_def bind_eq_Some_conv word_mod_less_divisor check_def Let_def
      split: if_splits)

lemma zipf_prepare_ok:
  assumes "zipf_ok f z" "zipf_prepare f z = Some z'"
  shows "zn z' = zn z" "theta z' = theta z" "rand_state z' = rand_state z" "last_n z' = zn z"
    "dbl_n z' = f (real (unat (zn z)))" "zipf_ok f z'"
proof -
  show e: "zn z' = zn z" "theta z' = theta z" "rand_state z' = rand_state z" "last_n z' = zn z"
    "dbl_n z' = f (real (unat (zn z)))"
    using assms by (auto simp: zipf_prepare_def zipf_ok_def bind_eq_Some_conv split: if_splits)
  from assms(1) e show "zipf_ok f z'" by (auto simp: zipf_ok_def split: if_splits)
qed

lemma zipf_prepare_returns:
  "\<not> (0 < theta z \<and> theta z < 1) \<Longrightarrow> zipf_prepare f z \<noteq> None"
  by (auto simp: zipf_prepare_def)

lemma zipf_next_ok:
  assumes "rounding_ok f" "zipf_ok f z" "mehcached_zipf_next f z = Some (x, z')"
  shows "zipf_ok f z'" "zn z' = zn z" "theta z' = theta z"
proof -
  from assms(3) obtain z1 where z1: "zipf_prepare f z = Some z1" by (auto simp: mehcached_zipf_next_def bind_eq_Some_conv)
  note p = zipf_prepare_ok [OF assms(2) z1]
  have r: "snd (mehcached_rand_d f st) < 2 ^ 48" for st by (rule rand_d_range [OF assms(1)])
  have "zipf_ok f z' \<and> zn z' = zn z \<and> theta z' = theta z"
  proof (cases "theta z = - 1")
    case True
    then have "rand_state z1 < zn z1" using p(6) by (simp add: zipf_ok_def p(2))
    moreover from True assms(3) have "z' = z1\<lparr>rand_state := if zn z1 \<le> rand_state z1 + 1 then 0 else rand_state z1 + 1\<rparr>"
      by (auto simp: mehcached_zipf_next_def z1 p(2) Let_def)
    ultimately show ?thesis using p(1,2,6) True by (auto simp: zipf_ok_def)
  next
    case False
    with assms(3) have "z' = z1 \<or> (\<exists>st. z' = z1\<lparr>rand_state := snd (mehcached_rand_d f st)\<rparr>)"
      by (auto simp: mehcached_zipf_next_def z1 p(2) Let_def bind_eq_Some_conv split_beta split: if_splits)
    with r p(1,2,6) False show ?thesis by (auto simp: zipf_ok_def)
  qed
  then show "zipf_ok f z'" "zn z' = zn z" "theta z' = theta z" by simp_all
qed


section \<open>Sequences of numbers\<close>

fun draws :: "('s \<Rightarrow> ('x \<times> 's) option) \<Rightarrow> nat \<Rightarrow> 's \<Rightarrow> ('x list \<times> 's) option" where
  "draws draw 0 s = Some ([], s)"
| "draws draw (Suc k) s = do { (x, s) \<leftarrow> draw s; (xs, s) \<leftarrow> draws draw k s; Some (x # xs, s) }"

text \<open>
  A source of numbers: while it is in order after \<open>i\<close> numbers, it returns one more, of which \<open>out i\<close>
  holds.
\<close>

locale number_source =
  fixes draw :: "'s \<Rightarrow> ('x \<times> 's) option"
    and in_order :: "nat \<Rightarrow> 's \<Rightarrow> bool"
    and out :: "nat \<Rightarrow> 'x \<Rightarrow> bool"
  assumes draw_next: "in_order i s \<Longrightarrow> \<exists>x s'. draw s = Some (x, s') \<and> out i x \<and> in_order (Suc i) s'"
begin

lemma draws_out:
  "in_order i s \<Longrightarrow> \<exists>xs s'. draws draw k s = Some (xs, s') \<and> length xs = k \<and> in_order (i + k) s' \<and>
    (\<forall>j<k. out (i + j) (xs ! j))"
proof (induction k arbitrary: i s)
  case (Suc k)
  from draw_next [OF Suc.prems] obtain x s1 where s1: "draw s = Some (x, s1)" "out i x" "in_order (Suc i) s1" by blast
  from Suc.IH [OF s1(3)] s1(1,2) show ?case by (auto simp: less_Suc_eq_0_disj)
qed simp

end

text \<open>The three kinds of generators that do not compute powers: in turn, uniform, and always zero.\<close>

definition turn_order :: "(real \<Rightarrow> real) \<Rightarrow> 64 word \<Rightarrow> 64 word \<Rightarrow> nat \<Rightarrow> zipf_gen_state \<Rightarrow> bool" where
  "turn_order f n seed i z \<longleftrightarrow> zipf_ok f z \<and> theta z = - 1 \<and> zn z = n \<and>
     unat (rand_state z) = (unat seed + i) mod unat n"

definition flat_order :: "(real \<Rightarrow> real) \<Rightarrow> 64 word \<Rightarrow> nat \<Rightarrow> zipf_gen_state \<Rightarrow> bool" where
  "flat_order f n i z \<longleftrightarrow> rounding_ok f \<and> unat n \<le> 2 ^ 53 \<and> zipf_ok f z \<and> theta z = 0 \<and> zn z = n"

definition zero_order :: "(real \<Rightarrow> real) \<Rightarrow> nat \<Rightarrow> zipf_gen_state \<Rightarrow> bool" where
  "zero_order f i z \<longleftrightarrow> zipf_ok f z \<and> 40 \<le> theta z"

lemma turn_next:
  assumes "turn_order f n seed i z"
  shows "\<exists>x z'. mehcached_zipf_next f z = Some (x, z') \<and> unat x = (unat seed + i) mod unat n \<and> turn_order f n seed (Suc i) z'"
proof -
  from assms have z: "zipf_ok f z" "theta z = - 1" "zn z = n" "unat (rand_state z) = (unat seed + i) mod unat n"
    by (simp_all add: turn_order_def)
  obtain z1 where z1: "zipf_prepare f z = Some z1" using zipf_prepare_returns [of z f] z(2) by auto
  note p = zipf_prepare_ok [OF z(1) z1]
  let ?r = "rand_state z + 1" and ?next = "if zn z \<le> rand_state z + 1 then 0 else rand_state z + 1"
  have less: "unat (rand_state z) < unat n" using z(1,2,3) by (simp add: zipf_ok_def word_less_nat_alt)
  then have r: "unat ?r = Suc (unat (rand_state z))" using unsigned_less [of n, where ?'a = nat] by (simp add: unat_word_ariths)
  have "unat ?next = (unat seed + Suc i) mod unat n"
    using less r z(3,4) by (auto simp: word_le_nat_alt mod_Suc)
  moreover have "zipf_ok f (z1\<lparr>rand_state := ?next\<rparr>)"
    using p(6) z(2) p(1,2) by (auto simp: zipf_ok_def not_le)
  moreover have "mehcached_zipf_next f z = Some (rand_state z, z1\<lparr>rand_state := ?next\<rparr>)"
    using z(2) p(1-3) by (simp add: mehcached_zipf_next_def z1 Let_def)
  ultimately show ?thesis using z(2-4) p(1,2) by (simp add: turn_order_def)
qed

lemma flat_next:
  assumes "flat_order f n i z"
  shows "\<exists>x z'. mehcached_zipf_next f z = Some (x, z') \<and> x \<le> n \<and> flat_order f n (Suc i) z'"
    "fst (mehcached_rand_d f (rand_state z)) = 1 \<Longrightarrow> \<exists>z'. mehcached_zipf_next f z = Some (n, z')"
proof -
  from assms have z: "rounding_ok f" "unat n \<le> 2 ^ 53" "zipf_ok f z" "theta z = 0" "zn z = n"
    by (simp_all add: flat_order_def)
  obtain z1 where z1: "zipf_prepare f z = Some z1" using zipf_prepare_returns [of z f] z(4) by auto
  note p = zipf_prepare_ok [OF z(3) z1]
  obtain u r where u: "mehcached_rand_d f (rand_state z) = (u, r)" by (cases "mehcached_rand_d f (rand_state z)")
  with rand_d_range [OF z(1), of "rand_state z"] have r: "0 \<le> u" "u \<le> 1" by simp_all
  obtain m where m: "unat n = m" by blast
  have fm: "f (real m) = real m" "f 0 = 0" using rounding_nat [OF z(1), of m] rounding_nat [OF z(1), of 0] z(2) m by simp_all
  have "0 \<le> real m * u" "real m * u \<le> real m" using r by (simp_all add: mult_left_le)
  with z(1) have "f 0 \<le> f (real m * u)" "f (real m * u) \<le> f (real m)" by (auto simp: rounding_ok_def dest: monoD)
  with fm have b: "0 \<le> f (real m * u)" "f (real m * u) \<le> real m" by simp_all
  moreover have "real m \<le> 2 ^ 53" using z(2) m by (metis of_nat_le_iff of_nat_numeral of_nat_power)
  ultimately have "f (real m * u) < 2 ^ 64" by (rule_tac le_less_trans [of _ "2 ^ 53"]) simp_all
  with b(1) have t: "to_size (f (real m * u)) = Some (nat \<lfloor>f (real m * u)\<rfloor>)" by (simp add: to_size_def)
  have d: "dbl_n z1 = real m" using p(5) fm(1) unfolding z(5) m by simp
  have n: "mehcached_zipf_next f z = Some (word_of_nat (nat \<lfloor>f (real m * u)\<rfloor>), z1\<lparr>rand_state := r\<rparr>)"
    using z(4) p(1-3) t d by (simp add: mehcached_zipf_next_def z1 Let_def u)
  have "nat \<lfloor>f (real m * u)\<rfloor> \<le> m" using b by (simp add: nat_le_iff floor_le_iff)
  then have "word_of_nat (nat \<lfloor>f (real m * u)\<rfloor>) \<le> n" 
    using m order_trans [OF mod_less_eq_dividend] by (auto simp: word_le_nat_alt unsigned_of_nat take_bit_eq_mod)
  with n zipf_next_ok [OF z(1,3) n] z show "\<exists>x z'. mehcached_zipf_next f z = Some (x, z') \<and> x \<le> n \<and> flat_order f n (Suc i) z'"
    by (simp add: flat_order_def)
  assume "fst (mehcached_rand_d f (rand_state z)) = 1"
  with u have "u = 1" by simp
  with n fm m show "\<exists>z'. mehcached_zipf_next f z = Some (n, z')" by auto
qed

lemma zero_next:
  assumes "zero_order f i z"
  shows "\<exists>x z'. mehcached_zipf_next f z = Some (x, z') \<and> x = 0 \<and> zero_order f (Suc i) z'"
proof -
  from assms have z: "zipf_ok f z" "40 \<le> theta z" by (simp_all add: zero_order_def)
  then obtain z1 where z1: "zipf_prepare f z = Some z1" using zipf_prepare_returns [of z f] by auto
  note p = zipf_prepare_ok [OF z(1) z1]
  from z(2) p(2,6) show ?thesis by (simp add: mehcached_zipf_next_def z1 zero_order_def)
qed

interpretation turn: number_source "mehcached_zipf_next f" "turn_order f n seed" "\<lambda>i x. unat x = (unat seed + i) mod unat n" for f n seed
  by unfold_locales (rule turn_next)

interpretation flat: number_source "mehcached_zipf_next f" "flat_order f n" "\<lambda>i x. x \<le> n" for f n
  by unfold_locales (rule flat_next(1))

interpretation zero: number_source "mehcached_zipf_next f" "zero_order f" "\<lambda>i x. x = 0" for f
  by unfold_locales (rule zero_next)


lemma init_total:
  assumes "zipf_args_ok n th seed" "\<not> (0 < th \<and> th < 1)"
  shows "\<exists>z. mehcached_zipf_init f n th seed = Some z"
  using assms by (auto simp: mehcached_zipf_init_def zipf_args_ok_def Let_def)

lemma draws_ok:
  assumes "rounding_ok f" "zipf_ok f z" "draws (mehcached_zipf_next f) k z = Some (xs, z')"
  shows "zipf_ok f z' \<and> zn z' = zn z \<and> theta z' = theta z \<and> length xs = k"
  using assms(2,3)
proof (induction k arbitrary: z xs)
  case (Suc k)
  from Suc.prems(2) obtain x z1 ys where z1: "mehcached_zipf_next f z = Some (x, z1)"
    "draws (mehcached_zipf_next f) k z1 = Some (ys, z')" "xs = x # ys" by (auto simp: bind_eq_Some_conv)
  note o = zipf_next_ok [OF assms(1) Suc.prems(1) z1(1)]
  from Suc.IH [OF o(1) z1(2)] o(2,3) z1(3) show ?case by simp
qed simp

lemma exact_rounding: "rounding_ok (\<lambda>x. x)"
  by (simp add: rounding_ok_def mono_def)

text \<open>With the largest skews every sample is 0, and the printed frequency is 1.\<close>

lemma zipf_key0_skewed: "zero_order f i z \<Longrightarrow> \<exists>z'. zipf_key0 f k z = Some (k, z') \<and> zero_order f i z'"
proof -
  assume z: "zero_order f i z"
  let ?P = "\<lambda>k (num_key0, state). num_key0 = k \<and> zero_order f i state"
  have "\<exists>s. zipf_key0 f k z = Some s \<and> ?P k s"
    unfolding zipf_key0_def
  proof (rule for_up_inv [where P = ?P])
    fix j and s :: "nat \<times> zipf_gen_state" assume s: "?P j s"
    then obtain q where q: "s = (j, q)" "zero_order f i q" by (cases s) auto
    from zero_next [OF q(2)] obtain q' where "mehcached_zipf_next f q = Some (0, q')" "zero_order f (Suc i) q'" by blast
    then show "\<exists>s'. (case s of (num_key0, state) \<Rightarrow> do { (x, state) \<leftarrow> mehcached_zipf_next f state;
        Some (if x = 0 then num_key0 + 1 else num_key0, state) }) = Some s' \<and> ?P (Suc j) s'"
      by (simp add: q(1) zero_order_def)
  qed (use z in simp_all)
  then show ?thesis by auto
qed

lemma zipf_test_skewed:
  assumes "rounding_ok f" "40 \<le> th" "mehcached_test_zipf f pw th = Some (x, approx)"
  shows "approx = Some 1"
proof -
  have "zipf_args_ok 1000000 th 0" using assms(2) by (simp add: zipf_args_ok_def)
  from init_total [OF this] assms(2) obtain z where z: "mehcached_zipf_init f 1000000 th 0 = Some z" by auto
  then have "zero_order f 0 z" using zipf_init_ok [OF z] assms(2) by (simp add: zero_order_def)
  from zipf_key0_skewed [OF this] obtain z' where "zipf_key0 f 10000000 z = Some (10000000, z')" by blast
  moreover have "f 10000000 = 10000000" "f 1 = 1"
    using rounding_nat [OF assms(1), of 10000000] rounding_nat [OF assms(1), of 1] by simp_all
  ultimately show ?thesis using assms(2,3) z
    by (auto simp: mehcached_test_zipf_def fdiv_def bind_eq_Some_conv split: if_splits)
qed

section \<open>Properties\<close>

text \<open>
  C38. The state of a generator: initialisation succeeds only for a number of items, a skew and a seed
  that are in range, and however many numbers are drawn, with any skew, the state stays one of a
  generator for these arguments: a position below the number of items, or a 48-bit random state.
\<close>
theorem zipf_state_kept:
  assumes "rounding_ok f" "mehcached_zipf_init f n th seed = Some z0"
    and "draws (mehcached_zipf_next f) k z0 = Some (xs, z)"
  shows "zipf_args_ok n th seed \<and> zn z = n \<and> theta z = th \<and> length xs = k \<and>
    (if th = - 1 then rand_state z < n else rand_state z < 2 ^ 48)"
  using zipf_init_ok [OF assms(2)] draws_ok [OF assms(1) _ assms(3)] by (auto simp: zipf_ok_def split: if_splits)

theorem zipf_state_kept_witness:
  "\<exists>z0 xs z. mehcached_zipf_init (\<lambda>x. x) 3 (- 1) 5 = Some z0 \<and>
    draws (mehcached_zipf_next (\<lambda>x. x)) 4 z0 = Some (xs, z) \<and> length xs = 4 \<and> rand_state z < 3"
proof -
  have "zipf_args_ok 3 (- 1) 5" by (simp add: zipf_args_ok_def)
  from init_total [OF this, of "\<lambda>x. x"] obtain z0 where z0: "mehcached_zipf_init (\<lambda>x. x) 3 (- 1) 5 = Some z0" by auto
  have "turn_order (\<lambda>x. x) 3 5 0 z0" using zipf_init_ok [OF z0] by (simp add: turn_order_def unat_mod)
  from turn.draws_out [OF this, of 4] obtain xs z where d: "draws (mehcached_zipf_next (\<lambda>x. x)) 4 z0 = Some (xs, z)" by blast
  from zipf_state_kept [OF exact_rounding z0 d] z0 d show ?thesis by simp
qed

text \<open>
  The numbers of a generator without powers: it always returns; with skew -1 it gives the numbers
  below \<open>n\<close> in turn from the seed on; with skew 0 numbers of at most \<open>n\<close>; from skew 40 on only zeros.
\<close>
theorem zipf_numbers:
  assumes "rounding_ok f" "zipf_args_ok n th seed" "\<not> (0 < th \<and> th < 1)" "unat n \<le> 2 ^ 53"
  shows "\<exists>z0 xs z. mehcached_zipf_init f n th seed = Some z0 \<and> draws (mehcached_zipf_next f) k z0 = Some (xs, z) \<and>
    length xs = k \<and>
    (\<forall>i<k. (th = - 1 \<longrightarrow> unat (xs ! i) = (unat seed + i) mod unat n) \<and> (th = 0 \<longrightarrow> xs ! i \<le> n) \<and> (40 \<le> th \<longrightarrow> xs ! i = 0))"
proof -
  from init_total [OF assms(2,3)] obtain z0 where z0: "mehcached_zipf_init f n th seed = Some z0" by blast
  note i = zipf_init_ok [OF z0]
  from assms(2,3) consider (turn) "th = - 1" | (flat) "th = 0" | (zero) "40 \<le> th"
    by (auto simp: zipf_args_ok_def)
  then show ?thesis
  proof cases
    case turn
    then have "turn_order f n seed 0 z0" using i by (simp add: turn_order_def unat_mod)
    from turn.draws_out [OF this, of k] z0 turn show ?thesis by auto
  next
    case flat
    then have "flat_order f n 0 z0" using i assms(1,4) by (simp add: flat_order_def)
    from flat.draws_out [OF this, of k] z0 flat show ?thesis by auto
  next
    case zero
    then have "zero_order f 0 z0" using i by (simp add: zero_order_def)
    from zero.draws_out [OF this, of k] z0 zero show ?thesis by auto
  qed
qed

theorem zipf_numbers_witness:
  "\<exists>z0 xs z. mehcached_zipf_init (\<lambda>x. x) 10 0 2022 = Some z0 \<and> draws (mehcached_zipf_next (\<lambda>x. x)) 3 z0 = Some (xs, z) \<and>
    length xs = 3 \<and> (\<forall>i<3. xs ! i \<le> 10)"
  using zipf_numbers [OF exact_rounding, of 10 0 2022 3] by (simp add: zipf_args_ok_def)

text \<open>
  The uniform numbers are not below \<open>n\<close>: the random state \<open>2 ^ 48 - 1\<close> is divided by \<open>2 ^ 48 - 1\<close>, and
  the generator then gives \<open>n\<close>, a key outside the \<open>n\<close> keys \<open>0, ..., n - 1\<close>; with this seed at once.
\<close>
theorem zipf_uniform_reaches_n:
  assumes "rounding_ok f" "0 < n" "unat n \<le> 2 ^ 53"
  shows "\<exists>z z'. mehcached_zipf_init f n 0 142368275371844 = Some z \<and> mehcached_zipf_next f z = Some (n, z')"
proof -
  have "zipf_args_ok n 0 142368275371844" using assms(2) by (simp add: zipf_args_ok_def)
  from init_total [OF this] obtain z where z: "mehcached_zipf_init f n 0 142368275371844 = Some z" by auto
  have r: "rand_state z = 142368275371844" "flat_order f n 0 z"
    using zipf_init_ok [OF z] assms(1,3) by (simp_all add: flat_order_def)
  have s: "and (142368275371844 * 0x5deece66d + 0xb) (2 ^ 48 - 1) = (281474976710655 :: 64 word)" by simp
  have "f 281474976710655 = 281474976710655" "f 1 = 1"
    using rounding_nat [OF assms(1), of 281474976710655] rounding_nat [OF assms(1), of 1] by simp_all
  then have "fst (mehcached_rand_d f (rand_state z)) = 1"
    unfolding mehcached_rand_d_def r(1) s Let_def by simp
  from flat_next(2) [OF r(2) this] z show ?thesis by blast
qed

theorem zipf_uniform_reaches_n_witness:
  "\<exists>z z'. mehcached_zipf_init (\<lambda>x. x) 10000 0 142368275371844 = Some z \<and> mehcached_zipf_next (\<lambda>x. x) z = Some (10000, z')"
  by (rule zipf_uniform_reaches_n [OF exact_rounding]) simp_all

end
