(* ===== verification/Bench_Threads.thy ===== *)
theory Bench_Threads
  imports Bench Zipf
begin

text \<open>
  \<^verbatim>\<open>bench_kv\<close> in \<^verbatim>\<open>bench/bench.cpp\<close>: the flags it accepts, the test cases it generates for each thread,
  and the threads.  Each takes batches from a shared atomic counter and executes them from its own vector of test cases.  An operation of the engine is one step; it
  is atomic by the linearizability of the engine.
\<close>

section \<open>Flags and test cases\<close>

text \<open>The \<^verbatim>\<open>CHECK\<close>s of \<^verbatim>\<open>main\<close>.\<close>

definition main_checks :: "nat \<Rightarrow> string \<Rightarrow> real \<Rightarrow> real \<Rightarrow> unit option" where
  "main_checks read_ratio kvdir zip_para overwrite_ratio = do {
     check (0 \<le> read_ratio);
     check (read_ratio \<le> 100);
     check (kvdir \<noteq> []);
     check (0 \<le> zip_para);
     check (zip_para \<le> 2);
     check (0 \<le> overwrite_ratio);
     check (overwrite_ratio \<le> 1) }"

text \<open>The random numbers of the generator, beside the state of a Zipfian allocator.\<close>

definition beside :: "'r rng \<Rightarrow> ('z \<times> 'r) rng" where
  "beside R = \<lparr>
     draw_int = (\<lambda>lo hi (z, r). let (x, r) = draw_int R lo hi r in (x, (z, r))),
     draw_dbl = (\<lambda>lo hi (z, r). let (x, r) = draw_dbl R lo hi r in (x, (z, r))),
     draw_r = (\<lambda>(z, r). let (x, r) = draw_r R r in (x, (z, r))),
     fl = fl R\<rparr>"

text \<open>The test cases of one thread, and of all.\<close>

definition thread_tests :: "'r rng \<Rightarrow> bool \<Rightarrow> 32 word \<Rightarrow> 64 word \<Rightarrow> real \<Rightarrow> nat \<Rightarrow> nat \<Rightarrow> real \<Rightarrow> nat \<Rightarrow> nat \<Rightarrow> 'r \<Rightarrow>
    (test_case list \<times> 'r) option" where
  "thread_tests R is_skew rand_seed max_key zip_para read_ratio max_value_size overwrite_ratio test_nr sync_every r = (
     let confs = bench_confs R read_ratio max_value_size overwrite_ratio in
     if is_skew then do {
       z \<leftarrow> ZipfianAllocator_ctor R rand_seed max_key zip_para;
       g \<leftarrow> BenchGenerator (beside R :: (zipf_gen_state \<times> 'r) rng) confs;
       (ts, g, (z, r)) \<leftarrow> rand_tests (beside R) (ZipfianAllocator R) test_nr sync_every g (z, r);
       Some (ts, r) }
     else do {
       g \<leftarrow> BenchGenerator R confs;
       (ts, g, r) \<leftarrow> rand_tests R (UniformAllocator R (unat max_key)) test_nr sync_every g r;
       Some (ts, r) })"

definition all_tests :: "'r rng \<Rightarrow> nat \<Rightarrow> bool \<Rightarrow> 32 word \<Rightarrow> 64 word \<Rightarrow> real \<Rightarrow> nat \<Rightarrow> nat \<Rightarrow> real \<Rightarrow> nat \<Rightarrow> nat \<Rightarrow> 'r \<Rightarrow>
    (test_case list list \<times> 'r) option" where
  "all_tests R thread_nr is_skew rand_seed max_key zip_para read_ratio max_value_size overwrite_ratio test_nr sync_every r =
     for_up 0 thread_nr (\<lambda>i (test_cases, r). do {
       (ts, r) \<leftarrow> thread_tests R is_skew rand_seed max_key zip_para read_ratio max_value_size overwrite_ratio test_nr sync_every r;
       Some (test_cases @ [ts], r) }) ([], r)"

section \<open>Steps\<close>

text \<open>
  \<open>WLoop r\<close>: at the head of the loop with \<^verbatim>\<open>remain_task_nr = r\<close>.  \<open>WRun j l c\<close>: within
  \<^verbatim>\<open>executor.execute\<close> for a batch of \<open>c\<close>, before test \<open>j\<close> of those below \<open>l\<close>.  \<open>WSub c\<close>: before
  \<^verbatim>\<open>fetch_sub\<close>.  \<open>WLoad c\<close>: before the counter is loaded again and \<^verbatim>\<open>cur_idx\<close> moved.
\<close>

datatype wphase = WStart | WLoop "64 word" | WRun nat nat "64 word" | WSub "64 word" | WLoad "64 word" | WDone

record 'e bench_state =
  task_nr :: "64 word"
  b_eng :: 'e
  cur_idx :: "nat \<Rightarrow> 64 word"
  b_ph :: "nat \<Rightarrow> wphase"

text \<open>\<^verbatim>\<open>std::min\<close> on \<^verbatim>\<open>int64_t\<close>.\<close>

definition batch_of :: "64 word \<Rightarrow> 64 word \<Rightarrow> 64 word" where
  "batch_of remain batch = (if sint batch < sint remain then batch else remain)"

text \<open>
  What thread \<open>i\<close> does next, with the tests it executes by it; \<open>None\<close> if it has ended or a \<^verbatim>\<open>CHECK\<close>
  fails.
\<close>

definition worker_step :: "'e iengine \<Rightarrow> (nat \<Rightarrow> test_case list) \<Rightarrow> 64 word \<Rightarrow> nat \<Rightarrow> 'e bench_state \<Rightarrow>
    (nat list \<times> 'e bench_state) option" where
  "worker_step en tests batch i s = (let goto = (\<lambda>p s. s\<lparr>b_ph := (b_ph s)(i := p)\<rparr>) in
     case b_ph s i of
       WStart \<Rightarrow> Some ([], goto (WLoop (task_nr s)) s)
     | WLoop remain \<Rightarrow>
         if 0 < sint remain then
           (let c = batch_of remain batch; idx = cur_idx s i in
            Some ([], goto (WRun (unat idx) (min (length (tests i)) (unat (idx + c))) c) s))
         else Some ([], goto WDone s)
     | WRun j l c \<Rightarrow>
         if j < l then do {
           t \<leftarrow> vat (tests i) j;
           e \<leftarrow> execute_case en t (b_eng s);
           Some ([j], goto (WRun (j + 1) l c) (s\<lparr>b_eng := e\<rparr>)) }
         else Some ([], goto (WSub c) s)
     | WSub c \<Rightarrow> Some ([], goto (WLoad c) (s\<lparr>task_nr := task_nr s - c\<rparr>))
     | WLoad c \<Rightarrow> Some ([], goto (WLoop (task_nr s)) (s\<lparr>cur_idx := (cur_idx s)(i := cur_idx s i + c)\<rparr>))
     | WDone \<Rightarrow> None)"

text \<open>
  The runs of \<open>threads\<close> threads: \<open>n\<close> steps, and the tests that were executed, each with its thread.
\<close>

definition bench_start :: "64 word \<Rightarrow> 'e \<Rightarrow> 'e bench_state" where
  "bench_start test_nr e = \<lparr>task_nr = test_nr, b_eng = e, cur_idx = (\<lambda>i. 0), b_ph = (\<lambda>i. WStart)\<rparr>"

inductive bench_run :: "'e iengine \<Rightarrow> (nat \<Rightarrow> test_case list) \<Rightarrow> 64 word \<Rightarrow> nat \<Rightarrow> 'e bench_state \<Rightarrow>
    nat \<Rightarrow> (nat \<times> nat) list \<Rightarrow> 'e bench_state \<Rightarrow> bool"
  for en tests batch threads s0 where
  none: "bench_run en tests batch threads s0 0 [] s0"
| step: "bench_run en tests batch threads s0 n tr s \<Longrightarrow> i < threads \<Longrightarrow>
    worker_step en tests batch i s = Some (js, s') \<Longrightarrow>
    bench_run en tests batch threads s0 (n + 1) (tr @ map (\<lambda>j. (i, j)) js) s'"

section \<open>The invariant\<close>

text \<open>
  Of a thread: the tests whose number it has subtracted, those it is bound to subtract, and those
  it has executed.
\<close>

definition taken :: "'e bench_state \<Rightarrow> nat \<Rightarrow> int" where
  "taken s i = uint (cur_idx s i) + (case b_ph s i of WLoad c \<Rightarrow> sint c | _ \<Rightarrow> 0)"

definition bound :: "64 word \<Rightarrow> wphase \<Rightarrow> int" where
  "bound batch p = (case p of WLoop r \<Rightarrow> if 0 < sint r then sint (batch_of r batch) else 0
     | WRun j l c \<Rightarrow> sint c | WSub c \<Rightarrow> sint c | _ \<Rightarrow> 0)"

definition executed :: "'e bench_state \<Rightarrow> nat \<Rightarrow> int" where
  "executed s i = (case b_ph s i of WRun j l c \<Rightarrow> int j | WSub c \<Rightarrow> uint (cur_idx s i) + sint c
     | WLoad c \<Rightarrow> uint (cur_idx s i) + sint c | _ \<Rightarrow> uint (cur_idx s i))"

definition phase_fits :: "int \<Rightarrow> 64 word \<Rightarrow> 'e bench_state \<Rightarrow> nat \<Rightarrow> bool" where
  "phase_fits n batch s i = (let x = uint (cur_idx s i) in x \<le> n \<and> (case b_ph s i of
       WStart \<Rightarrow> x = 0
     | WLoop r \<Rightarrow> sint (task_nr s) \<le> sint r \<and> (0 < sint r \<longrightarrow> x + sint r \<le> n)
     | WRun j l c \<Rightarrow> 0 < sint c \<and> sint c \<le> sint batch \<and> x \<le> int j \<and> j \<le> l \<and> int l = x + sint c \<and> x + sint c \<le> n
     | WSub c \<Rightarrow> 0 < sint c \<and> sint c \<le> sint batch \<and> x + sint c \<le> n
     | WLoad c \<Rightarrow> 0 < sint c \<and> sint c \<le> sint batch \<and> x + sint c \<le> n
     | WDone \<Rightarrow> sint (task_nr s) \<le> 0))"

text \<open>An upper bound for the steps a thread has left.\<close>

definition steps_left :: "int \<Rightarrow> 'e bench_state \<Rightarrow> nat \<Rightarrow> int" where
  "steps_left n s i = (let x = uint (cur_idx s i) in case b_ph s i of
       WStart \<Rightarrow> 5 * n + 2
     | WLoop r \<Rightarrow> 5 * (n - x) + 1
     | WRun j l c \<Rightarrow> 5 * (n - x - sint c) + 4 + int (l - j)
     | WSub c \<Rightarrow> 5 * (n - x - sint c) + 3
     | WLoad c \<Rightarrow> 5 * (n - x - sint c) + 2
     | WDone \<Rightarrow> 0)"

lemma sint_sub:
  fixes a b :: "64 word"
  assumes "- (2 ^ 63) \<le> sint a - sint b" "sint a - sint b < 2 ^ 63"
  shows "sint (a - b) = sint a - sint b"
  using assms by (simp add: sint_word_ariths signed_take_bit_int_eq_self)

lemma sint_pos: "0 \<le> sint (c :: 64 word) \<Longrightarrow> sint c = uint c"
  using sint_lt [of c] by (simp add: uint_sint take_bit_int_eq_self)

lemma nat_sint: "0 \<le> sint (c :: 64 word) \<Longrightarrow> nat (sint c) = unat c"
  by (simp add: sint_pos)

lemma uint_add:
  fixes a c :: "64 word"
  assumes "0 < sint c" "uint a + sint c < 2 ^ 64"
  shows "uint (a + c) = uint a + sint c" "int (unat (a + c)) = uint a + sint c"
proof -
  show "uint (a + c) = uint a + sint c"
    using sint_pos [of c] assms by (simp add: uint_word_ariths)
  then show "int (unat (a + c)) = uint a + sint c" by simp
qed

lemma batch_of_min: "sint (batch_of r b) = min (sint r) (sint b)"
  by (simp add: batch_of_def min_def)

text \<open>One step of a thread, as far as it concerns the thread and the counter.\<close>

lemma upto_map_int: "map int [0..<nat m] = [0..m - 1]"
  by (rule nth_equalityI) simp_all

lemma local_step:
  assumes "worker_step en tests batch i s = Some (js, s')" "phase_fits n batch s i" "length (tests i) = nat n"
    and "0 < sint batch" "n < 2 ^ 63" "sint (task_nr s) \<le> n - taken s i" "- (2 ^ 63) \<le> sint (task_nr s) - bound batch (b_ph s i)"
  shows "phase_fits n batch s' i" "sint (task_nr s') \<le> sint (task_nr s)"
    "taken s' i - taken s i = sint (task_nr s) - sint (task_nr s')"
    "sint (task_nr s') - bound batch (b_ph s' i) = sint (task_nr s) - bound batch (b_ph s i) \<or>
      task_nr s' = task_nr s \<and> bound batch (b_ph s' i) \<le> max 0 (sint (task_nr s))"
    "map int js = [executed s i..executed s' i - 1]" "0 \<le> executed s i" "executed s i \<le> executed s' i"
    "steps_left n s' i < steps_left n s i" "\<And>j. j \<noteq> i \<Longrightarrow> cur_idx s' j = cur_idx s j \<and> b_ph s' j = b_ph s j"
proof -
  note d = worker_step_def phase_fits_def taken_def bound_def executed_def steps_left_def Let_def
  let ?P = "phase_fits n batch s' i \<and> sint (task_nr s') \<le> sint (task_nr s) \<and>
    taken s' i - taken s i = sint (task_nr s) - sint (task_nr s') \<and>
    (sint (task_nr s') - bound batch (b_ph s' i) = sint (task_nr s) - bound batch (b_ph s i) \<or>
      task_nr s' = task_nr s \<and> bound batch (b_ph s' i) \<le> max 0 (sint (task_nr s))) \<and>
    map int js = [executed s i..executed s' i - 1] \<and> 0 \<le> executed s i \<and> executed s i \<le> executed s' i \<and>
    steps_left n s' i < steps_left n s i"
  have "?P"
  proof (cases "b_ph s i")
    case WStart
    with assms show ?thesis by (auto simp: d batch_of_min)
  next
    case (WLoop r)
    show ?thesis
    proof (cases "0 < sint r")
      case True
      let ?c = "batch_of r batch"
      have c: "0 < sint ?c" "sint ?c \<le> sint batch" "uint (cur_idx s i) + sint ?c \<le> n"
        using True assms(2,4) WLoop by (auto simp: d batch_of_min)
      have "int (unat (cur_idx s i + ?c)) = int (unat (cur_idx s i)) + sint ?c"
        using uint_add(2) [OF c(1)] c(3) assms(5) by simp
      then have "unat (cur_idx s i + ?c) = unat (cur_idx s i) + nat (sint ?c)" using c(1) by linarith
      moreover have "unat (cur_idx s i) + nat (sint ?c) \<le> nat n" 
      proof -
        have "int (unat (cur_idx s i)) + sint ?c \<le> n" using c(3) by simp
        then show ?thesis using c(1) by linarith
      qed
      ultimately have "min (length (tests i)) (unat (cur_idx s i + ?c)) = unat (cur_idx s i) + nat (sint ?c)"
        using assms(3) by simp
      with c assms(1,2,3) True WLoop show ?thesis by (auto simp: d)
    next
      case False
      with assms WLoop show ?thesis by (auto simp: d)
    qed
  next
    case (WRun j l c)
    with assms show ?thesis by (auto simp: d bind_eq_Some_conv split: if_splits)
  next
    case (WSub c)
    have "sint (task_nr s - c) = sint (task_nr s) - sint c"
      using assms(2,7) WSub sint_lt [of "task_nr s"] by (intro sint_sub) (auto simp: d)
    with assms WSub show ?thesis by (auto simp: d)
  next
    case (WLoad c)
    with assms uint_add(1) [of c "cur_idx s i"] show ?thesis by (auto simp: d batch_of_min)
  next
    case WDone
    with assms(1) show ?thesis by (simp add: d)
  qed
  then show "phase_fits n batch s' i" "sint (task_nr s') \<le> sint (task_nr s)"
    "taken s' i - taken s i = sint (task_nr s) - sint (task_nr s')"
    "sint (task_nr s') - bound batch (b_ph s' i) = sint (task_nr s) - bound batch (b_ph s i) \<or>
      task_nr s' = task_nr s \<and> bound batch (b_ph s' i) \<le> max 0 (sint (task_nr s))"
    "map int js = [executed s i..executed s' i - 1]" "0 \<le> executed s i" "executed s i \<le> executed s' i"
    "steps_left n s' i < steps_left n s i" by simp_all
  show "cur_idx s' j = cur_idx s j \<and> b_ph s' j = b_ph s j" if "j \<noteq> i" for j
    using assms(1) that by (auto simp: d bind_eq_Some_conv split: wphase.splits if_splits)
qed


lemma bound_nonneg: "0 < sint batch \<Longrightarrow> phase_fits n batch s i \<Longrightarrow> 0 \<le> bound batch (b_ph s i)"
  by (auto simp: bound_def phase_fits_def batch_of_min Let_def split: wphase.splits)

lemma bound_batch: "0 < sint batch \<Longrightarrow> phase_fits n batch s i \<Longrightarrow> bound batch (b_ph s i) \<le> sint batch"
  by (auto simp: bound_def phase_fits_def batch_of_min Let_def split: wphase.splits)

lemma taken_nonneg: "phase_fits n batch s i \<Longrightarrow> 0 \<le> taken s i"
  by (auto simp: taken_def phase_fits_def Let_def split: wphase.splits)

lemma executed_le: "0 < sint batch \<Longrightarrow> phase_fits n batch s i \<Longrightarrow> executed s i \<le> n \<and> executed s i \<le> taken s i + bound batch (b_ph s i)"
  by (auto simp: executed_def taken_def bound_def phase_fits_def batch_of_min Let_def split: wphase.splits)

lemma fits_other:
  assumes "phase_fits n batch s j" "cur_idx s' j = cur_idx s j \<and> b_ph s' j = b_ph s j" "sint (task_nr s') \<le> sint (task_nr s)"
  shows "phase_fits n batch s' j"
  using assms by (auto simp: phase_fits_def Let_def split: wphase.splits)

lemma same_other:
  assumes "cur_idx s' j = cur_idx s j \<and> b_ph s' j = b_ph s j"
  shows "taken s' j = taken s j" "executed s' j = executed s j" "steps_left n s' j = steps_left n s j"
  using assms by (auto simp: taken_def executed_def steps_left_def split: wphase.splits)

lemma sum_change:
  fixes f g :: "nat \<Rightarrow> int"
  assumes "i < m" "\<And>j. j \<noteq> i \<Longrightarrow> g j = f j"
  shows "(\<Sum>j<m. g j) = (\<Sum>j<m. f j) - f i + g i"
proof -
  have "(\<Sum>j\<in>{..<m} - {i}. g j) = (\<Sum>j\<in>{..<m} - {i}. f j)" using assms(2) by (intro sum.cong) auto
  then show ?thesis using assms(1) by (simp add: sum.remove [of "{..<m}" i])
qed

lemma bound_change:
  assumes "i < m" "\<And>j. j < m \<Longrightarrow> phase_fits n batch s j" "0 < sint batch"
    and "\<And>j. j \<noteq> i \<Longrightarrow> cur_idx s' j = cur_idx s j \<and> b_ph s' j = b_ph s j"
    and "(1 - int m) * sint batch \<le> sint t - (\<Sum>j<m. bound batch (b_ph s j))"
    and "sint t' - bound batch (b_ph s' i) = sint t - bound batch (b_ph s i) \<or>
      t' = t \<and> bound batch (b_ph s' i) \<le> max 0 (sint t)"
  shows "(1 - int m) * sint batch \<le> sint t' - (\<Sum>j<m. bound batch (b_ph s' j))"
proof -
  have c: "(\<Sum>j<m. bound batch (b_ph s' j)) = (\<Sum>j<m. bound batch (b_ph s j)) - bound batch (b_ph s i) + bound batch (b_ph s' i)"
    using assms(1,4) by (intro sum_change) simp_all
  from assms(6) show ?thesis
  proof
    assume "sint t' - bound batch (b_ph s' i) = sint t - bound batch (b_ph s i)"
    with assms(5) c show ?thesis by simp
  next
    assume *: "t' = t \<and> bound batch (b_ph s' i) \<le> max 0 (sint t)"
    have "(\<Sum>j<m. bound batch (b_ph s j)) - bound batch (b_ph s i) = (\<Sum>j\<in>{..<m} - {i}. bound batch (b_ph s j))"
      using assms(1) by (simp add: sum.remove [of "{..<m}" i])
    also have "\<dots> \<le> (\<Sum>j\<in>{..<m} - {i}. sint batch)"
      by (rule sum_mono) (auto intro!: bound_batch [OF assms(3) assms(2)])
    also have "\<dots> = (int m - 1) * sint batch" using assms(1) by (simp add: of_nat_diff)
    finally have "(\<Sum>j<m. bound batch (b_ph s j)) - bound batch (b_ph s i) \<le> (int m - 1) * sint batch" .
    moreover have "0 \<le> bound batch (b_ph s i)" by (rule bound_nonneg [OF assms(3) assms(2) [OF assms(1)]])
    ultimately show ?thesis using * c assms(5) by (cases "0 \<le> sint t") (simp_all add: left_diff_distrib)
  qed
qed

definition bench_inv :: "int \<Rightarrow> 64 word \<Rightarrow> nat \<Rightarrow> nat \<Rightarrow> (nat \<times> nat) list \<Rightarrow> 'e bench_state \<Rightarrow> bool" where
  "bench_inv n batch threads k tr s \<longleftrightarrow>
     (\<forall>i<threads. phase_fits n batch s i \<and> map (int \<circ> snd) (filter (\<lambda>x. fst x = i) tr) = [0..executed s i - 1]) \<and>
     int (length tr) = (\<Sum>i<threads. executed s i) \<and>
     sint (task_nr s) = n - (\<Sum>i<threads. taken s i) \<and>
     (1 - int threads) * sint batch \<le> sint (task_nr s) - (\<Sum>i<threads. bound batch (b_ph s i)) \<and>
     int k + (\<Sum>i<threads. steps_left n s i) \<le> int threads * (5 * n + 2)"

lemma bench_inv_step:
  assumes inv: "bench_inv n batch threads k tr s" and i: "i < threads"
    and st: "worker_step en tests batch i s = Some (js, s')" "length (tests i) = nat n"
    and b: "0 < sint batch" "n + int threads * sint batch < 2 ^ 63"
  shows "bench_inv n batch threads (k + 1) (tr @ map (\<lambda>j. (i, j)) js) s'"
proof -
  have fits: "phase_fits n batch s j" if "j < threads" for j using inv that by (simp add: bench_inv_def)
  have "taken s i \<le> (\<Sum>j<threads. taken s j)"
    using i by (intro member_le_sum) (auto intro!: taken_nonneg [OF fits])
  then have t: "sint (task_nr s) \<le> n - taken s i" using inv by (simp add: bench_inv_def)
  have "bound batch (b_ph s i) \<le> (\<Sum>j<threads. bound batch (b_ph s j))"
    using i by (intro member_le_sum) (auto intro!: bound_nonneg [OF b(1) fits])
  then have "(1 - int threads) * sint batch \<le> sint (task_nr s) - bound batch (b_ph s i)"
    using inv by (simp add: bench_inv_def)
  moreover have n0: "0 \<le> n" using fits [OF i] by (simp add: phase_fits_def Let_def) (meson order_trans uint_ge_0)
  moreover have "0 \<le> int threads * sint batch" using b(1) by simp
  moreover have "(1 - int threads) * sint batch = sint batch - int threads * sint batch" by (simp add: left_diff_distrib)
  ultimately have u: "- (2 ^ 63) \<le> sint (task_nr s) - bound batch (b_ph s i)" "n < 2 ^ 63"
    using b by linarith+
  note l = local_step [OF st(1) fits [OF i] st(2) b(1) u(2) t u(1)]
  note o = same_other [OF l(9)]
  have "phase_fits n batch s' j \<and>
    map (int \<circ> snd) (filter (\<lambda>x. fst x = j) (tr @ map (\<lambda>j. (i, j)) js)) = [0..executed s' j - 1]" if j: "j < threads" for j
  proof (cases "j = i")
    case True
    have "[0..executed s' i - 1] = [0..executed s i - 1] @ [executed s i..executed s' i - 1]"
      using l(6,7) upto_split1 [of 0 "executed s i" "executed s' i - 1"] by (cases "executed s i = executed s' i") simp_all
    with l(1,5) inv i True show ?thesis by (simp add: bench_inv_def comp_def filter_map)
  next
    case False
    with fits_other [OF fits [OF j] l(9) l(2)] o(2) [OF False] inv j show ?thesis
      by (simp add: bench_inv_def comp_def filter_map)
  qed
  moreover have "int (length js) = executed s' i - executed s i"
    using arg_cong [where f = length, OF l(5)] l(7) by simp
  then have "int (length (tr @ map (\<lambda>j. (i, j)) js)) = (\<Sum>i<threads. executed s' i)"
    using inv sum_change [OF i, of "executed s'" "executed s"] o(2) by (simp add: bench_inv_def)
  moreover have "sint (task_nr s') = n - (\<Sum>i<threads. taken s' i)"
    using inv l(3) sum_change [OF i, of "taken s'" "taken s"] o(1) by (simp add: bench_inv_def)
  moreover have "int (k + 1) + (\<Sum>i<threads. steps_left n s' i) \<le> int threads * (5 * n + 2)"
    using inv l(8) sum_change [OF i, of "steps_left n s'" "steps_left n s"] o(3) by (simp add: bench_inv_def)
  moreover have "(1 - int threads) * sint batch \<le> sint (task_nr s') - (\<Sum>i<threads. bound batch (b_ph s' i))"
    by (rule bound_change [OF i fits b(1) l(9) _ l(4)]) (use inv in \<open>simp_all add: bench_inv_def\<close>)
  ultimately show ?thesis by (simp add: bench_inv_def)
qed


lemma bench_inv_start:
  assumes "0 \<le> sint test_nr" "0 < threads" "0 < sint batch"
  shows "bench_inv (sint test_nr) batch threads 0 [] (bench_start test_nr e)"
proof -
  have "(1 - int threads) * sint batch \<le> 0" using assms(2,3) by (simp add: mult_nonpos_nonneg)
  with assms(1) show ?thesis
    by (simp add: bench_inv_def bench_start_def phase_fits_def executed_def taken_def bound_def steps_left_def)
qed

lemma bench_run_inv:
  assumes "bench_run en tests batch threads (bench_start test_nr e) k tr s" "0 < threads" "0 < sint batch"
    and "0 \<le> sint test_nr" "sint test_nr + int threads * sint batch < 2 ^ 63"
    and "\<forall>i<threads. length (tests i) = unat test_nr"
  shows "bench_inv (sint test_nr) batch threads k tr s"
  using assms(1)
proof (induction rule: bench_run.induct)
  case none
  show ?case by (rule bench_inv_start [OF assms(4,2,3)])
next
  case (step k tr s i js s')
  with nat_sint [OF assms(4)] bench_inv_step [OF step.IH step.hyps(2,3)] assms(3,5,6) step.hyps(2) show ?case by simp
qed

section \<open>The vectors of the threads\<close>

lemma thread_tests_length:
  fixes R :: "'r rng"
  assumes "thread_tests R sk seed mk zp rr mv ov n sy r = Some (ts, r')"
  shows "length ts = n"
proof (cases sk)
  case True
  with assms obtain z g g' s where "BenchGenerator (beside R :: (zipf_gen_state \<times> 'r) rng) (bench_confs R rr mv ov) = Some g"
    "rand_tests (beside R) (ZipfianAllocator R) n sy g z = Some (ts, g', s)"
    by (auto simp: thread_tests_def Let_def bind_eq_Some_conv)
  then show ?thesis using rand_tests_live generator_inv [of _ _ _ "\<lambda>k. True"] by fastforce
next
  case False
  with assms obtain g g' s where "BenchGenerator R (bench_confs R rr mv ov) = Some g"
    "rand_tests R (UniformAllocator R (unat mk)) n sy g r = Some (ts, g', s)"
    by (auto simp: thread_tests_def Let_def bind_eq_Some_conv)
  then show ?thesis using rand_tests_live generator_inv [of _ _ _ "\<lambda>k. True"] by fastforce
qed

lemma all_tests_lengths:
  assumes "all_tests R t sk seed mk zp rr mv ov n sy r = Some (tss, r')"
  shows "length tss = t \<and> (\<forall>ts\<in>set tss. length ts = n)"
proof -
  let ?P = "\<lambda>i (tss :: test_case list list, r :: 'a). length tss = i \<and> (\<forall>ts\<in>set tss. length ts = n)"
  have "?P t (tss, r')"
  proof (rule for_up_returned [OF assms [unfolded all_tests_def], where P = ?P])
    fix i s s'
    assume p: "?P i s" and s': "(case s of (test_cases, r) \<Rightarrow> do {
        (ts, r) \<leftarrow> thread_tests R sk seed mk zp rr mv ov n sy r; Some (test_cases @ [ts], r) }) = Some s'"
    obtain tss r where s: "s = (tss, r)" by (cases s)
    with s' obtain ts r' where "thread_tests R sk seed mk zp rr mv ov n sy r = Some (ts, r')" "s' = (tss @ [ts], r')"
      by (auto simp: bind_eq_Some_conv)
    with thread_tests_length [OF this(1)] p s show "?P (Suc i) s'" by simp
  qed simp_all
  then show ?thesis by simp
qed

section \<open>A run\<close>

text \<open>Two threads with two tests each, which do nothing, in batches of one.\<close>

definition two_noops :: "nat \<Rightarrow> test_case list" where
  "two_noops i = [blank_test kNoOp, blank_test kNoOp]"

definition idle_store :: store where
  "idle_store = (\<lparr>log_filename = ''d/log'', eng_btree = BTree_ctor, log_offset = 0\<rparr>, new_fs 100)"

lemma two_threads_run:
  "\<exists>s. bench_run engine_iface two_noops 1 2 (bench_start 2 idle_store) 6 [(0, 0), (1, 0)] s"
proof -
  let ?e = idle_store
  let ?s = "\<lambda>p q. \<lparr>task_nr = 2, b_eng = ?e, cur_idx = (\<lambda>i. 0), b_ph = (\<lambda>i. WStart)(0 := p, 1 := q)\<rparr>"
  let ?run = "\<lambda>n tr s. bench_run engine_iface two_noops 1 2 (bench_start 2 ?e) n tr s"
  have one: "sint (1 :: 64 word) = 1" "sint (2 :: 64 word) = 2" "unat (1 :: 64 word) = 1" by simp_all
  note d = worker_step_def batch_of_def two_noops_def fun_upd_twist eval_nat_numeral
  have "?run 0 [] (?s WStart WStart)" using bench_run.none [of engine_iface two_noops 1 2 "bench_start 2 ?e"]
    by (simp add: bench_start_def fun_upd_idem)
  from bench_run.step [OF this, of 0 "[]" "?s (WLoop 2) WStart"]
  have "?run 1 [] (?s (WLoop 2) WStart)" by (simp add: d)
  from bench_run.step [OF this, of 1 "[]" "?s (WLoop 2) (WLoop 2)"]
  have "?run 2 [] (?s (WLoop 2) (WLoop 2))" by (simp add: d)
  from bench_run.step [OF this, of 0 "[]" "?s (WRun 0 1 1) (WLoop 2)"]
  have "?run 3 [] (?s (WRun 0 1 1) (WLoop 2))" by (simp add: d one)
  from bench_run.step [OF this, of 1 "[]" "?s (WRun 0 1 1) (WRun 0 1 1)"]
  have "?run 4 [] (?s (WRun 0 1 1) (WRun 0 1 1))" by (simp add: d one)
  from bench_run.step [OF this, of 0 "[0]" "?s (WRun 1 1 1) (WRun 0 1 1)"]
  have "?run 5 [(0, 0)] (?s (WRun 1 1 1) (WRun 0 1 1))"
    by (simp add: d KVS_Prelude.at_def execute_case_def blank_test_def)
  from bench_run.step [OF this, of 1 "[0]" "?s (WRun 1 1 1) (WRun 1 1 1)"]
  have "?run 6 [(0, 0), (1, 0)] (?s (WRun 1 1 1) (WRun 1 1 1))"
    by (simp add: d KVS_Prelude.at_def execute_case_def blank_test_def)
  then show ?thesis by blast
qed

section \<open>The summary\<close>

text \<open>
  The numbers \<^verbatim>\<open>bench_kv\<close> logs at its end.  \<^verbatim>\<open>ns / FLAGS_test_nr\<close> divides integers, which has no result
  for no tests.
\<close>

definition bench_summary :: "'r rng \<Rightarrow> nat \<Rightarrow> nat \<Rightarrow> nat \<Rightarrow> (real \<times> real \<times> real) option" where
  "bench_summary R test_nr thread_nr ns = do {
     ops \<leftarrow> fdiv (fl R) (fl R (1000000000 * fl R (real test_nr))) (fl R (real ns));
     ops_thread \<leftarrow> fdiv (fl R) ops (fl R (real thread_nr));
     check (test_nr \<noteq> 0);
     let avg_lat = fl R (real (ns div test_nr));
     Some (ops, ops_thread, avg_lat) }"

lemma bench_summary_needs_tests: "bench_summary R 0 thread_nr ns = None"
  by (cases "fdiv (fl R) (fl R (1000000000 * fl R (real 0))) (fl R (real ns))") (simp_all add: bench_summary_def check_def bind_eq_None_conv)

section \<open>Properties\<close>

text \<open>
  \<^verbatim>\<open>main\<close> does not check \<^verbatim>\<open>--execute_batch\<close>.  With 0 every thread goes round its loop without a test, and
  none ever ends; with a negative number the first batch of a thread is its whole vector.
\<close>

lemma bench_zero_batch_never_ends:
  assumes "bench_run en tests 0 threads (bench_start test_nr e) k tr s" "0 < sint test_nr" "i < threads"
  shows "tr = [] \<and> b_ph s i \<noteq> WDone \<and> worker_step en tests 0 i s \<noteq> None"
proof -
  define idle where "idle = {WStart, WLoop test_nr, WRun 0 0 0, WSub 0, WLoad 0}"
  have b: "batch_of test_nr 0 = 0" using assms(2) by (simp add: batch_of_def)
  have st: "js = [] \<and> task_nr s' = test_nr \<and> cur_idx s' = (\<lambda>i. 0) \<and> (\<forall>i. b_ph s' i \<in> idle)"
    if "worker_step en tests 0 j s = Some (js, s')" "task_nr s = test_nr" "cur_idx s = (\<lambda>i. 0)" "\<forall>i. b_ph s i \<in> idle"
    for j js s s'
  proof -
    from that(4) have "b_ph s j \<in> idle" by blast
    then consider "b_ph s j = WStart" | "b_ph s j = WLoop test_nr" | "b_ph s j = WRun 0 0 0" | "b_ph s j = WSub 0" |
      "b_ph s j = WLoad 0" by (auto simp: idle_def)
    then have "js = [] \<and> task_nr s' = test_nr \<and> cur_idx s' = (\<lambda>i. 0) \<and> (\<exists>p\<in>idle. b_ph s' = (b_ph s)(j := p))"
      using that(1-3) assms(2) by cases (auto simp: worker_step_def Let_def idle_def b fun_upd_idem)
    with that(4) show ?thesis by auto
  qed
  have "tr = [] \<and> task_nr s = test_nr \<and> cur_idx s = (\<lambda>i. 0) \<and> (\<forall>i. b_ph s i \<in> idle)"
    using assms(1)
  proof (induction rule: bench_run.induct)
    case none
    then show ?case by (simp add: bench_start_def idle_def)
  next
    case (step n tr s i js s')
    then show ?case using st [OF step.hyps(3)] by simp
  qed
  then have "tr = []" "b_ph s i \<in> idle" by blast+
  then show ?thesis using assms(2) by (auto simp: idle_def worker_step_def Let_def)
qed

lemma bench_negative_batch_whole_vector:
  assumes "b_ph s i = WLoop r" "0 < sint r" "sint batch < 0" "cur_idx s i = 0" "length (tests i) < 2 ^ 63"
  shows "worker_step en tests batch i s = Some ([], s\<lparr>b_ph := (b_ph s)(i := WRun 0 (length (tests i)) batch)\<rparr>)"
proof -
  have "2 ^ 63 \<le> int (unat batch)"
  proof (rule ccontr)
    assume "\<not> 2 ^ 63 \<le> int (unat batch)"
    moreover have "- (2 ^ 63) \<le> uint batch" by (rule order_trans [OF _ uint_ge_0]) simp
    ultimately have "sint batch = uint batch" by (simp add: sint_uint signed_take_bit_int_eq_self)
    with assms(3) show False by simp
  qed
  then have "int (length (tests i)) \<le> int (unat batch)" using assms(5) by simp
  then have "length (tests i) \<le> unat batch" by (simp only: of_nat_le_iff)
  then show ?thesis using assms by (simp add: worker_step_def batch_of_def Let_def min_def)
qed

text \<open>
  C26. The division of work among the threads, for a positive \<^verbatim>\<open>--execute_batch\<close>, at least one thread, and
  \<^verbatim>\<open>--test_nr\<close> plus a batch for each thread below 2^63: every thread executes the tests of its own vector
  of \<^verbatim>\<open>--test_nr\<close> tests in order, each once, and never one outside the vector; together they execute at
  most one batch per other thread more than \<^verbatim>\<open>--test_nr\<close>; and when all have ended, they have executed at
  least that many.  (\<^verbatim>\<open>main\<close> checks none of these flags.)
\<close>
theorem bench_threads_divide_work:
  assumes "bench_run en tests batch threads (bench_start test_nr e) k tr s" "0 < threads" "0 < sint batch"
    and "0 \<le> sint test_nr" "sint test_nr + int threads * sint batch < 2 ^ 63"
    and "\<forall>i<threads. length (tests i) = unat test_nr"
  shows "(\<forall>i<threads. \<exists>m\<le>unat test_nr. map snd (filter (\<lambda>x. fst x = i) tr) = [0..<m]) \<and>
    int (length tr) \<le> sint test_nr + (int threads - 1) * sint batch \<and>
    ((\<forall>i<threads. b_ph s i = WDone) \<longrightarrow> sint test_nr \<le> int (length tr))"
proof -
  from bench_run_inv [OF assms] have inv: "bench_inv (sint test_nr) batch threads k tr s" .
  then have f: "phase_fits (sint test_nr) batch s i" if "i < threads" for i using that by (simp add: bench_inv_def)
  note le = executed_le [OF assms(3) f]
  note nat = nat_sint [OF assms(4)]
  have "\<exists>m\<le>unat test_nr. map snd (filter (\<lambda>x. fst x = i) tr) = [0..<m]" if i: "i < threads" for i
  proof -
    have "map int (map snd (filter (\<lambda>x. fst x = i) tr)) = [0..executed s i - 1]" using inv i by (simp add: bench_inv_def)
    also have "\<dots> = map int [0..<nat (executed s i)]" by (simp add: upto_map_int)
    finally have "map snd (filter (\<lambda>x. fst x = i) tr) = [0..<nat (executed s i)]" by (simp add: inj_map_eq_map del: map_map)
    with le [OF i] nat show ?thesis by (metis nat_mono)
  qed
  moreover have "int (length tr) \<le> (\<Sum>i<threads. taken s i + bound batch (b_ph s i))"
    using inv le by (auto simp: bench_inv_def intro!: sum_mono)
  then have "int (length tr) \<le> sint test_nr + (int threads - 1) * sint batch"
    using inv by (simp add: bench_inv_def sum.distrib left_diff_distrib)
  moreover have "sint test_nr \<le> int (length tr)" if "\<forall>i<threads. b_ph s i = WDone"
  proof -
    have "sint (task_nr s) \<le> 0" using f [OF assms(2)] that assms(2) by (simp add: phase_fits_def Let_def)
    moreover have "(\<Sum>i<threads. executed s i) = (\<Sum>i<threads. taken s i)"
      using that by (intro sum.cong) (auto simp: executed_def taken_def)
    ultimately show ?thesis using inv by (simp add: bench_inv_def)
  qed
  ultimately show ?thesis by blast
qed

theorem bench_threads_divide_work_witness:
  "\<exists>s. bench_run engine_iface two_noops 1 2 (bench_start 2 idle_store) 6 [(0, 0), (1, 0)] s \<and>
    (\<exists>m\<le>2. map snd (filter (\<lambda>x. fst x = 0) [(0 :: nat, 0 :: nat), (1, 0)]) = [0..<m])"
proof -
  from two_threads_run obtain s where
    r: "bench_run engine_iface two_noops 1 2 (bench_start 2 idle_store) 6 [(0, 0), (1, 0)] s" by blast
  have "\<forall>i<2. \<exists>m\<le>unat (2 :: 64 word). map snd (filter (\<lambda>x. fst x = i) [(0 :: nat, 0 :: nat), (1, 0)]) = [0..<m]"
    by (rule conjunct1 [OF bench_threads_divide_work [OF r]]) (simp_all add: two_noops_def)
  from this [rule_format, of 0] r show ?thesis by auto
qed

text \<open>
  C27. The benchmark ends, for a positive \<^verbatim>\<open>--execute_batch\<close>, at least one thread, and \<^verbatim>\<open>--test_nr\<close> plus a
  batch for each thread below 2^63: no run of the threads has more than \<open>5 * test_nr + 2\<close> steps for each
  of them, and as long as one has not ended it can take a step, unless a \<^verbatim>\<open>CHECK\<close> of its next test fails.
  (With \<^verbatim>\<open>--execute_batch=0\<close>, which \<^verbatim>\<open>main\<close> does not refuse, none ever ends:
  \<open>bench_zero_batch_never_ends\<close>.)
\<close>
theorem bench_threads_end:
  assumes "bench_run en tests batch threads (bench_start test_nr e) k tr s" "0 < threads" "0 < sint batch"
    and "0 \<le> sint test_nr" "sint test_nr + int threads * sint batch < 2 ^ 63"
    and "\<forall>i<threads. length (tests i) = unat test_nr"
  shows "int k \<le> int threads * (5 * sint test_nr + 2) \<and>
    (\<forall>i<threads. b_ph s i = WDone \<or> worker_step en tests batch i s \<noteq> None \<or>
      (\<exists>j l c. b_ph s i = WRun j l c \<and> j < length (tests i) \<and> execute_case en (tests i ! j) (b_eng s) = None))"
proof -
  from bench_run_inv [OF assms] have inv: "bench_inv (sint test_nr) batch threads k tr s" .
  then have f: "phase_fits (sint test_nr) batch s i" if "i < threads" for i using that by (simp add: bench_inv_def)
  note nat = nat_sint [OF assms(4)]
  have "0 \<le> steps_left (sint test_nr) s i" if "i < threads" for i
    using f [OF that] assms(4) by (auto simp: steps_left_def phase_fits_def Let_def split: wphase.splits)
  then have "0 \<le> (\<Sum>i<threads. steps_left (sint test_nr) s i)" by (intro sum_nonneg) simp
  then have "int k \<le> int threads * (5 * sint test_nr + 2)" using inv by (simp add: bench_inv_def)
  moreover have "b_ph s i = WDone \<or> worker_step en tests batch i s \<noteq> None \<or>
      (\<exists>j l c. b_ph s i = WRun j l c \<and> j < length (tests i) \<and> execute_case en (tests i ! j) (b_eng s) = None)"
    if i: "i < threads" for i
  proof (cases "b_ph s i")
    case (WRun j l c)
    have "int l \<le> sint test_nr" using f [OF i] WRun by (simp add: phase_fits_def Let_def)
    then have "l \<le> length (tests i)" using assms(6) i nat by simp
    then show ?thesis
      by (cases "execute_case en (tests i ! j) (b_eng s)") (auto simp: worker_step_def WRun KVS_Prelude.at_def Let_def)
  qed (simp_all add: worker_step_def Let_def)
  ultimately show ?thesis by blast
qed

theorem bench_threads_end_witness:
  "\<exists>s. bench_run engine_iface two_noops 1 2 (bench_start 2 idle_store) 6 [(0, 0), (1, 0)] s \<and>
    (b_ph s 1 = WDone \<or> worker_step engine_iface two_noops 1 1 s \<noteq> None \<or>
     (\<exists>j l c. b_ph s 1 = WRun j l c \<and> execute_case engine_iface (two_noops 1 ! j) (b_eng s) = None))"
proof -
  from two_threads_run obtain s where
    r: "bench_run engine_iface two_noops 1 2 (bench_start 2 idle_store) 6 [(0, 0), (1, 0)] s" by blast
  from bench_threads_end [OF r] have "\<forall>i<2. b_ph s i = WDone \<or> worker_step engine_iface two_noops 1 i s \<noteq> None \<or>
     (\<exists>j l c. b_ph s i = WRun j l c \<and> j < length (two_noops i) \<and> execute_case engine_iface (two_noops i ! j) (b_eng s) = None)"
    by (simp add: two_noops_def)
  from this [rule_format, of 1] r show ?thesis by auto
qed

text \<open>
  Flags that \<^verbatim>\<open>main\<close> accepts and the benchmark does not survive: with a skew \<^verbatim>\<open>--zip_para\<close> of 1 to 2,
  and with no key at all, the construction of the first Zipfian allocator fails an \<^verbatim>\<open>assert\<close>.
\<close>
theorem bench_skew_aborts:
  assumes "1 \<le> zip_para \<and> zip_para \<le> 2 \<or> 0 \<le> zip_para \<and> zip_para \<le> 2 \<and> max_key = 0"
    and "read_ratio \<le> 100" "kvdir \<noteq> []" "0 \<le> overwrite_ratio" "overwrite_ratio \<le> 1" "0 < thread_nr"
  shows "main_checks read_ratio kvdir zip_para overwrite_ratio = Some () \<and>
    all_tests R thread_nr True seed max_key zip_para read_ratio mv overwrite_ratio n sync_every r = None"
proof -
  have "mehcached_zipf_init (fl R) max_key zip_para (ucast seed) = None"
    using assms(1) by (auto simp: mehcached_zipf_init_def)
  then have "all_tests R thread_nr True seed max_key zip_para read_ratio mv overwrite_ratio n sync_every r = None"
    using assms(6) by (simp add: all_tests_def for_up_step thread_tests_def ZipfianAllocator_ctor_def Let_def)
  with assms show ?thesis by (auto simp: main_checks_def)
qed

theorem bench_skew_aborts_witness:
  "main_checks 80 ''d'' (3 / 2) (1 / 5) = Some () \<and>
    all_tests sample_rng 8 True 2022 10000 (3 / 2) 80 4096 (1 / 5) 100000 10 0 = None"
  by (rule bench_skew_aborts) simp_all

end
