(* ===== verification/Mock_Storage.thy ===== *)
theory Mock_Storage
  imports KVS_Prelude
begin

text \<open>
  The in-memory files of \<^verbatim>\<open>include/mock_persister.h\<close>: a \<^verbatim>\<open>FileStorage\<close> has the bytes in memory
  and the bytes on disk, a \<^verbatim>\<open>File\<close> is a handle with a cursor, a \<^verbatim>\<open>FilePool\<close> maps paths to
  storages.  Storages are shared by their handles, so they live in a heap and outlive the
  path they were opened by.  Each operation runs under the lock of its object and is one
  step.  A copy outside a buffer, a null storage and a thrown exception are \<open>None\<close>.
\<close>

section \<open>Storages\<close>

record storage =
  in_memory :: string
  on_disk :: string
  file_size :: nat

definition new_storage :: storage where
  "new_storage = \<lparr>in_memory = [], on_disk = [], file_size = 0\<rparr>"

text \<open>
  \<^verbatim>\<open>FileStorage::do_write\<close>: both vectors grow with zero bytes, the copy goes to memory.  A
  negative position makes the sum a huge \<^verbatim>\<open>size_t\<close> or the copy start in front of the buffer.
\<close>

definition do_write :: "int \<Rightarrow> string \<Rightarrow> storage \<Rightarrow> (int \<times> storage) option" where
  "do_write position buf s =
     (if position < 0 then None else
      let p = nat position; size_at_least = p + length buf;
          s = (if file_size s < size_at_least
               then s\<lparr>in_memory := resize (in_memory s) size_at_least (CHR 0x00),
                      on_disk := resize (on_disk s) size_at_least (CHR 0x00),
                      file_size := size_at_least\<rparr>
               else s)
      in if length (in_memory s) < size_at_least then None
         else Some (int (length buf),
           s\<lparr>in_memory := take p (in_memory s) @ buf @ drop (p + length buf) (in_memory s)\<rparr>))"

definition do_read :: "int \<Rightarrow> nat \<Rightarrow> storage \<Rightarrow> (int \<times> string) option" where
  "do_read position count s =
     (if position \<ge> int (file_size s) then Some (0, [])
      else if position < 0 then None
      else let p = nat position; n = min count (file_size s - p)
           in if length (in_memory s) < p + n then None
              else Some (int n, take n (drop p (in_memory s))))"

definition storage_fsync :: "storage \<Rightarrow> int \<times> storage" where
  "storage_fsync s = (0, s\<lparr>on_disk := in_memory s\<rparr>)"

definition storage_append :: "string \<Rightarrow> storage \<Rightarrow> (int \<times> storage) option" where
  "storage_append buf s = do_write (int (file_size s)) buf s"

definition storage_crash :: "storage \<Rightarrow> storage" where
  "storage_crash s = s\<lparr>in_memory := on_disk s\<rparr>"

section \<open>The pool and its handles\<close>

record mfile =
  fd :: int
  path_name :: string
  file_storage :: nat
  closed :: bool
  append_mode :: bool
  cursor :: int

text \<open>\<open>file_storages\<close> holds addresses in \<open>storages\<close>; the address 0 is a null pointer.\<close>

record pool =
  directory :: string
  allocated_fd :: nat
  file_storages :: "string \<rightharpoonup> nat"
  storages :: "nat \<rightharpoonup> storage"
  storage_brk :: nat

definition FilePool_ctor :: "string \<Rightarrow> pool option" where
  "FilePool_ctor dir =
     (if dir = [] then None
      else Some \<lparr>directory = (if last dir \<noteq> CHR ''/'' then dir @ ''/'' else dir), allocated_fd = 3,
        file_storages = Map.empty, storages = Map.empty, storage_brk = 1\<rparr>)"

definition mk_file :: "int \<Rightarrow> string \<Rightarrow> nat \<Rightarrow> mfile" where
  "mk_file f path a = \<lparr>fd = f, path_name = path, file_storage = a, closed = False,
     append_mode = False, cursor = 0\<rparr>"

definition FilePool_open ::
    "string \<Rightarrow> bool \<Rightarrow> bool \<Rightarrow> bool \<Rightarrow> pool \<Rightarrow> (mfile \<times> pool) option" where
  "FilePool_open pathname o_trunc o_append o_creat P = (
     let actual_path = directory P @ pathname;
         P = (case file_storages P actual_path of
                Some a \<Rightarrow> if o_trunc then P\<lparr>storages := (storages P)(a \<mapsto> new_storage)\<rparr> else P
              | None \<Rightarrow> P)
     in case file_storages P actual_path of
          None \<Rightarrow>
            if o_creat then
              let a = storage_brk P;
                  P = P\<lparr>file_storages := (file_storages P)(actual_path \<mapsto> a),
                        storages := (storages P)(a \<mapsto> new_storage), storage_brk := Suc a\<rparr>
              in Some ((mk_file (int (allocated_fd P)) actual_path a)\<lparr>append_mode := o_append\<rparr>,
                       P\<lparr>allocated_fd := Suc (allocated_fd P)\<rparr>)
            else Some (mk_file (-1) actual_path 0, P)
        | Some a \<Rightarrow> do {
            s \<leftarrow> storages P a;
            Some ((mk_file (int (allocated_fd P)) actual_path a)\<lparr>append_mode := o_append,
                     cursor := (if o_append then int (file_size s) else 0)\<rparr>,
                  P\<lparr>allocated_fd := Suc (allocated_fd P)\<rparr>) })"

text \<open>The path is looked up through \<^verbatim>\<open>pathname()\<close>, a C string.\<close>

definition FilePool_unlink :: "mfile \<Rightarrow> pool \<Rightarrow> int \<times> pool" where
  "FilePool_unlink f P =
     (if file_storages P (c_str (path_name f)) \<noteq> None
      then (0, P\<lparr>file_storages := (file_storages P)(c_str (path_name f) := None)\<rparr>)
      else (-1, P))"

definition File_valid :: "mfile \<Rightarrow> bool" where
  "File_valid f = (fd f > 0 \<and> \<not> closed f)"

definition put_storage :: "nat \<Rightarrow> storage \<Rightarrow> pool \<Rightarrow> pool" where
  "put_storage a s P = P\<lparr>storages := (storages P)(a \<mapsto> s)\<rparr>"

definition File_write :: "string \<Rightarrow> mfile \<Rightarrow> pool \<Rightarrow> (int \<times> mfile \<times> pool) option" where
  "File_write buf f P =
     (if fd f \<le> 0 \<or> closed f then Some (-1, f, P)
      else do {
        s \<leftarrow> storages P (file_storage f);
        if append_mode f then do {
          (ret, s) \<leftarrow> storage_append buf s;
          Some (ret, f, put_storage (file_storage f) s P) }
        else do {
          (ret, s) \<leftarrow> do_write (cursor f) buf s;
          Some (ret, f\<lparr>cursor := cursor f + ret\<rparr>, put_storage (file_storage f) s P) } })"

definition File_read :: "nat \<Rightarrow> mfile \<Rightarrow> pool \<Rightarrow> (int \<times> string \<times> mfile) option" where
  "File_read count f P =
     (if fd f \<le> 0 \<or> closed f then Some (-1, [], f)
      else if append_mode f then Some (0, [], f)
      else do {
        s \<leftarrow> storages P (file_storage f);
        (ret, buf) \<leftarrow> do_read (cursor f) count s;
        Some (ret, buf, f\<lparr>cursor := cursor f + ret\<rparr>) })"

datatype whence = SEEK_SET | SEEK_CUR | SEEK_END | SEEK_OTHER

definition File_lseek :: "int \<Rightarrow> whence \<Rightarrow> mfile \<Rightarrow> pool \<Rightarrow> (int \<times> mfile) option" where
  "File_lseek off w f P = (case w of
       SEEK_SET \<Rightarrow> Some (off, f\<lparr>cursor := off\<rparr>)
     | SEEK_CUR \<Rightarrow> Some (cursor f + off, f\<lparr>cursor := cursor f + off\<rparr>)
     | SEEK_END \<Rightarrow> do {
         s \<leftarrow> storages P (file_storage f);
         Some (int (file_size s) + off, f\<lparr>cursor := int (file_size s) + off\<rparr>) }
     | SEEK_OTHER \<Rightarrow> Some (-1, f))"

definition File_close :: "mfile \<Rightarrow> int \<times> mfile" where
  "File_close f = (0, f\<lparr>closed := True\<rparr>)"

section \<open>Storages as arrays of bytes\<close>

definition storage_ok :: "storage \<Rightarrow> bool" where
  "storage_ok s \<longleftrightarrow> length (in_memory s) = file_size s \<and> length (on_disk s) = file_size s"

definition byte_of :: "string \<Rightarrow> nat \<Rightarrow> char" where
  "byte_of xs i = (if i < length xs then xs ! i else CHR 0x00)"

lemma length_resize [simp]: "length (resize xs n x) = n"
  by (simp add: resize_def)

lemma byte_of_resize: "length xs \<le> n \<Longrightarrow> byte_of (resize xs n (CHR 0x00)) i = byte_of xs i"
  by (auto simp: byte_of_def resize_def nth_append)

lemma byte_of_splice:
  "p + length buf \<le> length xs \<Longrightarrow> byte_of (take p xs @ buf @ drop (p + length buf) xs) i =
     (if p \<le> i \<and> i < p + length buf then buf ! (i - p) else byte_of xs i)"
  by (auto simp: byte_of_def nth_append min_def)

lemma do_write_correct:
  assumes "storage_ok s" "0 \<le> pos"
  shows "\<exists>s'. do_write pos buf s = Some (int (length buf), s') \<and> storage_ok s' \<and>
    file_size s' = max (file_size s) (nat pos + length buf) \<and>
    (\<forall>i. byte_of (in_memory s') i = (if nat pos \<le> i \<and> i < nat pos + length buf then buf ! (i - nat pos)
      else byte_of (in_memory s) i)) \<and>
    (\<forall>i. byte_of (on_disk s') i = byte_of (on_disk s) i)"
proof -
  define s1 where "s1 = (if file_size s < nat pos + length buf
    then s\<lparr>in_memory := resize (in_memory s) (nat pos + length buf) (CHR 0x00),
      on_disk := resize (on_disk s) (nat pos + length buf) (CHR 0x00), file_size := nat pos + length buf\<rparr> else s)"
  have s1: "storage_ok s1" "file_size s1 = max (file_size s) (nat pos + length buf)"
    "\<forall>i. byte_of (in_memory s1) i = byte_of (in_memory s) i"
    "\<forall>i. byte_of (on_disk s1) i = byte_of (on_disk s) i"
    using assms(1) by (auto simp: s1_def storage_ok_def byte_of_resize)
  let ?s' = "s1\<lparr>in_memory := take (nat pos) (in_memory s1) @ buf @ drop (nat pos + length buf) (in_memory s1)\<rparr>"
  have l: "nat pos + length buf \<le> length (in_memory s1)" using s1(1,2) by (simp add: storage_ok_def)
  then have "do_write pos buf s = Some (int (length buf), ?s')"
    using assms(2) by (simp add: do_write_def s1_def [symmetric] Let_def)
  moreover have "storage_ok ?s'" using s1(1) l by (simp add: storage_ok_def)
  ultimately show ?thesis using s1 byte_of_splice [OF l] by auto
qed

lemma do_read_correct:
  assumes "storage_ok s" "0 \<le> pos"
  shows "do_read pos count s = Some (int (length (take count (drop (nat pos) (in_memory s)))),
    take count (drop (nat pos) (in_memory s)))"
  using assms by (auto simp: do_read_def storage_ok_def Let_def min_def nat_le_iff nat_less_iff)

section \<open>Reachable pools\<close>

definition pool_ok :: "pool \<Rightarrow> bool" where
  "pool_ok P \<longleftrightarrow> 0 < storage_brk P \<and> 3 \<le> allocated_fd P \<and> (\<forall>a s. storages P a = Some s \<longrightarrow> 0 < a \<and> a < storage_brk P) \<and>
     (\<forall>path a. file_storages P path = Some a \<longrightarrow> storages P a \<noteq> None) \<and>
     (\<forall>a s. storages P a = Some s \<longrightarrow> storage_ok s)"

definition handle_ok :: "pool \<Rightarrow> mfile \<Rightarrow> bool" where
  "handle_ok P f \<longleftrightarrow> fd f < int (allocated_fd P) \<and> (0 < fd f \<longrightarrow> storages P (file_storage f) \<noteq> None)"

text \<open>
  A pool and its open handles under all operations, with any arguments.  \<^verbatim>\<open>lseek\<close> checks nothing, so
  a cursor can become negative; \<open>transfers\<close> says when a read or write through a handle is possible.
\<close>

definition transfers :: "mfile \<Rightarrow> bool" where
  "transfers f \<longleftrightarrow> \<not> File_valid f \<or> append_mode f \<or> 0 \<le> cursor f"

inductive mock_reach :: "pool \<Rightarrow> mfile list \<Rightarrow> bool" where
  made: "FilePool_ctor dir = Some P \<Longrightarrow> mock_reach P []"
| opened: "mock_reach P fs \<Longrightarrow> FilePool_open path t a c P = Some (f, P') \<Longrightarrow> mock_reach P' (f # fs)"
| unlinked: "mock_reach P fs \<Longrightarrow> f \<in> set fs \<Longrightarrow> FilePool_unlink f P = (r, P') \<Longrightarrow> mock_reach P' fs"
| written: "mock_reach P (fs @ f # gs) \<Longrightarrow> File_write buf f P = Some (r, f', P') \<Longrightarrow> mock_reach P' (fs @ f' # gs)"
| was_read: "mock_reach P (fs @ f # gs) \<Longrightarrow> File_read n f P = Some (r, buf, f') \<Longrightarrow> mock_reach P (fs @ f' # gs)"
| seeked: "mock_reach P (fs @ f # gs) \<Longrightarrow> File_lseek off w f P = Some (r, f') \<Longrightarrow>
    mock_reach P (fs @ f' # gs)"
| was_closed: "mock_reach P (fs @ f # gs) \<Longrightarrow> File_close f = (r, f') \<Longrightarrow> mock_reach P (fs @ f' # gs)"

lemma new_storage_ok [simp]: "storage_ok new_storage"
  by (simp add: storage_ok_def new_storage_def)

lemma pool_ok_put:
  "pool_ok P \<Longrightarrow> storages P a \<noteq> None \<Longrightarrow> storage_ok s \<Longrightarrow> pool_ok (put_storage a s P)"
  unfolding pool_ok_def put_storage_def by (auto split: if_splits)

lemma handle_ok_put: "handle_ok P f \<Longrightarrow> handle_ok (put_storage a s P) f"
  by (auto simp: handle_ok_def put_storage_def)

lemma open_ok:
  assumes "pool_ok P" "FilePool_open path t a c P = Some (f, P')"
  shows "pool_ok P' \<and> handle_ok P' f \<and> (\<forall>g. handle_ok P g \<longrightarrow> handle_ok P' g)"
proof (cases "file_storages P (directory P @ path)")
  case None
  then show ?thesis
    using assms unfolding FilePool_open_def pool_ok_def handle_ok_def
    by (cases c) (auto simp: mk_file_def Let_def less_SucI split: if_splits)
next
  case (Some b)
  let ?P = "if t then put_storage b new_storage P else P"
  from Some assms(1) obtain s where s: "storages P b = Some s" unfolding pool_ok_def by blast
  have P: "pool_ok ?P" "\<forall>g. handle_ok P g \<longrightarrow> handle_ok ?P g"
    using assms(1) pool_ok_put [OF assms(1), of b new_storage] s handle_ok_put [of P _ b new_storage] by auto
  obtain s' where s': "storages ?P b = Some s'" using s by (cases t) (simp_all add: put_storage_def)
  have "f = (mk_file (int (allocated_fd ?P)) (directory P @ path) b)\<lparr>append_mode := a,
      cursor := if a then int (file_size s') else 0\<rparr> \<and> P' = ?P\<lparr>allocated_fd := Suc (allocated_fd ?P)\<rparr>"
    using Some assms(2) s' by (cases t) (auto simp: FilePool_open_def put_storage_def)
  then show ?thesis using P s' unfolding pool_ok_def handle_ok_def by (auto simp: mk_file_def)
qed

lemma write_ok:
  assumes "pool_ok P" "handle_ok P f"
  shows "File_write buf f P \<noteq> None \<longleftrightarrow> transfers f"
    "File_write buf f P = Some (r, f', P') \<Longrightarrow> pool_ok P' \<and> handle_ok P' f' \<and> (\<forall>g. handle_ok P g \<longrightarrow> handle_ok P' g)"
proof -
  have "(File_write buf f P \<noteq> None \<longleftrightarrow> transfers f) \<and> (File_write buf f P = Some (r, f', P') \<longrightarrow>
    pool_ok P' \<and> handle_ok P' f' \<and> (\<forall>g. handle_ok P g \<longrightarrow> handle_ok P' g))"
  proof (cases "File_valid f")
    case False
    then show ?thesis using assms by (auto simp: File_write_def File_valid_def transfers_def)
  next
    case True
    with assms obtain s where s: "storages P (file_storage f) = Some s" "storage_ok s"
      by (auto simp: handle_ok_def pool_ok_def File_valid_def)
    define pos where "pos = (if append_mode f then int (file_size s) else cursor f)"
    have t: "transfers f \<longleftrightarrow> 0 \<le> pos" using True by (simp add: transfers_def pos_def)
    have run: "File_write buf f P = do { (ret, s) \<leftarrow> do_write pos buf s;
        Some (ret, if append_mode f then f else f\<lparr>cursor := cursor f + ret\<rparr>, put_storage (file_storage f) s P) }"
      using True s(1) by (simp add: File_write_def File_valid_def storage_append_def pos_def)
    show ?thesis
    proof (cases "0 \<le> pos")
      case True
      from do_write_correct [OF s(2) this, of buf] obtain s' where
        w: "do_write pos buf s = Some (int (length buf), s')" "storage_ok s'" by blast
      let ?P = "put_storage (file_storage f) s' P"
      have "pool_ok ?P" "handle_ok ?P f" using pool_ok_put [OF assms(1)] s(1) w(2) handle_ok_put [OF assms(2)] by simp_all
      with t True w(1) handle_ok_put show ?thesis unfolding run by (auto simp: handle_ok_def)
    next
      case False
      with t show ?thesis unfolding run by (simp add: do_write_def)
    qed
  qed
  then show "File_write buf f P \<noteq> None \<longleftrightarrow> transfers f"
    "File_write buf f P = Some (r, f', P') \<Longrightarrow> pool_ok P' \<and> handle_ok P' f' \<and> (\<forall>g. handle_ok P g \<longrightarrow> handle_ok P' g)"
    by blast+
qed

lemma read_ok:
  assumes "pool_ok P" "handle_ok P f"
  shows "File_read n f P \<noteq> None \<longleftrightarrow> transfers f"
    "File_read n f P = Some (r, buf, f') \<Longrightarrow> handle_ok P f'"
proof -
  have "(File_read n f P \<noteq> None \<longleftrightarrow> transfers f) \<and> (File_read n f P = Some (r, buf, f') \<longrightarrow> handle_ok P f')"
  proof (cases "File_valid f \<and> \<not> append_mode f")
    case False
    then show ?thesis using assms by (auto simp: File_read_def File_valid_def transfers_def)
  next
    case True
    with assms obtain s where s: "storages P (file_storage f) = Some s" "storage_ok s"
      by (auto simp: handle_ok_def pool_ok_def File_valid_def)
    have run: "File_read n f P = do { (ret, buf) \<leftarrow> do_read (cursor f) n s; Some (ret, buf, f\<lparr>cursor := cursor f + ret\<rparr>) }"
      using True s(1) by (simp add: File_read_def File_valid_def)
    have "transfers f \<longleftrightarrow> 0 \<le> cursor f" using True by (simp add: transfers_def)
    moreover have "do_read (cursor f) n s = None" if "cursor f < 0" using that by (simp add: do_read_def)
    ultimately show ?thesis using do_read_correct [OF s(2), of "cursor f" n] assms(2) unfolding run
      by (cases "0 \<le> cursor f") (auto simp: handle_ok_def)
  qed
  then show "File_read n f P \<noteq> None \<longleftrightarrow> transfers f" "File_read n f P = Some (r, buf, f') \<Longrightarrow> handle_ok P f'" by blast+
qed

lemma mock_reach_ok: "mock_reach P fs \<Longrightarrow> pool_ok P \<and> (\<forall>f\<in>set fs. handle_ok P f)"
proof (induction rule: mock_reach.induct)
  case (made dir P)
  then show ?case by (auto simp: FilePool_ctor_def pool_ok_def split: if_splits)
next
  case (opened P fs path t a c f P')
  then show ?case using open_ok by auto
next
  case (unlinked P fs f r P')
  then show ?case
    by (auto simp: FilePool_unlink_def pool_ok_def handle_ok_def split: if_splits)
next
  case (written P fs f gs buf r f' P')
  then show ?case using write_ok(2) [of P f buf r f' P'] by auto
next
  case (was_read P fs f gs n r buf f')
  then show ?case using read_ok(2) [of P f n r buf f'] by auto
next
  case (seeked P fs f gs off w r f')
  then show ?case
    by (auto simp: File_lseek_def handle_ok_def bind_eq_Some_conv split: whence.splits)
next
  case (was_closed P fs f gs r f')
  then show ?case by (auto simp: File_close_def handle_ok_def)
qed

section \<open>Properties\<close>


lemma sample_pool:
  obtains P f where "mock_reach P [f]" "0 < fd f" "\<not> closed f" "\<not> append_mode f" "cursor f = 0"
    "storages P (file_storage f) = Some new_storage"
proof -
  obtain P0 where P0: "FilePool_ctor ''d'' = Some P0" by (simp add: FilePool_ctor_def)
  then have fs: "file_storages P0 = Map.empty" "0 < allocated_fd P0" by (auto simp: FilePool_ctor_def)
  obtain f P where f: "FilePool_open ''x'' False False True P0 = Some (f, P)" "0 < fd f" "\<not> closed f" "\<not> append_mode f"
    "cursor f = 0" "storages P (file_storage f) = Some new_storage"
    using fs by (auto simp: FilePool_open_def mk_file_def Let_def)
  from that [OF opened [OF made [OF P0] f(1)] f(2-)] show thesis .
qed


text \<open>
  A write changes exactly the bytes it covers; bytes between the old end and its position
  become zero.  As arrays of bytes, zero behind the end: memory is updated at the position, the
  disk does not change.
\<close>
theorem mock_write_bytes:
  assumes "storage_ok s" "0 \<le> pos"
  shows "\<exists>s'. do_write pos buf s = Some (int (length buf), s') \<and> storage_ok s' \<and>
    file_size s' = max (file_size s) (nat pos + length buf) \<and>
    (\<forall>i. byte_of (in_memory s') i = (if nat pos \<le> i \<and> i < nat pos + length buf then buf ! (i - nat pos)
      else byte_of (in_memory s) i)) \<and>
    (\<forall>i. byte_of (on_disk s') i = byte_of (on_disk s) i)"
  using assms by (rule do_write_correct)

theorem mock_write_bytes_witness:
  "\<exists>s'. do_write 2 ''ab'' new_storage = Some (2, s') \<and> file_size s' = 4 \<and> byte_of (in_memory s') 3 = CHR ''b''"
proof -
  have "file_size new_storage = 0" by (simp add: new_storage_def)
  with mock_write_bytes [of new_storage 2 "''ab''"] obtain s' where
    s': "do_write 2 ''ab'' new_storage = Some (2, s')" "file_size s' = 4"
    "\<forall>i. byte_of (in_memory s') i = (if nat 2 \<le> i \<and> i < nat 2 + length ''ab'' then ''ab'' ! (i - nat 2)
      else byte_of (in_memory new_storage) i)" by auto
  from spec [OF s'(3), of 3] s'(1,2) show ?thesis by (intro exI [of _ s']) simp
qed

text \<open>
  What is written through a handle is read back through it after seeking to where the
  write began.
\<close>
theorem mock_write_read_back:
  assumes "mock_reach P fs" "f \<in> set fs" "0 < fd f" "\<not> closed f" "\<not> append_mode f" "0 \<le> cursor f"
  shows "\<exists>f1 P1 f2 f3. File_write buf f P = Some (int (length buf), f1, P1) \<and>
    File_lseek (cursor f) SEEK_SET f1 P1 = Some (cursor f, f2) \<and>
    File_read (length buf) f2 P1 = Some (int (length buf), buf, f3) \<and> cursor f3 = cursor f1"
proof -
  note c = assms(6)
  from mock_reach_ok [OF assms(1)] assms(2,3) obtain s where
    s: "storages P (file_storage f) = Some s" "storage_ok s"
    by (auto simp: handle_ok_def pool_ok_def)
  from do_write_correct [OF s(2) c, of buf] obtain s' where w: "do_write (cursor f) buf s = Some (int (length buf), s')"
    "storage_ok s'" "file_size s' = max (file_size s) (nat (cursor f) + length buf)"
    "\<forall>i. byte_of (in_memory s') i = (if nat (cursor f) \<le> i \<and> i < nat (cursor f) + length buf
      then buf ! (i - nat (cursor f)) else byte_of (in_memory s) i)" by blast
  have l: "nat (cursor f) + length buf \<le> length (in_memory s')" using w(2,3) by (simp add: storage_ok_def)
  have "take (length buf) (drop (nat (cursor f)) (in_memory s')) = buf"
  proof (rule nth_equalityI)
    fix i assume "i < length (take (length buf) (drop (nat (cursor f)) (in_memory s')))"
    then have i: "i < length buf" by simp
    then have "byte_of (in_memory s') (nat (cursor f) + i) = buf ! i" using w(4) by simp
    then show "take (length buf) (drop (nat (cursor f)) (in_memory s')) ! i = buf ! i"
      using i l by (simp add: byte_of_def)
  qed (use l in simp)
  with do_read_correct [OF w(2) c, of "length buf"] l have
    "do_read (cursor f) (length buf) s' = Some (int (length buf), buf)" by simp
  then show ?thesis using w(1) s(1) assms(3-5)
    by (simp add: File_write_def File_lseek_def File_read_def put_storage_def)
qed

theorem mock_write_read_back_witness:
  "\<exists>P f f1 P1 f2 f3. File_write ''abc'' f P = Some (3, f1, P1) \<and>
    File_lseek 0 SEEK_SET f1 P1 = Some (0, f2) \<and> File_read 3 f2 P1 = Some (3, ''abc'', f3)"
proof -
  obtain P f where s: "mock_reach P [f]" "0 < fd f" "\<not> closed f" "\<not> append_mode f" "cursor f = 0"
    by (metis sample_pool)
  have "0 \<le> cursor f" using s(5) by simp
  from mock_write_read_back [OF s(1) _ s(2-4) this, of "''abc''"] s(5) obtain f1 P1 f2 f3 where
    "File_write ''abc'' f P = Some (3, f1, P1)" "File_lseek 0 SEEK_SET f1 P1 = Some (0, f2)"
    "File_read 3 f2 P1 = Some (3, ''abc'', f3)" by (auto simp: numeral_3_eq_3)
  then show ?thesis by blast
qed

fun do_writes :: "(int \<times> string) list \<Rightarrow> storage \<Rightarrow> storage option" where
  "do_writes [] s = Some s"
| "do_writes ((pos, buf) # ws) s = do { (r, s) \<leftarrow> do_write pos buf s; do_writes ws s }"

lemma do_writes_disk:
  "storage_ok s \<Longrightarrow> do_writes ws s = Some s' \<Longrightarrow>
   storage_ok s' \<and> file_size s \<le> file_size s' \<and> (\<forall>i. byte_of (on_disk s') i = byte_of (on_disk s) i)"
proof (induction ws s rule: do_writes.induct)
  case (2 pos buf ws s)
  then have pos: "0 \<le> pos" by (cases "pos < 0") (simp_all add: do_write_def)
  from do_write_correct [OF "2.prems"(1) pos, of buf] obtain s1 where
    s1: "do_write pos buf s = Some (int (length buf), s1)" "storage_ok s1" "file_size s \<le> file_size s1"
    "\<forall>i. byte_of (on_disk s1) i = byte_of (on_disk s) i" by auto
  from "2.prems"(2) s1(1) have "do_writes ws s1 = Some s'" by simp
  from "2.IH" [OF s1(1) refl s1(2) this] s1(3,4) show ?case by auto
qed simp

text \<open>
  C29. A crash brings back what was there at the last \<^verbatim>\<open>fsync\<close>: after any writes that follow it,
  the bytes in memory are the synced ones, and zero where the file has grown.
\<close>
theorem mock_crash_restores_synced:
  assumes "storage_ok s" "do_writes ws (snd (storage_fsync s)) = Some s'"
  shows "storage_ok (storage_crash s') \<and> file_size s \<le> file_size (storage_crash s') \<and>
    (\<forall>i. byte_of (in_memory (storage_crash s')) i = byte_of (in_memory s) i)"
proof -
  have "storage_ok (snd (storage_fsync s))" using assms(1) by (simp add: storage_fsync_def storage_ok_def)
  from do_writes_disk [OF this assms(2)] show ?thesis
    by (simp add: storage_fsync_def storage_crash_def storage_ok_def)
qed

theorem mock_crash_restores_synced_witness:
  "\<exists>s'. do_writes [(0, ''x''), (2, ''yz'')] (snd (storage_fsync \<lparr>in_memory = ''ab'', on_disk = ''..'', file_size = 2\<rparr>)) =
      Some s' \<and> byte_of (in_memory (storage_crash s')) 0 = CHR ''a''"
proof -
  let ?s = "\<lparr>in_memory = ''ab'', on_disk = ''..'', file_size = 2\<rparr>"
  obtain s' where w: "do_writes [(0, ''x''), (2, ''yz'')] (snd (storage_fsync ?s)) = Some s'"
    by (simp add: storage_fsync_def do_write_def resize_def)
  have "storage_ok ?s" by (simp add: storage_ok_def)
  from mock_crash_restores_synced [OF this w] have
    "byte_of (in_memory (storage_crash s')) 0 = byte_of (in_memory ?s) 0" by blast
  then have "byte_of (in_memory (storage_crash s')) 0 = CHR ''a''" by (simp add: byte_of_def)
  with w show ?thesis by blast
qed

text \<open>
  A handle in append mode writes at the end of the file wherever its cursor is, and reads
  nothing; a handle that is closed or was not opened returns -1 and changes nothing.
\<close>
theorem mock_append_and_closed:
  assumes "storages P (file_storage f) = Some s" "storage_ok s" "append_mode f \<or> closed f \<or> fd f \<le> 0"
  shows "File_write buf f P = Some (if fd f \<le> 0 \<or> closed f then (-1, f, P)
      else (int (length buf), f, put_storage (file_storage f) \<lparr>in_memory = in_memory s @ buf,
        on_disk = on_disk s @ replicate (length buf) (CHR 0x00), file_size = file_size s + length buf\<rparr> P)) \<and>
    File_read n f P = Some (if fd f \<le> 0 \<or> closed f then -1 else 0, [], f)"
  using assms
  by (cases s) (auto simp: File_write_def File_read_def storage_append_def do_write_def storage_ok_def resize_def Let_def)

definition one_file :: pool where
  "one_file = \<lparr>directory = ''d/'', allocated_fd = 4, file_storages = [''d/x'' \<mapsto> 1],
     storages = [1 \<mapsto> \<lparr>in_memory = ''ab'', on_disk = ''ab'', file_size = 2\<rparr>], storage_brk = 2\<rparr>"

theorem mock_append_and_closed_witness:
  "File_write ''c'' ((mk_file 3 ''d/x'' 1)\<lparr>append_mode := True\<rparr>) one_file =
     Some (1, (mk_file 3 ''d/x'' 1)\<lparr>append_mode := True\<rparr>,
       put_storage 1 \<lparr>in_memory = ''abc'', on_disk = ''ab'' @ [CHR 0x00], file_size = 3\<rparr> one_file)"
  using mock_append_and_closed [of one_file "(mk_file 3 ''d/x'' 1)\<lparr>append_mode := True\<rparr>"
      "\<lparr>in_memory = ''ab'', on_disk = ''ab'', file_size = 2\<rparr>" "''c''"]
  by (simp add: mk_file_def one_file_def storage_ok_def)

end
