(* ===== verification/Real_Storage.thy ===== *)
theory Real_Storage
  imports Mock_Storage
begin

text \<open>
  The files and the file pool of \<^verbatim>\<open>include/persister.h\<close>, which pass their calls on to the system:
  the system calls are parameters on a state \<open>'o\<close> of the system.
\<close>

datatype oflag = O_RDWR | O_CREAT | O_TRUNC | O_APPEND

definition real_open_flags :: "bool \<Rightarrow> bool \<Rightarrow> bool \<Rightarrow> oflag set" where
  "real_open_flags o_trunc o_append o_creat = (
     let flag = {O_RDWR};
         flag = (if o_append then insert O_CREAT flag else flag);
         flag = (if o_trunc then insert O_TRUNC flag else flag)
     in if o_creat then insert O_CREAT flag else flag)"

record rfile =
  real_fd :: int
  real_path :: string
  real_closed :: bool

definition real_pool_dir :: "string \<Rightarrow> string option" where
  "real_pool_dir dir = (if dir = [] then None
     else Some (if last dir \<noteq> CHR ''/'' then dir @ ''/'' else dir))"

record 'o posix =
  sys_open :: "string \<Rightarrow> oflag set \<Rightarrow> 'o \<Rightarrow> int \<times> 'o"
  sys_write :: "int \<Rightarrow> string \<Rightarrow> 'o \<Rightarrow> int \<times> 'o"
  sys_read :: "int \<Rightarrow> nat \<Rightarrow> 'o \<Rightarrow> int \<times> string \<times> 'o"
  sys_lseek :: "int \<Rightarrow> int \<Rightarrow> whence \<Rightarrow> 'o \<Rightarrow> int \<times> 'o"
  sys_close :: "int \<Rightarrow> 'o \<Rightarrow> int \<times> 'o"
  sys_unlink :: "string \<Rightarrow> 'o \<Rightarrow> int \<times> 'o"

definition real_open :: "'o posix \<Rightarrow> string \<Rightarrow> string \<Rightarrow> bool \<Rightarrow> bool \<Rightarrow> bool \<Rightarrow> 'o \<Rightarrow> rfile \<times> 'o" where
  "real_open sys dir pathname o_trunc o_append o_creat os = (
     let (ret_fd, os) = sys_open sys (c_str (dir @ pathname)) (real_open_flags o_trunc o_append o_creat) os in
     (\<lparr>real_fd = ret_fd, real_path = dir @ pathname, real_closed = False\<rparr>, os))"

definition real_valid :: "rfile \<Rightarrow> bool" where
  "real_valid f = (0 < real_fd f \<and> \<not> real_closed f)"

definition real_write :: "'o posix \<Rightarrow> string \<Rightarrow> rfile \<Rightarrow> 'o \<Rightarrow> int \<times> 'o" where
  "real_write sys buf f os = sys_write sys (real_fd f) buf os"

definition real_read :: "'o posix \<Rightarrow> nat \<Rightarrow> rfile \<Rightarrow> 'o \<Rightarrow> int \<times> string \<times> 'o" where
  "real_read sys count f os = sys_read sys (real_fd f) count os"

definition real_lseek :: "'o posix \<Rightarrow> int \<Rightarrow> whence \<Rightarrow> rfile \<Rightarrow> 'o \<Rightarrow> int \<times> 'o" where
  "real_lseek sys off w f os = sys_lseek sys (real_fd f) off w os"

text \<open>\<^verbatim>\<open>close\<close> leaves \<^verbatim>\<open>closed_\<close> as it is.\<close>

definition real_close :: "'o posix \<Rightarrow> rfile \<Rightarrow> 'o \<Rightarrow> int \<times> rfile \<times> 'o" where
  "real_close sys f os = (let (r, os) = sys_close sys (real_fd f) os in (r, f, os))"

definition real_unlink :: "'o posix \<Rightarrow> rfile \<Rightarrow> 'o \<Rightarrow> int \<times> 'o" where
  "real_unlink sys f os = sys_unlink sys (c_str (real_path f)) os"

text \<open>A handle is still valid after it was closed; in the mock it is not.\<close>

lemma real_close_stays_valid:
  "real_valid (fst (snd (real_close sys f os))) = real_valid f" "\<not> File_valid (snd (File_close h))"
  by (simp_all add: real_close_def File_valid_def File_close_def split_beta)

text \<open>
  \<^verbatim>\<open>o_append\<close> sets \<^verbatim>\<open>O_CREAT\<close> and never \<^verbatim>\<open>O_APPEND\<close>: opening for appending is opening with
  creation, while the mock appends and does not create.
\<close>
theorem real_append_creates:
  assumes "file_storages P (directory P @ pathname) = None"
  shows "real_open sys dir pathname t True c os = real_open sys dir pathname t False True os \<and>
    O_APPEND \<notin> real_open_flags t a c \<and>
    FilePool_open pathname t True False P = Some (mk_file (-1) (directory P @ pathname) 0, P)"
  using assms by (auto simp: real_open_def real_open_flags_def FilePool_open_def Let_def insert_commute split: if_splits)

theorem real_append_creates_witness:
  "real_open sys ''d/'' ''y'' False True False os = real_open sys ''d/'' ''y'' False False True os \<and>
   FilePool_open ''y'' False True False one_file = Some (mk_file (-1) ''d/y'' 0, one_file)"
  using real_append_creates [of one_file "''y''" sys "''d/''" False False os]
  by (simp add: one_file_def)

end
