(* ===== verification/File_Contract.thy ===== *)
theory File_Contract
  imports Real_Storage
begin

text \<open>
  What an open file promises: bytes with a position, moved by reading, writing and seeking.  The
  contract is a locale; the handles of \<^verbatim>\<open>include/mock_persister.h\<close> keep it, and so do those of
  \<^verbatim>\<open>include/persister.h\<close> over a system whose calls behave as POSIX documents them, when they are
  repeated until everything is done.
\<close>

section \<open>The contract\<close>

definition put_bytes :: "string \<Rightarrow> nat \<Rightarrow> string \<Rightarrow> string" where
  "put_bytes c p buf = take p (resize c (max (length c) p) (CHR 0x00)) @ buf @ drop (p + length buf) c"

definition seek_target :: "string \<Rightarrow> nat \<Rightarrow> int \<Rightarrow> whence \<Rightarrow> int" where
  "seek_target c p off w = (case w of SEEK_SET \<Rightarrow> off | SEEK_CUR \<Rightarrow> int p + off | SEEK_END \<Rightarrow> int (length c) + off
     | SEEK_OTHER \<Rightarrow> -1)"

datatype file_op = FWrite string | FRead nat | FSeek int whence

datatype file_result = RDoneW | RBytes string | RPos int

fun file_step :: "file_op \<Rightarrow> string \<times> nat \<Rightarrow> file_result \<times> string \<times> nat" where
  "file_step (FWrite buf) (c, p) = (RDoneW, put_bytes c p buf, p + length buf)"
| "file_step (FRead n) (c, p) = (RBytes (take n (drop p c)), c, p + length (take n (drop p c)))"
| "file_step (FSeek off w) (c, p) = (RPos (seek_target c p off w), c, nat (seek_target c p off w))"

text \<open>An empty write is a part of the contract only within the file.\<close>

fun file_pre :: "file_op \<Rightarrow> string \<times> nat \<Rightarrow> bool" where
  "file_pre (FWrite buf) (c, p) = (buf \<noteq> [] \<or> p \<le> length c)"
| "file_pre (FRead n) (c, p) = True"
| "file_pre (FSeek off w) (c, p) = (0 \<le> seek_target c p off w)"

fun file_run :: "file_op list \<Rightarrow> string \<times> nat \<Rightarrow> file_result list" where
  "file_run [] s = []"
| "file_run (x # xs) s = (let (r, s) = file_step x s in r # file_run xs s)"

fun file_runs :: "file_op list \<Rightarrow> string \<times> nat \<Rightarrow> bool" where
  "file_runs [] s = True"
| "file_runs (x # xs) s = (file_pre x s \<and> file_runs xs (snd (file_step x s)))"

fun ops_run :: "(file_op \<Rightarrow> 's \<Rightarrow> (file_result \<times> 's) option) \<Rightarrow> file_op list \<Rightarrow> 's \<Rightarrow> (file_result list \<times> 's) option" where
  "ops_run step [] s = Some ([], s)"
| "ops_run step (x # xs) s = do { (r, s) \<leftarrow> step x s; (rs, s) \<leftarrow> ops_run step xs s; Some (r # rs, s) }"

locale byte_file =
  fixes step :: "file_op \<Rightarrow> 's \<Rightarrow> (file_result \<times> 's) option"
    and is_file :: "'s \<Rightarrow> string \<times> nat \<Rightarrow> bool"
  assumes step_file: "is_file s f \<Longrightarrow> file_pre x f \<Longrightarrow>
    \<exists>s'. step x s = Some (fst (file_step x f), s') \<and> is_file s' (snd (file_step x f))"
begin

lemma ops_run_file:
  "is_file s f \<Longrightarrow> file_runs xs f \<Longrightarrow> \<exists>s'. ops_run step xs s = Some (file_run xs f, s')"
proof (induction xs arbitrary: s f)
  case (Cons x xs)
  from step_file [OF Cons.prems(1)] Cons.prems(2) obtain s1 where
    s1: "step x s = Some (fst (file_step x f), s1)" "is_file s1 (snd (file_step x f))" by auto
  from Cons.IH [OF s1(2)] Cons.prems(2) s1(1) show ?case by (auto simp: split_beta)
qed simp

end

text \<open>Two files that keep the contract cannot be told apart.\<close>

locale two_files = a: byte_file step_a is_file_a + b: byte_file step_b is_file_b
  for step_a :: "file_op \<Rightarrow> 's \<Rightarrow> (file_result \<times> 's) option" and is_file_a
    and step_b :: "file_op \<Rightarrow> 't \<Rightarrow> (file_result \<times> 't) option" and is_file_b
begin

lemma same_results:
  assumes "is_file_a s f" "is_file_b t f" "file_runs xs f"
  shows "\<exists>rs s' t'. ops_run step_a xs s = Some (rs, s') \<and> ops_run step_b xs t = Some (rs, t')"
  using a.ops_run_file [OF assms(1,3)] b.ops_run_file [OF assms(2,3)] by blast

end

section \<open>The handles of the mock\<close>

definition mock_step :: "file_op \<Rightarrow> mfile \<times> pool \<Rightarrow> (file_result \<times> mfile \<times> pool) option" where
  "mock_step x s = (let (f, P) = s in case x of
       FWrite buf \<Rightarrow> do {
         (ret, f, P) \<leftarrow> File_write buf f P;
         if ret = int (length buf) then Some (RDoneW, f, P) else None }
     | FRead n \<Rightarrow> do {
         (ret, buf, f) \<leftarrow> File_read n f P;
         if ret = int (length buf) then Some (RBytes buf, f, P) else None }
     | FSeek off w \<Rightarrow> do {
         (ret, f) \<leftarrow> File_lseek off w f P;
         Some (RPos ret, f, P) })"

definition mock_is_file :: "mfile \<times> pool \<Rightarrow> string \<times> nat \<Rightarrow> bool" where
  "mock_is_file s c \<longleftrightarrow> (let (f, P) = s in 0 < fd f \<and> \<not> closed f \<and> \<not> append_mode f \<and> cursor f = int (snd c) \<and>
     (\<exists>st. storages P (file_storage f) = Some st \<and> storage_ok st \<and> in_memory st = fst c))"

lemma do_write_put_bytes:
  assumes "storage_ok s" "buf \<noteq> [] \<or> p \<le> length (in_memory s)"
  shows "\<exists>s'. do_write (int p) buf s = Some (int (length buf), s') \<and> storage_ok s' \<and>
    in_memory s' = put_bytes (in_memory s) p buf"
proof -
  let ?s = "if file_size s < p + length buf
    then s\<lparr>in_memory := resize (in_memory s) (p + length buf) (CHR 0x00),
      on_disk := resize (on_disk s) (p + length buf) (CHR 0x00), file_size := p + length buf\<rparr> else s"
  let ?m = "take p (in_memory ?s) @ buf @ drop (p + length buf) (in_memory ?s)"
  have "?m = put_bytes (in_memory s) p buf"
    using assms by (auto simp: put_bytes_def storage_ok_def resize_def max_def take_Cons')
  moreover have "do_write (int p) buf s = Some (int (length buf), ?s\<lparr>in_memory := ?m\<rparr>)"
    using assms(1) by (simp add: do_write_def storage_ok_def Let_def)
  moreover have "storage_ok (?s\<lparr>in_memory := ?m\<rparr>)" using assms(1) by (auto simp: storage_ok_def)
  ultimately show ?thesis by auto
qed

lemma mock_step_file:
  assumes "mock_is_file s f" "file_pre x f"
  shows "\<exists>s'. mock_step x s = Some (fst (file_step x f), s') \<and> mock_is_file s' (snd (file_step x f))"
proof -
  obtain h P where s: "s = (h, P)" by (cases s)
  obtain c p where f: "f = (c, p)" by (cases f)
  from assms(1) obtain st where h: "0 < fd h" "\<not> closed h" "\<not> append_mode h" "cursor h = int p"
    and st: "storages P (file_storage h) = Some st" "storage_ok st" "in_memory st = c"
    by (auto simp: mock_is_file_def s f)
  show ?thesis
  proof (cases x)
    case (FWrite buf)
    with assms(2) do_write_put_bytes [OF st(2), of buf p] st(3) f obtain s' where
      "do_write (int p) buf st = Some (int (length buf), s')" "storage_ok s'" "in_memory s' = put_bytes c p buf" by auto
    with FWrite h st(1) show ?thesis
      by (simp add: s f mock_step_def File_write_def mock_is_file_def put_storage_def)
  next
    case (FRead n)
    with h st do_read_correct [OF st(2), of "int p" n] show ?thesis
      by (simp add: s f mock_step_def File_read_def mock_is_file_def)
  next
    case (FSeek off w)
    with assms(2) h st show ?thesis
      by (cases w) (auto simp: s f mock_step_def File_lseek_def mock_is_file_def seek_target_def storage_ok_def)
  qed
qed

interpretation mock: byte_file mock_step mock_is_file
  by unfold_locales (rule mock_step_file)


section \<open>The handles of the system\<close>

text \<open>
  What POSIX documents of \<^verbatim>\<open>write\<close>, \<^verbatim>\<open>read\<close> and \<^verbatim>\<open>lseek\<close> on a regular file that is open without
  \<^verbatim>\<open>O_APPEND\<close>, while no error occurs: some bytes are transferred, all in order, and at the end of the file none are read.
  \<open>reg\<close> relates the system to the bytes of the file and the position.
\<close>

definition posix_ok :: "'o posix \<Rightarrow> int \<Rightarrow> ('o \<Rightarrow> string \<times> nat \<Rightarrow> bool) \<Rightarrow> bool" where
  "posix_ok sys d reg \<longleftrightarrow>
     (\<forall>os c p buf. reg os (c, p) \<longrightarrow> buf \<noteq> [] \<longrightarrow> (\<exists>n os'. 0 < n \<and> n \<le> length buf \<and>
       sys_write sys d buf os = (int n, os') \<and> reg os' (put_bytes c p (take n buf), p + n))) \<and>
     (\<forall>os c p m. reg os (c, p) \<longrightarrow> 0 < m \<longrightarrow> (\<exists>n os'. n \<le> m \<and> n \<le> length c - p \<and> (p < length c \<longrightarrow> 0 < n) \<and>
       sys_read sys d m os = (int n, take n (drop p c), os') \<and> reg os' (c, p + n))) \<and>
     (\<forall>os c p off w. reg os (c, p) \<longrightarrow> 0 \<le> seek_target c p off w \<longrightarrow> (\<exists>os'.
       sys_lseek sys d off w os = (seek_target c p off w, os') \<and> reg os' (c, nat (seek_target c p off w))))"

text \<open>The loops of \<^verbatim>\<open>unittest/mock_persist.cpp\<close> that write and read until everything is done.\<close>

partial_function (option) write_all :: "'o posix \<Rightarrow> rfile \<Rightarrow> string \<Rightarrow> 'o \<Rightarrow> (bool \<times> 'o) option" where
  "write_all sys f buf os =
     (if buf = [] then Some (True, os)
      else let (ret, os) = real_write sys buf f os in
        if ret < 0 then Some (False, os) else write_all sys f (drop (nat ret) buf) os)"

partial_function (option) read_all :: "'o posix \<Rightarrow> rfile \<Rightarrow> nat \<Rightarrow> string \<Rightarrow> 'o \<Rightarrow> (bool \<times> string \<times> 'o) option" where
  "read_all sys f m acc os =
     (if m = 0 then Some (True, acc, os)
      else let (ret, buf, os) = real_read sys m f os in
        if ret < 0 then Some (False, acc, os)
        else if ret = 0 then Some (True, acc, os)
        else read_all sys f (m - nat ret) (acc @ buf) os)"

definition real_step :: "'o posix \<Rightarrow> rfile \<Rightarrow> file_op \<Rightarrow> 'o \<Rightarrow> (file_result \<times> 'o) option" where
  "real_step sys f x os = (case x of
       FWrite buf \<Rightarrow> do { (ok, os) \<leftarrow> write_all sys f buf os; if ok then Some (RDoneW, os) else None }
     | FRead m \<Rightarrow> do { (ok, buf, os) \<leftarrow> read_all sys f m [] os; if ok then Some (RBytes buf, os) else None }
     | FSeek off w \<Rightarrow> (let (ret, os) = real_lseek sys off w f os in Some (RPos ret, os)))"

definition real_is_file :: "'o posix \<Rightarrow> rfile \<Rightarrow> ('o \<Rightarrow> string \<times> nat \<Rightarrow> bool) \<Rightarrow> 'o \<Rightarrow> string \<times> nat \<Rightarrow> bool" where
  "real_is_file sys f reg os c \<longleftrightarrow> posix_ok sys (real_fd f) reg \<and> reg os c"

lemma put_bytes_append: "a \<noteq> [] \<Longrightarrow> put_bytes (put_bytes c p a) (p + length a) b = put_bytes c p (a @ b)"
proof -
  let ?h = "take p (resize c (max (length c) p) (CHR 0x00))"
  have h: "length ?h = p" by (simp add: resize_def)
  have len: "p + length a \<le> length (put_bytes c p a)" by (simp add: put_bytes_def h)
  have "take (p + length a) (put_bytes c p a) = ?h @ a" by (simp add: put_bytes_def h)
  moreover have "drop (p + length a + length b) (put_bytes c p a) = drop (p + length a + length b) c"
    by (simp add: put_bytes_def h add.commute)
  ultimately show ?thesis using len by (simp add: put_bytes_def [of "put_bytes c p a"] resize_def) (simp add: put_bytes_def add.assoc)
qed

lemma put_bytes_nil: "p \<le> length c \<Longrightarrow> put_bytes c p [] = c"
  by (simp add: put_bytes_def resize_def)

lemma write_all_file:
  assumes "posix_ok sys (real_fd f) reg" "reg os (c, p)" "buf \<noteq> []"
  shows "\<exists>os'. write_all sys f buf os = Some (True, os') \<and> reg os' (put_bytes c p buf, p + length buf)"
  using assms(2,3)
proof (induction "length buf" arbitrary: buf os c p rule: less_induct)
  case less
  from conjunct1 [OF assms(1) [unfolded posix_ok_def]] less.prems obtain n os1 where n: "0 < n" "n \<le> length buf"
    "sys_write sys (real_fd f) buf os = (int n, os1)" "reg os1 (put_bytes c p (take n buf), p + n)" by blast
  have w: "write_all sys f buf os = write_all sys f (drop n buf) os1"
    using less.prems(2) n(3) by (subst write_all.simps) (simp add: real_write_def)
  show ?case
  proof (cases "drop n buf = []")
    case True
    then have "take n buf = buf" "n = length buf" using n(2) by simp_all
    with n(4) w True show ?thesis by (simp add: write_all.simps)
  next
    case False
    have "length (drop n buf) < length buf" using n(1) less.prems(2) by simp
    from less.hyps [OF this n(4) False] obtain os2 where
      "write_all sys f (drop n buf) os1 = Some (True, os2)"
      "reg os2 (put_bytes (put_bytes c p (take n buf)) (p + n) (drop n buf), p + n + length (drop n buf))" by blast
    moreover have "put_bytes (put_bytes c p (take n buf)) (p + n) (drop n buf) = put_bytes c p buf"
      using put_bytes_append [of "take n buf" c p "drop n buf"] n(1,2) less.prems(2) by simp
    moreover have "p + n + length (drop n buf) = p + length buf" using n(2) by simp
    ultimately show ?thesis using w by metis
  qed
qed

lemma read_all_file:
  assumes "posix_ok sys (real_fd f) reg" "reg os (c, p)"
  shows "\<exists>os'. read_all sys f m acc os = Some (True, acc @ take m (drop p c), os') \<and>
    reg os' (c, p + length (take m (drop p c)))"
  using assms(2)
proof (induction m arbitrary: acc os p rule: less_induct)
  case (less m)
  show ?case
  proof (cases "m = 0")
    case True
    with less.prems show ?thesis by (simp add: read_all.simps)
  next
    case False
    with conjunct1 [OF conjunct2 [OF assms(1) [unfolded posix_ok_def]]] less.prems obtain n os1 where n: "n \<le> m" "n \<le> length c - p" "p < length c \<longrightarrow> 0 < n"
      "sys_read sys (real_fd f) m os = (int n, take n (drop p c), os1)" "reg os1 (c, p + n)" by blast
    show ?thesis
    proof (cases "n = 0")
      case True
      with n False show ?thesis by (subst read_all.simps) (simp add: real_read_def)
    next
      case n0: False
      then have "m - n < m" using n(1) by simp
      from less.IH [OF this n(5), of "acc @ take n (drop p c)"] obtain os2 where
        "read_all sys f (m - n) (acc @ take n (drop p c)) os1 =
          Some (True, (acc @ take n (drop p c)) @ take (m - n) (drop (p + n) c), os2)"
        "reg os2 (c, p + n + length (take (m - n) (drop (p + n) c)))" by blast
      moreover have "take n (drop p c) @ take (m - n) (drop (p + n) c) = take m (drop p c)"
        using n(1) take_add [of n "m - n" "drop p c"] by (simp add: add.commute)
      moreover from arg_cong [where f = length, OF this] n(2)
      have "n + length (take (m - n) (drop (p + n) c)) = length (take m (drop p c))" by simp
      ultimately show ?thesis using False n0 n(4)
        by (subst read_all.simps) (simp add: real_read_def add.assoc)
    qed
  qed
qed

lemma real_step_file:
  assumes "real_is_file sys f reg os c" "file_pre x c"
  shows "\<exists>os'. real_step sys f x os = Some (fst (file_step x c), os') \<and> real_is_file sys f reg os' (snd (file_step x c))"
proof -
  obtain b p where c: "c = (b, p)" by (cases c)
  from assms(1) have r: "posix_ok sys (real_fd f) reg" "reg os (b, p)" by (simp_all add: real_is_file_def c)
  show ?thesis
  proof (cases x)
    case (FWrite buf)
    show ?thesis
    proof (cases "buf = []")
      case True
      with assms FWrite put_bytes_nil [of p b] r show ?thesis
        by (simp add: real_step_def write_all.simps real_is_file_def c)
    next
      case False
      from write_all_file [OF r False] FWrite r(1) show ?thesis by (auto simp: real_step_def real_is_file_def c)
    qed
  next
    case (FRead m)
    from read_all_file [OF r, of m "[]"] FRead r(1) show ?thesis by (auto simp: real_step_def real_is_file_def c)
  next
    case (FSeek off w)
    with r assms(2) have "\<exists>os'. sys_lseek sys (real_fd f) off w os = (seek_target b p off w, os') \<and>
        reg os' (b, nat (seek_target b p off w))" unfolding posix_ok_def c by auto
    with FSeek r(1) show ?thesis by (auto simp: real_step_def real_is_file_def real_lseek_def c)
  qed
qed

interpretation both: two_files "real_step sys f" "real_is_file sys f reg" mock_step mock_is_file for sys f reg
  by unfold_locales (rule real_step_file)

end
