(* ===== verification/Persist_Test.thy ===== *)
theory Persist_Test
  imports Rand_Alloc File_Contract
begin

text \<open>
  The program \<^verbatim>\<open>unittest/mock_persist.cpp\<close>: it runs the same random operations on a file of the system
  and on one of the mock and compares what they return.  The random numbers are those of \<^verbatim>\<open>rand\<close>, a
  parameter; a \<^verbatim>\<open>throw\<close> and a \<^verbatim>\<open>return -1\<close> are values.
\<close>

section \<open>One round\<close>

definition kBuffLimit :: nat where
  "kBuffLimit = 102400"

datatype outcome = Exit int | Thrown

definition assert_offset_same :: "'o posix \<Rightarrow> rfile \<Rightarrow> 'o \<times> mfile \<times> pool \<Rightarrow> (outcome + 'o \<times> mfile \<times> pool) option" where
  "assert_offset_same sys r s = do {
     let (os, m, P) = s;
     let (r_off, os) = real_lseek sys 0 SEEK_CUR r os;
     (m_off, m) \<leftarrow> File_lseek 0 SEEK_CUR m P;
     Some (if r_off \<noteq> m_off then Inl Thrown else Inr (os, m, P)) }"

datatype round = Write nat | Read nat | Seek nat whence

definition draw_round :: "('r \<Rightarrow> nat \<times> 'r) \<Rightarrow> 'r \<Rightarrow> round \<times> 'r" where
  "draw_round rand r = (
     let (op', r) = rand r in
     if op' mod 3 = 0 \<or> op' mod 3 = 1 then
       let (x, r) = rand r; off = x mod kBuffLimit; (y, r) = rand r; len = y mod (kBuffLimit - off) in
       (if op' mod 3 = 0 then Write len else Read len, r)
     else
       let (x, r) = rand r; off = x mod kBuffLimit; (y, r) = rand r in
       (Seek off (if y mod 3 = 0 then SEEK_SET else if y mod 3 = 1 then SEEK_CUR else SEEK_END), r))"

definition persist_round :: "'o posix \<Rightarrow> rfile \<Rightarrow> string \<Rightarrow> round \<Rightarrow> 'o \<times> mfile \<times> pool \<Rightarrow>
    (outcome + 'o \<times> mfile \<times> pool) option" where
  "persist_round sys r input_buf x s = (let (os, m, P) = s in case x of
       Write len \<Rightarrow> do {
         (ok, os) \<leftarrow> write_all sys r (take len input_buf) os;
         if \<not> ok then Some (Inl (Exit (-1)))
         else do {
           (ret, m, P) \<leftarrow> File_write (take len input_buf) m P;
           assert_offset_same sys r (os, m, P) } }
     | Read len \<Rightarrow> do {
         (ok, real_buf, os) \<leftarrow> read_all sys r len [] os;
         if \<not> ok then Some (Inl (Exit (-1)))
         else do {
           (mock_read, mock_buf, m) \<leftarrow> File_read len m P;
           if int (length real_buf) \<noteq> mock_read then Some (Inl (Exit (-1)))
           else if mock_buf \<noteq> real_buf then Some (Inl (Exit (-1)))
           else assert_offset_same sys r (os, m, P) } }
     | Seek off w \<Rightarrow> do {
         let (ret_real, os) = real_lseek sys (int off) w r os;
         (ret_mock, m) \<leftarrow> File_lseek (int off) w m P;
         if ret_real \<noteq> ret_mock then Some (Inl (Exit (-1)))
         else assert_offset_same sys r (os, m, P) })"

section \<open>The program\<close>

fun persist_rounds :: "'o posix \<Rightarrow> rfile \<Rightarrow> string \<Rightarrow> ('r \<Rightarrow> nat \<times> 'r) \<Rightarrow> nat \<Rightarrow> 'o \<times> mfile \<times> pool \<Rightarrow> 'r \<Rightarrow>
    (outcome \<times> 'r) option" where
  "persist_rounds sys r input_buf rand 0 s st = Some (Exit 0, st)"
| "persist_rounds sys r input_buf rand (Suc n) s st = do {
     let (x, st) = draw_round rand st;
     res \<leftarrow> persist_round sys r input_buf x s;
     case res of Inl out \<Rightarrow> Some (out, st) | Inr s \<Rightarrow> persist_rounds sys r input_buf rand n s st }"

definition persist_main :: "'q rng \<Rightarrow> 'q \<Rightarrow> 'o posix \<Rightarrow> ('r \<Rightarrow> nat \<times> 'r) \<Rightarrow> 'o \<Rightarrow> 'r \<Rightarrow> outcome option" where
  "persist_main R q sys rand os st = do {
     dir \<leftarrow> real_pool_dir ''./tmp_unittest/'';
     mock_pool \<leftarrow> FilePool_ctor ''./tmp_unittest/'';
     let (real_f, os) = real_open sys dir ''tmp_real'' True False True os;
     (mock_f, mock_pool) \<leftarrow> FilePool_open ''tmp_real'' True False True mock_pool;
     if \<not> real_valid real_f then Some (Exit (-1))
     else if \<not> File_valid mock_f then Some (Exit (-1))
     else do {
       (input_buf, q) \<leftarrow> gen_random R (replicate kBuffLimit (CHR 0x00)) (int kBuffLimit) q;
       (out, st) \<leftarrow> persist_rounds sys real_f input_buf rand 100 (os, mock_f, mock_pool) st;
       Some out } }"

section \<open>Rounds on two files with the same bytes\<close>

fun round_op :: "string \<Rightarrow> round \<Rightarrow> file_op" where
  "round_op input_buf (Write len) = FWrite (take len input_buf)"
| "round_op input_buf (Read len) = FRead len"
| "round_op input_buf (Seek off w) = FSeek (int off) w"

definition agree :: "'o posix \<Rightarrow> rfile \<Rightarrow> ('o \<Rightarrow> string \<times> nat \<Rightarrow> bool) \<Rightarrow> 'o \<times> mfile \<times> pool \<Rightarrow> string \<times> nat \<Rightarrow> bool" where
  "agree sys r reg s f \<longleftrightarrow> real_is_file sys r reg (fst s) f \<and> mock_is_file (snd s) f"

lemma offset_same:
  assumes "agree sys r reg s f"
  shows "\<exists>s'. assert_offset_same sys r s = Some (Inr s') \<and> agree sys r reg s' f"
proof -
  obtain os m P where s: "s = (os, m, P)" by (cases s)
  obtain c p where f: "f = (c, p)" by (cases f)
  from assms real_step_file [of sys r reg os f "FSeek 0 SEEK_CUR"] obtain os' where
    "real_lseek sys 0 SEEK_CUR r os = (int p, os')" "real_is_file sys r reg os' f"
    by (cases "real_lseek sys 0 SEEK_CUR r os") (auto simp: agree_def s f real_step_def seek_target_def)
  moreover from assms mock_step_file [of "(m, P)" f "FSeek 0 SEEK_CUR"] obtain m' where
    "File_lseek 0 SEEK_CUR m P = Some (int p, m')" "mock_is_file (m', P) f"
    by (auto simp: agree_def s f mock_step_def seek_target_def bind_eq_Some_conv)
  ultimately show ?thesis by (simp add: s assert_offset_same_def agree_def)
qed

lemma round_passes:
  assumes "agree sys r reg s f" "file_pre (round_op input_buf x) f"
  shows "\<exists>s'. persist_round sys r input_buf x s = Some (Inr s') \<and>
    agree sys r reg s' (snd (file_step (round_op input_buf x) f))"
proof -
  obtain os m P where s: "s = (os, m, P)" by (cases s)
  obtain c p where f: "f = (c, p)" by (cases f)
  let ?f = "snd (file_step (round_op input_buf x) f)"
  from assms real_step_file [of sys r reg os f] obtain os' where
    os': "real_step sys r (round_op input_buf x) os = Some (fst (file_step (round_op input_buf x) f), os')"
    "real_is_file sys r reg os' ?f" by (auto simp: agree_def s)
  from assms mock_step_file [of "(m, P)" f] obtain m' P' where
    m': "mock_step (round_op input_buf x) (m, P) = Some (fst (file_step (round_op input_buf x) f), m', P')"
    "mock_is_file (m', P') ?f" by (fastforce simp: agree_def s)
  have "agree sys r reg (os', m', P') ?f" using os'(2) m'(2) by (simp add: agree_def)
  from offset_same [OF this] obtain s' where
    s': "assert_offset_same sys r (os', m', P') = Some (Inr s')" "agree sys r reg s' ?f" by blast
  have "persist_round sys r input_buf x s = assert_offset_same sys r (os', m', P')"
  proof (cases x)
    case (Write len)
    with os'(1) m'(1) show ?thesis
      by (auto simp: persist_round_def real_step_def mock_step_def s f bind_eq_Some_conv split: if_splits)
  next
    case (Read len)
    with os'(1) m'(1) show ?thesis
      by (auto simp: persist_round_def real_step_def mock_step_def s f bind_eq_Some_conv split: if_splits)
  next
    case (Seek off w)
    with os'(1) m'(1) show ?thesis
      by (auto simp: persist_round_def real_step_def mock_step_def s f bind_eq_Some_conv split_beta)
  qed
  with s' show ?thesis by metis
qed

primrec writes_something :: "('r \<Rightarrow> nat \<times> 'r) \<Rightarrow> nat \<Rightarrow> 'r \<Rightarrow> bool" where
  "writes_something rand 0 st = True"
| "writes_something rand (Suc n) st = (fst (draw_round rand st) \<noteq> Write 0 \<and> writes_something rand n (snd (draw_round rand st)))"

lemma draw_seek: "draw_round rand st = (Seek off w, st') \<Longrightarrow> w \<noteq> SEEK_OTHER"
  by (auto simp: draw_round_def Let_def split_beta split: if_splits)

lemma drawn_pre:
  assumes "draw_round rand st = (x, st')" "x \<noteq> Write 0" "input_buf \<noteq> []"
  shows "file_pre (round_op input_buf x) f"
proof (cases x)
  case (Seek off w)
  with draw_seek assms(1) have "w \<noteq> SEEK_OTHER" by metis
  then show ?thesis unfolding Seek by (cases f; cases w) (simp_all add: seek_target_def)
qed (use assms(2,3) in \<open>cases f; simp\<close>)+

lemma rounds_pass:
  "agree sys r reg s f \<Longrightarrow> writes_something rand n st \<Longrightarrow> input_buf \<noteq> [] \<Longrightarrow>
   \<exists>st'. persist_rounds sys r input_buf rand n s st = Some (Exit 0, st')"
proof (induction n arbitrary: s f st)
  case (Suc n)
  obtain x st1 where x: "draw_round rand st = (x, st1)" by (cases "draw_round rand st")
  with Suc.prems(2) have "x \<noteq> Write 0" "writes_something rand n st1" by simp_all
  from round_passes [OF Suc.prems(1) drawn_pre [OF x this(1) Suc.prems(3)]] obtain s1 where
    s1: "persist_round sys r input_buf x s = Some (Inr s1)" "agree sys r reg s1 (snd (file_step (round_op input_buf x) f))" by blast
  from Suc.IH [OF s1(2) \<open>writes_something rand n st1\<close> Suc.prems(3)] s1(1) x show ?case by auto
qed simp

text \<open>A buffer without room for the NUL byte.\<close>

lemma gen_random_behind: "gen_random R buf (int (length buf)) q = None"
proof -
  let ?f = "\<lambda>i (s, r). do { let (x, r) = draw_r R r; c \<leftarrow> vat alphanum (x mod 62); s \<leftarrow> set_at s i c; Some (s, r) }"
  have "length (fst z) = length buf" if "for_up 0 (length buf) ?f (buf, q) = Some z" for z
    by (rule for_up_returned [OF that, where P = "\<lambda>i z. length (fst z) = length buf"])
      (auto simp: bind_eq_Some_conv set_at_def split: prod.splits if_splits)
  then have "\<And>s r. for_up 0 (length buf) ?f (buf, q) = Some (s, r) \<Longrightarrow> set_at s (length buf) (CHR 0x00) = None"
    by (force simp: set_at_def)
  then show ?thesis by (cases "for_up 0 (length buf) ?f (buf, q)") (auto simp: gen_random_def)
qed

section \<open>A system with one file\<close>

definition one_file_sys :: "(string \<times> nat) posix" where
  "one_file_sys = \<lparr>sys_open = (\<lambda>path flags os. (3, ([], 0))),
     sys_write = (\<lambda>d buf (c, p). (int (length buf), (put_bytes c p buf, p + length buf))),
     sys_read = (\<lambda>d n (c, p). (int (length (take n (drop p c))), take n (drop p c), (c, p + length (take n (drop p c))))),
     sys_lseek = (\<lambda>d off w (c, p). (seek_target c p off w, (c, nat (seek_target c p off w)))),
     sys_close = (\<lambda>d os. (0, os)), sys_unlink = (\<lambda>path os. (0, os))\<rparr>"

lemma one_file_ok: "posix_ok one_file_sys d (=)"
  unfolding posix_ok_def one_file_sys_def
proof (intro conjI allI impI, goal_cases)
  case (1 os c p buf)
  then show ?case by (intro exI [of _ "length buf"]) auto
next
  case (2 os c p m)
  then show ?case by (intro exI [of _ "length (take m (drop p c))"]) (auto simp: min_def)
next
  case (3 os c p off w)
  then show ?case by auto
qed

definition count_up :: "nat \<Rightarrow> nat \<times> nat" where
  "count_up r = (r, Suc r)"

lemma count_up_writes: "st = 3 * i \<Longrightarrow> i + n \<le> 1000 \<Longrightarrow> writes_something count_up n st"
proof (induction n arbitrary: i st)
  case (Suc n)
  have "Suc (Suc st) mod (kBuffLimit - Suc st mod kBuffLimit) = Suc (Suc st)"
    using Suc.prems by (simp add: kBuffLimit_def)
  then have d: "draw_round count_up st = (Write (Suc (Suc st)), Suc (Suc (Suc st)))"
    using Suc.prems(1) by (simp add: draw_round_def count_up_def Let_def)
  have "writes_something count_up n (Suc (Suc (Suc st)))"
    using Suc.prems by (intro Suc.IH [of _ "Suc i"]) simp_all
  then show ?case by (simp add: d)
qed simp

section \<open>Properties\<close>

text \<open>
  C24. The mock behaves like a file of the system: the rounds of \<^verbatim>\<open>mock_persist\<close>, begun with two files that
  agree, end without a difference, whatever the bytes and the random numbers, if no round writes zero
  bytes.  The calls of the system are those of a regular file: they do not fail, but may transfer less
  than they are asked to.  (This is about the rounds.  \<^verbatim>\<open>main\<close> does not reach them: it writes behind its
  buffer before, as \<open>persist_main_writes_behind\<close> shows.)
\<close>
theorem persist_test_passes:
  assumes "posix_ok sys (real_fd r) reg" "reg os f" "mock_is_file (m, P) f"
    and "input_buf \<noteq> []" "writes_something rand n st"
  shows "\<exists>st'. persist_rounds sys r input_buf rand n (os, m, P) st = Some (Exit 0, st')"
proof -
  have "agree sys r reg (os, m, P) f" using assms(1-3) by (simp add: agree_def real_is_file_def)
  from rounds_pass [OF this assms(5,4)] show ?thesis .
qed

theorem persist_test_passes_witness:
  "\<exists>P m st'. persist_rounds one_file_sys \<lparr>real_fd = 3, real_path = ''d/x'', real_closed = False\<rparr>
    (replicate 20 (CHR ''a'')) count_up 100 (([], 0), m, P) 0 = Some (Exit 0, st')"
proof -
  obtain P m where f: "mock_reach P [m]" "0 < fd m" "\<not> Mock_Storage.closed m" "\<not> append_mode m" "cursor m = 0"
    "storages P (file_storage m) = Some new_storage" by (rule sample_pool)
  then have "mock_is_file (m, P) ([], 0)" by (simp add: mock_is_file_def storage_ok_def new_storage_def)
  from persist_test_passes [OF one_file_ok refl this, of "replicate 20 (CHR ''a'')" count_up 100 0
      "\<lparr>real_fd = 3, real_path = ''d/x'', real_closed = False\<rparr>"] count_up_writes [of 0 0 100]
  show ?thesis by simp blast
qed

text \<open>
  An empty write is where the mock differs: behind the end of the file it makes the mock's file
  longer and not the system's, and the test's next seek to the end reports it.
\<close>
theorem empty_write_differs:
  assumes "posix_ok sys (real_fd r) reg" "reg os (c, p)" "mock_is_file (m, P) (c, p)" "length c < k"
  shows "\<exists>s1 s2. persist_round sys r input_buf (Seek k SEEK_SET) (os, m, P) = Some (Inr s1) \<and>
    persist_round sys r input_buf (Write 0) s1 = Some (Inr s2) \<and>
    persist_round sys r input_buf (Seek 0 SEEK_END) s2 = Some (Inl (Exit (-1)))"
proof -
  let ?st = "\<lambda>os m P. (os, m, P)"
  have a: "agree sys r reg (os, m, P) (c, p)" using assms(1-3) by (simp add: agree_def real_is_file_def)
  from round_passes [OF a, of input_buf "Seek k SEEK_SET"] obtain s1 where
    s1: "persist_round sys r input_buf (Seek k SEEK_SET) (os, m, P) = Some (Inr s1)" "agree sys r reg s1 (c, k)"
    by (auto simp: seek_target_def)
  obtain os1 m1 P1 where s1_eq: "s1 = (os1, m1, P1)" by (cases s1)
  from s1(2) obtain t where t: "0 < fd m1" "\<not> Mock_Storage.closed m1" "\<not> append_mode m1" "cursor m1 = int k"
    "storages P1 (file_storage m1) = Some t" "storage_ok t" "in_memory t = c"
    by (auto simp: agree_def mock_is_file_def s1_eq)
  have r1: "real_is_file sys r reg os1 (c, k)" using s1(2) by (simp add: agree_def s1_eq)
  let ?t = "t\<lparr>in_memory := resize c k (CHR 0x00), on_disk := resize (on_disk t) k (CHR 0x00), file_size := k\<rparr>"
  let ?P = "put_storage (file_storage m1) ?t P1"
  have "file_size t = length c" using t(6,7) by (simp add: storage_ok_def)
  then have "do_write (int k) [] t = Some (0, ?t)" using assms(4) t(7) by (simp add: do_write_def Let_def resize_def)
  then have w: "File_write [] m1 P1 = Some (0, m1, ?P)" using t by (simp add: File_write_def)
  from real_step_file [OF r1, of "FSeek 0 SEEK_CUR"] obtain os2 where
    os2: "real_lseek sys 0 SEEK_CUR r os1 = (int k, os2)" "real_is_file sys r reg os2 (c, k)"
    by (cases "real_lseek sys 0 SEEK_CUR r os1") (auto simp: real_step_def seek_target_def)
  have s2: "persist_round sys r input_buf (Write 0) s1 = Some (Inr (os2, m1, ?P))"
    using w os2(1) t(4) by (simp add: persist_round_def s1_eq write_all.simps assert_offset_same_def File_lseek_def)
  from real_step_file [OF os2(2), of "FSeek 0 SEEK_END"] obtain os3 where
    "real_lseek sys 0 SEEK_END r os2 = (int (length c), os3)"
    by (cases "real_lseek sys 0 SEEK_END r os2") (auto simp: real_step_def seek_target_def)
  with assms(4) have "persist_round sys r input_buf (Seek 0 SEEK_END) (os2, m1, ?P) = Some (Inl (Exit (-1)))"
    by (simp add: persist_round_def File_lseek_def put_storage_def)
  with s1(1) s2 show ?thesis by blast
qed

theorem empty_write_differs_witness:
  "\<exists>P m s1 s2. persist_round one_file_sys \<lparr>real_fd = 3, real_path = ''d/x'', real_closed = False\<rparr> [] (Seek 10 SEEK_SET)
      (([], 0), m, P) = Some (Inr s1) \<and>
    persist_round one_file_sys \<lparr>real_fd = 3, real_path = ''d/x'', real_closed = False\<rparr> [] (Write 0) s1 = Some (Inr s2) \<and>
    persist_round one_file_sys \<lparr>real_fd = 3, real_path = ''d/x'', real_closed = False\<rparr> [] (Seek 0 SEEK_END) s2 =
      Some (Inl (Exit (-1)))"
proof -
  obtain P m where f: "mock_reach P [m]" "0 < fd m" "\<not> Mock_Storage.closed m" "\<not> append_mode m" "cursor m = 0"
    "storages P (file_storage m) = Some new_storage" by (rule sample_pool)
  then have "mock_is_file (m, P) ([], 0)" by (simp add: mock_is_file_def storage_ok_def new_storage_def)
  from empty_write_differs [OF one_file_ok refl this, of 10] show ?thesis by fastforce
qed

text \<open>
  The test program writes behind its buffer: \<^verbatim>\<open>gen_random\<close> ends what it fills with a NUL byte, one
  behind the \<^verbatim>\<open>kBuffLimit\<close> bytes of \<^verbatim>\<open>input_buf\<close>.
\<close>
theorem persist_main_writes_behind:
  assumes "0 < fst (sys_open sys ''./tmp_unittest/tmp_real'' {O_RDWR, O_TRUNC, O_CREAT} os)"
  shows "persist_main R q sys rand os st = None"
proof -
  have "gen_random R (replicate kBuffLimit (CHR 0x00)) (int kBuffLimit) q = None"
    using gen_random_behind [of R "replicate kBuffLimit (CHR 0x00)" q] by simp
  then show ?thesis using assms
    by (auto simp: persist_main_def real_pool_dir_def FilePool_ctor_def FilePool_open_def real_open_def real_open_flags_def
        c_str_def mk_file_def File_valid_def real_valid_def Let_def split_beta insert_commute)
qed

theorem persist_main_writes_behind_witness:
  "persist_main \<lparr>draw_int = (\<lambda>lo hi r. (lo, r)), draw_dbl = (\<lambda>lo hi r. (lo, r)), draw_r = (\<lambda>r. (r, r + 1)), fl = (\<lambda>x. x)\<rparr>
    (0 :: nat) one_file_sys count_up ([], 0) 0 = None"
  by (rule persist_main_writes_behind) (simp add: one_file_sys_def)

end
