(* ===== verification/Unit_Tests.thy ===== *)
theory Unit_Tests
  imports Bench Zipf
begin

text \<open>
  The programs of \<^verbatim>\<open>unittest\<close> that test the random numbers, the random strings, the Zipf
  allocator and the workload generator, and the printing of operations and tests.  A failed
  \<^verbatim>\<open>CHECK\<close> is \<open>None\<close>.  The programs are statistical tests: whether their last checks pass
  depends on the random numbers, and what is proved is that nothing else can fail.
\<close>

section \<open>Printing\<close>

primrec show_op :: "Op \<Rightarrow> string" where
  "show_op kPut = ''put''"
| "show_op kDelete = ''delete''"
| "show_op kGet = ''get''"
| "show_op kSync = ''sync''"
| "show_op kGc = ''gc''"
| "show_op kSnapshot = ''snapshot''"
| "show_op kVisit = ''visit''"
| "show_op kNoOp = ''no-op''"

definition show_test_case :: "test_case \<Rightarrow> string" where
  "show_test_case c = ''{Op: '' @ show_op (tc_op c) @ '', key: '' @ tc_key c @ '', val: '' @ tc_value c @
     '', lower: '' @ tc_lower c @ '', upper: '' @ tc_upper c @ ''}''"

section \<open>Rates\<close>

text \<open>
  \<^verbatim>\<open>1.0 * a / b\<close> with counters \<open>a\<close> and \<open>b\<close>, and the comparison of a rate with the expected one.
  With \<open>b = 0\<close> the quotient is not a number or infinite, and the check fails.
\<close>

definition rate :: "'r rng \<Rightarrow> nat \<Rightarrow> nat \<Rightarrow> real option" where
  "rate R a b = fdiv (fl R) (fl R (real a)) (fl R (real b))"

definition check_rate :: "'r rng \<Rightarrow> real \<Rightarrow> real \<Rightarrow> unit option" where
  "check_rate R x expect = check (\<bar>fl R (x - fl R expect)\<bar> < fl R (1 / 100))"

section \<open>\<^verbatim>\<open>unittest/rand.cpp\<close>\<close>

definition kTestTime :: nat where
  "kTestTime = 1000000"

text \<open>Counters \<^verbatim>\<open>total_nr\<close> and \<^verbatim>\<open>yes_nr\<close>.\<close>

definition test_prob_yes :: "'r rng \<Rightarrow> 'r \<Rightarrow> 'r option" where
  "test_prob_yes R r = do {
     (total_nr, yes_nr, r) \<leftarrow> for_up 0 kTestTime (\<lambda>i (total_nr, yes_nr, r). do {
       (yes, r) \<leftarrow> probability_yes R (fl R (2 / 10)) r;
       Some (total_nr + 1, if yes then yes_nr + 1 else yes_nr, r) }) (0, 0, r);
     x \<leftarrow> rate R yes_nr total_nr;
     check_rate R x (2 / 10);
     Some r }"

definition test_dbl :: "'r rng \<Rightarrow> 'r \<Rightarrow> 'r option" where
  "test_dbl R r = for_up 0 kTestTime (\<lambda>i r. do {
     let (db, r) = draw_dbl R 0 5 r;
     check (0 \<le> db);
     check (db < 5);
     Some r }) r"

definition kItemNr :: nat where
  "kItemNr = 100"

text \<open>The body of the loop of \<^verbatim>\<open>test_random_choose\<close> over the set \<open>s\<close>.\<close>

definition choose_step :: "'r rng \<Rightarrow> int list \<Rightarrow> nat list \<times> 'r \<Rightarrow> (nat list \<times> 'r) option" where
  "choose_step R s z = do {
     let (bucket, r) = z;
     (val, r) \<leftarrow> random_choose R s npos r;
     check (0 \<le> val);
     check (val < int kItemNr);
     n \<leftarrow> vat bucket (nat val);
     bucket \<leftarrow> set_at bucket (nat val) (n + 1);
     check (n + 1 \<le> kTestTime);
     Some (bucket, r) }"

definition test_random_choose :: "'r rng \<Rightarrow> 'r \<Rightarrow> 'r option" where
  "test_random_choose R r = do {
     s \<leftarrow> for_up 0 kItemNr (\<lambda>i s. Some (insort_insert (int i) s)) [];
     (bucket, r) \<leftarrow> for_up 0 kTestTime (\<lambda>i. choose_step R s) (replicate kItemNr 0, r);
     u \<leftarrow> for_up 0 (length bucket) (\<lambda>i u. do {
       n \<leftarrow> vat bucket i;
       x \<leftarrow> rate R n kTestTime;
       check_rate R x (1 / real kItemNr) }) ();
     Some r }"

definition rand_main :: "'r rng \<Rightarrow> 'r \<Rightarrow> 'r option" where
  "rand_main R r = do { r \<leftarrow> test_dbl R r; r \<leftarrow> test_prob_yes R r; test_random_choose R r }"

section \<open>\<^verbatim>\<open>unittest/rand_key.cpp\<close>\<close>

definition isalnum :: "char \<Rightarrow> bool" where
  "isalnum c \<longleftrightarrow> (CHR ''0'' \<le> c \<and> c \<le> CHR ''9'') \<or> (CHR ''A'' \<le> c \<and> c \<le> CHR ''Z'') \<or> (CHR ''a'' \<le> c \<and> c \<le> CHR ''z'')"

text \<open>One round: draw two sizes, remember whether they are the largest, check two strings.\<close>

definition key_round :: "'r rng \<Rightarrow> bool \<times> bool \<times> 'r \<Rightarrow> (bool \<times> bool \<times> 'r) option" where
  "key_round R z = do {
     let (key_have_upper_bound, value_have_upper_bound, r) = z;
     let (key_size, r) = draw_int R 0 100 r;
     let (value_size, r) = draw_int R 0 100 r;
     check (0 \<le> key_size);
     check (0 \<le> value_size);
     check (key_size \<le> 100);
     check (value_size \<le> 100);
     let key_have_upper_bound = (key_size = 100 \<or> key_have_upper_bound);
     let value_have_upper_bound = (value_size = 100 \<or> value_have_upper_bound);
     (key, r) \<leftarrow> gen_rand_key R key_size r;
     (val, r) \<leftarrow> gen_rand_value R value_size r;
     check (length key = key_size);
     check (length val = value_size);
     check (list_all isalnum key);
     check (list_all isalnum val);
     Some (key_have_upper_bound, value_have_upper_bound, r) }"

definition key_rounds :: "'r rng \<Rightarrow> nat \<Rightarrow> 'r \<Rightarrow> (bool \<times> bool \<times> 'r) option" where
  "key_rounds R n r = for_up 0 n (\<lambda>i. key_round R) (False, False, r)"

definition rand_key_main :: "'r rng \<Rightarrow> 'r \<Rightarrow> 'r option" where
  "rand_key_main R r = do {
     (kb, vb, r) \<leftarrow> key_rounds R kTestTime r;
     check kb;
     check vb;
     Some r }"

section \<open>\<^verbatim>\<open>unittest/zip_allocator.cpp\<close>\<close>

text \<open>The numbers that are logged.\<close>

definition zip_allocator_main :: "'r rng \<Rightarrow> 'r \<Rightarrow> 64 word list option" where
  "zip_allocator_main R r = do {
     z \<leftarrow> ZipfianAllocator_ctor R 100 1000 (fl R (99 / 100));
     (out, z) \<leftarrow> for_up 0 1000 (\<lambda>i (out, z). do {
       (k, z) \<leftarrow> alloc_key (ZipfianAllocator R) 8 z;
       Some (out @ [bytes_size k], z) }) ([], z, r);
     Some out }"

section \<open>\<^verbatim>\<open>unittest/bench_gen.cpp\<close>\<close>

text \<open>The map and the counters of the loop that replays the tests.\<close>

record replay =
  rp_kv :: "(string \<times> string) list"
  get_found :: nat
  get_nr :: nat
  delete_found :: nat
  del_nr :: nat
  insert_found :: nat
  ins_nr :: nat
  range_length :: real
  rng_nr :: nat

definition kv_count :: "string \<Rightarrow> (string \<times> string) list \<Rightarrow> nat" where
  "kv_count k kv = (if k \<in> fst ` set kv then 1 else 0)"

text \<open>\<^verbatim>\<open>std::distance\<close> has no value when the second iterator comes before the first.\<close>

definition iter_distance :: "nat \<Rightarrow> nat \<Rightarrow> nat option" where
  "iter_distance i j = (if i \<le> j then Some (j - i) else None)"

definition replay_step :: "'r rng \<Rightarrow> test_case \<Rightarrow> replay \<Rightarrow> replay option" where
  "replay_step R t s = (case tc_op t of
       kGet \<Rightarrow> Some (s\<lparr>get_found := get_found s + kv_count (tc_key t) (rp_kv s), get_nr := get_nr s + 1\<rparr>)
     | kPut \<Rightarrow> Some (s\<lparr>insert_found := insert_found s + kv_count (tc_key t) (rp_kv s), ins_nr := ins_nr s + 1,
         rp_kv := om_put (tc_key t) (tc_value t) (rp_kv s)\<rparr>)
     | kDelete \<Rightarrow> Some (s\<lparr>delete_found := delete_found s + kv_count (tc_key t) (rp_kv s), del_nr := del_nr s + 1,
         rp_kv := om_erase (tc_key t) (rp_kv s)\<rparr>)
     | kVisit \<Rightarrow>
         if rp_kv s = [] then Some s
         else do {
           diff \<leftarrow> iter_distance (om_lower_bound (tc_lower t) (rp_kv s)) (om_upper_bound (tc_upper t) (rp_kv s));
           x \<leftarrow> rate R diff (length (rp_kv s));
           Some (s\<lparr>range_length := fl R (range_length s + x), rng_nr := rng_nr s + 1\<rparr>) }
     | kNoOp \<Rightarrow> Some s
     | _ \<Rightarrow> None)"

fun replay_tests :: "'r rng \<Rightarrow> test_case list \<Rightarrow> replay \<Rightarrow> replay option" where
  "replay_tests R [] s = Some s"
| "replay_tests R (t # ts) s = do { s \<leftarrow> replay_step R t s; replay_tests R ts s }"

definition replay_init :: replay where
  "replay_init = \<lparr>rp_kv = [], get_found = 0, get_nr = 0, delete_found = 0, del_nr = 0,
     insert_found = 0, ins_nr = 0, range_length = 0, rng_nr = 0\<rparr>"

definition gen_confs :: "'r rng \<Rightarrow> op_config list" where
  "gen_confs R = confs_of R
     [(kPut, 4 / 10, 32, 4, 2 / 10, 0), (kGet, 4 / 10, 32, 4, 4 / 10, 0),
      (kDelete, 1 / 10, 32, 4, 6 / 10, 0), (kVisit, 1 / 10, 0, 0, 0, 8 / 10)]"

definition bench_gen_main :: "'r rng \<Rightarrow> 'r \<Rightarrow> 'r option" where
  "bench_gen_main R r = do {
     g \<leftarrow> BenchGenerator R (gen_confs R);
     (ts, g, r) \<leftarrow> rand_tests R (PrintableAllocator R) 100000 0 g r;
     s \<leftarrow> replay_tests R ts replay_init;
     x \<leftarrow> rate R (get_found s) (get_nr s);
     check_rate R x (4 / 10);
     x \<leftarrow> rate R (insert_found s) (ins_nr s);
     check_rate R x (2 / 10);
     x \<leftarrow> rate R (delete_found s) (del_nr s);
     check_rate R x (6 / 10);
     x \<leftarrow> fdiv (fl R) (range_length s) (fl R (real (rng_nr s)));
     check_rate R x (8 / 10);
     Some r }"

section \<open>The loop over random strings\<close>

lemma alphanum_isalnum: "list_all isalnum alphanum"
  by code_simp

lemma all_isalnum: "set s \<subseteq> set alphanum \<Longrightarrow> list_all isalnum s"
  using alphanum_isalnum by (auto simp: list_all_iff)

lemma for_up_snoc: "lo \<le> n \<Longrightarrow> for_up lo (Suc n) f s = do { s \<leftarrow> for_up lo n f s; f n s }"
proof (induction "n - lo" arbitrary: lo s)
  case 0
  then show ?case by (cases "f n s") (simp_all add: for_up_step)
next
  case (Suc d)
  then have "lo < n" "d = n - Suc lo" by simp_all
  with Suc.hyps(1) [of "Suc lo"] show ?case by (cases "f lo s") (simp_all add: for_up_step)
qed

lemma key_round_total:
  assumes "rng_ok R"
  shows "\<exists>r'. key_round R (kb, vb, r) = Some (fst (draw_int R 0 100 r) = 100 \<or> kb,
    fst (draw_int R 0 100 (snd (draw_int R 0 100 r))) = 100 \<or> vb, r')"
proof -
  obtain k r1 where k: "draw_int R 0 100 r = (k, r1)" by (cases "draw_int R 0 100 r")
  obtain v r2 where v: "draw_int R 0 100 r1 = (v, r2)" by (cases "draw_int R 0 100 r1")
  have le: "k \<le> 100" "v \<le> 100" using assms k v unfolding rng_ok_def by (metis fst_conv le0)+
  then have "k < 2 ^ 31" "v < 2 ^ 31" by simp_all
  from gen_rand_key_fills [OF this(1), of R r2] obtain ks r3 where
    ks: "gen_rand_key R k r2 = Some (ks, r3)" "length ks = k" "list_all isalnum ks" using all_isalnum by blast
  from gen_rand_value_fills [OF \<open>v < 2 ^ 31\<close>, of R r3] obtain vs r4 where
    vs: "gen_rand_value R v r3 = Some (vs, r4)" "length vs = v" "list_all isalnum vs" using all_isalnum by blast
  from ks vs le k v show ?thesis by (simp add: key_round_def)
qed

text \<open>The flags after \<open>n\<close> rounds.\<close>

lemma key_rounds_flags:
  assumes "rng_ok R"
  shows "\<exists>kb vb r'. key_rounds R n r = Some (kb, vb, r') \<and>
    (kb \<longleftrightarrow> (\<exists>i<n. \<exists>b b' q. key_rounds R i r = Some (b, b', q) \<and> fst (draw_int R 0 100 q) = 100)) \<and>
    (vb \<longleftrightarrow> (\<exists>i<n. \<exists>b b' q. key_rounds R i r = Some (b, b', q) \<and>
      fst (draw_int R 0 100 (snd (draw_int R 0 100 q))) = 100))"
proof (induction n)
  case 0
  show ?case by (intro exI [of _ False] exI [of _ r]) (simp add: key_rounds_def)
next
  case (Suc n)
  then obtain kb vb r' where n: "key_rounds R n r = Some (kb, vb, r')"
    "kb \<longleftrightarrow> (\<exists>i<n. \<exists>b b' q. key_rounds R i r = Some (b, b', q) \<and> fst (draw_int R 0 100 q) = 100)"
    "vb \<longleftrightarrow> (\<exists>i<n. \<exists>b b' q. key_rounds R i r = Some (b, b', q) \<and>
      fst (draw_int R 0 100 (snd (draw_int R 0 100 q))) = 100)" by blast
  from key_round_total [OF assms, of kb vb r'] obtain r2 where
    r2: "key_round R (kb, vb, r') = Some (fst (draw_int R 0 100 r') = 100 \<or> kb,
      fst (draw_int R 0 100 (snd (draw_int R 0 100 r'))) = 100 \<or> vb, r2)" by blast
  have "key_rounds R (Suc n) r = Some (fst (draw_int R 0 100 r') = 100 \<or> kb,
      fst (draw_int R 0 100 (snd (draw_int R 0 100 r'))) = 100 \<or> vb, r2)"
    using n(1) r2 by (simp add: key_rounds_def for_up_snoc)
  with n show ?case by (auto simp: less_Suc_eq)
qed

section \<open>The loop over random choices\<close>

lemma insort_range: "insort_insert (int n) (map int [0..<n]) = map int [0..<n] @ [int n]"
proof -
  have "insort (int n) xs = xs @ [int n]" if "\<forall>x\<in>set xs. x < int n" for xs
    using that by (induction xs) auto
  then show ?thesis by (auto simp: insort_insert_key_def)
qed

lemma choice_set: "for_up 0 n (\<lambda>i s. Some (insort_insert (int i) s)) [] = Some (map int [0..<n])"
proof -
  have "\<exists>s. for_up 0 n (\<lambda>i s. Some (insort_insert (int i) s)) [] = Some s \<and> s = map int [0..<n]"
    by (rule for_up_inv [where P = "\<lambda>i s. s = map int [0..<i]"]) (simp_all add: insort_range)
  then show ?thesis by simp
qed

lemma sum_list_incr: "i < length xs \<Longrightarrow> sum_list (xs[i := xs ! i + 1]) = sum_list xs + (1 :: nat)"
  by (induction xs arbitrary: i) (auto split: nat.splits)

lemma choose_step_total:
  assumes "rng_ok R" "length bucket = kItemNr" "sum_list bucket = i" "i < kTestTime"
  shows "\<exists>b r'. choose_step R (map int [0..<kItemNr]) (bucket, r) = Some (b, r') \<and>
    length b = kItemNr \<and> sum_list b = Suc i"
proof -
  have "map int [0..<kItemNr] \<noteq> []" "0 < npos" by (simp_all add: kItemNr_def npos_def)
  from random_choose_in [OF assms(1) this, of r] obtain x r' where
    x: "random_choose R (map int [0..<kItemNr]) npos r = Some (int x, r')" "x < kItemNr" by auto
  have "bucket ! x \<le> sum_list bucket" using x(2) assms(2) by (intro elem_le_sum_list) simp
  then have "bucket ! x + 1 \<le> kTestTime" using assms(3,4) by simp
  with x assms sum_list_incr [of x bucket] show ?thesis
    by (simp add: choose_step_def KVS_Prelude.at_def set_at_def)
qed

section \<open>The replay\<close>

lemma om_erase_keys: "fst ` set (om_erase k kv) = fst ` set kv - {k}"
  by (auto simp: om_erase_def)

lemma rate_range:
  assumes "rounding_ok (fl R)" "a \<le> b" "0 < b"
  shows "\<exists>x. rate R a b = Some x \<and> 0 \<le> x \<and> x \<le> 1"
proof -
  have m: "mono (fl R)" using assms(1) by (simp add: rounding_ok_def)
  have n: "fl R 0 = 0" "fl R 1 = 1"
    using rounding_nat [OF assms(1), of 0] rounding_nat [OF assms(1), of 1] by simp_all
  have b: "1 \<le> fl R (real b)" using monoD [OF m, of 1 "real b"] assms(3) n by simp
  have a: "0 \<le> fl R (real a)" "fl R (real a) \<le> fl R (real b)"
    using monoD [OF m, of 0 "real a"] monoD [OF m, of "real a" "real b"] assms(2) n by simp_all
  then have q: "0 \<le> fl R (real a) / fl R (real b)" "fl R (real a) / fl R (real b) \<le> 1"
    using b by (simp_all add: divide_le_eq)
  have "0 \<le> fl R (fl R (real a) / fl R (real b))" "fl R (fl R (real a) / fl R (real b)) \<le> 1"
    using monoD [OF m q(1)] monoD [OF m q(2)] n by simp_all
  with b show ?thesis by (simp add: rate_def fdiv_def)
qed

definition count_op :: "Op \<Rightarrow> test_case list \<Rightarrow> nat" where
  "count_op oper ts = length (filter (\<lambda>t. tc_op t = oper) ts)"

lemma count_op_simps [simp]:
  "count_op oper [] = 0" "count_op oper (t # ts) = (if tc_op t = oper then 1 else 0) + count_op oper ts"
  by (simp_all add: count_op_def)

definition replay_ok :: "replay \<Rightarrow> bool" where
  "replay_ok s \<longleftrightarrow> om_ok (rp_kv s) \<and> get_found s \<le> get_nr s \<and> insert_found s \<le> ins_nr s \<and>
     delete_found s \<le> del_nr s \<and> 0 \<le> range_length s \<and> range_length s \<le> real (rng_nr s)"

definition replay_ops :: "Op set" where
  "replay_ops = {kPut, kGet, kDelete, kVisit, kNoOp}"

lemma kv_count_le [simp]: "kv_count k kv \<le> 1"
  by (simp add: kv_count_def)

lemma replay_visit:
  assumes "rounding_ok (fl R)" "replay_ok s" "rng_nr s < 2 ^ 53" "tc_op t = kVisit"
    and "tc_lower t \<in> fst ` set (rp_kv s)" "tc_lower t \<le> tc_upper t"
  shows "\<exists>l. replay_step R t s = Some (s\<lparr>range_length := l, rng_nr := rng_nr s + 1\<rparr>) \<and> 0 \<le> l \<and> l \<le> real (rng_nr s + 1)"
proof -
  have ok: "om_ok (rp_kv s)" "0 \<le> range_length s" "range_length s \<le> real (rng_nr s)"
    using assms(2) by (simp_all add: replay_ok_def)
  define i j where "i = om_lower_bound (tc_lower t) (rp_kv s)" and "j = om_upper_bound (tc_upper t) (rp_kv s)"
  have "i \<le> j" unfolding i_def j_def by (rule om_range(1) [OF ok(1) assms(6)])
  then have d: "iter_distance i j = Some (j - i)" by (simp add: iter_distance_def)
  have "j \<le> length (rp_kv s)" by (simp add: j_def om_upper_bound_def length_takeWhile_le)
  then have "j - i \<le> length (rp_kv s)" "0 < length (rp_kv s)" using assms(5) by auto
  from rate_range [OF assms(1) this] obtain x where
    x: "rate R (j - i) (length (rp_kv s)) = Some x" "0 \<le> x" "x \<le> 1" by blast
  have m: "mono (fl R)" using assms(1) by (simp add: rounding_ok_def)
  have "fl R 0 = 0" "fl R (real (rng_nr s + 1)) = real (rng_nr s + 1)"
    using rounding_nat [OF assms(1), of 0] rounding_nat [OF assms(1), of "rng_nr s + 1"] assms(3) by simp_all
  moreover have "0 \<le> range_length s + x" "range_length s + x \<le> real (rng_nr s + 1)" using ok x by simp_all
  ultimately have "0 \<le> fl R (range_length s + x)" "fl R (range_length s + x) \<le> real (rng_nr s + 1)"
    using monoD [OF m, of 0 "range_length s + x"] monoD [OF m, of "range_length s + x" "real (rng_nr s + 1)"] by simp_all
  moreover have "rp_kv s \<noteq> []" using assms(5) by auto
  ultimately show ?thesis using x d assms(4)
    by (intro exI [of _ "fl R (range_length s + x)"]) (simp add: replay_step_def i_def j_def)
qed

lemma replay_step_ok:
  assumes "rounding_ok (fl R)" "replay_ok s" "rng_nr s < 2 ^ 53" "tc_op t \<in> replay_ops"
    and "ranges_live [t] (fst ` set (rp_kv s))"
  shows "\<exists>s'. replay_step R t s = Some s' \<and> replay_ok s' \<and> fst ` set (rp_kv s') = live_keys [t] (fst ` set (rp_kv s)) \<and>
    get_nr s' = get_nr s + count_op kGet [t] \<and> ins_nr s' = ins_nr s + count_op kPut [t] \<and>
    del_nr s' = del_nr s + count_op kDelete [t] \<and> rng_nr s' = rng_nr s + count_op kVisit [t]"
proof (cases "tc_op t")
  case kVisit
  with assms(5) have "tc_lower t \<in> fst ` set (rp_kv s)" "tc_lower t \<le> tc_upper t" by simp_all
  from replay_visit [OF assms(1-3) kVisit this] assms(2) kVisit show ?thesis by (auto simp: replay_ok_def)
qed (use assms(2,4) add_mono [OF _ kv_count_le] in
  \<open>auto simp: replay_step_def replay_ok_def om_put_ok om_erase_ok om_put_keys om_erase_keys replay_ops_def\<close>)

lemma replay_tests_ok:
  assumes "rounding_ok (fl R)" "replay_ok s" "rng_nr s + length ts \<le> 2 ^ 53" "\<forall>t\<in>set ts. tc_op t \<in> replay_ops"
    and "ranges_live ts (fst ` set (rp_kv s))"
  shows "\<exists>s'. replay_tests R ts s = Some s' \<and> replay_ok s' \<and> fst ` set (rp_kv s') = live_keys ts (fst ` set (rp_kv s)) \<and>
    get_nr s' = get_nr s + count_op kGet ts \<and> ins_nr s' = ins_nr s + count_op kPut ts \<and>
    del_nr s' = del_nr s + count_op kDelete ts \<and> rng_nr s' = rng_nr s + count_op kVisit ts"
  using assms(2-)
proof (induction ts arbitrary: s)
  case (Cons t ts)
  have "\<exists>s'. replay_step R t s = Some s' \<and> replay_ok s' \<and> fst ` set (rp_kv s') = live_keys [t] (fst ` set (rp_kv s)) \<and>
    get_nr s' = get_nr s + count_op kGet [t] \<and> ins_nr s' = ins_nr s + count_op kPut [t] \<and>
    del_nr s' = del_nr s + count_op kDelete [t] \<and> rng_nr s' = rng_nr s + count_op kVisit [t]"
    using Cons.prems by (intro replay_step_ok [OF assms(1)]) auto
  then obtain s1 where s1: "replay_step R t s = Some s1" "replay_ok s1"
    "fst ` set (rp_kv s1) = live_keys [t] (fst ` set (rp_kv s))" "get_nr s1 = get_nr s + count_op kGet [t]"
    "ins_nr s1 = ins_nr s + count_op kPut [t]" "del_nr s1 = del_nr s + count_op kDelete [t]"
    "rng_nr s1 = rng_nr s + count_op kVisit [t]" by blast
  have "rng_nr s1 + length ts \<le> 2 ^ 53" using s1(7) Cons.prems(2) by (simp split: if_splits)
  moreover have "ranges_live ts (fst ` set (rp_kv s1))" using s1(3) Cons.prems(4) by simp
  ultimately obtain s' where "replay_tests R ts s1 = Some s'" "replay_ok s'"
    "fst ` set (rp_kv s') = live_keys ts (fst ` set (rp_kv s1))" "get_nr s' = get_nr s1 + count_op kGet ts"
    "ins_nr s' = ins_nr s1 + count_op kPut ts" "del_nr s' = del_nr s1 + count_op kDelete ts"
    "rng_nr s' = rng_nr s1 + count_op kVisit ts" using Cons.IH [OF s1(2)] Cons.prems(3) by auto
  with s1 show ?case by simp
qed simp

text \<open>The operations of generated tests.\<close>

lemma rand_test_ops:
  assumes "rand_test R A 0 i g r = Some (t, g', r')" "gen_inv R (\<lambda>k. True) confs g"
  shows "gen_inv R (\<lambda>k. True) confs g' \<and> tc_op t \<in> insert kNoOp (oc_op ` set confs)"
proof -
  from assms(1) obtain c r1 where c: "pick_conf R g r = Some (c, r1)" "fill_test R A c g r1 = Some (t, g', r')"
    by (auto simp: rand_test_def bind_eq_Some_conv)
  from assms(2) have s: "set_ok (inserted_keys g)" by (simp add: gen_inv_def)
  from pick_conf_in [OF c(1) assms(2)] fill_test_live [OF c(2) s] rand_test_live [OF assms(1) s] assms(2)
  show ?thesis by (auto simp: gen_inv_def)
qed

lemma rand_tests_ops:
  assumes "rand_tests R A n 0 g r = Some (ts, g', r')" "gen_inv R (\<lambda>k. True) confs g"
  shows "\<forall>t\<in>set ts. tc_op t \<in> insert kNoOp (oc_op ` set confs)"
proof -
  let ?P = "\<lambda>i (ts, g', r'). gen_inv R (\<lambda>k. True) confs g' \<and> (\<forall>t\<in>set ts. tc_op t \<in> insert kNoOp (oc_op ` set confs))"
  have "?P n (ts, g', r')"
  proof (rule for_up_returned [OF assms(1) [unfolded rand_tests_def], where P = ?P])
    fix i s s'
    assume p: "?P i s" and s': "(case s of (ret, g, r) \<Rightarrow> do { (t, g, r) \<leftarrow> rand_test R A 0 i g r; Some (ret @ [t], g, r) }) = Some s'"
    obtain ts g1 r1 where s: "s = (ts, g1, r1)" by (cases s)
    with s' obtain t g2 r2 where t: "rand_test R A 0 i g1 r1 = Some (t, g2, r2)" "s' = (ts @ [t], g2, r2)"
      by (auto simp: bind_eq_Some_conv)
    from rand_test_ops [OF t(1), of confs] p s t(2) show "?P (Suc i) s'" by auto
  qed (use assms(2) in simp_all)
  then show ?thesis by simp
qed

section \<open>Properties\<close>

text \<open>
  C39. \<^verbatim>\<open>unittest/bench_gen.cpp\<close> measures what it means to measure: on the tests a generator makes
  from puts, gets, removals and visits, its replay never meets another operation, never asks
  for the distance of two iterators in the wrong order and never skips a visit because the
  map is empty; the counters are the numbers of tests of each kind, no found counter exceeds
  its total, the ranges add up to at most one whole map for each visit, and the map ends with
  the keys the generator believes to be inserted.
\<close>
theorem bench_gen_replay:
  assumes "rounding_ok (fl R)" "BenchGenerator R confs = Some g" "oc_op ` set confs \<subseteq> {kPut, kGet, kDelete, kVisit}"
    and "rand_tests R A n 0 g r = Some (ts, g', r')" "n \<le> 2 ^ 53"
  shows "\<exists>s. replay_tests R ts replay_init = Some s \<and> fst ` set (rp_kv s) = set (inserted_keys g') \<and>
    get_nr s = count_op kGet ts \<and> ins_nr s = count_op kPut ts \<and> del_nr s = count_op kDelete ts \<and>
    rng_nr s = count_op kVisit ts \<and> get_found s \<le> get_nr s \<and> insert_found s \<le> ins_nr s \<and>
    delete_found s \<le> del_nr s \<and> 0 \<le> range_length s \<and> range_length s \<le> real (rng_nr s)"
proof -
  from generator_inv [OF assms(2)] have g: "gen_inv R (\<lambda>k. True) confs g" "inserted_keys g = []" by blast+
  have ops: "\<forall>t\<in>set ts. tc_op t \<in> replay_ops"
    using rand_tests_ops [OF assms(4) g(1)] assms(3) by (auto simp: replay_ops_def)
  from rand_tests_live [OF assms(4)] g(2) have
    l: "length ts = n" "set (inserted_keys g') = live_keys ts {}" "ranges_live ts {}" by simp_all
  have "replay_ok replay_init" by (simp add: replay_ok_def replay_init_def om_ok_def)
  with replay_tests_ok [OF assms(1) this _ ops] l assms(5) show ?thesis
    by (auto simp: replay_init_def replay_ok_def)
qed

theorem bench_gen_replay_witness:
  "\<exists>g ts g' r' s. rand_tests sample_rng (PrintableAllocator sample_rng) 7 0 g 0 = Some (ts, g', r') \<and>
    replay_tests sample_rng ts replay_init = Some s \<and> fst ` set (rp_kv s) = set (inserted_keys g')"
proof -
  from sample_gen(1) obtain g where g: "BenchGenerator sample_rng sample_confs = Some g" by blast
  from rand_tests_total [OF sample_env g sample_gen(2) sample_ops] obtain ts g' r' where
    t: "rand_tests sample_rng (PrintableAllocator sample_rng) 7 0 g 0 = Some (ts, g', r')" by blast
  have "oc_op ` set sample_confs \<subseteq> {kPut, kGet, kDelete, kVisit}" by (simp add: sample_confs_def)
  from bench_gen_replay [OF sample_rng_ok(2) g this t] t show ?thesis by force
qed

text \<open>
  \<^verbatim>\<open>unittest/rand_key.cpp\<close> can fail only at its last two checks: all sizes are in range and all
  strings have the size asked for and are alphanumeric; it passes exactly if some round drew
  the largest size for the key and some round did for the value.
\<close>
theorem rand_key_passes:
  assumes "rng_ok R"
  shows "rand_key_main R r \<noteq> None \<longleftrightarrow>
    (\<exists>i<kTestTime. \<exists>kb vb q. key_rounds R i r = Some (kb, vb, q) \<and> fst (draw_int R 0 100 q) = 100) \<and>
    (\<exists>i<kTestTime. \<exists>kb vb q. key_rounds R i r = Some (kb, vb, q) \<and>
      fst (draw_int R 0 100 (snd (draw_int R 0 100 q))) = 100)"
    (is "_ \<longleftrightarrow> ?K \<and> ?V")
proof -
  from key_rounds_flags [OF assms, of kTestTime r] obtain kb vb r' where
    l: "key_rounds R kTestTime r = Some (kb, vb, r')" "kb \<longleftrightarrow> ?K" "vb \<longleftrightarrow> ?V" by blast
  have "rand_key_main R r \<noteq> None \<longleftrightarrow> kb \<and> vb"
    by (cases kb; cases vb) (simp_all add: rand_key_main_def l(1) check_def)
  then show ?thesis using l(2,3) by blast
qed

theorem rand_key_passes_witness:
  "rand_key_main (sample_rng\<lparr>draw_int := \<lambda>lo hi r. (hi, r + 1)\<rparr>) 0 \<noteq> None"
proof -
  let ?R = "sample_rng\<lparr>draw_int := \<lambda>lo hi r. (hi, r + 1)\<rparr>"
  have R: "rng_ok ?R" by (simp add: rng_ok_def sample_rng_def)
  have "key_rounds ?R 0 0 = Some (False, False, 0)" by (simp add: key_rounds_def)
  moreover have "0 < kTestTime" by (simp add: kTestTime_def)
  ultimately show ?thesis using rand_key_passes [OF R, of 0] by (auto simp: sample_rng_def)
qed

text \<open>
  The loop of \<^verbatim>\<open>test_random_choose\<close> passes its checks and puts each draw into one of the
  hundred buckets: their counts add up to the number of draws.
\<close>
theorem random_choose_counts:
  assumes "rng_ok R"
  shows "\<exists>bucket r'. for_up 0 kTestTime (\<lambda>i. choose_step R (map int [0..<kItemNr])) (replicate kItemNr 0, r) =
    Some (bucket, r') \<and> length bucket = kItemNr \<and> sum_list bucket = kTestTime"
proof -
  let ?P = "\<lambda>i (bucket, r :: 'a). length bucket = kItemNr \<and> sum_list bucket = i"
  have "\<exists>z. for_up 0 kTestTime (\<lambda>i. choose_step R (map int [0..<kItemNr])) (replicate kItemNr 0, r) = Some z \<and> ?P kTestTime z"
  proof (rule for_up_inv [where P = ?P])
    fix i and z :: "nat list \<times> 'a"
    assume "i < kTestTime" "?P i z"
    with choose_step_total [OF assms, of "fst z" i "snd z"] show
      "\<exists>z'. choose_step R (map int [0..<kItemNr]) z = Some z' \<and> ?P (Suc i) z'" by (cases z) auto
  qed (simp_all add: sum_list_replicate)
  then show ?thesis by auto
qed

end
