(* ===== verification/Clients.thy ===== *)
theory Clients
  imports Engine_Conc Executor
begin

text \<open>
  Threads that run test cases on one engine at the same time, as the programs of \<^verbatim>\<open>test\<close> start
  them: each calls the engine, other threads run between the call and its return, and then
  checks the answer.  What a thread knows of the engine is stated as a contract that the calls of
  the other threads respect; under it no check ever fails.
\<close>

section \<open>Checking an answer\<close>

text \<open>
  The part of \<^verbatim>\<open>validate_execute\<close> and of \<^verbatim>\<open>execute\<close> behind the return of the call: the new map of the
  validator, or an abort.
\<close>

definition called_ops :: "Op set" where
  "called_ops = {kPut, kDelete, kGet, kGc, kVisit}"

definition validate_reply :: "omap \<Rightarrow> test_case \<Rightarrow> kv_result \<Rightarrow> omap option" where
  "validate_reply kv c r = (case tc_op c of
       kPut \<Rightarrow> do { check (r = RCode kSucc); Some (om_put (tc_key c) (tc_value c) kv) }
     | kDelete \<Rightarrow> (case map_of kv (tc_key c) of
           Some x \<Rightarrow> do { check (r = RCode kSucc); Some (om_erase (tc_key c) kv) }
         | None \<Rightarrow> do { check (r = RCode kNotFound); Some kv })
     | kGet \<Rightarrow> (case map_of kv (tc_key c) of
           Some x \<Rightarrow> do { check (r = RValue kSucc x); Some kv }
         | None \<Rightarrow> do { check (r = RValue kNotFound []); Some kv })
     | kGc \<Rightarrow> do { check (r = RCode kSucc); Some kv }
     | kVisit \<Rightarrow> (case r of
           RScan ret kvs \<Rightarrow> do {
             got \<leftarrow> fold (\<lambda>(k, v). count_visitor kv k v) kvs (Some 0);
             check (ret = kSucc);
             let beg_it = (if tc_lower c = [] then 0 else om_lower_bound (tc_lower c) kv);
             let end_it = (if tc_upper c = [] then length kv else om_upper_bound (tc_upper c) kv);
             check (beg_it \<le> end_it);
             check (end_it - beg_it = got);
             Some kv }
         | _ \<Rightarrow> None)
     | _ \<Rightarrow> None)"

definition execute_reply :: "unit \<Rightarrow> test_case \<Rightarrow> kv_result \<Rightarrow> unit option" where
  "execute_reply u c r = (case tc_op c of
       kPut \<Rightarrow> check (r = RCode kSucc)
     | kDelete \<Rightarrow> check (r = RCode kSucc \<or> r = RCode kNotFound)
     | kGet \<Rightarrow> (case r of RValue ret v \<Rightarrow> check (ret = kSucc \<or> ret = kNotFound) | _ \<Rightarrow> None)
     | kGc \<Rightarrow> check (r = RCode kSucc)
     | kVisit \<Rightarrow> Some ()
     | _ \<Rightarrow> None)"

text \<open>A call and its check, one after the other, are a case of the executors.\<close>

lemma validate_case_reply:
  assumes "tc_op c \<in> called_ops - {kVisit}"
  shows "validate_case engine_iface c (kv, s) =
    do { (r, s) \<leftarrow> engine_call path (test_call c) s; kv \<leftarrow> validate_reply kv c r; Some (kv, s) }"
  using assms
  by (cases "tc_op c"; cases "map_of kv (tc_key c)")
    (auto simp: called_ops_def validate_case_def validate_put_def validate_delete_def validate_get_def validate_reply_def
      test_call_def engine_iface_def check_def bind_assoc case_prod_unfold intro!: Option.bind_cong [OF refl])

lemma execute_case_reply:
  assumes "tc_op c \<in> called_ops - {kVisit}"
  shows "execute_case engine_iface c s =
    do { (r, s) \<leftarrow> engine_call path (test_call c) s; execute_reply () c r; Some s }"
  using assms
  by (cases "tc_op c")
    (auto simp: called_ops_def execute_case_def execute_reply_def
      test_call_def engine_iface_def check_def bind_assoc case_prod_unfold intro!: Option.bind_cong [OF refl])

lemma count_visitor_pairs:
  "fold (\<lambda>(k, v). count_visitor kv k v) (map (\<lambda>k. (k, f k)) ks) g = fold (\<lambda>k. count_visitor kv k (f k)) ks g"
  by (induction ks arbitrary: g) simp_all

lemma validate_visit_reply:
  assumes "tc_op c = kVisit" "store_holds path s m n" "m \<noteq> Map.empty"
  shows "validate_case engine_iface c (kv, s) =
    do { (r, s) \<leftarrow> engine_call path (test_call c) s; kv \<leftarrow> validate_reply kv c r; Some (kv, s) }"
proof -
  have v: "engine_abs (fst s) (snd s) m" using assms(2) unfolding store_holds_def Let_def by blast
  from view_file [OF v assms(3)] obtain str where f: "fs_files (snd s) (log_filename (fst s)) = Some str" by blast
  have app: "fold (\<lambda>k u. u @ [(k, the (m k))]) ks u = u @ map (\<lambda>k. (k, the (m k))) ks" for ks u
    by (induction ks arbitrary: u) simp_all
  from Engine_visit_correct [OF v f, of "tc_lower c" "tc_upper c" "count_visitor kv" "Some 0"]
    Engine_visit_correct [OF v f, of "tc_lower c" "tc_upper c" "\<lambda>k v u. u @ [(k, v)]" "[]"] assms(1)
  show ?thesis
    by (simp add: validate_case_def validate_visit_def validate_reply_def test_call_def engine_iface_def app
        count_visitor_pairs Let_def bind_assoc)
qed

section \<open>The threads\<close>

record 'v clients =
  cl_sys :: cstate
  cl_left :: "nat \<Rightarrow> test_case list"
  cl_view :: "nat \<Rightarrow> 'v"
  cl_failed :: bool

text \<open>
  A thread begins its next case, the engine runs, and the call returns; a failed check ends the
  program.  Threads with a \<^verbatim>\<open>sync\<close> or a snapshot in front of them do not go on.
\<close>

inductive client_step :: "('v \<Rightarrow> test_case \<Rightarrow> kv_result \<Rightarrow> 'v option) \<Rightarrow> 'v clients \<Rightarrow> 'v clients \<Rightarrow> bool" for reply where
  skip: "\<not> cl_failed s \<Longrightarrow> cl_left s i = c # cs \<Longrightarrow> tc_op c = kNoOp \<Longrightarrow> c_ph (cl_sys s) i = Idle \<Longrightarrow>
    client_step reply s (s\<lparr>cl_left := (cl_left s)(i := cs)\<rparr>)"
| begin_case: "\<not> cl_failed s \<Longrightarrow> cl_left s i = c # cs \<Longrightarrow> tc_op c \<in> called_ops \<Longrightarrow>
    cstep (cl_sys s) (Call i (test_call c)) sys \<Longrightarrow> client_step reply s (s\<lparr>cl_sys := sys\<rparr>)"
| inside: "\<not> cl_failed s \<Longrightarrow> cstep (cl_sys s) Tau sys \<Longrightarrow> client_step reply s (s\<lparr>cl_sys := sys\<rparr>)"
| answered: "\<not> cl_failed s \<Longrightarrow> cl_left s i = c # cs \<Longrightarrow> cstep (cl_sys s) (Ret i r) sys \<Longrightarrow> reply (cl_view s i) c r = Some v \<Longrightarrow>
    client_step reply s (s\<lparr>cl_sys := sys, cl_left := (cl_left s)(i := cs), cl_view := (cl_view s)(i := v)\<rparr>)"
| aborted: "\<not> cl_failed s \<Longrightarrow> cl_left s i = c # cs \<Longrightarrow> cstep (cl_sys s) (Ret i r) sys \<Longrightarrow> reply (cl_view s i) c r = None \<Longrightarrow>
    client_step reply s (s\<lparr>cl_sys := sys, cl_failed := True\<rparr>)"

text \<open>The states of a program that gives the threads their cases on a new engine.\<close>

definition client_start :: "engine \<Rightarrow> nat \<Rightarrow> (nat \<Rightarrow> test_case list) \<Rightarrow> 'v \<Rightarrow> 'v clients" where
  "client_start e n tests v0 = \<lparr>cl_sys = \<lparr>c_eng = e, c_fs = new_fs n, c_ph = (\<lambda>i. Idle), c_held = (\<lambda>i. [])\<rparr>,
     cl_left = tests, cl_view = (\<lambda>i. v0), cl_failed = False\<rparr>"

inductive client_run :: "('v \<Rightarrow> test_case \<Rightarrow> kv_result \<Rightarrow> 'v option) \<Rightarrow> string \<Rightarrow> nat \<Rightarrow> (nat \<Rightarrow> test_case list) \<Rightarrow> 'v \<Rightarrow>
    'v clients \<Rightarrow> bool" for reply path n tests v0 where
  begin_run: "Engine_ctor path (new_fs n) = Some e \<Longrightarrow> client_run reply path n tests v0 (client_start e n tests v0)"
| go_on: "client_run reply path n tests v0 s \<Longrightarrow> client_step reply s s' \<Longrightarrow> client_run reply path n tests v0 s'"

section \<open>The contract between threads\<close>

text \<open>
  What thread \<open>i\<close> with view \<open>v\<close> knows of the map before, during and after a call; \<open>ready\<close> is what
  is asked of the cases it still has.
\<close>

definition client_ok :: "('v \<Rightarrow> test_case \<Rightarrow> kv_result \<Rightarrow> 'v option) \<Rightarrow> (nat \<Rightarrow> 'v \<Rightarrow> test_case list \<Rightarrow> bool) \<Rightarrow>
    (nat \<Rightarrow> 'v \<Rightarrow> (string \<rightharpoonup> string) \<Rightarrow> bool) \<Rightarrow> nat \<Rightarrow> status \<Rightarrow> 'v \<Rightarrow> test_case list \<Rightarrow> (string \<rightharpoonup> string) \<Rightarrow> bool" where
  "client_ok reply ready sees i st v ts m \<longleftrightarrow> (case st of
       Outside \<Rightarrow> ready i v ts \<and> sees i v m
     | Pending c \<Rightarrow> \<exists>t cs. ts = t # cs \<and> tc_op t \<in> called_ops \<and> c = test_call t \<and> ready i v ts \<and> sees i v m
     | Answered r \<Rightarrow> \<exists>t cs v'. ts = t # cs \<and> reply v t r = Some v' \<and> ready i v' cs \<and> sees i v' m)"

lemma client_ok_simps [simp]:
  "client_ok reply ready sees i Outside v ts m \<longleftrightarrow> ready i v ts \<and> sees i v m"
  "client_ok reply ready sees i (Pending c) v ts m \<longleftrightarrow>
     (\<exists>t cs. ts = t # cs \<and> tc_op t \<in> called_ops \<and> c = test_call t \<and> ready i v ts \<and> sees i v m)"
  "client_ok reply ready sees i (Answered r) v ts m \<longleftrightarrow>
     (\<exists>t cs v'. ts = t # cs \<and> reply v t r = Some v' \<and> ready i v' cs \<and> sees i v' m)"
  by (simp_all add: client_ok_def)

inductive_cases astep_callE: "astep m st (Call i c) m' st'"
inductive_cases astep_retE: "astep m st (Ret i r) m' st'"

lemma put_call: "tc_op t \<in> called_ops \<Longrightarrow> test_call t = CPut k v \<Longrightarrow> tc_op t = kPut \<and> tc_key t = k"
  by (cases "tc_op t") (simp_all add: test_call_def called_ops_def)

locale client_contract =
  fixes reply :: "'v \<Rightarrow> test_case \<Rightarrow> kv_result \<Rightarrow> 'v option"
    and ready :: "nat \<Rightarrow> 'v \<Rightarrow> test_case list \<Rightarrow> bool"
    and sees :: "nat \<Rightarrow> 'v \<Rightarrow> (string \<rightharpoonup> string) \<Rightarrow> bool"
  assumes ready_skip: "ready i v (c # cs) \<Longrightarrow> tc_op c = kNoOp \<Longrightarrow> ready i v cs"
    and ready_key: "ready i v (c # cs) \<Longrightarrow> tc_op c = kPut \<Longrightarrow> nul_free (tc_key c)"
    and reply_ok: "ready i v (c # cs) \<Longrightarrow> tc_op c \<in> called_ops \<Longrightarrow> sees i v m \<Longrightarrow>
      \<exists>v'. reply v c (fst (map_call (test_call c) m)) = Some v' \<and> ready i v' cs \<and>
        sees i v' (snd (map_call (test_call c) m))"
    and others_kept: "ready j w (c # cs) \<Longrightarrow> tc_op c \<in> called_ops \<Longrightarrow> j \<noteq> i \<Longrightarrow> sees i v m \<Longrightarrow>
      sees i v (snd (map_call (test_call c) m))"
begin

abbreviation ok where
  "ok \<equiv> client_ok reply ready sees"

text \<open>A call at its moment: the thread has its answer, the others know what they knew.\<close>

lemma atomic_kept:
  assumes "ok i (Pending c) v ts m"
  shows "ok i (Answered (fst (map_call c m))) v ts (snd (map_call c m))"
    "j \<noteq> i \<Longrightarrow> ok j st w us m \<Longrightarrow> ok j st w us (snd (map_call c m))"
proof -
  from assms obtain t cs where t: "ts = t # cs" "tc_op t \<in> called_ops" "c = test_call t" "ready i v (t # cs)" "sees i v m"
    by auto
  from reply_ok [OF t(4,2,5)] t(1,3) show "ok i (Answered (fst (map_call c m))) v ts (snd (map_call c m))" by auto
  assume "j \<noteq> i" "ok j st w us m"
  then show "ok j st w us (snd (map_call c m))"
    using others_kept [OF t(4,2), of j] t(3) by (cases st) auto
qed

lemma tau_kept:
  assumes "astep m st Tau m' st'" "\<forall>i. ok i (st i) (v i) (ts i) m"
  shows "\<forall>i. ok i (st' i) (v i) (ts i) m'"
  using assms
proof (induction m st Tau m' st' rule: astep.induct)
  case (astep_atomic st i c m)
  with atomic_kept [of i c "v i" "ts i" m] show ?case by (metis fun_upd_apply)
qed

lemma client_inv:
  assumes "client_run reply path n tests v0 s" "n < 2 ^ 31" "\<forall>i. ready i v0 (tests i)" "\<forall>i. sees i v0 Map.empty"
  shows "\<not> cl_failed s \<and> (\<exists>m. conc_inv path n (cl_sys s) m \<and>
    (\<forall>i. ok i (status_of (c_ph (cl_sys s) i)) (cl_view s i) (cl_left s i) m))"
  using assms(1)
proof (induction rule: client_run.induct)
  case (begin_run e)
  with start_inv [OF begin_run assms(2)] assms(3,4) show ?case by (auto simp: status_of_def client_start_def)
next
  case (go_on s s')
  then obtain m where inv: "conc_inv path n (cl_sys s) m"
    and o: "\<forall>i. ok i (status_of (c_ph (cl_sys s) i)) (cl_view s i) (cl_left s i) m" by blast
  from go_on.hyps(2) show ?case
  proof cases
    case (skip i c cs)
    then have "status_of (c_ph (cl_sys s) i) = Outside" by (simp add: status_of_def)
    with o skip(3) have "ready i (cl_view s i) (c # cs)" "sees i (cl_view s i) m" by (metis client_ok_simps(1))+
    with ready_skip [OF this(1) skip(4)] skip o inv show ?thesis by (auto simp: status_of_def)
  next
    case (begin_case i c cs sys)
    then have "c_ph (cl_sys s) i = Idle" by (auto elim: cstep.cases)
    then have out: "status_of (c_ph (cl_sys s) i) = Outside" by (simp add: status_of_def)
    with o begin_case(3) have i: "ready i (cl_view s i) (c # cs)" "sees i (cl_view s i) m" by (metis client_ok_simps(1))+
    have nf: "\<And>j k v. Call i (test_call c) = Call j (CPut k v) \<Longrightarrow> nul_free k"
      using put_call [OF begin_case(4)] ready_key [OF i(1)] by auto
    have "\<exists>m'. conc_inv path n sys m' \<and>
      astep m (\<lambda>i. status_of (c_ph (cl_sys s) i)) (Call i (test_call c)) m' (\<lambda>i. status_of (c_ph sys i))"
      by (rule cstep_astep [OF begin_case(5) inv assms(2)]) (rule nf)
    then obtain m' where m': "conc_inv path n sys m'"
      "astep m (\<lambda>i. status_of (c_ph (cl_sys s) i)) (Call i (test_call c)) m' (\<lambda>i. status_of (c_ph sys i))" by blast
    from m'(2) have "m' = m" "(\<lambda>i. status_of (c_ph sys i)) = (\<lambda>i. status_of (c_ph (cl_sys s) i))(i := Pending (test_call c))"
      by (auto elim: astep_callE)
    then have "status_of (c_ph sys j) = (if j = i then Pending (test_call c) else status_of (c_ph (cl_sys s) j))" for j
      by (metis fun_upd_apply)
    with m'(1) o i begin_case \<open>m' = m\<close> show ?thesis by auto
  next
    case (inside sys)
    from cstep_astep [OF inside(3) inv assms(2)] obtain m' where
      "conc_inv path n sys m'" "astep m (\<lambda>i. status_of (c_ph (cl_sys s) i)) Tau m' (\<lambda>i. status_of (c_ph sys i))" by auto
    with tau_kept [OF this(2), of "cl_view s" "cl_left s"] o inside show ?thesis by auto
  next
    case (answered i c cs r sys v)
    from cstep_astep [OF answered(4) inv assms(2)] obtain m' where m': "conc_inv path n sys m'"
      "astep m (\<lambda>i. status_of (c_ph (cl_sys s) i)) (Ret i r) m' (\<lambda>i. status_of (c_ph sys i))" by auto
    then have eqs: "m' = m" "status_of (c_ph (cl_sys s) i) = Answered r"
      "(\<lambda>i. status_of (c_ph sys i)) = (\<lambda>i. status_of (c_ph (cl_sys s) i))(i := Outside)" by (auto elim: astep_retE)
    then have "status_of (c_ph sys j) = (if j = i then Outside else status_of (c_ph (cl_sys s) j))" for j
      by (metis fun_upd_apply)
    moreover have "ready i v cs" "sees i v m" using o answered(3,5) eqs(2) by (metis client_ok_simps(3) list.inject option.inject)+
    ultimately show ?thesis using m'(1) o answered eqs(1) by auto
  next
    case (aborted i c cs r sys)
    from cstep_astep [OF aborted(4) inv assms(2)] obtain m' where
      "astep m (\<lambda>i. status_of (c_ph (cl_sys s) i)) (Ret i r) m' (\<lambda>i. status_of (c_ph sys i))" by auto
    then have "status_of (c_ph (cl_sys s) i) = Answered r" by (auto elim: astep_retE)
    with o aborted(3,5) have False by (metis client_ok_simps(3) list.inject option.distinct(1))
    then show ?thesis ..
  qed
qed

end

text \<open>Programs whose threads have only cases they can run.\<close>

locale client_program = client_contract +
  assumes ready_ops: "ready i v (c # cs) \<Longrightarrow> tc_op c \<in> insert kNoOp called_ops"
begin

lemma case_begins:
  assumes "ready i (cl_view s i) (c # cs)" "cl_left s i = c # cs" "\<not> cl_failed s" "c_ph (cl_sys s) i = Idle"
  shows "\<exists>s'. client_step reply s s'"
proof (cases "tc_op c = kNoOp")
  case True
  from client_step.skip [OF assms(3,2) True assms(4)] show ?thesis by blast
next
  case False
  with ready_ops [OF assms(1)] have c: "tc_op c \<in> called_ops" by blast
  have "test_call c \<noteq> CReopen" using c by (cases "tc_op c") (simp_all add: test_call_def called_ops_def)
  from client_step.begin_case [OF assms(3,2) c cstep.call [of "cl_sys s", OF assms(4) this]] show ?thesis by blast
qed

end

section \<open>Validators of disjoint keys\<close>

text \<open>
  Each key has at most one owner.  A thread with a validator uses only its own keys, and visits
  only ranges of them; its map is the engine's on these keys.
\<close>

definition own_keys :: "(string \<Rightarrow> nat option) \<Rightarrow> nat \<Rightarrow> string set" where
  "own_keys owner i = {k. owner k = Some i}"

definition own_case :: "(string \<Rightarrow> nat option) \<Rightarrow> nat \<Rightarrow> test_case \<Rightarrow> bool" where
  "own_case owner i t \<longleftrightarrow> (case tc_op t of
       kPut \<Rightarrow> owner (tc_key t) = Some i \<and> nul_free (tc_key t)
     | kDelete \<Rightarrow> owner (tc_key t) = Some i
     | kGet \<Rightarrow> owner (tc_key t) = Some i
     | kVisit \<Rightarrow> tc_upper t \<noteq> [] \<and> tc_lower t \<le> tc_upper t \<and>
         (\<forall>k. tc_lower t \<le> k \<and> k \<le> tc_upper t \<longrightarrow> owner k = Some i)
     | kGc \<Rightarrow> True
     | kNoOp \<Rightarrow> True
     | _ \<Rightarrow> False)"

definition own_ready :: "(string \<Rightarrow> nat option) \<Rightarrow> nat \<Rightarrow> omap \<Rightarrow> test_case list \<Rightarrow> bool" where
  "own_ready owner i v ts \<longleftrightarrow> list_all (own_case owner i) ts"

definition own_sees :: "(string \<Rightarrow> nat option) \<Rightarrow> nat \<Rightarrow> omap \<Rightarrow> (string \<rightharpoonup> string) \<Rightarrow> bool" where
  "own_sees owner i v m \<longleftrightarrow> om_ok v \<and> map_of v = m |` own_keys owner i"

lemma visit_answer:
  assumes "om_ok v" "map_of v = m |` own_keys owner i" "own_case owner i c" "tc_op c = kVisit"
  shows "validate_reply v c (fst (map_call (test_call c) m)) = Some v"
proof -
  let ?l = "tc_lower c" and ?u = "tc_upper c"
  have c: "?u \<noteq> []" "?l \<le> ?u" "\<And>k. ?l \<le> k \<Longrightarrow> k \<le> ?u \<Longrightarrow> k \<in> own_keys owner i"
    using assms(3,4) by (simp_all add: own_case_def own_keys_def)
  have "{k \<in> dom m. ?l \<le> k \<and> k \<le> ?u} = {k \<in> dom (map_of v). ?l \<le> k \<and> k \<le> ?u}" using assms(2) c(3) by auto
  then have ks: "keys_in m ?l ?u = keys_in (map_of v) ?l ?u" by (simp add: keys_in_def)
  have "finite {k \<in> dom (map_of v). ?l \<le> k \<and> k \<le> ?u}"
    using finite_dom_map_of [of v] by (rule rev_finite_subset) auto
  then have "\<forall>k\<in>set (keys_in (map_of v) ?l ?u). map_of v k = Some (the (m k))"
    using assms(2) c(3) by (auto simp: keys_in_def restrict_map_def)
  from count_visitor_fold [OF this, of 0] om_range [OF assms(1) c(2)] c(1) assms(4) ks show ?thesis
    by (cases "tc_lower c") (simp_all add: validate_reply_def test_call_def count_visitor_pairs om_lower_bound_Nil)
qed

lemma own_answer:
  assumes "own_case owner i c" "own_sees owner i v m" "tc_op c \<in> called_ops"
  shows "\<exists>v'. validate_reply v c (fst (map_call (test_call c) m)) = Some v' \<and>
    own_sees owner i v' (snd (map_call (test_call c) m))"
proof -
  have v: "om_ok v" "map_of v = m |` own_keys owner i" using assms(2) by (simp_all add: own_sees_def)
  have key: "map_of v k = m k" if "owner k = Some i" for k using v(2) that by (simp add: own_keys_def)
  show ?thesis
  proof (cases "tc_op c")
    case kVisit
    from visit_answer [OF v assms(1) kVisit] assms(2) kVisit show ?thesis by (simp add: test_call_def)
  next
    case kDelete
    then have "map_of v (tc_key c) = m (tc_key c)" using key assms(1) by (simp add: own_case_def)
    then show ?thesis using kDelete v
      by (cases "m (tc_key c)") (auto simp: validate_reply_def test_call_def own_sees_def om_erase_ok map_of_om_erase
          restrict_map_def fun_eq_iff own_keys_def)
  next
    case kGet
    then have "map_of v (tc_key c) = m (tc_key c)" using key assms(1) by (simp add: own_case_def)
    then show ?thesis using kGet v by (cases "m (tc_key c)") (auto simp: validate_reply_def test_call_def own_sees_def)
  qed (use assms v in \<open>auto simp: own_case_def validate_reply_def test_call_def own_sees_def called_ops_def om_put_ok
      map_of_om_put restrict_map_def fun_eq_iff own_keys_def\<close>)
qed

lemma own_others:
  assumes "own_case owner j c" "own_sees owner i v m" "tc_op c \<in> called_ops" "j \<noteq> i"
  shows "own_sees owner i v (snd (map_call (test_call c) m))"
  using assms by (cases "tc_op c") (auto simp: own_case_def test_call_def own_sees_def called_ops_def restrict_map_def
      fun_eq_iff own_keys_def)

interpretation owners: client_program validate_reply "own_ready owner" "own_sees owner" for owner
proof unfold_locales
  show "own_ready owner i v (c # cs) \<Longrightarrow> tc_op c = kNoOp \<Longrightarrow> own_ready owner i v cs" for i v c cs
    by (simp add: own_ready_def)
  show "own_ready owner i v (c # cs) \<Longrightarrow> tc_op c = kPut \<Longrightarrow> nul_free (tc_key c)" for i v c cs
    by (simp add: own_ready_def own_case_def)
  show "own_ready owner i v (c # cs) \<Longrightarrow> tc_op c \<in> insert kNoOp called_ops" for i v c cs
    by (cases "tc_op c") (simp_all add: own_ready_def own_case_def called_ops_def)
qed (use own_answer own_others in \<open>auto simp: own_ready_def\<close>)

section \<open>Threads that share keys\<close>

text \<open>
  \<^verbatim>\<open>execute\<close> asks only for codes that cannot be wrong, so its threads may share their keys.  All of them
  put only keys of a set \<open>K\<close> and values of a set \<open>V\<close>, and so the engine has no others.
\<close>

definition shared_ready :: "string set \<Rightarrow> string set \<Rightarrow> nat \<Rightarrow> unit \<Rightarrow> test_case list \<Rightarrow> bool" where
  "shared_ready K V i u ts \<longleftrightarrow> (\<forall>t\<in>set ts. tc_op t = kPut \<longrightarrow> nul_free (tc_key t) \<and> tc_key t \<in> K \<and> tc_value t \<in> V)"

definition shared_sees :: "string set \<Rightarrow> string set \<Rightarrow> nat \<Rightarrow> unit \<Rightarrow> (string \<rightharpoonup> string) \<Rightarrow> bool" where
  "shared_sees K V i u m \<longleftrightarrow> dom m \<subseteq> K \<and> ran m \<subseteq> V"

lemma shared_case:
  assumes "shared_ready K V j u (c # cs)" "shared_sees K V i v m"
  shows "shared_sees K V i w (snd (map_call (test_call c) m))"
  using assms by (cases "tc_op c") (auto simp: shared_ready_def shared_sees_def test_call_def ran_def split: if_splits)

interpretation sharers: client_contract execute_reply "shared_ready K V" "shared_sees K V" for K V
proof unfold_locales
  show "\<exists>w. execute_reply v c (fst (map_call (test_call c) m)) = Some w \<and> shared_ready K V i w cs \<and>
      shared_sees K V i w (snd (map_call (test_call c) m))"
    if "shared_ready K V i v (c # cs)" "tc_op c \<in> called_ops" "shared_sees K V i v m" for i v c cs m
  proof -
    from that(2) have "execute_reply v c (fst (map_call (test_call c) m)) = Some ()"
      by (cases "tc_op c") (auto simp: execute_reply_def test_call_def called_ops_def split: option.splits)
    with shared_case [OF that(1,3)] that(1) show ?thesis by (auto simp: shared_ready_def)
  qed
qed (use shared_case in \<open>auto simp: shared_ready_def\<close>)

end
