(* ===== verification/Clients_Live.thy ===== *)
theory Clients_Live
  imports Clients Engine_Live
begin

text \<open>
  Threads that run test cases come to an end: every step of a program makes a measure smaller, and as
  long as some thread has cases left, the program can take a step, unless the disk is full or the log
  is missing.
\<close>

section \<open>A measure\<close>

text \<open>What a thread has in front of it in a call; a finished call still holds some locks.\<close>

fun phase_left :: "phase \<Rightarrow> nat \<Rightarrow> nat" where
  "phase_left Idle h = 16"
| "phase_left (Called c) h = 15"
| "phase_left (Has1 c) h = 14"
| "phase_left (Has2 c) h = 13"
| "phase_left (GcReady c offs) h = 11"
| "phase_left (GcMoved offs) h = 10"
| "phase_left (Finished r) h = h"
| "phase_left _ h = 12"

definition thread_left :: "'v clients \<Rightarrow> nat \<Rightarrow> nat" where
  "thread_left s i = 20 * length (cl_left s i) + phase_left (c_ph (cl_sys s) i) (length (c_held (cl_sys s) i))"

definition steps_ahead :: "nat \<Rightarrow> 'v clients \<Rightarrow> nat" where
  "steps_ahead T s = (if cl_failed s then 0 else 1 + (\<Sum>i<T. thread_left s i))"

lemma locks_few: "length (locks_of q) \<le> 3"
  by (induction q rule: locks_of.induct) simp_all

lemma phase_left_le: "h \<le> 3 \<Longrightarrow> phase_left q h \<le> 16"
  by (cases q) simp_all

lemma lock_left:
  assumes "next_lock q = Some (h, p)"
  shows "phase_left p n < phase_left q n'"
  using assms by (induction q rule: next_lock.induct) auto

lemma body_left:
  assumes "body q e fs = Some (p, e', fs')" "n \<le> 3"
  shows "phase_left p n < phase_left q n"
proof (cases q)
  case (Has1 c)
  with assms show ?thesis by (cases c) (auto simp: body.simps bind_eq_Some_conv split_beta split: if_splits)
next
  case (Has2 c)
  with assms show ?thesis by (cases c) (auto simp: body.simps bind_eq_Some_conv split: if_splits)
next
  case (GetFound k index)
  with assms get_reads show ?thesis by fastforce
qed (use assms in \<open>auto simp: body.simps bind_eq_Some_conv split_beta\<close>)

lemma held_few:
  assumes "conc_inv path n s m" "\<nexists>r. c_ph s i = Finished r"
  shows "length (c_held s i) \<le> 3"
  using held_locks [OF assms] locks_few by metis

lemma sum_less:
  assumes "i < (T :: nat)" "f i < g i" "\<And>j. j \<noteq> i \<Longrightarrow> f j = (g j :: nat)"
  shows "(\<Sum>j<T. f j) < (\<Sum>j<T. g j)"
proof -
  have "f j \<le> g j" for j using assms(2,3) by (cases "j = i") auto
  with assms(1,2) show ?thesis by (intro sum_strict_mono_ex1) auto
qed

section \<open>A step of the engine\<close>

text \<open>A step of the engine is one of a single thread, which has less in front of it then.\<close>

definition moved_thread :: "cstate \<Rightarrow> cstate \<Rightarrow> nat \<Rightarrow> bool" where
  "moved_thread s s' i \<longleftrightarrow> (\<forall>j. j \<noteq> i \<longrightarrow> c_ph s' j = c_ph s j \<and> c_held s' j = c_held s j)"

lemma tau_left:
  assumes "cstep s Tau s'" "conc_inv path n s m"
  shows "\<exists>i. moved_thread s s' i \<and> c_ph s i \<noteq> Idle \<and>
    phase_left (c_ph s' i) (length (c_held s' i)) < phase_left (c_ph s i) (length (c_held s i))"
  using assms(1)
proof cases
  case (lock i l a p)
  then have "c_ph s i \<noteq> Idle" by auto
  with lock lock_left [OF lock(2)] show ?thesis by (intro exI [of _ i]) (simp add: moved_thread_def)
next
  case (work i p e fs)
  then have "\<nexists>r. c_ph s i = Finished r" "c_ph s i \<noteq> Idle" by (auto simp: body.simps)
  with held_few [OF assms(2)] work body_left [OF work(2)] show ?thesis
    by (intro exI [of _ i]) (simp add: moved_thread_def)
next
  case (unlock i r h hs)
  then show ?thesis by (intro exI [of _ i]) (simp add: moved_thread_def)
qed

section \<open>A step of a program\<close>

lemma thread_left_other:
  assumes "moved_thread (cl_sys s) (cl_sys s') i" "j \<noteq> i" "cl_left s' j = cl_left s j"
  shows "thread_left s' j = thread_left s j"
  using assms by (simp add: thread_left_def moved_thread_def)

lemma step_left:
  assumes "client_step reply s s'" "conc_inv path n (cl_sys s) m"
    and beyond: "\<forall>i\<ge>T. cl_left s i = [] \<and> c_ph (cl_sys s) i = Idle"
  shows "steps_ahead T s' < steps_ahead T s"
proof -
  have dec: "steps_ahead T s' < steps_ahead T s"
    if "i < T" "thread_left s' i < thread_left s i" "\<And>j. j \<noteq> i \<Longrightarrow> thread_left s' j = thread_left s j" "\<not> cl_failed s" for i
    using sum_less [OF that(1), of "thread_left s'" "thread_left s"] that(2-4) by (simp add: steps_ahead_def)
  from assms(1) show ?thesis
  proof cases
    case (skip i c cs)
    then have "i < T" using beyond by (metis list.distinct(1) not_less)
    then show ?thesis by (rule dec) (use skip in \<open>simp_all add: thread_left_def\<close>)
  next
    case (begin_case i c cs sys)
    then have "i < T" using beyond by (metis list.distinct(1) not_less)
    then show ?thesis
      by (rule dec) (use begin_case(1,2,5) in \<open>auto simp: thread_left_def elim!: cstep.cases\<close>)
  next
    case (inside sys)
    from tau_left [OF inside(3) assms(2)] obtain i where i: "moved_thread (cl_sys s) sys i" "c_ph (cl_sys s) i \<noteq> Idle"
      "phase_left (c_ph sys i) (length (c_held sys i)) < phase_left (c_ph (cl_sys s) i) (length (c_held (cl_sys s) i))" by blast
    then have "i < T" using beyond by (metis not_less)
    then show ?thesis
      by (rule dec) (use i inside(1,2) in \<open>simp_all add: thread_left_def moved_thread_def\<close>)
  next
    case (answered i c cs r sys v)
    then have "i < T" using beyond by (metis list.distinct(1) not_less)
    then show ?thesis
      by (rule dec) (use answered(1,2,3,4) in \<open>auto simp: thread_left_def elim!: cstep.cases\<close>)
  next
    case (aborted i c cs r sys)
    then show ?thesis by (simp add: steps_ahead_def)
  qed
qed

lemma left_nothing:
  assumes "client_run reply path n tests v0 s" "tests i = []"
  shows "cl_left s i = []"
  using assms
proof (induction rule: client_run.induct)
  case (go_on s s')
  from go_on.hyps(2) go_on.IH [OF go_on.prems] show ?case by cases auto
qed (simp add: client_start_def)

lemma status_outside: "status_of p = Outside \<longleftrightarrow> p = Idle"
  by (cases p) (simp_all add: status_of_def)

section \<open>Programs end\<close>

context client_contract
begin

lemma idle_beyond:
  assumes "client_run reply path n tests v0 s" "n < 2 ^ 31" "\<forall>i. ready i v0 (tests i)" "\<forall>i. sees i v0 Map.empty"
    and "tests i = []"
  shows "c_ph (cl_sys s) i = Idle"
proof -
  from client_inv [OF assms(1-4)] obtain m where
    "ok i (status_of (c_ph (cl_sys s) i)) (cl_view s i) (cl_left s i) m" by blast
  with left_nothing [OF assms(1,5)] have "status_of (c_ph (cl_sys s) i) = Outside"
    by (cases "status_of (c_ph (cl_sys s) i)") auto
  then show ?thesis by (simp add: status_outside)
qed

lemma run_bounded:
  assumes "client_run reply path n tests v0 s" "n < 2 ^ 31" "\<forall>i. ready i v0 (tests i)" "\<forall>i. sees i v0 Map.empty"
    and "\<forall>i\<ge>T. tests i = []" "(client_step reply ^^ k) s s'"
  shows "client_run reply path n tests v0 s' \<and> k + steps_ahead T s' \<le> steps_ahead T s"
  using assms(6)
proof (induction k arbitrary: s')
  case 0
  with assms(1) show ?case by simp
next
  case (Suc k)
  then obtain s1 where s1: "(client_step reply ^^ k) s s1" "client_step reply s1 s'" by auto
  from Suc.IH [OF s1(1)] have r: "client_run reply path n tests v0 s1" and le: "k + steps_ahead T s1 \<le> steps_ahead T s"
    by blast+
  from client_inv [OF r assms(2-4)] obtain m where "conc_inv path n (cl_sys s1) m" by blast
  moreover have "\<forall>i\<ge>T. cl_left s1 i = [] \<and> c_ph (cl_sys s1) i = Idle"
    using left_nothing [OF r] idle_beyond [OF r assms(2-4)] assms(5) by blast
  ultimately have "steps_ahead T s' < steps_ahead T s1" by (rule step_left [OF s1(2)])
  with le client_run.go_on [OF r s1(2)] show ?case by simp
qed

end

context client_program
begin

lemma program_goes_on:
  assumes "client_run reply path n tests v0 s" "n < 2 ^ 31" "\<forall>i. ready i v0 (tests i)" "\<forall>i. sees i v0 Map.empty"
  shows "(\<forall>i. cl_left s i = [] \<and> c_ph (cl_sys s) i = Idle) \<or> (\<exists>s'. client_step reply s s') \<or>
    (\<exists>m j. conc_inv path n (cl_sys s) m \<and> lacks m (c_eng (cl_sys s)) (c_fs (cl_sys s)) (c_ph (cl_sys s) j))"
proof -
  from client_inv [OF assms] obtain m where inv: "\<not> cl_failed s" "conc_inv path n (cl_sys s) m"
    "\<And>i. ok i (status_of (c_ph (cl_sys s) i)) (cl_view s i) (cl_left s i) m" by blast
  show ?thesis
  proof (cases "\<forall>i. c_ph (cl_sys s) i = Idle")
    case True
    show ?thesis
    proof (cases "\<forall>i. cl_left s i = []")
      case False
      then obtain i c cs where c: "cl_left s i = c # cs" by (meson neq_Nil_conv)
      with inv(3) [of i] True have "ready i (cl_view s i) (c # cs)" by (simp add: status_outside [THEN iffD2])
      from case_begins [where s = s, OF this c inv(1)] True show ?thesis by blast
    qed (use True in blast)
  next
    case False
    then obtain i where "c_ph (cl_sys s) i \<noteq> Idle" by blast
    from busy_steps [OF inv(2) assms(2) this] obtain j where
      j: "c_ph (cl_sys s) j \<noteq> Idle" "lacks m (c_eng (cl_sys s)) (c_fs (cl_sys s)) (c_ph (cl_sys s) j) \<or> can_step (cl_sys s) j" by blast
    show ?thesis
    proof (cases "can_step (cl_sys s) j")
      case True
      then obtain ev sys where e: "cstep (cl_sys s) ev sys" "(c_ph sys j, c_held sys j) \<noteq> (c_ph (cl_sys s) j, c_held (cl_sys s) j)"
        by (auto simp: can_step_def)
      show ?thesis
      proof (cases ev)
        case Tau
        with client_step.inside [OF inv(1)] e(1) show ?thesis by blast
      next
        case (Call i c)
        with e have "i = j" "c_ph (cl_sys s) i = Idle" by (auto elim!: cstep.cases split: if_splits)
        with j(1) show ?thesis by simp
      next
        case (Ret i r)
        with e(1) have "c_ph (cl_sys s) i = Finished r" by (auto elim: cstep.cases)
        with inv(3) [of i] obtain c cs v where "cl_left s i = c # cs" "reply (cl_view s i) c r = Some v"
          by (auto simp: status_of_def)
        with client_step.answered [OF inv(1)] e(1) Ret show ?thesis by blast
      qed
    qed (use j(2) inv(2) in blast)
  qed
qed

end

end
