(* ===== verification/BTree_Show.thy ===== *)
theory BTree_Show
  imports BTree_Index
begin

text \<open>
  The printing of the index, \<^verbatim>\<open>BNode::show_key\<close> and \<^verbatim>\<open>BTree::show_tree\<close> of
  \<^verbatim>\<open>include/btree.h\<close>: a breadth-first walk over a queue of node pointers that finds the start of a
  level by the address of its first node.  It is compared with the levels of the abstract tree.
\<close>

section \<open>Numbers in decimal\<close>

text \<open>\<^verbatim>\<open>std::to_string\<close> of a \<^verbatim>\<open>size_t\<close> and of an \<^verbatim>\<open>int\<close>.\<close>

fun nat_string :: "nat \<Rightarrow> string" where
  "nat_string n = (if n < 10 then [char_of (48 + n)] else nat_string (n div 10) @ [char_of (48 + n mod 10)])"

declare nat_string.simps [simp del]

lemma nat_string_0: "nat_string 0 = ''0''"
  by code_simp

definition int_string :: "int \<Rightarrow> string" where
  "int_string i = (if i < 0 then ''-'' @ nat_string (nat (- i)) else nat_string (nat i))"

section \<open>The code\<close>

definition show_key :: "bnode \<Rightarrow> string \<Rightarrow> string option" where
  "show_key n log_out = do {
     log_out \<leftarrow> for_up 0 (length (key n)) (\<lambda>i log_out. do {
       k \<leftarrow> at (key n) i;
       let log_out = log_out @ k;
       log_out \<leftarrow> (if is_leaf n then do {
           d \<leftarrow> at (data n) i;
           Some (log_out @ ''('' @ int_string (sint d) @ '')'') }
         else Some log_out);
       Some (log_out @ '', '') }) (log_out @ ''['');
     Some (log_out @ '']'') }"

text \<open>The local variables of \<^verbatim>\<open>show_tree\<close>; \<open>sh_logged\<close> holds what went to \<^verbatim>\<open>LOG(INFO)\<close>.\<close>

record show_vars =
  sh_queue :: "ptr list"
  sh_level :: nat
  sh_child_n :: nat
  sh_first_node :: ptr
  sh_cur_parent :: ptr
  sh_log_out :: string
  sh_logged :: "string list"

definition show_step :: "ptr \<Rightarrow> bnode \<Rightarrow> show_vars \<Rightarrow> show_vars option" where
  "show_step v n s = do {
     s \<leftarrow> (if v = sh_first_node s then do {
         c \<leftarrow> at (child n) 0;
         Some (s\<lparr>sh_level := sh_level s + 1, sh_cur_parent := parent n, sh_child_n := 0, sh_first_node := c,
           sh_logged := sh_logged s @ [sh_log_out s], sh_log_out := ''ch0: ''\<rparr>) }
       else if parent n \<noteq> sh_cur_parent s then
         Some (s\<lparr>sh_child_n := sh_child_n s + 1, sh_log_out := sh_log_out s @ '' || '',
           sh_cur_parent := parent n\<rparr>)
       else Some s);
     out \<leftarrow> show_key n (sh_log_out s);
     Some (s\<lparr>sh_log_out := out @ '', '',
       sh_queue := sh_queue s @ filter (\<lambda>c. c \<noteq> nullptr) (child n)\<rparr>) }"

text \<open>The loop over the queue; on a cyclic heap it would not end.\<close>

partial_function (option) show_loop :: "btree \<Rightarrow> nat \<Rightarrow> show_vars \<Rightarrow> show_vars option" where
  "show_loop t i s = (if i < length (sh_queue s) then do {
       v \<leftarrow> at (sh_queue s) i;
       n \<leftarrow> node_at t v;
       s \<leftarrow> show_step v n s;
       show_loop t (Suc i) s }
     else Some s)"

declare show_loop.simps [code]

definition show_tree :: "btree \<Rightarrow> string list option" where
  "show_tree t = do {
     s \<leftarrow> show_loop t 0 \<lparr>sh_queue = [bt_root t], sh_level = 0, sh_child_n = 0,
       sh_first_node = bt_root t, sh_cur_parent = nullptr,
       sh_log_out = ''_size = '' @ nat_string (unat (bt_size t)), sh_logged = []\<rparr>;
     Some (sh_logged s @ [sh_log_out s]) }"

section \<open>The levels of a tree\<close>

primrec kids :: "tree \<Rightarrow> tree list" where
  "kids (Lf p ks ds) = []"
| "kids (Nd p ks ts) = ts"

fun tree_height :: "tree \<Rightarrow> nat" where
  "tree_height (Nd p ks (t # ts)) = Suc (tree_height t)"
| "tree_height _ = 0"

text \<open>A level is a list of groups of siblings.\<close>

primrec tree_levels :: "nat \<Rightarrow> tree list list \<Rightarrow> tree list list list" where
  "tree_levels 0 gs = [gs]"
| "tree_levels (Suc n) gs = gs # tree_levels n (map kids (concat gs))"

primrec node_text :: "tree \<Rightarrow> string" where
  "node_text (Lf p ks ds) = ''['' @ concat (map (\<lambda>(k, d). k @ ''('' @ int_string (sint d) @ ''), '') (zip ks ds)) @ '']''"
| "node_text (Nd p ks ts) = ''['' @ concat (map (\<lambda>k. k @ '', '') ks) @ '']''"

definition group_text :: "tree list \<Rightarrow> string" where
  "group_text ts = concat (map (\<lambda>t. node_text t @ '', '') ts)"

fun separated :: "string \<Rightarrow> string list \<Rightarrow> string" where
  "separated sep [] = []"
| "separated sep [x] = x"
| "separated sep (x # y # xs) = x @ sep @ separated sep (y # xs)"

definition level_text :: "tree list list \<Rightarrow> string" where
  "level_text gs = ''ch0: '' @ separated '' || '' (map group_text gs)"

lemma separated_Cons: "separated sep (x # xs) = x @ concat (map (\<lambda>y. sep @ y) xs)"
  by (induction xs arbitrary: x) simp_all

lemma separated_Nil: "separated sep [] = []"
  by simp

section \<open>One node\<close>

lemma for_up_appends:
  "(\<And>i s. i < n \<Longrightarrow> f i s = Some (s @ g i)) \<Longrightarrow> for_up 0 n f s = Some (s @ concat (map g [0..<n]))"
proof -
  assume f: "\<And>i s. i < n \<Longrightarrow> f i s = Some (s @ g i)"
  have "\<exists>s'. for_up 0 n f s = Some s' \<and> s' = s @ concat (map g [0..<n])"
    by (rule for_up_inv [where P = "\<lambda>i s'. s' = s @ concat (map g [0..<i])"]) (simp_all add: f)
  then show ?thesis by simp
qed

lemma concat_upt: "concat (map (\<lambda>i. g (xs ! i)) [0..<length xs]) = concat (map g xs)"
  by (rule arg_cong [where f = concat]) (rule nth_equalityI, simp_all)

lemma core_fields: "core n = c \<Longrightarrow> key n = key c \<and> is_leaf n = is_leaf c \<and> data n = data c \<and> child n = child c \<and> parent n = parent c"
  by (auto simp: core_def split: if_splits)

definition node_fits :: "tree \<Rightarrow> bool" where
  "node_fits T = (case T of Lf p ks ds \<Rightarrow> length ds = length ks | Nd p ks ts \<Rightarrow> ts \<noteq> [])"

lemma show_key_text:
  assumes "core n = node_core p T" "node_fits T"
  shows "show_key n s = Some (s @ node_text T)"
proof (cases T)
  case (Lf q ks ds)
  with assms core_fields [OF assms(1)] have n: "key n = ks" "is_leaf n" "data n = ds" "length ds = length ks"
    by (simp_all add: node_core_def node_fits_def)
  have "(\<lambda>i. ks ! i @ ''('' @ int_string (sint (ds ! i)) @ ''), '') = (\<lambda>i. (\<lambda>(k, d). k @ ''('' @ int_string (sint d) @ ''), '') (ks ! i, ds ! i))"
    by simp
  then have "concat (map (\<lambda>i. ks ! i @ ''('' @ int_string (sint (ds ! i)) @ ''), '') [0..<length ks]) =
      concat (map (\<lambda>(k, d). k @ ''('' @ int_string (sint d) @ ''), '') (zip ks ds))"
    using n(4) by (intro arg_cong [where f = concat] nth_equalityI) simp_all
  with n show ?thesis
    by (simp add: show_key_def Lf for_up_appends [where g = "\<lambda>i. ks ! i @ ''('' @ int_string (sint (ds ! i)) @ ''), ''"] at_Some)
next
  case (Nd q ks ts)
  with core_fields [OF assms(1)] have "key n = ks" "\<not> is_leaf n" by (simp_all add: node_core_def)
  then show ?thesis
    by (simp add: show_key_def Nd for_up_appends [where g = "\<lambda>i. ks ! i @ '', ''"] at_Some concat_upt [where g = "\<lambda>k. k @ '', ''"])
qed

text \<open>What the heap says of a node with the parent \<open>p\<close>.\<close>

definition held :: "btree \<Rightarrow> ptr \<Rightarrow> tree \<Rightarrow> bool" where
  "held t p T \<longleftrightarrow> has (bt_heap t) (addr T) (node_core p T) \<and> node_fits T \<and> 0 \<notin> addr ` set (kids T)"

lemma node_core_children:
  "0 \<notin> addr ` set (kids T) \<Longrightarrow> filter (\<lambda>c. c \<noteq> nullptr) (child (node_core p T)) = map addr (kids T)"
  by (cases T) (auto simp: node_core_def filter_id_conv)

lemma show_step_node:
  assumes "core n = node_core p T" "node_fits T" "0 \<notin> addr ` set (kids T)" "v \<noteq> sh_first_node s"
  shows "\<exists>c. show_step v n s = Some (s\<lparr>sh_child_n := c, sh_cur_parent := p,
    sh_log_out := sh_log_out s @ (if p = sh_cur_parent s then [] else '' || '') @ node_text T @ '', '',
    sh_queue := sh_queue s @ map addr (kids T)\<rparr>)"
proof -
  have "parent n = p" "filter (\<lambda>c. c \<noteq> nullptr) (child n) = map addr (kids T)"
    using core_fields [OF assms(1)] node_core_children [OF assms(3), of p]
    by (simp_all add: node_core_def split: tree.splits)
  then show ?thesis
    using assms by (cases s) (auto simp: show_step_def show_key_text [OF assms(1,2)])
qed

lemma show_step_first:
  assumes "core n = node_core p T" "node_fits T" "0 \<notin> addr ` set (kids T)"
  shows "\<exists>l. show_step (sh_first_node s) n s = Some (s\<lparr>sh_level := l, sh_child_n := 0, sh_cur_parent := p,
    sh_first_node := (case kids T of [] \<Rightarrow> 0 | K # _ \<Rightarrow> addr K),
    sh_logged := sh_logged s @ [sh_log_out s],
    sh_log_out := ''ch0: '' @ node_text T @ '', '',
    sh_queue := sh_queue s @ map addr (kids T)\<rparr>)"
proof -
  have "parent n = p" "filter (\<lambda>c. c \<noteq> nullptr) (child n) = map addr (kids T)"
    using core_fields [OF assms(1)] node_core_children [OF assms(3), of p]
    by (simp_all add: node_core_def split: tree.splits)
  moreover have "at (child n) 0 = Some (case kids T of [] \<Rightarrow> 0 | K # _ \<Rightarrow> addr K)"
    using core_fields [OF assms(1)] assms(2)
    by (cases T) (auto simp: node_core_def node_fits_def at_def split: list.splits)
  ultimately show ?thesis
    by (cases s) (auto simp: show_step_def show_key_text [OF assms(1,2)])
qed

section \<open>One level\<close>

text \<open>A level as the queue holds it: its trees, each with the address of its parent.\<close>

fun run_text :: "ptr \<Rightarrow> (ptr \<times> tree) list \<Rightarrow> string" where
  "run_text c [] = []"
| "run_text c ((p, T) # lv) = (if p = c then [] else '' || '') @ node_text T @ '', '' @ run_text p lv"

definition flat :: "(ptr \<times> tree list) list \<Rightarrow> (ptr \<times> tree) list" where
  "flat G = concat (map (\<lambda>(p, ts). map (Pair p) ts) G)"

lemma map_snd_flat: "map snd (flat G) = concat (map snd G)"
  by (induction G) (auto simp: flat_def comp_def)

lemma in_flat: "T \<in> set (concat (map snd G)) \<longleftrightarrow> (\<exists>p. (p, T) \<in> set (flat G))"
  unfolding map_snd_flat [symmetric] by force

lemma run_text_group: "run_text p (map (Pair p) ts @ lv) = group_text ts @ run_text p lv"
  by (induction ts) (simp_all add: group_text_def)

lemma group_text_Cons: "group_text (T # ts) = node_text T @ '', '' @ group_text ts"
  by (simp add: group_text_def)

lemma run_text_others:
  assumes "distinct (c # map fst G)" "\<forall>(p, ts)\<in>set G. ts \<noteq> []"
  shows "run_text c (flat G) = concat (map (\<lambda>y. '' || '' @ y) (map (group_text \<circ> snd) G))"
  using assms
proof (induction G arbitrary: c)
  case (Cons g G)
  obtain p T ts where g: "g = (p, T # ts)" using Cons.prems(2) by (cases g; cases "snd g") auto
  have "run_text p (flat G) = concat (map (\<lambda>y. '' || '' @ y) (map (group_text \<circ> snd) G))"
    using Cons.prems by (intro Cons.IH) (simp_all add: g)
  moreover have "run_text c (flat (g # G)) = '' || '' @ node_text T @ '', '' @ run_text p (map (Pair p) ts @ flat G)"
    using Cons.prems(1) by (auto simp: g flat_def)
  ultimately show ?case by (simp add: g run_text_group group_text_Cons comp_def)
qed (simp add: flat_def)

lemma run_text_level:
  assumes "distinct (map fst G)" "\<forall>(p, ts)\<in>set G. ts \<noteq> []" "G \<noteq> []"
  shows "''ch0: '' @ run_text (fst (hd G)) (flat G) = level_text (map snd G)"
proof -
  obtain p ts G' where G: "G = (p, ts) # G'" using assms(3) by (cases G) auto
  then have "run_text p (flat G') = concat (map (\<lambda>y. '' || '' @ y) (map (group_text \<circ> snd) G'))"
    using assms(1,2) by (intro run_text_others) simp_all
  moreover have "flat G = map (Pair p) ts @ flat G'" by (simp add: G flat_def)
  ultimately show ?thesis by (simp add: G run_text_group level_text_def separated_Cons)
qed

lemma show_run:
  assumes "\<forall>(p, T)\<in>set lv. held t p T \<and> addr T \<noteq> sh_first_node s"
    and "sh_queue s = pre @ map (addr \<circ> snd) lv @ nx"
  shows "\<exists>s'. show_loop t (length pre) s = show_loop t (length pre + length lv) s' \<and>
    sh_queue s' = sh_queue s @ map addr (concat (map (kids \<circ> snd) lv)) \<and>
    sh_first_node s' = sh_first_node s \<and> sh_logged s' = sh_logged s \<and>
    sh_log_out s' = sh_log_out s @ run_text (sh_cur_parent s) lv"
  using assms
proof (induction lv arbitrary: pre nx s)
  case (Cons pT lv)
  obtain p T where pT: "pT = (p, T)" by (cases pT)
  then have h: "held t p T" "addr T \<noteq> sh_first_node s" using Cons.prems(1) by auto
  then obtain n where n: "bt_heap t (addr T) = Some n" "core n = node_core p T"
    by (auto simp: held_def has_def)
  from show_step_node [OF n(2), of "addr T" s] h obtain c where
    st: "show_step (addr T) n s = Some (s\<lparr>sh_child_n := c, sh_cur_parent := p,
      sh_log_out := sh_log_out s @ (if p = sh_cur_parent s then [] else '' || '') @ node_text T @ '', '',
      sh_queue := sh_queue s @ map addr (kids T)\<rparr>)" (is "_ = Some ?s")
    by (auto simp: held_def)
  have i: "at (sh_queue s) (length pre) = Some (addr T)" "length pre < length (sh_queue s)"
    using Cons.prems(2) by (simp_all add: pT at_def)
  then have l: "show_loop t (length pre) s = show_loop t (length (pre @ [addr T])) ?s"
    using n(1) st by (subst show_loop.simps) (simp add: node_at_def)
  have "\<exists>s'. show_loop t (length (pre @ [addr T])) ?s = show_loop t (length (pre @ [addr T]) + length lv) s' \<and>
    sh_queue s' = sh_queue ?s @ map addr (concat (map (kids \<circ> snd) lv)) \<and>
    sh_first_node s' = sh_first_node ?s \<and> sh_logged s' = sh_logged ?s \<and>
    sh_log_out s' = sh_log_out ?s @ run_text (sh_cur_parent ?s) lv"
    using Cons.prems by (intro Cons.IH [where nx = "nx @ map addr (kids T)"]) (auto simp: pT)
  then obtain s' where "show_loop t (length (pre @ [addr T])) ?s = show_loop t (length (pre @ [addr T]) + length lv) s'"
    "sh_queue s' = sh_queue ?s @ map addr (concat (map (kids \<circ> snd) lv))"
    "sh_first_node s' = sh_first_node ?s" "sh_logged s' = sh_logged ?s"
    "sh_log_out s' = sh_log_out ?s @ run_text (sh_cur_parent ?s) lv" by blast
  then show ?case unfolding l by (intro exI [of _ s']) (simp add: pT comp_def)
qed auto

lemma show_level:
  assumes "\<forall>(p, T)\<in>set ((p0, T0) # lv). held t p T" "sh_first_node s = addr T0"
    and "\<forall>(p, T)\<in>set lv. addr T \<noteq> 0 \<and> addr T \<notin> addr ` set (kids T0)"
    and "sh_queue s = pre @ map (addr \<circ> snd) ((p0, T0) # lv)"
  shows "\<exists>s'. show_loop t (length pre) s = show_loop t (length (sh_queue s)) s' \<and>
    sh_queue s' = sh_queue s @ map addr (concat (map (kids \<circ> snd) ((p0, T0) # lv))) \<and>
    sh_first_node s' = (case kids T0 of [] \<Rightarrow> 0 | K # _ \<Rightarrow> addr K) \<and>
    sh_logged s' = sh_logged s @ [sh_log_out s] \<and> sh_log_out s' = ''ch0: '' @ run_text p0 ((p0, T0) # lv)"
proof -
  let ?f = "case kids T0 of [] \<Rightarrow> 0 | K # _ \<Rightarrow> addr K"
  have h: "held t p0 T0" using assms(1) by simp
  then obtain n where n: "bt_heap t (addr T0) = Some n" "core n = node_core p0 T0"
    by (auto simp: held_def has_def)
  from show_step_first [OF n(2), of s] h assms(2) obtain l where
    st: "show_step (addr T0) n s = Some (s\<lparr>sh_level := l, sh_child_n := 0, sh_cur_parent := p0,
      sh_first_node := ?f, sh_logged := sh_logged s @ [sh_log_out s],
      sh_log_out := ''ch0: '' @ node_text T0 @ '', '', sh_queue := sh_queue s @ map addr (kids T0)\<rparr>)"
    (is "_ = Some ?s") by (auto simp: held_def)
  have "at (sh_queue s) (length pre) = Some (addr T0)" "length pre < length (sh_queue s)"
    using assms(4) by (simp_all add: at_def)
  then have l: "show_loop t (length pre) s = show_loop t (length (pre @ [addr T0])) ?s"
    using n(1) st by (subst show_loop.simps) (simp add: node_at_def)
  have "\<exists>s'. show_loop t (length (pre @ [addr T0])) ?s = show_loop t (length (pre @ [addr T0]) + length lv) s' \<and>
    sh_queue s' = sh_queue ?s @ map addr (concat (map (kids \<circ> snd) lv)) \<and>
    sh_first_node s' = sh_first_node ?s \<and> sh_logged s' = sh_logged ?s \<and>
    sh_log_out s' = sh_log_out ?s @ run_text (sh_cur_parent ?s) lv"
    using assms by (intro show_run [where nx = "map addr (kids T0)"]) (auto split: list.splits)
  then show ?thesis unfolding l using assms(4) by auto
qed

section \<open>All levels\<close>

definition level_ok :: "btree \<Rightarrow> nat \<Rightarrow> (ptr \<times> tree list) list \<Rightarrow> bool" where
  "level_ok t n G \<longleftrightarrow> G \<noteq> [] \<and> distinct (map fst G) \<and> (\<forall>(p, ts)\<in>set G. ts \<noteq> []) \<and>
     (\<forall>(p, T)\<in>set (flat G). (\<exists>m lo hi. tinv m lo hi n T) \<and> holds (bt_heap t) (nodes_of p T)) \<and>
     distinct (concat (map addrs (concat (map snd G)))) \<and> 0 \<notin> set (concat (map addrs (concat (map snd G))))"

definition next_groups :: "(ptr \<times> tree list) list \<Rightarrow> (ptr \<times> tree list) list" where
  "next_groups G = map (\<lambda>T. (addr T, kids T)) (concat (map snd G))"

lemma addr_in: "addr T \<in> set (addrs T)"
  by (cases T) simp_all

lemma kids_in: "K \<in> set (kids T) \<Longrightarrow> set (addrs K) \<subseteq> set (addrs T)"
  by (cases T) auto

lemma addrs_kids: "addrs T = addr T # concat (map addrs (kids T))"
  by (cases T) simp_all

lemma addrs_level:
  "mset (concat (map addrs Ts)) = mset (map addr Ts) + mset (concat (map addrs (concat (map kids Ts))))"
proof (induction Ts)
  case (Cons T Ts)
  then show ?case by (simp add: addrs_kids [of T])
qed simp

lemma invs_kids: "tinvs lo hi n ks ts \<Longrightarrow> \<forall>T\<in>set ts. \<exists>lo hi. tinv 2 lo hi n T"
  by (induction lo hi n ks ts rule: tinv_tinvs.induct(2) [where ?P = "\<lambda>_ _ _ _ _. True"]) auto

lemma inv_kids:
  assumes "tinv m lo hi n T"
  shows "\<forall>K\<in>set (kids T). \<exists>lo hi. tinv 2 lo hi (n - 1) K" "node_fits T" "kids T = [] \<longleftrightarrow> n = 0"
proof -
  show "\<forall>K\<in>set (kids T). \<exists>lo hi. tinv 2 lo hi (n - 1) K" "node_fits T" "kids T = [] \<longleftrightarrow> n = 0"
    using assms invs_length by (cases T; auto simp: node_fits_def leaf_ok_def dest: invs_kids; force)+
qed

lemma level_held:
  assumes "level_ok t n G" "(p, T) \<in> set (flat G)"
  shows "held t p T"
proof -
  from assms obtain m lo hi where i: "tinv m lo hi n T" "holds (bt_heap t) (nodes_of p T)"
    by (auto simp: level_ok_def)
  have "T \<in> set (concat (map snd G))" using assms(2) unfolding in_flat by blast
  then have "set (addrs T) \<subseteq> set (concat (map addrs (concat (map snd G))))" by auto
  then have "0 \<notin> set (addrs T)" using assms(1) by (auto simp: level_ok_def)
  then have "0 \<notin> addr ` set (kids T)" using kids_in addr_in by fastforce
  with i inv_kids(2) [OF i(1)] show ?thesis by (simp add: held_def nodes_of_split)
qed

lemma next_snd: "map snd (next_groups G) = map kids (concat (map snd G))"
  by (simp add: next_groups_def)

lemma level_next:
  assumes "level_ok t (Suc n) G"
  shows "level_ok t n (next_groups G)"
proof -
  let ?Ts = "concat (map snd G)"
  have m: "mset (concat (map addrs ?Ts)) = mset (map addr ?Ts @ concat (map addrs (concat (map kids ?Ts))))"
    unfolding mset_append by (rule addrs_level)
  have d: "distinct (map addr ?Ts @ concat (map addrs (concat (map kids ?Ts))))"
  proof -
    have "distinct (concat (map addrs ?Ts))" using assms unfolding level_ok_def by blast
    then show ?thesis unfolding mset_eq_imp_distinct_iff [OF m] .
  qed
  have z: "0 \<notin> set (concat (map addrs (concat (map kids ?Ts))))"
  proof -
    have "0 \<notin> set (concat (map addrs ?Ts))" using assms unfolding level_ok_def by blast
    then show ?thesis unfolding mset_eq_setD [OF m] set_append by blast
  qed
  have flat: "\<exists>p. (p, T) \<in> set (flat G)" if "T \<in> set ?Ts" for T
    using that by (simp only: in_flat)
  have ne: "?Ts \<noteq> []" "\<forall>T\<in>set ?Ts. kids T \<noteq> []"
  proof -
    show "?Ts \<noteq> []" using assms by (cases G) (auto simp: level_ok_def)
    show "\<forall>T\<in>set ?Ts. kids T \<noteq> []"
      using assms flat inv_kids(3) by (fastforce simp: level_ok_def)
  qed
  have kid: "(\<exists>m lo hi. tinv m lo hi n K) \<and> holds (bt_heap t) (nodes_of p K)"
    if pK: "(p, K) \<in> set (flat (next_groups G))" for p K
  proof -
    from pK obtain T where T: "T \<in> set ?Ts" "p = addr T" "K \<in> set (kids T)"
      by (auto simp: flat_def next_groups_def)
    with flat obtain q where "(q, T) \<in> set (flat G)" by blast
    with assms obtain m lo hi where i: "tinv m lo hi (Suc n) T" "holds (bt_heap t) (nodes_of q T)"
      by (auto simp: level_ok_def)
    have "set (nodes_of p K) \<subseteq> set (nodes_of q T)" using T(2,3) by (cases T) auto
    then have "holds (bt_heap t) (nodes_of p K)" using i(2) by (auto simp: holds_def)
    moreover from T(3) inv_kids(1) [OF i(1)] have "\<exists>lo hi. tinv 2 lo hi n K" by simp
    ultimately show ?thesis by blast
  qed
  have "next_groups G \<noteq> []" "\<forall>(p, ts)\<in>set (next_groups G). ts \<noteq> []" "map fst (next_groups G) = map addr ?Ts"
    using ne by (auto simp: next_groups_def comp_def)
  with d z kid show ?thesis by (simp only: level_ok_def next_snd distinct_append) blast
qed

lemma show_groups:
  assumes G: "level_ok t n G" and q: "sh_queue s = pre @ map addr (concat (map snd G))"
    and f: "sh_first_node s = addr (hd (concat (map snd G)))"
  shows "\<exists>s'. show_loop t (length pre) s = show_loop t (length (sh_queue s)) s' \<and>
    sh_queue s' = sh_queue s @ map addr (concat (map kids (concat (map snd G)))) \<and>
    sh_first_node s' = (case kids (hd (concat (map snd G))) of [] \<Rightarrow> 0 | K # _ \<Rightarrow> addr K) \<and>
    sh_logged s' = sh_logged s @ [sh_log_out s] \<and> sh_log_out s' = level_text (map snd G)"
proof -
  from G obtain p0 T0 ts G' where G': "G = (p0, T0 # ts) # G'"
    by (auto simp: level_ok_def neq_Nil_conv)
  define lv where "lv = map (Pair p0) ts @ flat G'"
  have fl: "flat G = (p0, T0) # lv" by (simp add: G' lv_def flat_def)
  have Ts: "concat (map snd G) = T0 # map snd lv" using map_snd_flat [of G] by (simp add: fl)
  have d: "distinct (concat (map addrs (T0 # map snd lv)))" "0 \<notin> set (concat (map addrs (T0 # map snd lv)))"
    using G Ts by (simp_all add: level_ok_def)
  have apart: "addr T \<noteq> 0 \<and> addr T \<notin> addr ` set (kids T0)" if "(p, T) \<in> set lv" for p T
  proof -
    have T: "set (addrs T) \<subseteq> set (concat (map addrs (map snd lv)))" using that by force
    then have "addr T \<notin> set (addrs T0)" using d(1) addr_in [of T] by auto
    moreover have "addr ` set (kids T0) \<subseteq> set (addrs T0)" using addr_in kids_in by fastforce
    moreover have "addr T \<noteq> 0" using T d(2) addr_in [of T] by (metis UnCI concat.simps(2) list.simps(9) set_append subsetD)
    ultimately show ?thesis by blast
  qed
  have "\<exists>s'. show_loop t (length pre) s = show_loop t (length (sh_queue s)) s' \<and>
    sh_queue s' = sh_queue s @ map addr (concat (map (kids \<circ> snd) ((p0, T0) # lv))) \<and>
    sh_first_node s' = (case kids T0 of [] \<Rightarrow> 0 | K # _ \<Rightarrow> addr K) \<and>
    sh_logged s' = sh_logged s @ [sh_log_out s] \<and> sh_log_out s' = ''ch0: '' @ run_text p0 ((p0, T0) # lv)"
  proof (rule show_level)
    show "\<forall>(p, T)\<in>set ((p0, T0) # lv). held t p T" using level_held [OF G] by (auto simp: fl)
    show "\<forall>(p, T)\<in>set lv. addr T \<noteq> 0 \<and> addr T \<notin> addr ` set (kids T0)" using apart by blast
  qed (use q f in \<open>simp_all add: Ts\<close>)
  moreover have "''ch0: '' @ run_text p0 ((p0, T0) # lv) = level_text (map snd G)"
    using run_text_level [of G] G by (simp add: level_ok_def fl) (simp add: G')
  ultimately show ?thesis by (simp add: Ts comp_def)
qed

lemma show_levels:
  assumes "level_ok t n G" "sh_queue s = pre @ map addr (concat (map snd G))"
    and "sh_first_node s = addr (hd (concat (map snd G)))"
  shows "\<exists>s'. show_loop t (length pre) s = Some s' \<and>
    sh_logged s' @ [sh_log_out s'] = sh_logged s @ [sh_log_out s] @ map level_text (tree_levels n (map snd G))"
  using assms
proof (induction n arbitrary: G pre s)
  case (0 G pre s)
  from show_groups [OF this] obtain s1 where
    s1: "show_loop t (length pre) s = show_loop t (length (sh_queue s)) s1"
    "sh_queue s1 = sh_queue s @ map addr (concat (map kids (concat (map snd G))))"
    "sh_logged s1 = sh_logged s @ [sh_log_out s]" "sh_log_out s1 = level_text (map snd G)" by blast
  have "kids T = []" if "T \<in> set (concat (map snd G))" for T
  proof -
    from that obtain q where "(q, T) \<in> set (flat G)" unfolding in_flat by blast
    with "0.prems"(1) show ?thesis using inv_kids(3) by (fastforce simp: level_ok_def)
  qed
  then have "sh_queue s1 = sh_queue s" using s1(2) by auto
  with s1 show ?case by (subst (asm) (2) show_loop.simps) auto
next
  case (Suc n)
  note G = level_next [OF Suc.prems(1)]
  from show_groups [OF Suc.prems] obtain s1 where
    s1: "show_loop t (length pre) s = show_loop t (length (sh_queue s)) s1"
    "sh_queue s1 = sh_queue s @ map addr (concat (map kids (concat (map snd G))))"
    "sh_first_node s1 = (case kids (hd (concat (map snd G))) of [] \<Rightarrow> 0 | K # _ \<Rightarrow> addr K)"
    "sh_logged s1 = sh_logged s @ [sh_log_out s]" "sh_log_out s1 = level_text (map snd G)" by blast
  have "sh_first_node s1 = addr (hd (concat (map kids (concat (map snd G)))))"
  proof -
    have "hd (map snd (next_groups G)) \<noteq> []" "next_groups G \<noteq> []"
      using G by (auto simp: level_ok_def neq_Nil_conv)
    then show ?thesis using s1(3)
      by (cases "concat (map snd G)") (auto simp: next_groups_def split: list.splits)
  qed
  from Suc.IH [OF G, of s1 "sh_queue s"] this s1 show ?case by (simp add: next_snd)
qed

lemma levels_height: "tinv m lo hi n T \<Longrightarrow> n = tree_height T"
proof (induction n arbitrary: m lo hi T)
  case 0
  then show ?case by (cases T rule: tree_height.cases) auto
next
  case (Suc n)
  then obtain p ks ts where T: "T = Nd p ks ts" "tinvs lo hi n ks ts" by (cases T) auto
  then obtain K ts' where "ts = K # ts'" by (cases ts; cases ks) auto
  with T invs_kids [OF T(2)] Suc.IH show ?case by auto
qed

lemma levels_nodes:
  "(\<And>T. T \<in> set (concat gs) \<Longrightarrow> \<exists>m lo hi. tinv m lo hi n T) \<Longrightarrow>
   mset (map addr (concat (concat (tree_levels n gs)))) = mset (concat (map addrs (concat gs)))"
proof (induction n arbitrary: gs)
  case 0
  then have "\<forall>T\<in>set (concat gs). addrs T = [addr T]" using inv_kids(3) addrs_kids by fastforce
  then have "concat (map addrs (concat gs)) = map addr (concat gs)"
    by (metis (no_types, lifting) concat_map_singleton map_eq_conv)
  then show ?case by simp
next
  case (Suc n)
  have "\<exists>m lo hi. tinv m lo hi n K" if "K \<in> set (concat (map kids (concat gs)))" for K
    using that Suc.prems inv_kids(1) by fastforce
  then have "mset (map addr (concat (concat (tree_levels n (map kids (concat gs)))))) =
      mset (concat (map addrs (concat (map kids (concat gs)))))" by (rule Suc.IH)
  then show ?case using addrs_level [of "concat gs"] by simp
qed

lemma root_level:
  assumes "btree_rep t T"
  shows "level_ok t (tree_height T) [(0, [T])]"
proof -
  from assms have h: "heap_is (bt_heap t) (nodes_of 0 T) (leaves T)"
    by (simp add: btree_rep_def repF_def frame_nodes_def frame_leaves_def)
  from assms obtain n where "tinv 0 None None n T" by (auto simp: btree_rep_def root_inv_def)
  then have "tinv 0 None None (tree_height T) T" using levels_height by metis
  with heap_isD(1,3,4) [OF h] show ?thesis by (auto simp: level_ok_def flat_def)
qed

section \<open>What is printed\<close>

text \<open>
  C33. \<^verbatim>\<open>BTree::show_tree\<close> on a well-formed tree returns.  It logs the number of keys and then
  one line for each level from the root down to the leaves, the nodes from left to right and
  a bar between groups of siblings, although it finds the levels and the groups by
  comparing pointers; every node of the heap is on exactly one of the lines, once.
\<close>
theorem show_tree_prints_levels:
  assumes "btree_rep t T"
  shows "show_tree t = Some ((''_size = '' @ nat_string (unat (bt_size t))) #
      map level_text (tree_levels (tree_height T) [[T]])) \<and>
    distinct (map addr (concat (concat (tree_levels (tree_height T) [[T]])))) \<and>
    addr ` set (concat (concat (tree_levels (tree_height T) [[T]]))) = dom (bt_heap t)"
proof -
  let ?l = "concat (concat (tree_levels (tree_height T) [[T]]))"
  note G = root_level [OF assms]
  have "bt_root t = addr T" using assms by (simp add: btree_rep_def repF_def)
  then have "show_tree t = Some ((''_size = '' @ nat_string (unat (bt_size t))) #
      map level_text (tree_levels (tree_height T) [[T]]))"
    using show_levels [OF G, of "\<lparr>sh_queue = [bt_root t], sh_level = 0, sh_child_n = 0,
       sh_first_node = bt_root t, sh_cur_parent = nullptr,
       sh_log_out = ''_size = '' @ nat_string (unat (bt_size t)), sh_logged = []\<rparr>" "[]"]
    by (auto simp: show_tree_def)
  moreover have m: "mset (map addr ?l) = mset (addrs T)"
    using levels_nodes [of "[[T]]" "tree_height T"] G by (auto simp: level_ok_def flat_def)
  moreover have "distinct (addrs T)" "dom (bt_heap t) = set (addrs T)"
    using assms heap_isD(1,2) [of "bt_heap t" "nodes_of 0 T"]
    by (auto simp: btree_rep_def repF_def frame_nodes_def frame_leaves_def)
  ultimately show ?thesis using mset_eq_imp_distinct_iff [OF m] mset_eq_setD [OF m] by simp
qed

theorem show_tree_prints_levels_witness:
  "show_tree BTree_ctor = Some [''_size = 0'', ''ch0: [], ''] \<and> dom (bt_heap BTree_ctor) = {1}"
  using show_tree_prints_levels [OF ctor_rep]
  by (simp add: level_text_def group_text_def BTree_ctor_def nat_string_0)

lemma show_five_keys: "(do { (rs, t) \<leftarrow> run_calls BTree_search BTree_insert BTree_remove
      [Ins ''a'' 1, Ins ''b'' 2, Ins ''c'' 3, Ins ''d'' 4, Ins ''e'' (-2)] BTree_ctor; show_tree t }) =
    Some [''_size = 5'', ''ch0: [c, ], '', ''ch0: [a(1), b(2), ], [c(3), d(4), e(-2), ], '']"
  by code_simp

end
