(* ===== verification/Test_Programs.thy ===== *)
theory Test_Programs
  imports Clients_Live Bench BTree_Show
begin

text \<open>
  Programs of \<^verbatim>\<open>test\<close>, one for each kind of test: tests with restarts of the engine
  (\<^verbatim>\<open>basic_reopen_put_rm_get.cpp\<close>), validators in parallel, each on the keys with its own prefix
  (\<^verbatim>\<open>multithread_put_rm_get2.cpp\<close>, \<^verbatim>\<open>bonus_multithread_put_rm_get_visit2.cpp\<close>), executors in parallel on
  shared keys (\<^verbatim>\<open>multithread_put_rm_get3.cpp\<close> and others), threads on one key
  (\<^verbatim>\<open>multi_thread_linearizability.cpp\<close>), and a process that is killed (\<^verbatim>\<open>crash_put_rm_get.cpp\<close>).  A
  failed check is \<open>None\<close>.
\<close>

definition Engine_new_instance :: "string \<Rightarrow> fsys \<Rightarrow> engine option" where
  "Engine_new_instance path fs = Engine_ctor path fs"

section \<open>Restarts\<close>

definition rm_get_confs :: "'r rng \<Rightarrow> op_config list" where
  "rm_get_confs R = confs_of R [(kGet, 15 / 100, 2, 4, 2 / 10, 0), (kPut, 7 / 10, 2, 4, 3 / 10, 0),
     (kDelete, 15 / 100, 2, 4, 3 / 10, 0)]"

text \<open>One round: a new engine on the old files, and a validator with the map of the last one.\<close>

definition reopen_round :: "'r rng \<Rightarrow> string \<Rightarrow> nat \<Rightarrow> bench_gen \<times> 'r \<times> omap \<times> fsys \<Rightarrow>
    (bench_gen \<times> 'r \<times> omap \<times> fsys) option" where
  "reopen_round R kvdir test_nr s = do {
     let (g, r, kv, fs) = s;
     e \<leftarrow> Engine_new_instance kvdir fs;
     (ts, g, r) \<leftarrow> rand_tests R (PrintableAllocator R) test_nr 0 g r;
     executor \<leftarrow> validate_execute engine_iface ts (EngineValidator_kv (e, fs) kv);
     Some (g, r, get_internal_kv executor, snd (snd executor)) }"

definition reopen_main :: "'r rng \<Rightarrow> string \<Rightarrow> nat \<Rightarrow> nat \<Rightarrow> fsys \<Rightarrow> 'r \<Rightarrow> (bench_gen \<times> 'r \<times> omap \<times> fsys) option" where
  "reopen_main R kvdir reopen_nr test_nr fs r = do {
     g \<leftarrow> BenchGenerator R (rm_get_confs R);
     for_up 0 reopen_nr (\<lambda>i. reopen_round R kvdir test_nr) (g, r, [], fs) }"

lemma rounded_rates:
  assumes "rounding_ok (fl R)" "0 \<le> x" "x \<le> 1"
  shows "0 \<le> fl R x \<and> fl R x \<le> 1"
proof -
  have m: "mono (fl R)" using assms(1) by (simp add: rounding_ok_def)
  from rounding_nat [OF assms(1), of 0] rounding_nat [OF assms(1), of 1] monoD [OF m assms(2)] monoD [OF m assms(3)]
  show ?thesis by simp
qed

lemma rm_get_ops: "oc_op ` set (rm_get_confs R) = {kGet, kPut, kDelete}"
  by (simp add: rm_get_confs_def confs_of_def)

lemma rm_get_env:
  assumes "rng_ok R" "rounding_ok (fl R)" "alloc_ok A 2 4 Q 4"
  shows "gen_env R A Q 4 (rm_get_confs R)"
  using assms rounded_rates [OF assms(2), of "2 / 10"] rounded_rates [OF assms(2), of "3 / 10"]
  by (simp add: gen_env_def rm_get_confs_def confs_of_def conf_ok_def)

lemma store_holds_less: "store_holds path s m n \<Longrightarrow> k \<le> n \<Longrightarrow> store_holds path s m k"
  by (auto simp: store_holds_def room_def Let_def)

definition reopen_inv :: "'r rng \<Rightarrow> string \<Rightarrow> nat \<Rightarrow> bench_gen \<times> 'r \<times> omap \<times> fsys \<Rightarrow> bool" where
  "reopen_inv R kvdir n s \<longleftrightarrow> (case s of (g, r, kv, fs) \<Rightarrow> gen_inv R (key_ok 4) (rm_get_confs R) g \<and> om_ok kv \<and>
     fst ` set kv = set (inserted_keys g) \<and> (\<exists>e. store_holds kvdir (e, fs) (map_of kv) n))"

lemma reopen_round_ok:
  assumes "rng_ok R" "rounding_ok (fl R)" "BenchGenerator R (rm_get_confs R) = Some g0" "1 \<le> total_rate R (rm_get_confs R)"
    and "reopen_inv R kvdir (n + test_nr * 24) s"
  shows "\<exists>s'. reopen_round R kvdir test_nr s = Some s' \<and> reopen_inv R kvdir n s'"
proof -
  obtain g r kv fs where s: "s = (g, r, kv, fs)" by (cases s)
  with assms(5) obtain e where inv: "gen_inv R (key_ok 4) (rm_get_confs R) g" "om_ok kv" "fst ` set kv = set (inserted_keys g)"
    "store_holds kvdir (e, fs) (map_of kv) (n + test_nr * 24)" by (auto simp: reopen_inv_def)
  from ekv.step_map [OF inv(4), of CReopen] obtain e' where
    e': "Engine_ctor kvdir fs = Some e'" "store_holds kvdir (e', fs) (map_of kv) (n + test_nr * 24)"
    by (auto simp: bind_eq_Some_conv)
  have "alloc_ok (PrintableAllocator R) 2 4 (key_ok 4) 4" by (rule printable_alloc_ok) simp_all
  note env = rm_get_env [OF assms(1,2) this]
  from rand_tests_goes_on [OF env inv(1) assms(3,4), of test_nr 0 r] obtain ts g1 r1 where
    t: "rand_tests R (PrintableAllocator R) test_nr 0 g r = Some (ts, g1, r1)" by (auto simp: rm_get_ops)
  from rand_tests_inv [OF env inv(1) t] have g1: "gen_inv R (key_ok 4) (rm_get_confs R) g1"
    and small: "\<forall>t\<in>set ts. test_small (key_ok 4) 4 t \<and> tc_op t \<in> {kPut, kDelete, kGet, kNoOp}" by (auto simp: rm_get_ops)
  from rand_tests_live [OF t] inv(1) have l: "length ts = test_nr" "set (inserted_keys g1) = live_keys ts (set (inserted_keys g))"
    by (simp_all add: gen_inv_def)
  have small': "\<forall>t\<in>set ts. test_small (key_ok 4) 4 t \<and> tc_op t \<in> {kPut, kDelete, kGet, kVisit, kNoOp}" using small by auto
  have "ranges_live ts (dom (map_of kv))" using small by (intro no_visits_live) auto
  with small_tests_pre [OF small', of "map_of kv" "n + test_nr * 24"] l(1) have
    pre: "tests_pre ts (map_of kv) (n + test_nr * 24)" by simp
  from validate_execute_ok [OF e'(2) inv(2) pre] obtain kv' s' where
    v: "validate_execute engine_iface ts (kv, e', fs) = Some (kv', s')" "om_ok kv'"
    "store_holds kvdir s' (map_of kv') (n + test_nr * 24 - tests_size ts (map_of kv))" by blast
  have "tests_size ts (map_of kv) \<le> test_nr * 24" using small_tests_size [OF small', of "map_of kv"] l(1) by simp
  then have "store_holds kvdir s' (map_of kv') n" using store_holds_less [OF v(3)] by simp
  moreover have "fst ` set kv' = set (inserted_keys g1)"
    using validate_execute_keys [of engine_iface ts kv "(e', fs)" kv' s'] v(1) l(2) inv(3) by (cases s') simp
  ultimately show ?thesis using e'(1) t v(1,2) g1
    by (cases s') (auto simp: reopen_round_def s Engine_new_instance_def EngineValidator_kv_def get_internal_kv_def reopen_inv_def)
qed

text \<open>
  C22. The test with restarts passes: on a disk with room for all rounds, every round finds an engine
  that agrees with the map of the round before, no check of the validator fails, and at the end the
  files hold the validator's map, whose keys are those of the generator.
\<close>
theorem reopen_test_passes:
  assumes "rng_ok R" "rounding_ok (fl R)" "BenchGenerator R (rm_get_confs R) = Some g0" "1 \<le> total_rate R (rm_get_confs R)"
    and "reopen_nr * test_nr * 24 \<le> space" "space < 2 ^ 31"
  shows "\<exists>g r' kv fs e. reopen_main R kvdir reopen_nr test_nr (new_fs space) r = Some (g, r', kv, fs) \<and>
    Engine_ctor kvdir fs = Some e \<and> engine_abs e fs (map_of kv) \<and> fst ` set kv = set (inserted_keys g)"
proof -
  let ?P = "\<lambda>i. reopen_inv R kvdir ((reopen_nr - i) * test_nr * 24)"
  from new_store [OF assms(6), of kvdir] obtain e where "store_holds kvdir (e, new_fs space) Map.empty space" by blast
  then have "store_holds kvdir (e, new_fs space) Map.empty (reopen_nr * test_nr * 24)" by (rule store_holds_less [OF _ assms(5)])
  then have start: "?P 0 (g0, r, [], new_fs space)"
    using generator_inv [OF assms(3), of "key_ok 4"] by (auto simp: reopen_inv_def om_ok_def)
  have "\<exists>s'. for_up 0 reopen_nr (\<lambda>i. reopen_round R kvdir test_nr) (g0, r, [], new_fs space) = Some s' \<and> ?P reopen_nr s'"
  proof (rule for_up_inv [where P = ?P])
    fix i s
    assume "i < reopen_nr" "?P i s"
    moreover from \<open>i < reopen_nr\<close> have "reopen_nr - i = Suc (reopen_nr - Suc i)" by simp
    then have "(reopen_nr - i) * test_nr * 24 = (reopen_nr - Suc i) * test_nr * 24 + test_nr * 24"
      by (simp add: distrib_right)
    ultimately show "\<exists>s'. reopen_round R kvdir test_nr s = Some s' \<and> ?P (Suc i) s'"
      using reopen_round_ok [OF assms(1-4)] by simp
  qed (use start in simp_all)
  then obtain g r' kv fs e1 where m: "reopen_main R kvdir reopen_nr test_nr (new_fs space) r = Some (g, r', kv, fs)"
    "fst ` set kv = set (inserted_keys g)" "store_holds kvdir (e1, fs) (map_of kv) 0"
    using assms(3) by (auto simp: reopen_main_def reopen_inv_def)
  from ekv.step_map [OF m(3), of CReopen] obtain e where
    "Engine_ctor kvdir fs = Some e" "store_holds kvdir (e, fs) (map_of kv) 0" by (auto simp: bind_eq_Some_conv)
  then have "Engine_ctor kvdir fs = Some e" "engine_abs e fs (map_of kv)" unfolding store_holds_def Let_def by auto
  with m show ?thesis by blast
qed

theorem reopen_test_passes_witness:
  "\<exists>g r' kv fs e. reopen_main sample_rng ''d'' 3 5 (new_fs 1000) 0 = Some (g, r', kv, fs) \<and>
    Engine_ctor ''d'' fs = Some e \<and> engine_abs e fs (map_of kv)"
proof -
  have "\<exists>g. BenchGenerator sample_rng (rm_get_confs sample_rng) = Some g" "1 \<le> total_rate sample_rng (rm_get_confs sample_rng)"
    by (simp_all add: BenchGenerator_def gen_validate_def rm_get_confs_def confs_of_def sample_rng_def total_rate_def)
  then obtain g where "BenchGenerator sample_rng (rm_get_confs sample_rng) = Some g"
    "1 \<le> total_rate sample_rng (rm_get_confs sample_rng)" by blast
  from reopen_test_passes [OF sample_rng_ok this, of 3 5 1000 "''d''" 0] show ?thesis by auto
qed

section \<open>Validators in parallel\<close>

definition visit_confs :: "'r rng \<Rightarrow> op_config list" where
  "visit_confs R = confs_of R [(kGet, 20 / 100, 2, 4, 2 / 10, 0), (kPut, 5 / 10, 2, 4, 3 / 10, 0),
     (kDelete, 20 / 100, 2, 4, 3 / 10, 0), (kVisit, 1 / 10, 0, 0, 0, 5 / 10)]"

text \<open>\<^verbatim>\<open>std::string(1, (char) ('a' + i))\<close>\<close>

definition thread_prefix :: "nat \<Rightarrow> string" where
  "thread_prefix i = [char_of (97 + i)]"

definition prefix_tests :: "'r rng \<Rightarrow> op_config list \<Rightarrow> nat \<Rightarrow> nat \<Rightarrow> 'r \<Rightarrow> (test_case list list \<times> 'r) option" where
  "prefix_tests R confs thread_nr test_nr r = do {
     bench_generators \<leftarrow> for_up 0 thread_nr (\<lambda>i gs. do { g \<leftarrow> BenchGenerator R confs; Some (gs @ [g]) }) [];
     for_up 0 thread_nr (\<lambda>i (test_cases, r). do {
       g \<leftarrow> vat bench_generators i;
       (ts, g, r) \<leftarrow> rand_tests R (PrefixAllocator R (thread_prefix i)) test_nr 0 g r;
       Some (test_cases @ [ts], r) }) ([], r) }"

text \<open>The cases of a thread; there are no threads beyond the list.\<close>

definition cases_of :: "test_case list list \<Rightarrow> nat \<Rightarrow> test_case list" where
  "cases_of tests i = (if i < length tests then tests ! i else [])"

text \<open>A key belongs to the thread whose prefix it has.\<close>

definition prefix_owner :: "string \<Rightarrow> nat option" where
  "prefix_owner k = (case k of [] \<Rightarrow> None | c # cs \<Rightarrow> Some ((of_char c + 159) mod 256))"

lemma prefix_owned: "i < 256 \<Longrightarrow> prefix_owner (thread_prefix i @ s) = Some i"
proof -
  assume i: "i < 256"
  have "((97 + i) mod 256 + 159) mod 256 = (256 + i) mod 256" by (simp add: mod_simps)
  with i show ?thesis by (simp add: prefix_owner_def thread_prefix_def)
qed

lemma prefix_nul_free: "i < 159 \<Longrightarrow> nul_free (thread_prefix i)"
proof -
  assume i: "i < 159"
  have "of_char (char_of (97 + i)) \<noteq> (0 :: nat)" using i by simp
  moreover have "of_char (CHR 0x00) = (0 :: nat)" by simp
  ultimately have "char_of (97 + i) \<noteq> CHR 0x00" by metis
  then show ?thesis by (simp add: nul_free_def thread_prefix_def)
qed

lemma prefix_between:
  assumes "thread_prefix i @ s \<le> k" "k \<le> thread_prefix i @ s'"
  shows "\<exists>s''. k = thread_prefix i @ s''"
  using assms by (cases k) (auto simp: thread_prefix_def)

text \<open>A thread's tests use its own keys.\<close>

definition prefix_key :: "nat \<Rightarrow> string \<Rightarrow> bool" where
  "prefix_key i k \<longleftrightarrow> key_ok 4 k \<and> (\<exists>s. k = thread_prefix i @ s)"

lemma prefix_env:
  assumes "rng_ok R" "rounding_ok (fl R)" "i < 159" "confs = rm_get_confs R \<or> confs = visit_confs R"
  shows "gen_env R (PrefixAllocator R (thread_prefix i)) (prefix_key i) 4 confs"
proof -
  have a: "alloc_ok (PrefixAllocator R (thread_prefix i)) 2 4 (prefix_key i) 4"
    using prefixed_alloc_ok [of "thread_prefix i" 2 4 4 R] prefix_nul_free [OF assms(3)]
    by (simp add: thread_prefix_def prefix_key_def [abs_def])
  note rounded = rounded_rates [OF assms(2), of 0] rounded_rates [OF assms(2), of "2 / 10"] rounded_rates [OF assms(2), of "3 / 10"]
  have "gen_env R (PrefixAllocator R (thread_prefix i)) (prefix_key i) 4 (visit_confs R)"
    using assms(1,2) a rounded by (simp add: gen_env_def visit_confs_def confs_of_def conf_ok_def)
  with assms(4) rm_get_env [OF assms(1,2) a] show ?thesis by blast
qed

lemma test_ops: "confs = rm_get_confs R \<or> confs = visit_confs R \<Longrightarrow> oc_op ` set confs \<subseteq> {kGet, kPut, kDelete, kVisit}"
  by (auto simp: rm_get_confs_def visit_confs_def confs_of_def)

lemma prefix_cases_own:
  assumes "rng_ok R" "rounding_ok (fl R)" "i < 159" "confs = rm_get_confs R \<or> confs = visit_confs R"
    and "BenchGenerator R confs = Some g" "rand_tests R (PrefixAllocator R (thread_prefix i)) n 0 g r = Some (ts, g', r')"
  shows "list_all (own_case prefix_owner i) ts"
proof -
  have inv: "gen_inv R (prefix_key i) confs g" "inserted_keys g = []" using generator_inv [OF assms(5)] by blast+
  from rand_tests_inv [OF prefix_env [OF assms(1-4)] inv(1) assms(6)] test_ops [OF assms(4)]
  have small: "\<forall>t\<in>set ts. test_small (prefix_key i) 4 t \<and> tc_op t \<in> {kGet, kPut, kDelete, kVisit, kNoOp}" by blast
  from rand_tests_live [OF assms(6)] inv have "ranges_live ts {}" by (simp add: gen_inv_def)
  from ranges_live_keys [OF this, of "prefix_key i"] small have
    visits: "\<forall>t\<in>set ts. tc_op t = kVisit \<longrightarrow> prefix_key i (tc_lower t) \<and> prefix_key i (tc_upper t) \<and> tc_lower t \<le> tc_upper t"
    by (simp add: test_small_def)
  have own: "prefix_owner k = Some i \<and> nul_free k \<and> k \<noteq> []" if "prefix_key i k" for k
    using that assms(3) prefix_owned [of i] by (auto simp: prefix_key_def key_ok_def)
  have between: "prefix_owner k = Some i" if "prefix_key i l" "prefix_key i u" "l \<le> k" "k \<le> u" for k l u
    using that prefix_between [of i _ k] prefix_owned [of i] assms(3) by (fastforce simp: prefix_key_def)
  show ?thesis unfolding list_all_iff
  proof
    fix t
    assume t: "t \<in> set ts"
    with small have "test_small (prefix_key i) 4 t" "tc_op t \<in> {kGet, kPut, kDelete, kVisit, kNoOp}" by blast+
    with visits t show "own_case prefix_owner i t"
      by (cases "tc_op t") (auto simp: own_case_def test_small_def own between)
  qed
qed

lemma prefix_tests_own:
  assumes "rng_ok R" "rounding_ok (fl R)" "thread_nr \<le> 159" "confs = rm_get_confs R \<or> confs = visit_confs R"
    and "prefix_tests R confs thread_nr test_nr r = Some (tests, r')"
  shows "list_all (own_case prefix_owner i) (cases_of tests i)"
proof -
  from assms(5) obtain gs where gs: "for_up 0 thread_nr (\<lambda>i gs. do { g \<leftarrow> BenchGenerator R confs; Some (gs @ [g]) }) [] = Some gs"
    and ts: "for_up 0 thread_nr (\<lambda>i (test_cases, r). do {
       g \<leftarrow> vat gs i;
       (ts, g, r) \<leftarrow> rand_tests R (PrefixAllocator R (thread_prefix i)) test_nr 0 g r;
       Some (test_cases @ [ts], r) }) ([], r) = Some (tests, r')" by (auto simp: prefix_tests_def bind_eq_Some_conv)
  have "\<forall>g\<in>set gs. BenchGenerator R confs = Some g"
    by (rule for_up_returned [OF gs, where P = "\<lambda>i gs. \<forall>g\<in>set gs. BenchGenerator R confs = Some g"])
      (auto simp: bind_eq_Some_conv)
  then have g: "BenchGenerator R confs = Some g" if "vat gs j = Some g" for g j
    using that by (auto simp: KVS_Prelude.at_def split: if_splits)
  let ?P = "\<lambda>i (tests, r :: 'a). length tests = i \<and> (\<forall>j<i. list_all (own_case prefix_owner j) (tests ! j))"
  have "?P thread_nr (tests, r')"
  proof (rule for_up_returned [OF ts, where P = ?P])
    fix j s s'
    assume j: "j < thread_nr" and p: "?P j s" and s': "(case s of (test_cases, r) \<Rightarrow> do {
       g \<leftarrow> vat gs j;
       (ts, g, r) \<leftarrow> rand_tests R (PrefixAllocator R (thread_prefix j)) test_nr 0 g r;
       Some (test_cases @ [ts], r) }) = Some s'"
    obtain old q where s: "s = (old, q)" by (cases s)
    with s' obtain g0 ts g1 q1 where t: "vat gs j = Some g0"
      "rand_tests R (PrefixAllocator R (thread_prefix j)) test_nr 0 g0 q = Some (ts, g1, q1)" "s' = (old @ [ts], q1)"
      by (auto simp: bind_eq_Some_conv)
    from j assms(3) have "j < 159" by simp
    from prefix_cases_own [OF assms(1,2) this assms(4) g [OF t(1)] t(2)] p t(3) show "?P (Suc j) s'"
      by (auto simp: s nth_append less_Suc_eq)
  qed simp_all
  then show ?thesis by (simp add: cases_of_def)
qed

text \<open>
  C19. The tests with validators in parallel pass: the threads run the generated tests, each on keys with
  its own letter in front, and check every answer against a map of their own; whatever the threads do
  between the call and the return, no check fails, and when no call is in progress, each map is the
  engine's on the keys of its thread.  (On a disk of less than 2 GiB, as long as no record is lost on a
  full disk.)
\<close>
theorem parallel_validators_pass:
  assumes "rng_ok R" "rounding_ok (fl R)" "thread_nr \<le> 159" "confs = rm_get_confs R \<or> confs = visit_confs R"
    and "prefix_tests R confs thread_nr test_nr r = Some (tests, r')"
    and "client_run validate_reply path space (cases_of tests) [] s" "space < 2 ^ 31"
  shows "\<not> cl_failed s \<and> ((\<forall>i. c_ph (cl_sys s) i = Idle) \<longrightarrow>
    (\<exists>m. engine_abs (c_eng (cl_sys s)) (c_fs (cl_sys s)) m \<and>
      (\<forall>i. map_of (cl_view s i) = m |` own_keys prefix_owner i)))"
proof -
  have ready: "\<forall>i. own_ready prefix_owner i [] (cases_of tests i)"
    using prefix_tests_own [OF assms(1-5)] by (simp add: own_ready_def)
  have sees: "\<forall>i. own_sees prefix_owner i [] Map.empty" by (simp add: own_sees_def om_ok_def)
  from owners.client_inv [OF assms(6,7) ready sees] obtain m where
    f: "\<not> cl_failed s" "conc_inv path space (cl_sys s) m" "\<forall>i. client_ok validate_reply (own_ready prefix_owner)
      (own_sees prefix_owner) i (status_of (c_ph (cl_sys s) i)) (cl_view s i) (cl_left s i) m" by blast
  have "engine_abs (c_eng (cl_sys s)) (c_fs (cl_sys s)) m \<and> map_of (cl_view s i) = m |` own_keys prefix_owner i"
    if idle: "\<forall>i. c_ph (cl_sys s) i = Idle" for i
  proof -
    have "status_of (c_ph (cl_sys s) i) = Outside" using idle by (simp add: status_of_def)
    with f(3) have "own_sees prefix_owner i (cl_view s i) m" by (metis client_ok_simps(1))
    with f(2) idle show ?thesis by (auto simp: conc_inv_def at_rest_def own_sees_def)
  qed
  with f(1) show ?thesis by blast
qed

text \<open>Two threads with one test each: a \<^verbatim>\<open>put\<close> with a key of their own.\<close>

definition mid_rng :: "nat rng" where
  "mid_rng = sample_rng\<lparr>draw_dbl := (\<lambda>lo hi r. ((lo + hi) / 2, r + 1))\<rparr>"

lemma mid_rng_ok: "rng_ok mid_rng" "rounding_ok (fl mid_rng)"
  by (simp_all add: rng_ok_def mid_rng_def sample_rng_def rounding_ok_def mono_def)

lemma mid_gen:
  "\<exists>g. BenchGenerator mid_rng (visit_confs mid_rng) = Some g \<and> inserted_keys g = [] \<and>
    (\<forall>r. \<exists>c. pick_conf mid_rng g r = Some (c, r + 1) \<and> oc_op c = kPut \<and> found_rate c = 3 / 10 \<and> key_size_limit c = 2 \<and>
      value_size_limit c = 4)"
  by (simp add: BenchGenerator_def gen_validate_def visit_confs_def confs_of_def mid_rng_def sample_rng_def Let_def
      pick_conf_def om_lower_bound_def KVS_Prelude.at_def)

lemma for_up_2: "for_up 0 2 f s = do { s \<leftarrow> f 0 s; f 1 s }"
  by (simp add: for_up_step numeral_2_eq_2)

lemma mid_tests: "\<exists>k v k' v' r'. prefix_tests mid_rng (visit_confs mid_rng) 2 1 0 =
    Some ([[(blank_test kPut)\<lparr>tc_key := k, tc_value := v\<rparr>], [(blank_test kPut)\<lparr>tc_key := k', tc_value := v'\<rparr>]], r')"
proof -
  from mid_gen obtain g where g: "BenchGenerator mid_rng (visit_confs mid_rng) = Some g" "inserted_keys g = []"
    "\<And>r. \<exists>c. pick_conf mid_rng g r = Some (c, r + 1) \<and> oc_op c = kPut \<and> found_rate c = 3 / 10 \<and> key_size_limit c = 2 \<and>
      value_size_limit c = 4" by blast
  have one: "\<exists>k v g' r'. rand_tests mid_rng (PrefixAllocator mid_rng (thread_prefix i)) 1 0 g r =
    Some ([(blank_test kPut)\<lparr>tc_key := k, tc_value := v\<rparr>], g', r')" if "i < 159" for i r
  proof -
    let ?A = "PrefixAllocator mid_rng (thread_prefix i)"
    from g(3) [of r] obtain c where c: "pick_conf mid_rng g r = Some (c, r + 1)" "oc_op c = kPut" "found_rate c = 3 / 10"
      "key_size_limit c = 2" "value_size_limit c = 4" by blast
    have "alloc_ok ?A 2 4 (\<lambda>k. key_ok 4 k \<and> (\<exists>s. k = thread_prefix i @ s)) 4"
      by (rule prefixed_alloc_ok) (simp_all add: thread_prefix_def prefix_nul_free [OF that, unfolded thread_prefix_def])
    then have a: "\<exists>k r'. alloc_key ?A 2 q = Some (k, r')" "\<exists>v r'. alloc_value ?A 4 q = Some (v, r')" for q
      unfolding alloc_ok_def by blast+
    have "probability_yes mid_rng (found_rate c) (r + 1) = Some (True, r + 2)"
      unfolding c(3) by (simp add: probability_yes_def mid_rng_def sample_rng_def to_size_def)
    moreover from a(1) obtain k r1 where k: "alloc_key ?A 2 (r + 2) = Some (k, r1)" by blast
    moreover from a(2) obtain v r2 where "alloc_value ?A 4 r1 = Some (v, r2)" by blast
    ultimately show ?thesis using c(1,2,4,5) g(2)
      by (simp add: rand_tests_def for_up_step rand_test_def fill_test_def choose_key_def blank_test_def)
  qed
  from one [of 0 0] obtain k v g1 r1 where 0: "rand_tests mid_rng (PrefixAllocator mid_rng (thread_prefix 0)) 1 0 g 0 =
    Some ([(blank_test kPut)\<lparr>tc_key := k, tc_value := v\<rparr>], g1, r1)" by auto
  from one [of 1 r1] obtain k' v' g2 r2 where "rand_tests mid_rng (PrefixAllocator mid_rng (thread_prefix 1)) 1 0 g r1 =
    Some ([(blank_test kPut)\<lparr>tc_key := k', tc_value := v'\<rparr>], g2, r2)" by auto
  with 0 g(1) show ?thesis
    by (intro exI [of _ k] exI [of _ v] exI [of _ k'] exI [of _ v'] exI [of _ r2])
      (simp add: prefix_tests_def for_up_2 KVS_Prelude.at_def)
qed

lemma mid_step: "\<exists>tests r' s. prefix_tests mid_rng (visit_confs mid_rng) 2 1 0 = Some (tests, r') \<and>
    client_step validate_reply (client_start new_engine 1000 (cases_of tests) []) s \<and>
    c_ph (cl_sys s) 0 = Called (test_call (tests ! 0 ! 0))"
proof -
  from mid_tests obtain k v k' v' r' where t: "prefix_tests mid_rng (visit_confs mid_rng) 2 1 0 =
    Some ([[(blank_test kPut)\<lparr>tc_key := k, tc_value := v\<rparr>], [(blank_test kPut)\<lparr>tc_key := k', tc_value := v'\<rparr>]], r')"
    (is "_ = Some (?ts, _)") by blast
  let ?s = "client_start new_engine 1000 (cases_of ?ts) [] :: omap clients"
  let ?c = "(blank_test kPut)\<lparr>tc_key := k, tc_value := v\<rparr>"
  have "test_call ?c \<noteq> CReopen" by (simp add: test_call_def blank_test_def)
  with cstep.call [of "cl_sys ?s" 0 "test_call ?c"] have
    c: "cstep (cl_sys ?s) (Call 0 (test_call ?c)) ((cl_sys ?s)\<lparr>c_ph := (c_ph (cl_sys ?s))(0 := Called (test_call ?c))\<rparr>)"
    by (simp add: client_start_def)
  have "client_step validate_reply ?s (?s\<lparr>cl_sys := (cl_sys ?s)\<lparr>c_ph := (c_ph (cl_sys ?s))(0 := Called (test_call ?c))\<rparr>\<rparr>)"
    by (rule begin_case [OF _ _ _ c]) (simp_all add: client_start_def cases_of_def called_ops_def blank_test_def)
  with t show ?thesis by fastforce
qed

theorem parallel_validators_pass_witness:
  "\<exists>tests r' s. prefix_tests mid_rng (visit_confs mid_rng) 2 1 0 = Some (tests, r') \<and>
    client_run validate_reply ''d'' 1000 (cases_of tests) [] s \<and>
    c_ph (cl_sys s) 0 = Called (test_call (tests ! 0 ! 0)) \<and> \<not> cl_failed s"
proof -
  from mid_step obtain tests r' s where t: "prefix_tests mid_rng (visit_confs mid_rng) 2 1 0 = Some (tests, r')"
    "client_step validate_reply (client_start new_engine 1000 (cases_of tests) []) s"
    "c_ph (cl_sys s) 0 = Called (test_call (tests ! 0 ! 0))" by blast
  have "client_run validate_reply ''d'' 1000 (cases_of tests) [] s" by (rule go_on [OF begin_run [OF new_engine_ctor] t(2)])
  with parallel_validators_pass [OF mid_rng_ok _ _ t(1) this] t show ?thesis by auto
qed

lemma prefix_tests_length:
  assumes "prefix_tests R confs thread_nr test_nr r = Some (tests, r')"
  shows "length tests = thread_nr \<and> (\<forall>ts\<in>set tests. length ts = test_nr)"
proof -
  from assms obtain gs where gs: "for_up 0 thread_nr (\<lambda>i gs. do { g \<leftarrow> BenchGenerator R confs; Some (gs @ [g]) }) [] = Some gs"
    and ts: "for_up 0 thread_nr (\<lambda>i (test_cases, r). do {
       g \<leftarrow> vat gs i;
       (ts, g, r) \<leftarrow> rand_tests R (PrefixAllocator R (thread_prefix i)) test_nr 0 g r;
       Some (test_cases @ [ts], r) }) ([], r) = Some (tests, r')" by (auto simp: prefix_tests_def bind_eq_Some_conv)
  have "set_ok (inserted_keys g)" if "BenchGenerator R confs = Some g" for g using generator_inv [OF that] by simp
  then have "\<forall>g\<in>set gs. set_ok (inserted_keys g)"
    by (intro for_up_returned [OF gs, where P = "\<lambda>i gs. \<forall>g\<in>set gs. set_ok (inserted_keys g)"])
      (auto simp: bind_eq_Some_conv)
  then have g: "set_ok (inserted_keys g)" if "vat gs j = Some g" for g j
    using that by (auto simp: KVS_Prelude.at_def split: if_splits)
  let ?P = "\<lambda>i (tests, r :: 'a). length tests = i \<and> (\<forall>ts\<in>set tests. length ts = test_nr)"
  have "?P thread_nr (tests, r')"
  proof (rule for_up_returned [OF ts, where P = ?P])
    fix j s s'
    assume p: "?P j s" and s': "(case s of (test_cases, r) \<Rightarrow> do {
       g \<leftarrow> vat gs j;
       (ts, g, r) \<leftarrow> rand_tests R (PrefixAllocator R (thread_prefix j)) test_nr 0 g r;
       Some (test_cases @ [ts], r) }) = Some s'"
    obtain old q where s: "s = (old, q)" by (cases s)
    with s' obtain g0 ts g1 q1 where t: "vat gs j = Some g0"
      "rand_tests R (PrefixAllocator R (thread_prefix j)) test_nr 0 g0 q = Some (ts, g1, q1)" "s' = (old @ [ts], q1)"
      by (auto simp: bind_eq_Some_conv)
    from rand_tests_live [OF t(2) g [OF t(1)]] p t(3) show "?P (Suc j) s'" by (simp add: s)
  qed simp_all
  then show ?thesis by simp
qed

text \<open>
  C20. They also end: a run has at most \<open>20 * test_nr + 16\<close> steps for each thread, and as long as some thread
  has a test left or is inside the engine, a step is possible, unless the disk is full or there is no log
  to visit.  (On a disk of less than 2 GiB, for the runs in which no record is lost on a full disk.)
\<close>
theorem parallel_validators_end:
  assumes "rng_ok R" "rounding_ok (fl R)" "thread_nr \<le> 159" "confs = rm_get_confs R \<or> confs = visit_confs R"
    and "prefix_tests R confs thread_nr test_nr r = Some (tests, r')"
    and "Engine_ctor path (new_fs space) = Some e" "space < 2 ^ 31"
    and "(client_step validate_reply ^^ k) (client_start e space (cases_of tests) []) s"
  shows "k \<le> 1 + thread_nr * (20 * test_nr + 16) \<and>
    ((\<forall>i. cl_left s i = [] \<and> c_ph (cl_sys s) i = Idle) \<or> (\<exists>s'. client_step validate_reply s s') \<or>
     (\<exists>m j. conc_inv path space (cl_sys s) m \<and> lacks m (c_eng (cl_sys s)) (c_fs (cl_sys s)) (c_ph (cl_sys s) j)))"
proof -
  have ready: "\<forall>i. own_ready prefix_owner i [] (cases_of tests i)"
    using prefix_tests_own [OF assms(1-5)] by (simp add: own_ready_def)
  have sees: "\<forall>i. own_sees prefix_owner i [] Map.empty" by (simp add: own_sees_def om_ok_def)
  note len = prefix_tests_length [OF assms(5)]
  then have "\<forall>i\<ge>thread_nr. cases_of tests i = []" by (simp add: cases_of_def)
  from owners.run_bounded [OF begin_run [OF assms(6)] assms(7) ready sees this assms(8)] have
    s: "client_run validate_reply path space (cases_of tests) [] s"
    "k \<le> steps_ahead thread_nr (client_start e space (cases_of tests) ([] :: omap))" by simp_all
  have "steps_ahead thread_nr (client_start e space (cases_of tests) ([] :: omap)) =
      1 + (\<Sum>i<thread_nr. 20 * length (cases_of tests i) + 16)"
    by (simp add: steps_ahead_def thread_left_def client_start_def)
  also have "\<dots> = 1 + thread_nr * (20 * test_nr + 16)" using len by (simp add: cases_of_def)
  finally show ?thesis using s(2) owners.program_goes_on [OF s(1) assms(7) ready sees] by simp
qed

theorem parallel_validators_end_witness:
  "\<exists>tests r' s. prefix_tests mid_rng (visit_confs mid_rng) 2 1 0 = Some (tests, r') \<and>
    (client_step validate_reply ^^ 1) (client_start new_engine 1000 (cases_of tests) []) s \<and>
    ((\<exists>s'. client_step validate_reply s s') \<or>
     (\<exists>m j. conc_inv ''d'' 1000 (cl_sys s) m \<and> lacks m (c_eng (cl_sys s)) (c_fs (cl_sys s)) (c_ph (cl_sys s) j)))"
proof -
  from mid_step obtain tests r' s where t: "prefix_tests mid_rng (visit_confs mid_rng) 2 1 0 = Some (tests, r')"
    "client_step validate_reply (client_start new_engine 1000 (cases_of tests) []) s"
    "c_ph (cl_sys s) 0 = Called (test_call (tests ! 0 ! 0))" by blast
  then have "(client_step validate_reply ^^ 1) (client_start new_engine 1000 (cases_of tests) []) s" by auto
  with parallel_validators_end [OF mid_rng_ok _ _ t(1) new_engine_ctor _ this] t show ?thesis by fastforce
qed

section \<open>Threads that share a few keys\<close>

text \<open>\<^verbatim>\<open>multithread_put_rm_get3.cpp\<close>: the cases of its threads, with keys and values of two small sets.\<close>

definition key_set :: "string list" where
  "key_set = [''a'', ''b'', ''c'']"

definition value_set :: "string list" where
  "value_set = [''one'', ''two'', ''three'']"

definition set_tests :: "'r rng \<Rightarrow> nat \<Rightarrow> nat \<Rightarrow> 'r \<Rightarrow> (test_case list list \<times> 'r) option" where
  "set_tests R thread_nr test_nr r = do {
     bench_generators \<leftarrow> for_up 0 thread_nr (\<lambda>i gs. do { g \<leftarrow> BenchGenerator R (rm_get_confs R); Some (gs @ [g]) }) [];
     for_up 0 thread_nr (\<lambda>i (test_cases, r). do {
       g \<leftarrow> vat bench_generators i;
       (ts, g, r) \<leftarrow> rand_tests R (SetAllocator R key_set value_set) test_nr 0 g r;
       Some (test_cases @ [ts], r) }) ([], r) }"

lemma set_values: "alloc_value (SetAllocator R key_set value_set) n r = Some (v, r') \<Longrightarrow> v \<in> set value_set"
  by (auto simp: SetAllocator_def value_set_def KVS_Prelude.at_def nth_Cons' bind_eq_Some_conv split: prod.splits if_splits)

lemma fill_test_value:
  assumes "fill_test R A c g r = Some (t, g', r')" "\<And>n q v q'. alloc_value A n q = Some (v, q') \<Longrightarrow> v \<in> V" "tc_op t = kPut"
  shows "tc_value t \<in> V"
proof (cases "oc_op c")
  case kPut
  with assms(1) obtain k r1 v r2 where "alloc_value A (value_size_limit c) r1 = Some (v, r2)" "tc_value t = v"
    by (auto simp: fill_test_def bind_eq_Some_conv)
  with assms(2) show ?thesis by blast
qed (use assms(1,3) in \<open>auto simp: fill_test_def Let_def blank_test_def bind_eq_Some_conv split: if_splits\<close>)

lemma rand_tests_values:
  assumes "rand_tests R A n 0 g r = Some (ts, g', r')" "\<And>n q v q'. alloc_value A n q = Some (v, q') \<Longrightarrow> v \<in> V"
  shows "\<forall>t\<in>set ts. tc_op t = kPut \<longrightarrow> tc_value t \<in> V"
proof -
  let ?P = "\<lambda>i (ts, g, r). \<forall>t\<in>set ts. tc_op t = kPut \<longrightarrow> tc_value t \<in> V"
  have put: "fill_test R A c g r = Some (t, g', r') \<Longrightarrow> tc_op t = kPut \<Longrightarrow> tc_value t \<in> V" for c g r t g' r'
    by (rule fill_test_value) (use assms(2) in blast)+
  have "?P n (ts, g', r')"
  proof (rule for_up_returned [OF assms(1) [unfolded rand_tests_def], where P = ?P])
    fix i s s'
    assume p: "?P i s" and s': "(case s of (ret, g, r) \<Rightarrow> do { (t, g, r) \<leftarrow> rand_test R A 0 i g r; Some (ret @ [t], g, r) }) = Some s'"
    obtain ts g1 r1 where s: "s = (ts, g1, r1)" by (cases s)
    with s' obtain c r2 t g3 r3 where t: "fill_test R A c g1 r2 = Some (t, g3, r3)" "s' = (ts @ [t], g3, r3)"
      by (auto simp: bind_eq_Some_conv rand_test_def)
    from put [OF t(1)] p s t(2) show "?P (Suc i) s'" by auto
  qed simp_all
  then show ?thesis by simp
qed

lemma set_keys:
  assumes "rng_ok R"
  shows "alloc_ok (SetAllocator R key_set value_set) 2 4 (\<lambda>k. k \<in> set key_set) 5"
proof -
  have three: "\<exists>x. vat xs (fst (draw_int R 0 (size_sub (length xs) 1) q)) = Some x \<and> x \<in> set xs"
    if "length xs = 3" for q and xs :: "string list"
  proof -
    have "fst (draw_int R 0 2 q) \<le> 2" using assms unfolding rng_ok_def by blast
    with that show ?thesis by (auto simp: KVS_Prelude.at_def size_sub_def)
  qed
  have l: "length key_set = 3" "length value_set = 3" "value_set \<noteq> []" "\<forall>v\<in>set value_set. length v \<le> 5"
    by (simp_all add: key_set_def value_set_def)
  have "\<exists>k q'. alloc_key (SetAllocator R key_set value_set) 2 q = Some (k, q') \<and> k \<in> set key_set" for q
    using three [OF l(1), of q] by (auto simp: SetAllocator_def split_beta)
  moreover have "\<exists>v q'. alloc_value (SetAllocator R key_set value_set) 4 q = Some (v, q') \<and> length v \<le> 5" for q
    using three [OF l(2), of q] l(3,4) by (auto simp: SetAllocator_def split_beta)
  ultimately show ?thesis by (simp add: alloc_ok_def)
qed

lemma set_tests_shared:
  assumes "rng_ok R" "rounding_ok (fl R)" "set_tests R thread_nr test_nr r = Some (tests, r')"
  shows "shared_ready (set key_set) (set value_set) i () (cases_of tests i)"
proof -
  let ?A = "SetAllocator R key_set value_set" and ?ok = "\<lambda>ts. shared_ready (set key_set) (set value_set) i () ts"
  from assms(3) obtain gs where gs: "for_up 0 thread_nr (\<lambda>i gs. do { g \<leftarrow> BenchGenerator R (rm_get_confs R); Some (gs @ [g]) }) [] = Some gs"
    and ts: "for_up 0 thread_nr (\<lambda>i (test_cases, r). do {
       g \<leftarrow> vat gs i;
       (ts, g, r) \<leftarrow> rand_tests R ?A test_nr 0 g r;
       Some (test_cases @ [ts], r) }) ([], r) = Some (tests, r')" by (auto simp: set_tests_def bind_eq_Some_conv)
  have "\<forall>g\<in>set gs. BenchGenerator R (rm_get_confs R) = Some g"
    by (rule for_up_returned [OF gs, where P = "\<lambda>i gs. \<forall>g\<in>set gs. BenchGenerator R (rm_get_confs R) = Some g"])
      (auto simp: bind_eq_Some_conv)
  then have g: "BenchGenerator R (rm_get_confs R) = Some g" if "vat gs j = Some g" for g j
    using that by (auto simp: KVS_Prelude.at_def split: if_splits)
  have env: "gen_env R ?A (\<lambda>k. k \<in> set key_set) 5 (rm_get_confs R)"
    using assms(1,2) set_keys [OF assms(1)] rounded_rates [OF assms(2), of "2 / 10"] rounded_rates [OF assms(2), of "3 / 10"]
    by (simp add: gen_env_def rm_get_confs_def confs_of_def conf_ok_def)
  have nf: "nul_free k" if "k \<in> set key_set" for k using that by (auto simp: key_set_def nul_free_def)
  have one: "?ok ts" if "BenchGenerator R (rm_get_confs R) = Some g" "rand_tests R ?A test_nr 0 g q = Some (ts, g', q')" for g q ts g' q'
  proof -
    have "gen_inv R (\<lambda>k. k \<in> set key_set) (rm_get_confs R) g" using generator_inv [OF that(1)] by blast
    from rand_tests_inv [OF env this that(2)] have "\<forall>t\<in>set ts. tc_op t = kPut \<longrightarrow> tc_key t \<in> set key_set"
      by (simp add: test_small_def)
    moreover have "\<forall>t\<in>set ts. tc_op t = kPut \<longrightarrow> tc_value t \<in> set value_set"
      by (rule rand_tests_values [OF that(2)]) (rule set_values)
    ultimately show ?thesis using nf by (simp add: shared_ready_def)
  qed
  let ?P = "\<lambda>i (tests, r :: 'a). \<forall>ts\<in>set tests. ?ok ts"
  have "?P thread_nr (tests, r')"
  proof (rule for_up_returned [OF ts, where P = ?P])
    fix j s s'
    assume p: "?P j s" and s': "(case s of (test_cases, r) \<Rightarrow> do {
       g \<leftarrow> vat gs j;
       (ts, g, r) \<leftarrow> rand_tests R ?A test_nr 0 g r;
       Some (test_cases @ [ts], r) }) = Some s'"
    then obtain old g0 q ts g1 q1 where t: "s = (old, q)" "vat gs j = Some g0"
      "rand_tests R ?A test_nr 0 g0 q = Some (ts, g1, q1)" "s' = (old @ [ts], q1)"
      by (cases s) (auto simp: bind_eq_Some_conv)
    from one [OF g [OF t(2)] t(3)] p t(1,4) show "?P (Suc j) s'" by auto
  qed simp_all
  then show ?thesis by (auto simp: cases_of_def) (simp add: shared_ready_def)
qed

text \<open>
  What \<^verbatim>\<open>multithread_put_rm_get3.cpp\<close> is meant to check at its end holds: the engine has only keys and values
  of the two sets.  (Its last visit has an empty upper end and so meets no other key than the empty one.)
\<close>

theorem shared_test_keys:
  assumes "rng_ok R" "rounding_ok (fl R)" "set_tests R thread_nr test_nr r = Some (tests, r')"
    and "client_run execute_reply path space (cases_of tests) () s" "space < 2 ^ 31"
  shows "\<not> cl_failed s \<and> ((\<forall>i. c_ph (cl_sys s) i = Idle) \<longrightarrow>
    (\<exists>m. engine_abs (c_eng (cl_sys s)) (c_fs (cl_sys s)) m \<and> dom m \<subseteq> set key_set \<and> ran m \<subseteq> set value_set))"
proof -
  have ready: "\<forall>i. shared_ready (set key_set) (set value_set) i () (cases_of tests i)"
    using set_tests_shared [OF assms(1-3)] by blast
  have sees: "\<forall>i. shared_sees (set key_set) (set value_set) i () Map.empty" by (simp add: shared_sees_def)
  from sharers.client_inv [OF assms(4,5) ready sees] obtain m where
    f: "\<not> cl_failed s" "conc_inv path space (cl_sys s) m" "\<forall>i. client_ok execute_reply (shared_ready (set key_set) (set value_set))
      (shared_sees (set key_set) (set value_set)) i (status_of (c_ph (cl_sys s) i)) (cl_view s i) (cl_left s i) m" by blast
  have "engine_abs (c_eng (cl_sys s)) (c_fs (cl_sys s)) m \<and> dom m \<subseteq> set key_set \<and> ran m \<subseteq> set value_set"
    if idle: "\<forall>i. c_ph (cl_sys s) i = Idle"
  proof -
    have "status_of (c_ph (cl_sys s) 0) = Outside" using idle by (simp add: status_of_def)
    with f(3) have "shared_sees (set key_set) (set value_set) 0 (cl_view s 0) m" by (metis client_ok_simps(1))
    with f(2) idle show ?thesis by (auto simp: conc_inv_def at_rest_def shared_sees_def)
  qed
  with f(1) show ?thesis by blast
qed

text \<open>
  \<^verbatim>\<open>multithread_put_get.cpp\<close>, \<^verbatim>\<open>multithread_put_rm_get.cpp\<close>, \<^verbatim>\<open>bonus_multithread_put_rm_get_visit.cpp\<close> and
  \<^verbatim>\<open>bonus_multithread_gc.cpp\<close>: one generator gives the cases of all threads, which share their keys.
\<close>

definition put_get_confs :: "'r rng \<Rightarrow> op_config list" where
  "put_get_confs R = confs_of R [(kGet, 5 / 10, 2, 4, 5 / 10, 0), (kPut, 5 / 10, 2, 4, 5 / 10, 0)]"

definition gc_confs :: "'r rng \<Rightarrow> op_config list" where
  "gc_confs R = confs_of R [(kGet, 15 / 100, 2, 4, 2 / 10, 0), (kPut, 7 / 10, 2, 4, 3 / 10, 0),
     (kDelete, 14 / 100, 2, 4, 3 / 10, 0), (kGc, 1 / 100, 0, 0, 0, 0)]"

definition shared_tests :: "'r rng \<Rightarrow> op_config list \<Rightarrow> nat \<Rightarrow> nat \<Rightarrow> 'r \<Rightarrow> (test_case list list \<times> bench_gen \<times> 'r) option" where
  "shared_tests R confs thread_nr test_nr r = do {
     g \<leftarrow> BenchGenerator R confs;
     for_up 0 thread_nr (\<lambda>i (test_cases, g, r). do {
       (ts, g, r) \<leftarrow> rand_tests R (PrintableAllocator R) test_nr 0 g r;
       Some (test_cases @ [ts], g, r) }) ([], g, r) }"

lemma shared_env:
  assumes "rng_ok R" "rounding_ok (fl R)" "confs \<in> {put_get_confs R, rm_get_confs R, visit_confs R, gc_confs R}"
  shows "gen_env R (PrintableAllocator R) (key_ok 4) 4 confs"
proof -
  have "alloc_ok (PrintableAllocator R) 2 4 (key_ok 4) 4" by (rule printable_alloc_ok) simp_all
  with assms rounded_rates [OF assms(2), of 0] rounded_rates [OF assms(2), of "2 / 10"]
    rounded_rates [OF assms(2), of "3 / 10"] rounded_rates [OF assms(2), of "5 / 10"] show ?thesis
    by (auto simp: gen_env_def put_get_confs_def rm_get_confs_def visit_confs_def gc_confs_def confs_of_def conf_ok_def)
qed

lemma shared_tests_ready:
  assumes "rng_ok R" "rounding_ok (fl R)" "confs \<in> {put_get_confs R, rm_get_confs R, visit_confs R, gc_confs R}"
    and "shared_tests R confs thread_nr test_nr r = Some (tests, g', r')"
  shows "shared_ready UNIV UNIV i () (cases_of tests i)"
proof -
  note env = shared_env [OF assms(1-3)]
  from assms(4) obtain g where g: "BenchGenerator R confs = Some g" and ts: "for_up 0 thread_nr (\<lambda>i (test_cases, g, r). do {
       (ts, g, r) \<leftarrow> rand_tests R (PrintableAllocator R) test_nr 0 g r;
       Some (test_cases @ [ts], g, r) }) ([], g, r) = Some (tests, g', r')" by (auto simp: shared_tests_def bind_eq_Some_conv)
  let ?P = "\<lambda>i (tests, g, r :: 'a). gen_inv R (key_ok 4) confs g \<and>
    (\<forall>ts\<in>set tests. \<forall>t\<in>set ts. tc_op t = kPut \<longrightarrow> nul_free (tc_key t))"
  have "?P thread_nr (tests, g', r')"
  proof (rule for_up_returned [OF ts, where P = ?P])
    fix j s s'
    assume p: "?P j s" and s': "(case s of (test_cases, g, r) \<Rightarrow> do {
       (ts, g, r) \<leftarrow> rand_tests R (PrintableAllocator R) test_nr 0 g r;
       Some (test_cases @ [ts], g, r) }) = Some s'"
    obtain old g1 q where s: "s = (old, g1, q)" by (cases s)
    with s' obtain ts g2 q2 where t: "rand_tests R (PrintableAllocator R) test_nr 0 g1 q = Some (ts, g2, q2)"
      "s' = (old @ [ts], g2, q2)" by (auto simp: bind_eq_Some_conv)
    from p s have "gen_inv R (key_ok 4) confs g1" by simp
    from rand_tests_inv [OF env this t(1)] have "gen_inv R (key_ok 4) confs g2"
      "\<forall>t\<in>set ts. tc_op t = kPut \<longrightarrow> nul_free (tc_key t)" by (simp_all add: test_small_def key_ok_def)
    with p s t(2) show "?P (Suc j) s'" by auto
  qed (use generator_inv [OF g] in auto)
  then show ?thesis by (auto simp: cases_of_def shared_ready_def)
qed

theorem shared_tests_pass:
  assumes "rng_ok R" "rounding_ok (fl R)" "confs \<in> {put_get_confs R, rm_get_confs R, visit_confs R, gc_confs R}"
    and "shared_tests R confs thread_nr test_nr r = Some (tests, g', r')"
    and "client_run execute_reply path space (cases_of tests) () s" "space < 2 ^ 31"
  shows "\<not> cl_failed s"
proof -
  have "\<forall>i. shared_ready UNIV UNIV i () (cases_of tests i)" using shared_tests_ready [OF assms(1-4)] by blast
  moreover have "\<forall>i. shared_sees UNIV UNIV i () Map.empty" by (simp add: shared_sees_def)
  ultimately show ?thesis using sharers.client_inv [OF assms(5,6)] by blast
qed

section \<open>One validator\<close>

text \<open>
  \<^verbatim>\<open>basic_put_get.cpp\<close>, \<^verbatim>\<open>basic_put_rm_get.cpp\<close>, \<^verbatim>\<open>bonus_put_rm_get_visit.cpp\<close> and \<^verbatim>\<open>bonus_gc.cpp\<close>, with
  their configurations.
\<close>

definition validate_main :: "'r rng \<Rightarrow> op_config list \<Rightarrow> string \<Rightarrow> nat \<Rightarrow> fsys \<Rightarrow> 'r \<Rightarrow> (omap \<times> store) option" where
  "validate_main R confs kvdir test_nr fs r = do {
     g \<leftarrow> BenchGenerator R confs;
     e \<leftarrow> Engine_new_instance kvdir fs;
     (ts, g, r) \<leftarrow> rand_tests R (PrintableAllocator R) test_nr 0 g r;
     validate_execute engine_iface ts (EngineValidator (e, fs)) }"

text \<open>Without collections, the tests fail only where the generation of the cases does.\<close>

theorem validate_main_passes:
  assumes "rng_ok R" "rounding_ok (fl R)" "confs \<in> {put_get_confs R, rm_get_confs R, visit_confs R}"
    and "test_nr * 24 \<le> space" "space < 2 ^ 31"
  shows "validate_main R confs kvdir test_nr (new_fs space) r = None \<longleftrightarrow>
    do { g \<leftarrow> BenchGenerator R confs; rand_tests R (PrintableAllocator R) test_nr 0 g r } = None"
proof -
  have env: "gen_env R (PrintableAllocator R) (key_ok 4) 4 confs" by (rule shared_env [OF assms(1,2)]) (use assms(3) in blast)
  from new_store [OF assms(5), of kvdir] obtain e where
    e: "Engine_ctor kvdir (new_fs space) = Some e" "store_holds kvdir (e, new_fs space) (map_of ([] :: omap)) space" by auto
  have "\<exists>x. validate_execute engine_iface ts ([], e, new_fs space) = Some x"
    if "BenchGenerator R confs = Some g" "rand_tests R (PrintableAllocator R) test_nr 0 g r = Some (ts, g', r')" for g ts g' r'
  proof -
    have "gen_inv R (key_ok 4) confs g" "inserted_keys g = []" using generator_inv [OF that(1)] by blast+
    note i = rand_tests_inv [OF env this(1) that(2)] and live = rand_tests_live [OF that(2)]
    from live \<open>inserted_keys g = []\<close> have l: "length ts = test_nr" "ranges_live ts (dom (map_of ([] :: omap)))" by simp_all
    have "oc_op ` set confs \<subseteq> {kPut, kDelete, kGet, kVisit}"
      using assms(3) by (auto simp: put_get_confs_def rm_get_confs_def visit_confs_def confs_of_def)
    with i have "\<forall>t\<in>set ts. test_small (key_ok 4) 4 t \<and> tc_op t \<in> {kPut, kDelete, kGet, kVisit, kNoOp}" by blast
    from small_tests_pre [OF this l(2)] assms(4) l(1) have "tests_pre ts (map_of ([] :: omap)) space" by simp
    from validate_execute_ok [OF e(2) _ this] show ?thesis by (auto simp: om_ok_def)
  qed
  note passes = this
  show ?thesis
  proof (cases "BenchGenerator R confs")
    case (Some g)
    show ?thesis
    proof (cases "rand_tests R (PrintableAllocator R) test_nr 0 g r")
      case (Some x)
      obtain ts g' r' where x: "x = (ts, g', r')" by (cases x)
      from passes [OF \<open>BenchGenerator R confs = Some g\<close> Some [unfolded x]] Some x e(1) \<open>BenchGenerator R confs = Some g\<close>
      show ?thesis by (auto simp: validate_main_def Engine_new_instance_def EngineValidator_def)
    qed (use Some e(1) in \<open>simp add: validate_main_def Engine_new_instance_def\<close>)
  qed (simp add: validate_main_def)
qed

section \<open>Threads on one key\<close>

text \<open>
  \<^verbatim>\<open>test_thread_conflict\<close>: the cases of a thread, on the key that is never set and so empty, with its
  values \<open>vs\<close>; and its check of an answer.  The view of a thread, whether it has written, is not in the code.
\<close>

definition KV_CNT :: nat where
  "KV_CNT = 1000"

definition THREAD_NUM :: nat where
  "THREAD_NUM = 4"

definition conflict_cases :: "'r rng \<Rightarrow> string list \<Rightarrow> nat \<Rightarrow> 'r \<Rightarrow> (test_case list \<times> 'r) option" where
  "conflict_cases R vs test_cnt r = for_up 0 test_cnt (\<lambda>i (ts, r). do {
     let (x, r) = draw_int R 0 100 r;
     t \<leftarrow> (if x \<le> 50 then Some (blank_test kGet)
       else do { v \<leftarrow> vat vs (i mod KV_CNT); Some ((blank_test kPut)\<lparr>tc_value := v\<rparr>) });
     Some (ts @ [t], r) }) ([], r)"

definition conflict_reply :: "bool \<Rightarrow> test_case \<Rightarrow> kv_result \<Rightarrow> bool option" where
  "conflict_reply written c r = (case tc_op c of
       kGet \<Rightarrow> (case r of RValue ret v \<Rightarrow> do { check (ret = kSucc); Some written } | _ \<Rightarrow> None)
     | kPut \<Rightarrow> do { check (r = RCode kSucc); Some True }
     | _ \<Rightarrow> None)"

definition conflict_ready :: "nat \<Rightarrow> bool \<Rightarrow> test_case list \<Rightarrow> bool" where
  "conflict_ready i written ts \<longleftrightarrow> list_all (\<lambda>t. tc_op t \<in> {kGet, kPut} \<and> tc_key t = []) ts \<and>
     (written \<or> ts = [] \<or> tc_op (hd ts) = kPut)"

definition conflict_sees :: "nat \<Rightarrow> bool \<Rightarrow> (string \<rightharpoonup> string) \<Rightarrow> bool" where
  "conflict_sees i written m \<longleftrightarrow> (written \<longrightarrow> m [] \<noteq> None)"

interpretation writers: client_program conflict_reply conflict_ready conflict_sees
proof unfold_locales
  show "\<exists>w. conflict_reply v c (fst (map_call (test_call c) m)) = Some w \<and> conflict_ready i w cs \<and>
      conflict_sees i w (snd (map_call (test_call c) m))"
    if "conflict_ready i v (c # cs)" "conflict_sees i v m" for i v c cs m
    using that by (auto simp: conflict_ready_def conflict_sees_def conflict_reply_def test_call_def)
  show "conflict_sees i v (snd (map_call (test_call c) m))"
    if "conflict_ready j w (c # cs)" "conflict_sees i v m" for i j v w c cs m
    using that by (auto simp: conflict_ready_def conflict_sees_def test_call_def)
qed (auto simp: conflict_ready_def nul_free_def called_ops_def)

lemma conflict_cases_ops:
  assumes "conflict_cases R vs n r = Some (ts, r')" "0 < n"
  shows "ts \<noteq> [] \<and> list_all (\<lambda>t. tc_op t \<in> {kGet, kPut} \<and> tc_key t = []) ts \<and>
    tc_op (hd ts) = (if fst (draw_int R 0 100 r) \<le> 50 then kGet else kPut)"
proof -
  let ?P = "\<lambda>i (ts, q). length ts = i \<and> list_all (\<lambda>t. tc_op t \<in> {kGet, kPut} \<and> tc_key t = []) ts \<and>
    (if i = 0 then q = r else tc_op (hd ts) = (if fst (draw_int R 0 100 r) \<le> 50 then kGet else kPut))"
  have "?P n (ts, r')"
    by (rule for_up_returned [OF assms(1) [unfolded conflict_cases_def], where P = ?P])
      (auto simp: bind_eq_Some_conv blank_test_def hd_append split: if_splits prod.splits)
  with assms(2) show ?thesis by auto
qed

text \<open>A thread that reads before anybody has written gets \<^verbatim>\<open>kNotFound\<close>.\<close>

lemma first_get_aborts:
  assumes "tests i = c # cs" "tc_op c = kGet" "tc_key c = []"
  shows "\<exists>s. client_run conflict_reply path n tests w s \<and> cl_failed s"
proof -
  let ?e = "\<lparr>log_filename = path @ ''/log'', eng_btree = BTree_ctor, log_offset = 0\<rparr>"
  let ?r = "RValue kNotFound []"
  let ?sys = "\<lambda>p hs. \<lparr>c_eng = ?e, c_fs = new_fs n, c_ph = (\<lambda>i. Idle)(i := p), c_held = (\<lambda>i. [])(i := hs)\<rparr>"
  let ?s = "\<lambda>p hs. \<lparr>cl_sys = ?sys p hs, cl_left = tests, cl_view = (\<lambda>i. w), cl_failed = False\<rparr>"
  have call: "test_call c = CGet []" using assms(2,3) by (simp add: test_call_def)
  have "Engine_ctor path (new_fs n) = Some ?e" by (simp add: Engine_ctor_def fs_access_def new_fs_def)
  from begin_run [OF this, of conflict_reply tests w, unfolded client_start_def] have run: "client_run conflict_reply path n tests w (?s Idle [])"
    by (simp add: fun_upd_idem)
  have step: "client_run conflict_reply path n tests w (?s p hs) \<Longrightarrow> cstep (?sys p hs) Tau (?sys p' hs') \<Longrightarrow>
      client_run conflict_reply path n tests w (?s p' hs')" for p hs p' hs'
    by (erule go_on) (use inside [of "?s p hs" _ conflict_reply] in simp)
  have "cstep (?sys Idle []) (Call i (test_call c)) (?sys (Called (CGet [])) [])"
    using cstep.call [of "?sys Idle []" i "CGet []"] by (simp add: call)
  with begin_case [of "?s Idle []" i c cs _ conflict_reply] assms(1,2)
  have "client_step conflict_reply (?s Idle []) (?s (Called (CGet [])) [])" by (simp add: called_ops_def)
  note s = go_on [OF run this]
  have "cstep (?sys (Called (CGet [])) []) Tau (?sys (Has1 (CGet [])) [(LMutex, Shared)])"
    using cstep.lock [of "?sys (Called (CGet [])) []" i] by (simp add: compatible_def)
  note s = step [OF s this]
  have "cstep (?sys (Has1 (CGet [])) [(LMutex, Shared)]) Tau (?sys (Has2 (CGet [])) [(LMutex2, Shared), (LMutex, Shared)])"
    using cstep.lock [of "?sys (Has1 (CGet [])) [(LMutex, Shared)]" i] by (simp add: compatible_def)
  note s = step [OF s this]
  have "BTree_search BTree_ctor [] = Some (- 1)" by code_simp
  then have "body (Has2 (CGet [])) ?e (new_fs n) = Some (Finished ?r, ?e, new_fs n)" by (simp add: body.simps)
  then have "cstep (?sys (Has2 (CGet [])) hs) Tau (?sys (Finished ?r) hs)" for hs
    using cstep.work [of "?sys (Has2 (CGet [])) hs" i] by simp
  note s = step [OF s this]
  have u: "cstep (?sys (Finished ?r) (h # hs)) Tau (?sys (Finished ?r) hs)" for h hs
    using cstep.unlock [of "?sys (Finished ?r) (h # hs)" i ?r h hs] by simp
  note s = step [OF step [OF s u] u]
  have "cstep (?sys (Finished ?r) []) (Ret i ?r) (?sys Idle [])"
    using cstep.return [of "?sys (Finished ?r) []" i ?r] by simp
  with aborted [of "?s (Finished ?r) []" i c cs ?r _ conflict_reply] assms(1,2)
  have "client_step conflict_reply (?s (Finished ?r) []) ((?s (Finished ?r) [])\<lparr>cl_sys := ?sys Idle [], cl_failed := True\<rparr>)"
    by (simp add: conflict_reply_def)
  note s = go_on [OF s this]
  show ?thesis by (intro exI conjI) (rule s, simp)
qed

text \<open>
  C40. The linearizability test depends on its first draws: it has no run in which a check fails exactly if
  the first operation of every thread is a write.
\<close>
theorem conflict_test_first_draws:
  assumes "0 < test_cnt" "space < 2 ^ 31"
    and "\<forall>i<THREAD_NUM. \<exists>r'. conflict_cases R (vs i) test_cnt (r i) = Some (tests i, r')" "\<forall>i\<ge>THREAD_NUM. tests i = []"
  shows "(\<forall>s. client_run conflict_reply path space tests False s \<longrightarrow> \<not> cl_failed s) \<longleftrightarrow>
    (\<forall>i<THREAD_NUM. 50 < fst (draw_int R 0 100 (r i)))"
proof
  assume passes: "\<forall>s. client_run conflict_reply path space tests False s \<longrightarrow> \<not> cl_failed s"
  show "\<forall>i<THREAD_NUM. 50 < fst (draw_int R 0 100 (r i))"
  proof (intro allI impI, rule ccontr)
    fix i
    assume i: "i < THREAD_NUM" "\<not> 50 < fst (draw_int R 0 100 (r i))"
    with assms(3) conflict_cases_ops [OF _ assms(1)] obtain c cs where
      "tests i = c # cs" "tc_op c = kGet" "tc_key c = []" by (cases "tests i") (force simp: not_less)+
    from first_get_aborts [of tests i c cs, OF this] passes show False by blast
  qed
next
  assume draws: "\<forall>i<THREAD_NUM. 50 < fst (draw_int R 0 100 (r i))"
  have ready: "\<forall>i. conflict_ready i False (tests i)"
  proof
    fix i
    show "conflict_ready i False (tests i)"
    proof (cases "i < THREAD_NUM")
      case True
      with assms(3) conflict_cases_ops [OF _ assms(1)] draws show ?thesis by (force simp: conflict_ready_def)
    next
      case False
      with assms(4) show ?thesis by (simp add: conflict_ready_def)
    qed
  qed
  have "\<forall>i. conflict_sees i False Map.empty" by (simp add: conflict_sees_def)
  with writers.client_inv [OF _ assms(2) ready] show "\<forall>s. client_run conflict_reply path space tests False s \<longrightarrow> \<not> cl_failed s"
    by blast
qed

text \<open>Threads that draw 0: they read, and a run of them fails; threads that draw 100 pass.\<close>

theorem conflict_test_first_draws_witness:
  "(\<exists>s. client_run conflict_reply ''d'' 1000 (cases_of (replicate 4 [blank_test kGet])) False s \<and> cl_failed s)"
proof -
  have "conflict_cases sample_rng [] 1 i = Some ([blank_test kGet], i + 1)" for i
    by (simp add: conflict_cases_def for_up_step sample_rng_def)
  then have "\<forall>i<THREAD_NUM. \<exists>r'. conflict_cases sample_rng [] 1 i = Some (cases_of (replicate 4 [blank_test kGet]) i, r')"
    by (simp add: cases_of_def THREAD_NUM_def)
  moreover have "\<forall>i\<ge>THREAD_NUM. cases_of (replicate 4 [blank_test kGet]) i = []" by (simp add: cases_of_def THREAD_NUM_def)
  moreover have "\<not> (\<forall>i<THREAD_NUM. 50 < fst (draw_int sample_rng 0 100 i))" by (auto simp: THREAD_NUM_def sample_rng_def intro!: exI [of _ 0])
  ultimately show ?thesis
    using conflict_test_first_draws [of 1 1000 sample_rng "\<lambda>i. []" "\<lambda>i. i" "cases_of (replicate 4 [blank_test kGet])" "''d''"]
    by fastforce
qed

section \<open>A process that is killed\<close>

text \<open>
  \<^verbatim>\<open>crash_put_rm_get.cpp\<close>: one round of the child, which ignores what \<^verbatim>\<open>put\<close> and \<^verbatim>\<open>sync\<close> return; the
  loop of the parent, which ends at the first key that is not found; and the parent as a whole.
\<close>

definition child_round :: "nat \<Rightarrow> engine \<times> fsys \<Rightarrow> (engine \<times> fsys) option" where
  "child_round cnt s = do {
     let (e, fs) = s;
     (r, e, fs) \<leftarrow> Engine_put (nat_string cnt) (nat_string cnt) e fs;
     (r, e, fs) \<leftarrow> (if cnt mod 10 = 0 then Engine_sync e fs else Some (r, e, fs));
     Some (e, fs) }"

partial_function (option) parent_loop :: "engine \<Rightarrow> fsys \<Rightarrow> nat \<Rightarrow> string \<Rightarrow> nat option" where
  "parent_loop e fs cnt v = do {
     (ret, v) \<leftarrow> Engine_get (nat_string cnt) v e fs;
     if ret = kSucc then do { check (nat_string cnt = v); parent_loop e fs (cnt + 1) v }
     else do { check (ret = kNotFound); Some cnt } }"

declare parent_loop.simps [code]

definition crash_parent :: "string \<Rightarrow> nat \<Rightarrow> fsys \<Rightarrow> nat option" where
  "crash_parent kvdir kill_at fs = do {
     e \<leftarrow> Engine_new_instance kvdir fs;
     cnt \<leftarrow> parent_loop e fs 0 [];
     check (kill_at < cnt);
     Some cnt }"

text \<open>The number can be read back from its decimals.\<close>

definition decimal :: "string \<Rightarrow> nat" where
  "decimal s = foldl (\<lambda>n c. 10 * n + (of_char c - 48)) 0 s"

lemma nat_string_decimal: "decimal (nat_string n) = n"
proof (induction n rule: nat_string.induct)
  case (1 n)
  then show ?case by (subst nat_string.simps) (auto simp: decimal_def)
qed

lemma nat_string_inj [simp]: "nat_string i = nat_string j \<longleftrightarrow> i = j"
  by (metis nat_string_decimal)

lemma nat_string_chars: "c \<in> set (nat_string n) \<Longrightarrow> (of_char c :: nat) \<noteq> 0"
proof (induction n rule: nat_string.induct)
  case (1 n)
  from 1(2) show ?case
    by (subst (asm) nat_string.simps) (use 1(1) in \<open>auto split: if_splits\<close>)
qed

lemma nat_string_nul_free [simp]: "nul_free (nat_string n)"
  using nat_string_chars [of "CHR 0x00" n] by (auto simp: nul_free_def)

lemma length_nat_string: "length (nat_string n) \<le> Suc n"
proof (induction n rule: nat_string.induct)
  case (1 n)
  then show ?case by (subst nat_string.simps) (cases "n < 10"; simp; linarith)
qed

text \<open>What the child has stored after \<open>j\<close> rounds, and the bytes of its log.\<close>

definition counted :: "nat \<Rightarrow> string \<rightharpoonup> string" where
  "counted j = (\<lambda>k. if \<exists>i<j. k = nat_string i then Some k else None)"

lemma counted_at: "counted j (nat_string i) = (if i < j then Some (nat_string i) else None)"
  by (auto simp: counted_def)

lemma counted_Suc: "(counted j)(nat_string j \<mapsto> nat_string j) = counted (Suc j)"
  by (rule ext) (auto simp: counted_def less_Suc_eq)

definition child_bytes :: "nat \<Rightarrow> nat" where
  "child_bytes j = (\<Sum>i<j. rec_size (nat_string i) (nat_string i))"

lemma child_round_ok:
  assumes "store_holds kvdir s (counted j) n" "rec_size (nat_string j) (nat_string j) \<le> n"
  shows "\<exists>s'. child_round j s = Some s' \<and> store_holds kvdir s' (counted (Suc j)) (n - rec_size (nat_string j) (nat_string j))"
proof -
  obtain e fs where s: "s = (e, fs)" by (cases s)
  from ekv.step_map [OF assms(1), of "CPut (nat_string j) (nat_string j)"] assms(2) obtain e1 fs1 where
    p: "Engine_put (nat_string j) (nat_string j) e fs = Some (kSucc, e1, fs1)"
    "store_holds kvdir (e1, fs1) (counted (Suc j)) (n - rec_size (nat_string j) (nat_string j))"
    by (auto simp: s bind_eq_Some_conv counted_Suc)
  then have "engine_abs e1 fs1 (counted (Suc j))" "fs_writable fs1" by (auto simp: store_holds_def room_def)
  from Engine_sync_correct [OF this] obtain fs2 where "Engine_sync e1 fs1 = Some (if fs_sync_ok fs1 then kSucc else kIOError, e1, fs2)"
    "engine_abs e1 fs2 (counted (Suc j))" "fs_free fs2 = fs_free fs1" "fs_writable fs2" "\<forall>a. content fs2 a = content fs1 a" by blast
  with p show ?thesis by (auto simp: child_round_def s store_holds_def room_def)
qed

lemma child_rounds_ok:
  assumes "child_bytes j \<le> space" "space < 2 ^ 31" "Engine_ctor kvdir (new_fs space) = Some e"
  shows "\<exists>s. for_up 0 j child_round (e, new_fs space) = Some s \<and> store_holds kvdir s (counted j) (space - child_bytes j)"
proof (rule for_up_inv [where P = "\<lambda>i s. store_holds kvdir s (counted i) (space - child_bytes i)"])
  have "counted 0 = Map.empty" by (simp add: counted_def)
  with new_store [OF assms(2), of kvdir] assms(3) show "store_holds kvdir (e, new_fs space) (counted 0) (space - child_bytes 0)"
    by (auto simp: child_bytes_def)
  fix i s
  assume i: "i < j" "store_holds kvdir s (counted i) (space - child_bytes i)"
  have "child_bytes (Suc i) \<le> child_bytes j" unfolding child_bytes_def using i(1) by (intro sum_mono2) auto
  with assms(1) have "rec_size (nat_string i) (nat_string i) \<le> space - child_bytes i" by (simp add: child_bytes_def)
  from child_round_ok [OF i(2) this] show "\<exists>s'. child_round i s = Some s' \<and>
      store_holds kvdir s' (counted (Suc i)) (space - child_bytes (Suc i))" by (simp add: child_bytes_def)
qed simp

lemma parent_loop_counts:
  assumes "engine_view e fs tail (counted j)" "i \<le> j"
  shows "parent_loop e fs i v = Some j"
  using assms(2)
proof (induction "j - i" arbitrary: i v)
  case 0
  then have "i = j" by simp
  then show ?case using Engine_get_correct [OF assms(1), of "nat_string i" v]
    by (subst parent_loop.simps) (simp add: counted_at)
next
  case (Suc d)
  then have "i < j" "d = j - (i + 1)" "i + 1 \<le> j" by simp_all
  with Suc.hyps(1) Engine_get_correct [OF assms(1), of "nat_string i" v] show ?case
    by (subst parent_loop.simps) (simp add: counted_at)
qed

text \<open>
  C21. The crash test passes wherever the child is killed: it has completed \<open>j\<close> rounds, at least the one
  that gives the signal, and has written any part of the next record; the parent then restarts the engine,
  its loop ends, and it finds the values of exactly the \<open>j\<close> rounds.
\<close>
theorem crash_test_passes:
  assumes "child_bytes j \<le> space" "space < 2 ^ 31" "Engine_new_instance kvdir (new_fs space) = Some e"
    and "kill_at < j" "n < length (put_line (nat_string j) (nat_string j))"
  shows "\<exists>e' fs. for_up 0 j child_round (e, new_fs space) = Some (e', fs) \<and>
    crash_parent kvdir kill_at (appended (log_filename e') (take n (put_line (nat_string j) (nat_string j))) fs) = Some j"
proof -
  have "Engine_ctor kvdir (new_fs space) = Some e" using assms(3) by (simp add: Engine_new_instance_def)
  from child_rounds_ok [OF assms(1,2) this] obtain e' fs where
    c: "for_up 0 j child_round (e, new_fs space) = Some (e', fs)" "store_holds kvdir (e', fs) (counted j) (space - child_bytes j)"
    by auto
  then have v: "engine_abs e' fs (counted j)" "log_filename e' = kvdir @ ''/log''" unfolding store_holds_def Let_def by auto
  have "(\<Sum>i<j. 16) \<le> child_bytes j" unfolding child_bytes_def by (intro sum_mono) (simp add: rec_size_def)
  then have "16 * j < 2 ^ 31" using assms(1,2) by simp
  with length_nat_string [of j] have "rec_ok (Put (nat_string j) (nat_string j))" by simp
  from ctor_torn [OF v this, of n] assms(5) obtain e2 where
    e2: "Engine_ctor kvdir (appended (kvdir @ ''/log'') (take n (put_line (nat_string j) (nat_string j))) fs) = Some e2"
    "engine_view e2 (appended (kvdir @ ''/log'') (take n (put_line (nat_string j) (nat_string j))) fs)
      (take n (put_line (nat_string j) (nat_string j))) (counted j)" by auto
  from parent_loop_counts [OF e2(2), of 0 "[]"] e2(1) assms(4) v(2) c(1) show ?thesis
    by (simp add: crash_parent_def Engine_new_instance_def)
qed

theorem crash_test_passes_witness:
  "\<exists>e e' fs. Engine_new_instance ''d'' (new_fs 1000) = Some e \<and> for_up 0 3 child_round (e, new_fs 1000) = Some (e', fs) \<and>
    crash_parent ''d'' 2 (appended (log_filename e') (take 17 (put_line (nat_string 3) (nat_string 3))) fs) = Some 3"
proof -
  have "child_bytes 3 \<le> 1000" "17 < length (put_line (nat_string 3) (nat_string 3))"
    by (simp_all add: child_bytes_def lessThan_Suc numeral_3_eq_3 rec_size_def length_put_line nat_string.simps)
  with crash_test_passes [of 3 1000 "''d''" new_engine 2 17] new_engine_ctor [of 1000] show ?thesis
    by (auto simp: Engine_new_instance_def)
qed

section \<open>Snapshots\<close>

text \<open>
  \<^verbatim>\<open>_bonus_snapshot.cpp\<close>.  The validator of the snapshot runs in a thread of its own beside the last
  validation; as neither is reached, they stand one after the other here.
\<close>

definition snapshot_confs :: "'r rng \<Rightarrow> op_config list" where
  "snapshot_confs R = confs_of R [(kGet, 5 / 10, 16, 4, 2 / 10, 0), (kVisit, 5 / 10, 0, 0, 0, 5 / 10)]"

definition snapshot_main :: "'r rng \<Rightarrow> string \<Rightarrow> nat \<Rightarrow> nat \<Rightarrow> fsys \<Rightarrow> 'r \<Rightarrow> (omap \<times> store) option" where
  "snapshot_main R kvdir test_nr ro_test_nr fs r = do {
     g \<leftarrow> BenchGenerator R (visit_confs R);
     e \<leftarrow> Engine_new_instance kvdir fs;
     (rw_test, g, r) \<leftarrow> rand_tests R (PrintableAllocator R) test_nr 0 g r;
     snapshot_g \<leftarrow> gen_clone R (snapshot_confs R) g;
     (ro_test, snapshot_g, r) \<leftarrow> rand_tests R (PrintableAllocator R) ro_test_nr 0 snapshot_g r;
     executor \<leftarrow> validate_execute engine_iface rw_test (EngineValidator (e, fs));
     kv \<leftarrow> snapshot_validator engine_iface executor;
     snapshot_validate kv engine_iface ro_test (snd executor);
     (rw_test, g, r) \<leftarrow> rand_tests R (PrintableAllocator R) test_nr 0 g r;
     validate_execute engine_iface rw_test executor }"

text \<open>The engine has no snapshots, so the test ends at \<^verbatim>\<open>CHECK_NOTNULL\<close>.\<close>

lemma no_snapshot_validator: "snapshot_validator engine_iface s = None"
  by (cases s) (simp add: snapshot_validator_def engine_iface_def Engine_snapshot_def)

theorem snapshot_test_aborts: "snapshot_main R kvdir test_nr ro_test_nr fs r = None"
  by (auto simp: snapshot_main_def no_snapshot_validator bind_eq_None_conv split: prod.splits)

end
