(* ===== verification/Test_Crash.thy ===== *)
theory Test_Crash
  imports Test_Programs
begin

text \<open>
  More programs of \<^verbatim>\<open>test\<close>: \<^verbatim>\<open>crash_large.cpp\<close>, whose child overwrites and removes keys with large values,
  \<^verbatim>\<open>crash_basic.cpp\<close>, whose child stops after a fixed list of calls, and \<^verbatim>\<open>basic.cpp\<close>.
\<close>

section \<open>Calls of a child\<close>

text \<open>A list of calls, each of which must return \<^verbatim>\<open>kSucc\<close>.\<close>

fun succeed_all :: "string \<Rightarrow> kv_call list \<Rightarrow> store \<Rightarrow> store option" where
  "succeed_all kvdir [] s = Some s"
| "succeed_all kvdir (c # cs) s = do {
     (r, s) \<leftarrow> engine_call kvdir c s;
     check (r = RCode kSucc);
     succeed_all kvdir cs s }"

fun calls_map :: "kv_call list \<Rightarrow> (string \<rightharpoonup> string) \<Rightarrow> (string \<rightharpoonup> string)" where
  "calls_map [] m = m"
| "calls_map (c # cs) m = calls_map cs (snd (map_call c m))"

fun calls_size :: "kv_call list \<Rightarrow> (string \<rightharpoonup> string) \<Rightarrow> nat" where
  "calls_size [] m = 0"
| "calls_size (c # cs) m = call_size c m + calls_size cs (snd (map_call c m))"

fun calls_succeed :: "kv_call list \<Rightarrow> (string \<rightharpoonup> string) \<Rightarrow> bool" where
  "calls_succeed [] m = True"
| "calls_succeed (c # cs) m = (fst (map_call c m) = RCode kSucc \<and> calls_succeed cs (snd (map_call c m)))"

lemma succeed_all_ok:
  "store_holds kvdir s m n \<Longrightarrow> calls_pre cs m n \<Longrightarrow> calls_succeed cs m \<Longrightarrow>
   \<exists>s'. succeed_all kvdir cs s = Some s' \<and> store_holds kvdir s' (calls_map cs m) (n - calls_size cs m)"
proof (induction cs arbitrary: s m n)
  case (Cons c cs)
  then have "call_pre c m n" by simp
  from ekv.step_map [OF Cons.prems(1) this] obtain s1 where s1: "engine_call kvdir c s = Some (fst (map_call c m), s1)"
    "store_holds kvdir s1 (snd (map_call c m)) (n - call_size c m)" by blast
  from Cons.IH [OF s1(2)] Cons.prems(2,3) s1(1) show ?case by auto
qed auto

lemma sync_holds:
  assumes "store_holds kvdir (e, fs) m n"
  shows "\<exists>r fs'. Engine_sync e fs = Some (r, e, fs') \<and> store_holds kvdir (e, fs') m n"
proof -
  from assms have "engine_abs e fs m" "fs_writable fs" by (auto simp: store_holds_def room_def)
  from Engine_sync_correct [OF this] obtain fs' where "Engine_sync e fs = Some (if fs_sync_ok fs then kSucc else kIOError, e, fs')"
    "engine_abs e fs' m" "fs_free fs' = fs_free fs" "fs_writable fs'" "\<forall>a. content fs' a = content fs a" by blast
  with assms show ?thesis by (auto simp: store_holds_def room_def)
qed

section \<open>\<^verbatim>\<open>crash_large.cpp\<close>\<close>

definition large_value :: string where
  "large_value = replicate (8 * 1024) (CHR ''a'')"

definition large_value2 :: string where
  "large_value2 = replicate (8 * 1024) (CHR ''b'')"

definition large_calls :: "nat \<Rightarrow> kv_call list" where
  "large_calls cnt = CPut (nat_string cnt) large_value #
     (if cnt mod 4 = 1 then [CRemove (nat_string cnt)] else []) @
     (if cnt mod 4 = 2 then [CPut (nat_string cnt) large_value2] else [])"

definition large_round :: "string \<Rightarrow> nat \<Rightarrow> store \<Rightarrow> store option" where
  "large_round kvdir cnt s = do {
     (e, fs) \<leftarrow> succeed_all kvdir (large_calls cnt) s;
     (r, e, fs) \<leftarrow> (if cnt mod 10 = 0 then Engine_sync e fs else Some (kSucc, e, fs));
     Some (e, fs) }"

text \<open>The checks of the parent on the engine it has reopened.\<close>

definition large_check :: "engine \<Rightarrow> fsys \<Rightarrow> nat \<Rightarrow> unit option" where
  "large_check e fs cnt = do {
     (ret, v) \<leftarrow> Engine_get (nat_string cnt) [] e fs;
     if cnt mod 4 = 1 then check (ret = kNotFound)
     else if cnt mod 4 = 2 then do { check (ret = kSucc); check (v = large_value2) }
     else do { check (ret = kSucc); check (v = large_value) } }"

definition large_parent :: "string \<Rightarrow> nat \<Rightarrow> fsys \<Rightarrow> unit option" where
  "large_parent kvdir kill_at fs = do {
     e \<leftarrow> Engine_new_instance kvdir fs;
     for_up 0 (kill_at + 1) (\<lambda>cnt u. large_check e fs cnt) () }"

definition large_stored :: "nat \<Rightarrow> string option" where
  "large_stored i = (if i mod 4 = 1 then None else if i mod 4 = 2 then Some large_value2 else Some large_value)"

text \<open>The bytes of a round: at most two records with a value of 8 KiB.\<close>

definition large_bytes :: "nat \<Rightarrow> nat" where
  "large_bytes j = (\<Sum>i<j. 2 * (8208 + length (nat_string i)))"

definition large_inv :: "string \<Rightarrow> nat \<Rightarrow> nat \<Rightarrow> store \<Rightarrow> bool" where
  "large_inv kvdir space j s \<longleftrightarrow> (\<exists>m. store_holds kvdir s m (space - large_bytes j) \<and>
     (\<forall>i<j. m (nat_string i) = large_stored i))"

text \<open>Any number of calls of a round.\<close>

lemma large_calls_ok:
  assumes "store_holds kvdir s m n" "2 * (8208 + length (nat_string j)) \<le> n"
  shows "\<exists>s' m'. succeed_all kvdir (take p (large_calls j)) s = Some s' \<and>
    store_holds kvdir s' m' (n - 2 * (8208 + length (nat_string j))) \<and>
    (\<forall>k. k \<noteq> nat_string j \<longrightarrow> m' k = m k) \<and> (length (large_calls j) \<le> p \<longrightarrow> m' (nat_string j) = large_stored j)"
proof -
  let ?cs = "take p (large_calls j)"
  have l: "length large_value = 8192" "length large_value2 = 8192" by (simp_all add: large_value_def large_value2_def)
  have pre: "calls_pre ?cs m n" "calls_succeed ?cs m" "calls_size ?cs m \<le> 2 * (8208 + length (nat_string j))"
    using assms(2) l by (auto simp: large_calls_def take_Cons' rec_size_def)
  have "\<forall>k. k \<noteq> nat_string j \<longrightarrow> calls_map ?cs m k = m k" by (simp add: large_calls_def take_Cons')
  moreover have "calls_map ?cs m (nat_string j) = large_stored j" if "length (large_calls j) \<le> p"
    using that by (auto simp: large_calls_def large_stored_def)
  moreover from succeed_all_ok [OF assms(1) pre(1,2)] obtain s' where "succeed_all kvdir ?cs s = Some s'"
    "store_holds kvdir s' (calls_map ?cs m) (n - calls_size ?cs m)" by blast
  ultimately show ?thesis using store_holds_less [of kvdir s' "calls_map ?cs m" "n - calls_size ?cs m"] pre(3)
    by (intro exI [of _ s'] exI [of _ "calls_map ?cs m"]) simp
qed

lemma large_round_ok:
  assumes "large_inv kvdir space j s" "large_bytes (Suc j) \<le> space"
  shows "\<exists>s'. large_round kvdir j s = Some s' \<and> large_inv kvdir space (Suc j) s'"
proof -
  from assms(1) obtain m where m: "store_holds kvdir s m (space - large_bytes j)" "\<forall>i<j. m (nat_string i) = large_stored i"
    unfolding large_inv_def by blast
  have b: "large_bytes (Suc j) = large_bytes j + 2 * (8208 + length (nat_string j))" by (simp add: large_bytes_def)
  with assms(2) have "2 * (8208 + length (nat_string j)) \<le> space - large_bytes j" by simp
  from large_calls_ok [OF m(1) this, of "length (large_calls j)"] obtain e fs m' where
    s1: "succeed_all kvdir (large_calls j) s = Some (e, fs)" "store_holds kvdir (e, fs) m' (space - large_bytes (Suc j))"
    "\<forall>k. k \<noteq> nat_string j \<longrightarrow> m' k = m k" "m' (nat_string j) = large_stored j" by (auto simp: b)
  from sync_holds [OF s1(2)] obtain r fs' where "Engine_sync e fs = Some (r, e, fs')"
    "store_holds kvdir (e, fs') m' (space - large_bytes (Suc j))" by blast
  moreover have "\<forall>i<Suc j. m' (nat_string i) = large_stored i" using s1(3,4) m(2) by (auto simp: less_Suc_eq)
  ultimately show ?thesis using s1(1,2) by (auto simp: large_round_def large_inv_def)
qed

lemma large_rounds_ok:
  assumes "large_bytes j \<le> space" "space < 2 ^ 31" "Engine_ctor kvdir (new_fs space) = Some e"
  shows "\<exists>s. for_up 0 j (large_round kvdir) (e, new_fs space) = Some s \<and> large_inv kvdir space j s"
proof (rule for_up_inv [where P = "\<lambda>i s. large_inv kvdir space i s"])
  from new_store [OF assms(2), of kvdir] assms(3) show "large_inv kvdir space 0 (e, new_fs space)"
    by (auto simp: large_inv_def large_bytes_def)
  fix i s
  assume i: "i < j" "large_inv kvdir space i s"
  have "large_bytes (Suc i) \<le> large_bytes j" unfolding large_bytes_def using i(1) by (intro sum_mono2) auto
  with assms(1) large_round_ok [OF i(2)] show "\<exists>s'. large_round kvdir i s = Some s' \<and> large_inv kvdir space (Suc i) s'" by simp
qed simp

lemma large_check_ok:
  assumes "engine_view e fs tail m" "m (nat_string i) = large_stored i"
  shows "large_check e fs i = Some ()"
  using Engine_get_correct [OF assms(1), of "nat_string i" "[]"] assms(2) by (auto simp: large_check_def large_stored_def)

text \<open>
  The test passes wherever the child is killed: \<open>j\<close> rounds are complete, at least the one that gives the
  signal, \<open>p\<close> calls of the next, and any part of any further record is written.
\<close>

theorem crash_large_passes:
  assumes "large_bytes (Suc j) \<le> space" "space < 2 ^ 31" "Engine_new_instance kvdir (new_fs space) = Some e"
    and "kill_at < j" "rec_ok r" "n < length (enc r)"
  shows "\<exists>s e' fs. for_up 0 j (large_round kvdir) (e, new_fs space) = Some s \<and>
    succeed_all kvdir (take p (large_calls j)) s = Some (e', fs) \<and>
    large_parent kvdir kill_at (appended (log_filename e') (take n (enc r)) fs) = Some ()"
proof -
  have b: "large_bytes (Suc j) = large_bytes j + 2 * (8208 + length (nat_string j))" by (simp add: large_bytes_def)
  with assms(1) have "large_bytes j \<le> space" by simp
  moreover have "Engine_ctor kvdir (new_fs space) = Some e" using assms(3) by (simp add: Engine_new_instance_def)
  ultimately obtain s m where s: "for_up 0 j (large_round kvdir) (e, new_fs space) = Some s"
    "store_holds kvdir s m (space - large_bytes j)" "\<forall>i<j. m (nat_string i) = large_stored i"
    using large_rounds_ok [OF _ assms(2)] unfolding large_inv_def by blast
  have "2 * (8208 + length (nat_string j)) \<le> space - large_bytes j" using assms(1) b by simp
  from large_calls_ok [OF s(2) this, of p] obtain e' fs m' where
    c: "succeed_all kvdir (take p (large_calls j)) s = Some (e', fs)" "store_holds kvdir (e', fs) m' (space - large_bytes (Suc j))"
    "\<forall>k. k \<noteq> nat_string j \<longrightarrow> m' k = m k" by (auto simp: b)
  then have v: "engine_abs e' fs m'" "log_filename e' = kvdir @ ''/log''" unfolding store_holds_def Let_def by auto
  let ?fs = "appended (kvdir @ ''/log'') (take n (enc r)) fs"
  from ctor_torn [OF v assms(5,6)] obtain e2 where
    e2: "Engine_ctor kvdir ?fs = Some e2" "engine_view e2 ?fs (take n (enc r)) m'" by blast
  have "large_check e2 ?fs i = Some ()" if "i < kill_at + 1" for i
    using that assms(4) c(3) s(3) by (intro large_check_ok [OF e2(2)]) auto
  then have "for_up 0 (kill_at + 1) (\<lambda>cnt u. large_check e2 ?fs cnt) () = Some ()"
    using for_up_inv [of 0 "kill_at + 1" "\<lambda>i u. True" "\<lambda>cnt u. large_check e2 ?fs cnt" "()"] by auto
  with e2(1) v(2) c(1) s(1) show ?thesis by (auto simp: large_parent_def Engine_new_instance_def)
qed

section \<open>\<^verbatim>\<open>crash_basic.cpp\<close>\<close>

definition basic_calls :: "kv_call list" where
  "basic_calls = [CPut ''a'' ''abc'', CPut ''b'' ''kkk'', CPut ''c'' ''ooo'', CPut ''d'' ''jjjsdfsdf'',
     CPut ''e'' ''asdfsdgs'', CPut ''a'' ''def'', CRemove ''b'', CRemove ''c'']"

text \<open>A \<^verbatim>\<open>get\<close> with its expected value, or with \<^verbatim>\<open>kNotFound\<close>; the string for the value goes on.\<close>

definition expect_get :: "engine \<Rightarrow> fsys \<Rightarrow> string \<Rightarrow> string option \<Rightarrow> string \<Rightarrow> string option" where
  "expect_get e fs k x v = do {
     (ret, v) \<leftarrow> Engine_get k v e fs;
     (case x of Some y \<Rightarrow> do { check (ret = kSucc); check (y = v) } | None \<Rightarrow> check (ret = kNotFound));
     Some v }"

definition basic_parent :: "string \<Rightarrow> fsys \<Rightarrow> unit option" where
  "basic_parent kvdir fs = do {
     e \<leftarrow> Engine_new_instance kvdir fs;
     v \<leftarrow> expect_get e fs ''a'' (Some ''def'') [];
     v \<leftarrow> expect_get e fs ''b'' None v;
     v \<leftarrow> expect_get e fs ''c'' None v;
     v \<leftarrow> expect_get e fs ''d'' (Some ''jjjsdfsdf'') v;
     v \<leftarrow> expect_get e fs ''e'' (Some ''asdfsdgs'') v;
     v \<leftarrow> expect_get e fs ''f'' None v;
     v \<leftarrow> expect_get e fs ''g'' None v;
     Some () }"

lemma expect_get_ok:
  assumes "engine_view e fs tail m" "m k = x"
  shows "\<exists>v'. expect_get e fs k x v = Some v'"
  using Engine_get_correct [OF assms(1), of k v] assms(2) by (cases x) (auto simp: expect_get_def)

theorem crash_basic_passes:
  assumes "200 \<le> space" "space < 2 ^ 31" "Engine_new_instance kvdir (new_fs space) = Some e"
  shows "\<exists>e' fs. succeed_all kvdir basic_calls (e, new_fs space) = Some (e', fs) \<and> basic_parent kvdir fs = Some ()"
proof -
  from new_store [OF assms(2), of kvdir] assms(3) have h: "store_holds kvdir (e, new_fs space) Map.empty space"
    by (auto simp: Engine_new_instance_def)
  have nf: "nul_free ''a''" "nul_free ''b''" "nul_free ''c''" "nul_free ''d''" "nul_free ''e''" by (simp_all add: nul_free_def)
  have "calls_pre basic_calls Map.empty space" "calls_succeed basic_calls Map.empty"
    using assms(1) nf by (auto simp: basic_calls_def rec_size_def)
  from succeed_all_ok [OF h this] obtain e' fs where
    s: "succeed_all kvdir basic_calls (e, new_fs space) = Some (e', fs)"
    "store_holds kvdir (e', fs) (calls_map basic_calls Map.empty) (space - calls_size basic_calls Map.empty)" by auto
  let ?m = "calls_map basic_calls Map.empty"
  from ekv.step_map [OF s(2), of CReopen] obtain e2 where
    e2: "Engine_ctor kvdir fs = Some e2" "engine_abs e2 fs ?m"
    by (auto simp: bind_eq_Some_conv store_holds_def Let_def)
  note get = expect_get_ok [OF e2(2)]
  have m: "?m ''a'' = Some ''def''" "?m ''b'' = None" "?m ''c'' = None" "?m ''d'' = Some ''jjjsdfsdf''"
    "?m ''e'' = Some ''asdfsdgs''" "?m ''f'' = None" "?m ''g'' = None" by (simp_all add: basic_calls_def)
  have "basic_parent kvdir fs = Some ()"
    using e2(1) get [OF m(1), of "[]"] get [OF m(2)] get [OF m(3)] get [OF m(4)] get [OF m(5)] get [OF m(6)] get [OF m(7)]
    by (fastforce simp: basic_parent_def Engine_new_instance_def bind_eq_Some_conv)
  with s(1) show ?thesis by blast
qed

section \<open>\<^verbatim>\<open>basic.cpp\<close>\<close>

definition basic_main :: "string \<Rightarrow> fsys \<Rightarrow> (engine \<times> fsys) option" where
  "basic_main kvdir fs = do {
     e \<leftarrow> Engine_new_instance kvdir fs;
     (r, e, fs) \<leftarrow> Engine_put ''a'' ''abc'' e fs;
     check (r = kSucc);
     (r, val) \<leftarrow> Engine_get ''a'' [] e fs;
     check (r = kSucc);
     check (''abc'' = val);
     (r, e, fs) \<leftarrow> Engine_remove ''a'' e fs;
     check (r = kSucc);
     let backup_value = val;
     (r, val) \<leftarrow> Engine_get ''a'' val e fs;
     check (r = kNotFound);
     check (val = backup_value);
     Some (e, fs) }"

theorem basic_passes:
  assumes "100 \<le> space" "space < 2 ^ 31"
  shows "\<exists>e fs. basic_main kvdir (new_fs space) = Some (e, fs) \<and> engine_abs e fs Map.empty"
proof -
  from new_store [OF assms(2), of kvdir] obtain e where
    e: "Engine_ctor kvdir (new_fs space) = Some e" "store_holds kvdir (e, new_fs space) Map.empty space" by blast
  have "call_pre (CPut ''a'' ''abc'') Map.empty space" using assms(1) by (simp add: nul_free_def rec_size_def)
  from ekv.step_map [OF e(2) this] obtain e1 fs1 where
    p: "Engine_put ''a'' ''abc'' e (new_fs space) = Some (kSucc, e1, fs1)"
    "store_holds kvdir (e1, fs1) [''a'' \<mapsto> ''abc''] (space - 20)" by (auto simp: bind_eq_Some_conv rec_size_def)
  then have v1: "engine_abs e1 fs1 [''a'' \<mapsto> ''abc'']" unfolding store_holds_def Let_def by simp
  have "call_pre (CRemove ''a'') [''a'' \<mapsto> ''abc''] (space - 20)" using assms(1) by (simp add: rec_size_def)
  from ekv.step_map [OF p(2) this] obtain e2 fs2 where
    r: "Engine_remove ''a'' e1 fs1 = Some (kSucc, e2, fs2)" "store_holds kvdir (e2, fs2) Map.empty (space - 37)"
    by (auto simp: bind_eq_Some_conv rec_size_def)
  then have v2: "engine_abs e2 fs2 Map.empty" unfolding store_holds_def Let_def by simp
  from e(1) p(1) r(1) Engine_get_correct [OF v1] Engine_get_correct [OF v2] v2 show ?thesis
    by (simp add: basic_main_def Engine_new_instance_def)
qed

end
