(* ===== verification/Spec2Isabelle.thy ===== *)
theory Spec2Isabelle
  imports BTree_Props Engine_Crash Engine_Live Bench_Threads Persist_Test Unit_Tests Test_Crash
begin

text \<open>
  A verification library for a key-value store: an append-only log on disk, a B+ tree in memory
  that maps each key to the offset of its last record, recovery of the tree from the log,
  garbage collection, and the code around it (an in-memory mock of the file system, a thin POSIX
  wrapper, executors that validate an engine against a \<^verbatim>\<open>std::map\<close>, generators of workloads, a
  benchmark of several threads, the test programs of \<^verbatim>\<open>unittest\<close> and those of \<^verbatim>\<open>test\<close>).

  \<^bold>\<open>How the program is modelled.\<close>  Every function of the source is one definition with the source's
  name.  State is passed explicitly: the tree is a heap \<open>ptr \<rightharpoonup> bnode\<close> of nodes with the source's
  fields (\<^verbatim>\<open>key\<close>, \<^verbatim>\<open>data\<close>, \<^verbatim>\<open>child\<close>, \<^verbatim>\<open>parent\<close>, \<^verbatim>\<open>prev\<close>, \<^verbatim>\<open>next\<close>), the files are a map from names to
  contents.  \<open>None\<close> is everything that does not return normally: \<^verbatim>\<open>LOG(FATAL)\<close>, a failed
  \<^verbatim>\<open>CHECK\<close>, an access outside a vector, a null or dangling pointer, a loop that does not end.
  \<^verbatim>\<open>size_t\<close> offsets are \<^typ>\<open>64 word\<close>, \<^verbatim>\<open>int\<close> ones \<^typ>\<open>32 word\<close>, with the conversions written
  out; sizes of containers are natural numbers.  Strings are lists of bytes, ordered as
  \<^verbatim>\<open>std::string\<close> compares them.

  \<^bold>\<open>The theories.\<close>
  \<^item> KVS_Prelude: vectors with checked access, \<^verbatim>\<open>std::upper_bound\<close>, C strings, counted loops, and
    the simplification rules that execute the option monad symbolically.
  \<^item> BTree_Code: \<^verbatim>\<open>include/btree.h\<close> and \<^verbatim>\<open>src/btree.cpp\<close>, statement by statement.
  \<^item> BPlus_Tree, BPlus_Map: the abstract B+ tree, its invariant, paths into it (zippers), and the
    map it stands for.  BTree_Rep, BTree_Heap, BTree_Nodes: the relation between the tree and the
    heap, and the updates of a heap that represents a tree.  BTree_Search, BTree_Siblings,
    BTree_Insert, BTree_Underflow, BTree_Delete: each rotation, split and merge preserves it.
    BTree_Index: the index as an interface (locale \<^verbatim>\<open>map_index\<close>, interpreted on the code's
    operations) and the destructor.  BTree_Props: the properties of the index.  BTree_Chain: the
    leaf chain as the engine walks it.  BTree_Show: what \<^verbatim>\<open>show_tree\<close> prints, against the levels of
    the tree.
  \<^item> Stdio: the stdio and POSIX calls the engine makes, as their documentation describes them.  A
    stream for appending has a buffer of a block, which a long \<^verbatim>\<open>fwrite\<close> bypasses and \<^verbatim>\<open>fclose\<close> writes; a
    disk has a number of free bytes, and what does not fit is lost, which only the results of \<^verbatim>\<open>fwrite\<close> and
    \<^verbatim>\<open>fclose\<close> tell.  \<^verbatim>\<open>fsync\<close> brings the contents of a file to the disk or fails; it does nothing for the
    directory.  A loss of power (\<open>power_loss\<close>, a relation) keeps of every file at least what was synced, and
    promises nothing about names created, renamed or removed since the directory was written.
  \<^item> Log_Format: the record format and \<^verbatim>\<open>log_line\<close>, \<^verbatim>\<open>read_line\<close>, \<^verbatim>\<open>read_key_value\<close>, \<^verbatim>\<open>read_num\<close>
    of \<^verbatim>\<open>src/engine.cpp\<close>.  Engine_Code: all other functions of that file.
  \<^item> Engine_Log: what a log means (the replay of its records) and the invariant of the engine.
    Engine_Correct: point operations, recovery and \<^verbatim>\<open>sync\<close>.  Engine_Walk: \<^verbatim>\<open>visit\<close> and \<^verbatim>\<open>_gc\<close>.
    Engine_Store: the store as an interface (locale \<^verbatim>\<open>kv_store\<close>) with the engine as its instance.
    Engine_Props: the properties of the engine.  Engine_Crash: crashes during a collection.
  \<^item> Engine_Locks: the three mutexes of \<^verbatim>\<open>engine.h\<close>, the variables each operation accesses under them,
    and a step relation of any number of threads.
  \<^item> Engine_Conc: the operations cut into steps between which other threads may run, with the state
    of the engine; an object that runs each call at one moment, and the invariant that relates the
    two.  Engine_Live: which steps return, and progress.
  \<^item> Mock_Storage: \<^verbatim>\<open>include/mock_persister.h\<close>.  Real_Storage: \<^verbatim>\<open>include/persister.h\<close>, with the system
    calls as parameters.  File_Contract: an open file as an interface (locale \<^verbatim>\<open>byte_file\<close>), kept by
    the handles of both.  Persist_Test: the program \<^verbatim>\<open>unittest/mock_persist.cpp\<close> that compares them.
  \<^item> Executor: \<^verbatim>\<open>include/util/executor.h\<close> over the engine interface of \<^verbatim>\<open>interfaces.h\<close>.
  \<^item> Rand_Alloc: the random numbers of \<^verbatim>\<open>include/util/utils.h\<close> and the allocators of
    \<^verbatim>\<open>include/util/rand_alloc.h\<close>.  Zipf: \<^verbatim>\<open>include/util/zipf.h\<close> and its allocator, the sources of numbers
    as an interface (locale \<^verbatim>\<open>number_source\<close>).  Bench_Gen: \<^verbatim>\<open>include/util/bench.h\<close>.  Bench and
    Bench_Threads: \<^verbatim>\<open>bench/bench.cpp\<close>, its workload and its threads.  Unit_Tests: the programs
    \<^verbatim>\<open>rand\<close>, \<^verbatim>\<open>rand_key\<close>, \<^verbatim>\<open>zip_allocator\<close> and \<^verbatim>\<open>bench_gen\<close> of \<^verbatim>\<open>unittest\<close> and the stream operators
    of \<^verbatim>\<open>bench.h\<close>.
  \<^item> Clients: threads that run test cases on one engine, their calls being those of Engine_Conc, and what
    they may rely on as an interface (locale \<^verbatim>\<open>client_contract\<close>, interpreted on validators of disjoint keys,
    on executors that share keys and on the threads of the linearizability test).  Clients_Live: such
    programs go on and end (locale \<^verbatim>\<open>client_program\<close>).  Test_Programs and Test_Crash: the programs of
    \<^verbatim>\<open>test\<close>.

  \<^bold>\<open>What the lemmas show.\<close>  The index: every call on a reachable tree returns, makes no invalid
  access, keeps the tree balanced, linked and sorted, and acts on the represented map as a map
  update; sequences of calls refine a map.  The engine: every sequence of calls and restarts
  refines a map of strings, as long as the disk has room and no walk begins without a log; a record cut
  off by a crash is ignored by the next start; what was synced survives a loss of power exactly if the
  directory entry of the log was on the disk; garbage collection keeps the map unless a new log was
  left by an earlier one, and what is left of it by a crash at every point.  Threads: no data race, and linearizability and progress of put, remove,
  get, visit and garbage collection under every interleaving.  The mock: memory safety of every
  handle, crashes that restore what was synced, and the same results as a file of the system.  The
  validator accepts the engine, also on what the workload generator generates.  The generators stay
  in their ranges and return; the threads of the benchmark divide the work and end.  The test
  programs of the generators measure what they mean to measure and fail only where a rate is off.
  The test programs of the engine pass and end: validators in parallel on disjoint keys under every interleaving,
  restarts between rounds, and a kill at any point; the linearizability test exactly if its threads begin
  with writes.
  The properties also delimit the code where it falls short: keys with NUL bytes, offsets from 2 GB on,
  a full disk, a log left torn, a second log left by a crash, a missing log, a directory that is not
  synced, the range of \<^verbatim>\<open>visit\<close>, an empty upper end in the validator, a negative position in a file of
  the mock, flags of the benchmark that \<^verbatim>\<open>main\<close> does not check.

  \<^bold>\<open>Bounds and fuel.\<close>  There is no fuel: loops that end by construction are recursive functions
  with a measure, and loops that may not end (\<^verbatim>\<open>log_line\<close> of a long record on a full disk, walks along pointers)
  are partial functions into \<open>option\<close>, for which the lemmas prove that they return.  The theorems
  on the engine assume keys without NUL bytes and a log below \<open>2 ^ 31\<close> bytes, which is where the code's
  \<^verbatim>\<open>int\<close> offsets end.  The theorems on the index alone assume NUL-free keys where something is inserted, and
  a datum that is not -1 as an \<^verbatim>\<open>int\<close>, the value that stands for a missing key.

  \<^bold>\<open>Concurrency.\<close>  A step of Engine_Conc is what a thread does between two points at which its
  locks let others run: taking or releasing a lock, and, within an operation, the changes of the log
  and of the index one after the other, so that readers could meet every state between them if the
  locks let them.  Its runs are those in which no write fails for lack of room (\<open>fs_lost\<close> stays false); what
  a full disk does to an operation is a property of the sequential model.  \<^verbatim>\<open>sync\<close> is in the sequential model and in the lock model only.  In Bench_Threads an
  operation of the engine is one step, as linearizability allows.

  \<^bold>\<open>Floating point.\<close>  A \<^verbatim>\<open>double\<close> is a real number, rounded after each operation by a parameter; the
  theorems assume of it that it is monotone and exact where IEEE arithmetic is.  Infinities and
  not-a-numbers are \<open>None\<close>.  The generators of the C++ library, \<^verbatim>\<open>rand\<close> and \<^verbatim>\<open>rand_r\<close> are parameters.

  \<^bold>\<open>Not modelled.\<close>  A stream reaches the kernel in \<^verbatim>\<open>fclose\<close> or, from a block on, in \<^verbatim>\<open>fwrite\<close>; a crash
  between these moments is covered by cutting a record at any byte.  The results of \<^verbatim>\<open>remove\<close> and \<^verbatim>\<open>rename\<close>,
  which the engine does not look at, are those of a directory that may be written.  Log messages, timing, the stream operator of
  \<^verbatim>\<open>OpConfig\<close>, which prints \<^verbatim>\<open>double\<close>s, and the option structure, which the engine ignores, are left
  out, and so are the second copies \<^verbatim>\<open>unittest_*.cpp\<close> of the unit tests, which are the same files byte
  for byte.  The programs of \<^verbatim>\<open>test\<close> are without their signals and the trace file.  A thread of Clients whose operation does not return (a full disk, a missing log)
  takes no further step; Engine_Live says when that is.  Of the numbers of a
  skewed generator (between 0 and 1) nothing is shown but what becomes of its state: how good its
  approximation of powers is, is a matter of numerics; so is whether the random numbers of the
  statistical tests are good enough for their last checks.
\<close>

end
